(* ===== verification/Hammertime_Prelude.thy ===== *)
theory Hammertime_Prelude
  imports Main "HOL-Library.Log_Nat"
begin

text \<open>
  Shared vocabulary of the development: the exceptions the Python code raises, results and
  stateful actions that may raise, Python list indexing, Python integer helpers, and the generic
  lemmas on them that the component theories use through the simplifier.

  \<^item> A Python expression that may raise is a value of \<open>'a result\<close> (\<open>Inl\<close> the exception).
  \<^item> A Python method that mutates an object and may raise is an \<open>('s, 'a) action\<close>: it maps the
    object's state to the result and to the state the object is left in, also when it raises.
  \<^item> A loop of the code that need not end is a \<^theory_text>\<open>partial_function (option)\<close>;
    \<open>None\<close> then means that the loop does not return.

  Exception messages are diagnostics and are not modelled; the exception class is.
\<close>

unbundle bit_operations_syntax

named_theorems py_simps \<open>evaluation of Python indexing and results when they succeed\<close>
named_theorems bit_simps \<open>facts on the leading bits of addresses\<close>

section \<open>Exceptions and results\<close>

text \<open>The domain errors of \<open>hammertime.core.errors\<close>, the built-in exceptions the modelled code raises
  (\<open>OSError\<close> also stands for any failure of the network or the disk below a store or the log), and the
  services' own exceptions.\<close>

datatype py_error =
    InvalidAddressError
  | InvalidPrefixError
  | InvalidAttributesError
  | ConfigurationError
  | LateEventError
  | InvariantViolation
  | CodecError
  | ValueError
  | TypeError
  | KeyError
  | IndexError
  | RuntimeError
  | AssertionError
  | ZeroDivisionError
  | OverflowError
  | OSError
  | ShardOwnedElsewhereError
  | ShardHeldBySameMemberError
  | ShardLeaseLostError
  | PrefixStatsPublishError
  | RateLimitExceeded
  | RequestCountOverflowError
  | SchemaValidationError
  | UnalignedWindowError
  | BodyTooLargeError
  | TooManyObservationsError
  | MissingCredentialError
  | OversizedCredentialError
  | UnknownAgentError
  | InvalidCredentialError
  | AgentDisabledError

type_synonym 'a result = "py_error + 'a"

text \<open>A Python \<open>str\<close> whose characters matter: its list of code points.\<close>

type_synonym pystr = "int list"

definition bindE :: "'a result \<Rightarrow> ('a \<Rightarrow> 'b result) \<Rightarrow> 'b result" where
  "bindE m f = (case m of Inl e \<Rightarrow> Inl e | Inr x \<Rightarrow> f x)"

lemma bindE_simps [simp, py_simps]:
  "bindE (Inl e) f = Inl e"
  "bindE (Inr x) f = f x"
  by (simp_all add: bindE_def)

lemma bindE_eq_Inr: "bindE m f = Inr y \<longleftrightarrow> (\<exists>x. m = Inr x \<and> f x = Inr y)"
  by (cases m) simp_all

text \<open>A check that raises or passes, as the guards at the top of the Python methods do.\<close>

definition guardE :: "bool \<Rightarrow> py_error \<Rightarrow> unit result" where
  "guardE ok e = (if ok then Inr () else Inl e)"

lemma guardE_simps [simp, py_simps]:
  "guardE True e = Inr ()"
  "guardE False e = Inl e"
  by (simp_all add: guardE_def)

lemma guardE_eq_Inr [simp]: "guardE ok e = Inr u \<longleftrightarrow> ok"
  by (simp add: guardE_def)

text \<open>Sequencing of steps that may raise and may not return (\<open>None\<close>).\<close>

definition bindO :: "'a result option \<Rightarrow> ('a \<Rightarrow> 'b result option) \<Rightarrow> 'b result option" where
  "bindO m f = (case m of None \<Rightarrow> None | Some (Inl e) \<Rightarrow> Some (Inl e) | Some (Inr x) \<Rightarrow> f x)"

lemma bindO_simps [simp, py_simps]:
  "bindO None f = None"
  "bindO (Some (Inl e)) f = Some (Inl e)"
  "bindO (Some (Inr x)) f = f x"
  by (simp_all add: bindO_def)

text \<open>The left-to-right evaluation of a comprehension whose body may raise.\<close>

fun mapE :: "('a \<Rightarrow> 'b result) \<Rightarrow> 'a list \<Rightarrow> 'b list result" where
  "mapE f [] = Inr []"
| "mapE f (x # xs) = bindE (f x) (\<lambda>y. bindE (mapE f xs) (\<lambda>ys. Inr (y # ys)))"

lemma mapE_all_Inr: "(\<And>x. x \<in> set xs \<Longrightarrow> f x = Inr (g x)) \<Longrightarrow> mapE f xs = Inr (map g xs)"
  by (induction xs) auto

lemma mapE_append:
  "mapE f xs = Inr as \<Longrightarrow> mapE f ys = Inr bs \<Longrightarrow> mapE f (xs @ ys) = Inr (as @ bs)"
  by (induction xs arbitrary: as) (auto simp: bindE_eq_Inr)

lemma mapE_exists_all:
  "(\<And>x. x \<in> set xs \<Longrightarrow> \<exists>y. f x = Inr y \<and> P y) \<Longrightarrow>
   \<exists>ys. mapE f xs = Inr ys \<and> length ys = length xs \<and> (\<forall>y \<in> set ys. P y)"
proof (induction xs)
  case (Cons x xs)
  then obtain y ys where "f x = Inr y" "P y" "mapE f xs = Inr ys" "length ys = length xs" "\<forall>y \<in> set ys. P y"
    by fastforce
  then show ?case by simp
qed simp

lemma mapE_exists: "(\<And>x. x \<in> set xs \<Longrightarrow> \<exists>y. f x = Inr y) \<Longrightarrow> \<exists>ys. mapE f xs = Inr ys"
  using mapE_exists_all[of xs f "\<lambda>_. True"] by blast

lemma mapE_eq_Inr: "mapE f xs = Inr ys \<longleftrightarrow> list_all2 (\<lambda>x y. f x = Inr y) xs ys"
  by (induction xs arbitrary: ys) (auto simp: bindE_eq_Inr list_all2_Cons1)

section \<open>Stateful actions\<close>

type_synonym ('s, 'a) action = "'s \<Rightarrow> 'a result \<times> 's"

definition bindS :: "('s, 'a) action \<Rightarrow> ('a \<Rightarrow> ('s, 'b) action) \<Rightarrow> ('s, 'b) action" where
  "bindS m f s = (case m s of (Inl e, s') \<Rightarrow> (Inl e, s') | (Inr x, s') \<Rightarrow> f x s')"

definition returnS :: "'a \<Rightarrow> ('s, 'a) action" where
  "returnS x s = (Inr x, s)"

definition raiseS :: "py_error \<Rightarrow> ('s, 'a) action" where
  "raiseS e s = (Inl e, s)"

text \<open>Evaluate an expression that reads the state and may raise; the state is not changed.\<close>

definition readS :: "('s \<Rightarrow> 'a result) \<Rightarrow> ('s, 'a) action" where
  "readS f s = (f s, s)"

text \<open>Assign a new state computed from the old one, unless computing it raises.\<close>

definition writeS :: "('s \<Rightarrow> 's result) \<Rightarrow> ('s, unit) action" where
  "writeS f s = (case f s of Inl e \<Rightarrow> (Inl e, s) | Inr s' \<Rightarrow> (Inr (), s'))"

lemma bindS_Inr: "m s = (Inr x, s') \<Longrightarrow> bindS m f s = f x s'"
  by (simp add: bindS_def)

lemma bindS_Inl: "m s = (Inl e, s') \<Longrightarrow> bindS m f s = (Inl e, s')"
  by (simp add: bindS_def)

lemma action_simps [simp, py_simps]:
  "returnS x s = (Inr x, s)"
  "raiseS e s = (Inl e, s)"
  "readS g s = (g s, s)"
  by (simp_all add: returnS_def raiseS_def readS_def)

lemma bindS_assoc: "bindS (bindS m f) g = bindS m (\<lambda>x. bindS (f x) g)"
  by (rule ext) (simp add: bindS_def split: prod.split sum.split)

lemma bindS_readS: "f s = Inr x \<Longrightarrow> bindS (readS f) g s = g x s"
  by (simp add: bindS_def)

lemma writeS_Inr: "f s = Inr s' \<Longrightarrow> writeS f s = (Inr (), s')"
  by (simp add: writeS_def)

section \<open>Python lists\<close>

text \<open>\<open>xs[i]\<close> counts a negative index from the end and raises \<open>IndexError\<close> out of range.\<close>

definition py_index :: "'a list \<Rightarrow> int \<Rightarrow> nat result" where
  "py_index xs i =
     (let n = int (length xs); j = (if i < 0 then n + i else i)
      in if 0 \<le> j \<and> j < n then Inr (nat j) else Inl IndexError)"

definition py_get :: "'a list \<Rightarrow> int \<Rightarrow> 'a result" where
  "py_get xs i = bindE (py_index xs i) (\<lambda>j. Inr (xs ! j))"

definition py_set :: "'a list \<Rightarrow> int \<Rightarrow> 'a \<Rightarrow> 'a list result" where
  "py_set xs i v = bindE (py_index xs i) (\<lambda>j. Inr (xs[j := v]))"

lemma py_index_in [simp, py_simps]:
  "0 \<le> i \<Longrightarrow> i < int (length xs) \<Longrightarrow> py_index xs i = Inr (nat i)"
  by (simp add: py_index_def)

lemma py_get_in [simp, py_simps]:
  "0 \<le> i \<Longrightarrow> i < int (length xs) \<Longrightarrow> py_get xs i = Inr (xs ! nat i)"
  by (simp add: py_get_def)

lemma py_set_in [simp, py_simps]:
  "0 \<le> i \<Longrightarrow> i < int (length xs) \<Longrightarrow> py_set xs i v = Inr (xs[nat i := v])"
  by (simp add: py_set_def)

lemma py_get_out: "int (length xs) \<le> i \<Longrightarrow> py_get xs i = Inl IndexError"
  by (simp add: py_get_def py_index_def)

section \<open>Python integers\<close>

text \<open>\<open>x >> n\<close> and \<open>x << n\<close> raise \<open>ValueError\<close> for a negative count.\<close>

definition py_shr :: "int \<Rightarrow> int \<Rightarrow> int result" where
  "py_shr x n = (if n < 0 then Inl ValueError else Inr (drop_bit (nat n) x))"

definition py_shl :: "int \<Rightarrow> int \<Rightarrow> int result" where
  "py_shl x n = (if n < 0 then Inl ValueError else Inr (push_bit (nat n) x))"

lemma py_shift_simps [simp, py_simps]:
  "0 \<le> n \<Longrightarrow> py_shr x n = Inr (drop_bit (nat n) x)"
  "0 \<le> n \<Longrightarrow> py_shl x n = Inr (push_bit (nat n) x)"
  by (simp_all add: py_shr_def py_shl_def)

text \<open>\<open>int.bit_length\<close>: the number of bits of the magnitude, 0 for 0.\<close>

definition py_bit_length :: "int \<Rightarrow> int" where
  "py_bit_length x = bitlen \<bar>x\<bar>"

lemma py_bit_length_le_iff:
  assumes "0 \<le> x"
  shows "py_bit_length x \<le> int n \<longleftrightarrow> x < 2 ^ n"
  using assms bitlen_le_iff_power[of x n] by (simp add: py_bit_length_def)

text \<open>A recursion on the integer itself, for evaluation.\<close>

lemma py_bit_length_code [code]: "py_bit_length x = (if x = 0 then 0 else py_bit_length (\<bar>x\<bar> div 2) + 1)"
proof (cases "x = 0")
  case False
  then show ?thesis
    by (simp add: py_bit_length_def bitlen_def compute_floorlog[of 2 "nat \<bar>x\<bar>"] nat_div_distrib)
qed (simp add: py_bit_length_def bitlen_def floorlog_def)

section \<open>Generic lemmas\<close>

lemma nat_le_iff_int: "0 \<le> (i::int) \<Longrightarrow> nat i \<le> n \<longleftrightarrow> i \<le> int n"
  by linarith

lemma drop_bit_eq_0_iff: "0 \<le> (x::int) \<Longrightarrow> drop_bit n x = 0 \<longleftrightarrow> x < 2 ^ n"
  by (auto simp: drop_bit_eq_div zdiv_eq_0_iff)

lemma card_image_plus: "card ((+) (c::int) ` A) = card A"
  by (rule card_image) (simp add: inj_on_def)

text \<open>Two strictly sorted lists with the same elements are equal.\<close>

lemma sorted_distinct_eqI:
  fixes xs ys :: "'a::linorder list"
  assumes "sorted xs" "distinct xs" "sorted ys" "distinct ys" "set xs = set ys"
  shows "xs = ys"
  using assms by (simp add: sorted_distinct_set_unique)

end
