(* ===== verification/Addressing.thy ===== *)
theory Addressing
  imports Hammertime_Prelude
begin

text \<open>
  Addresses, prefixes and the bit helpers of the trie:
  \<open>hammertime.core.addressing.address\<close>, \<open>.prefix\<close> and \<open>.bits\<close>. An address is a family and an
  integer below \<open>2 ^ bit_length\<close>; a prefix is a network and a length. The specification side is
  \<open>agree\<close>: two integers share their first \<open>l\<close> bits. The lemmas show that
  \<open>common_prefix_length\<close> is the greatest such \<open>l\<close>, and what masking, containment and a longer
  prefix mean in these terms; the tries are proved against \<open>agree\<close> alone.
\<close>

section \<open>Families and addresses\<close>

datatype family = IPV4 | IPV6

definition bit_length :: "family \<Rightarrow> int" where
  "bit_length f = (if f = IPV4 then 32 else 128)"

lemma bit_length_pos [simp]: "0 < bit_length f" "0 \<le> bit_length f"
  by (simp_all add: bit_length_def)

record address =
  addr_family :: family
  addr_value :: int

definition valid_address :: "address \<Rightarrow> bool" where
  "valid_address a \<longleftrightarrow> 0 \<le> addr_value a \<and> addr_value a < push_bit (nat (bit_length (addr_family a))) 1"

definition mk_address :: "family \<Rightarrow> int \<Rightarrow> address result" where
  "mk_address f v =
     (if \<not> (0 \<le> v \<and> v < push_bit (nat (bit_length f)) 1) then Inl InvalidAddressError
      else Inr \<lparr>addr_family = f, addr_value = v\<rparr>)"

text \<open>\<open>Address.bits\<close>: the bits, most significant first.\<close>

definition addr_bits :: "address \<Rightarrow> int list" where
  "addr_bits a = map (\<lambda>shift. drop_bit (nat shift) (addr_value a) AND 1)
                     (rev [0 .. bit_length (addr_family a) - 1])"

section \<open>Bit helpers\<close>

definition common_prefix_length :: "int \<Rightarrow> int \<Rightarrow> int \<Rightarrow> int result" where
  "common_prefix_length a b bits =
     bindE (py_shl 1 bits) (\<lambda>one.
       let diff = (a XOR b) AND (one - 1) in
       if diff = 0 then Inr bits else Inr (bits - py_bit_length diff))"

definition bit_at :: "int \<Rightarrow> int \<Rightarrow> int \<Rightarrow> int result" where
  "bit_at v i bits = bindE (py_shr v (bits - 1 - i)) (\<lambda>w. Inr (w AND 1))"

section \<open>Prefixes\<close>

record prefix =
  pfx_family :: family
  pfx_network :: int
  pfx_length :: int

definition mk_prefix :: "family \<Rightarrow> int \<Rightarrow> int \<Rightarrow> prefix result" where
  "mk_prefix f network len =
     (let bits = bit_length f in
      if \<not> (0 \<le> len \<and> len \<le> bits) then Inl InvalidPrefixError
      else let host_bits = bits - len in
        if host_bits \<noteq> 0 \<and> network AND (push_bit (nat host_bits) 1 - 1) \<noteq> 0
        then Inl InvalidPrefixError
        else Inr \<lparr>pfx_family = f, pfx_network = network, pfx_length = len\<rparr>)"

definition valid_prefix :: "prefix \<Rightarrow> bool" where
  "valid_prefix p \<longleftrightarrow> mk_prefix (pfx_family p) (pfx_network p) (pfx_length p) = Inr p"

definition prefix_capacity :: "prefix \<Rightarrow> int" where
  "prefix_capacity p = push_bit (nat (bit_length (pfx_family p) - pfx_length p)) 1"

definition prefix_contains :: "prefix \<Rightarrow> address \<Rightarrow> bool" where
  "prefix_contains p a =
     (if addr_family a \<noteq> pfx_family p then False
      else let shift = bit_length (pfx_family p) - pfx_length p in
        drop_bit (nat shift) (addr_value a) = drop_bit (nat shift) (pfx_network p))"

text \<open>\<open>(value >> host_bits) << host_bits\<close>: the network of a value at a length, as every module
  that builds an ancestor prefix computes it.\<close>

definition net_of :: "int \<Rightarrow> int \<Rightarrow> int \<Rightarrow> int" where
  "net_of bits l v = push_bit (nat (bits - l)) (drop_bit (nat (bits - l)) v)"

section \<open>Leading bits\<close>

definition msb :: "int \<Rightarrow> int \<Rightarrow> int \<Rightarrow> bool" where
  "msb bits i v \<longleftrightarrow> bit v (nat (bits - 1 - i))"

definition agree :: "int \<Rightarrow> int \<Rightarrow> int \<Rightarrow> int \<Rightarrow> bool" where
  "agree bits l a b \<longleftrightarrow> (\<forall>i. 0 \<le> i \<and> i < l \<longrightarrow> msb bits i a = msb bits i b)"

definition cpl :: "int \<Rightarrow> int \<Rightarrow> int \<Rightarrow> int" where
  "cpl bits a b = bits - py_bit_length (take_bit (nat bits) (a XOR b))"

lemma int_xor_eq_0_iff: "x XOR y = (0::int) \<longleftrightarrow> x = y"
  by (metis xor.assoc xor.left_neutral xor.right_neutral xor_self_eq)

lemma agree_refl [simp]: "agree bits l a a"
  by (simp add: agree_def)

lemma agree_sym: "agree bits l a b \<Longrightarrow> agree bits l b a"
  by (simp add: agree_def)

lemma agree_commute: "agree bits l a b \<longleftrightarrow> agree bits l b a"
  by (auto simp: agree_def)

lemma agree_trans: "agree bits l a b \<Longrightarrow> agree bits l b c \<Longrightarrow> agree bits l a c"
  by (simp add: agree_def)

lemma agree_mono: "agree bits l a b \<Longrightarrow> k \<le> l \<Longrightarrow> agree bits k a b"
  by (simp add: agree_def)

lemma agree_zero [simp]: "l \<le> 0 \<Longrightarrow> agree bits l a b"
  by (auto simp: agree_def)

lemma agree_Suc: "0 \<le> l \<Longrightarrow> agree bits (l + 1) a b \<longleftrightarrow> agree bits l a b \<and> msb bits l a = msb bits l b"
  unfolding agree_def by (metis zless_add1_eq)

lemma agree_msb: "agree bits l a b \<Longrightarrow> 0 \<le> i \<Longrightarrow> i < l \<Longrightarrow> msb bits i a = msb bits i b"
  by (simp add: agree_def)

text \<open>\<open>agree\<close> as an equation between shifted values.\<close>

lemma agree_iff_drop:
  assumes "0 \<le> l" "l \<le> bits"
  shows "agree bits l a b \<longleftrightarrow>
    drop_bit (nat (bits - l)) (take_bit (nat bits) a) = drop_bit (nat (bits - l)) (take_bit (nat bits) b)"
proof -
  have eq: "bit (drop_bit (nat (bits - l)) (take_bit (nat bits) x)) n \<longleftrightarrow>
      int n < l \<and> msb bits (l - 1 - int n) x" for x n
  proof -
    have "nat (bits - l) + n < nat bits \<longleftrightarrow> int n < l" using assms by linarith
    moreover have "int n < l \<Longrightarrow> nat (bits - 1 - (l - 1 - int n)) = nat (bits - l) + n"
      using assms by linarith
    ultimately show ?thesis by (auto simp: bit_drop_bit_eq bit_take_bit_iff msb_def)
  qed
  show ?thesis
  proof
    assume ag: "agree bits l a b"
    show "drop_bit (nat (bits - l)) (take_bit (nat bits) a) = drop_bit (nat (bits - l)) (take_bit (nat bits) b)"
      by (rule bit_eqI) (use ag in \<open>auto simp: eq agree_def\<close>)
  next
    assume dr: "drop_bit (nat (bits - l)) (take_bit (nat bits) a) = drop_bit (nat (bits - l)) (take_bit (nat bits) b)"
    show "agree bits l a b"
      unfolding agree_def
    proof (intro allI impI)
      fix i assume i: "0 \<le> i \<and> i < l"
      have "bit (drop_bit (nat (bits - l)) (take_bit (nat bits) a)) (nat (l - 1 - i)) =
            bit (drop_bit (nat (bits - l)) (take_bit (nat bits) b)) (nat (l - 1 - i))"
        using dr by simp
      with i show "msb bits i a = msb bits i b" by (simp add: eq)
    qed
  qed
qed

lemma agree_bits_eq:
  assumes "0 \<le> a" "a < 2 ^ nat bits" "0 \<le> b" "b < 2 ^ nat bits" "0 \<le> bits"
  shows "agree bits bits a b \<longleftrightarrow> a = b"
  using assms agree_iff_drop[of bits bits a b] by (simp add: take_bit_int_eq_self)

lemma bit_at_msb [bit_simps]:
  "i < bits \<Longrightarrow> bit_at v i bits = Inr (of_bool (msb bits i v))"
  by (simp add: bit_at_def msb_def and_one_eq bit_iff_odd_drop_bit mod_2_eq_odd)

lemma common_prefix_length_eq [bit_simps]:
  assumes "0 \<le> bits"
  shows "common_prefix_length a b bits = Inr (cpl bits a b)"
proof -
  have "push_bit (nat bits) 1 - 1 = (mask (nat bits) :: int)"
    by (simp add: mask_eq_exp_minus_1)
  with assms show ?thesis
    by (simp add: common_prefix_length_def cpl_def Let_def take_bit_eq_mask py_bit_length_def
        del: push_bit_of_1)
qed

lemma cpl_ge_iff [bit_simps]:
  assumes "0 \<le> l" "l \<le> bits"
  shows "l \<le> cpl bits a b \<longleftrightarrow> agree bits l a b"
proof -
  let ?d = "take_bit (nat bits) (a XOR b)"
  have "l \<le> cpl bits a b \<longleftrightarrow> py_bit_length ?d \<le> int (nat (bits - l))"
    using assms by (auto simp: cpl_def)
  also have "\<dots> \<longleftrightarrow> ?d < 2 ^ nat (bits - l)"
    by (rule py_bit_length_le_iff) simp
  also have "\<dots> \<longleftrightarrow> drop_bit (nat (bits - l)) ?d = 0"
    by (rule drop_bit_eq_0_iff[symmetric]) simp
  also have "\<dots> \<longleftrightarrow> drop_bit (nat (bits - l)) (take_bit (nat bits) a) = drop_bit (nat (bits - l)) (take_bit (nat bits) b)"
    by (simp add: take_bit_xor drop_bit_xor int_xor_eq_0_iff)
  finally show ?thesis using agree_iff_drop[OF assms] by simp
qed

lemma cpl_bounds [simp]:
  assumes "0 \<le> bits"
  shows "0 \<le> cpl bits a b" "cpl bits a b \<le> bits"
  using assms cpl_ge_iff[of 0 bits a b] by (auto simp: cpl_def py_bit_length_def bitlen_nonneg)

section \<open>Networks and containment\<close>

lemma msb_net_of:
  assumes "0 \<le> i" "i < bits" "l \<le> bits"
  shows "msb bits i (net_of bits l v) \<longleftrightarrow> i < l \<and> msb bits i v"
proof -
  have "nat (bits - l) \<le> nat (bits - 1 - i) \<longleftrightarrow> i < l" using assms by linarith
  then show ?thesis
    by (auto simp: msb_def net_of_def bit_push_bit_iff bit_drop_bit_eq not_le)
qed

lemma agree_net_of [simp]:
  assumes "l \<le> bits" "k \<le> l"
  shows "agree bits k (net_of bits l v) v" "agree bits k v (net_of bits l v)"
  using assms by (auto simp: agree_def msb_net_of)

lemma net_of_bits [simp]: "net_of bits bits v = v"
  by (simp add: net_of_def)

lemma net_of_le: "0 \<le> v \<Longrightarrow> 0 \<le> net_of bits l v \<and> net_of bits l v \<le> v"
  by (simp add: net_of_def push_bit_eq_mult drop_bit_eq_div pos_imp_zdiv_nonneg_iff)
    (metis add_increasing2 div_mult_mod_eq order_refl pos_mod_sign zero_less_numeral zero_less_power)

lemma net_of_eq_iff:
  assumes "0 \<le> a" "a < 2 ^ nat bits" "0 \<le> b" "b < 2 ^ nat bits" "0 \<le> l" "l \<le> bits"
  shows "net_of bits l a = net_of bits l b \<longleftrightarrow> agree bits l a b"
proof -
  have "net_of bits l a = net_of bits l b \<longleftrightarrow> drop_bit (nat (bits - l)) a = drop_bit (nat (bits - l)) b"
    by (simp add: net_of_def push_bit_eq_mult)
  with assms agree_iff_drop[of l bits a b] show ?thesis by (simp add: take_bit_int_eq_self)
qed

lemma net_of_net_of:
  assumes "k \<le> l" "l \<le> bits"
  shows "net_of bits k (net_of bits l v) = net_of bits k v"
proof -
  have "nat (bits - l) \<le> nat (bits - k)" using assms by simp
  then show ?thesis
    by (auto simp: net_of_def bit_push_bit_iff bit_drop_bit_eq intro!: bit_eqI)
qed

lemma mk_prefix_valid [simp]:
  assumes "0 \<le> l" "l \<le> bit_length f"
  shows "mk_prefix f (net_of (bit_length f) l v) l =
    Inr \<lparr>pfx_family = f, pfx_network = net_of (bit_length f) l v, pfx_length = l\<rparr>"
proof -
  let ?h = "nat (bit_length f - l)"
  have "push_bit ?h (drop_bit ?h v) AND (push_bit ?h 1 - 1) = take_bit ?h (push_bit ?h (drop_bit ?h v))"
    by (simp add: take_bit_eq_mask mask_eq_exp_minus_1)
  also have "\<dots> = 0" by (simp add: take_bit_push_bit)
  finally show ?thesis
    using assms by (simp add: mk_prefix_def Let_def net_of_def)
qed

lemma mk_prefix_host [simp]:
  "mk_prefix f v (bit_length f) = Inr \<lparr>pfx_family = f, pfx_network = v, pfx_length = bit_length f\<rparr>"
  using mk_prefix_valid[of "bit_length f" f v] by (simp add: bit_length_def)

lemma valid_prefix_iff:
  "valid_prefix p \<longleftrightarrow> 0 \<le> pfx_length p \<and> pfx_length p \<le> bit_length (pfx_family p) \<and>
     net_of (bit_length (pfx_family p)) (pfx_length p) (pfx_network p) = pfx_network p"
proof -
  have "v AND (push_bit h 1 - 1) = 0 \<longleftrightarrow> push_bit h (drop_bit h v) = v" for v :: int and h
  proof -
    have "push_bit h (drop_bit h v) + take_bit h v = v"
      by (simp add: push_bit_eq_mult drop_bit_eq_div take_bit_eq_mod div_mult_mod_eq)
    moreover have "v AND (push_bit h 1 - 1) = take_bit h v"
      by (simp add: take_bit_eq_mask mask_eq_exp_minus_1)
    ultimately show ?thesis by linarith
  qed
  then show ?thesis
    by (auto simp: valid_prefix_def mk_prefix_def net_of_def Let_def)
qed

lemma valid_address_iff:
  "valid_address a \<longleftrightarrow> 0 \<le> addr_value a \<and> addr_value a < 2 ^ nat (bit_length (addr_family a))"
  by (simp add: valid_address_def)

lemma mk_address_valid [simp]:
  "0 \<le> v \<Longrightarrow> v < 2 ^ nat (bit_length f) \<Longrightarrow> mk_address f v = Inr \<lparr>addr_family = f, addr_value = v\<rparr>"
  by (simp add: mk_address_def)

lemma prefix_contains_agree:
  assumes "valid_prefix p" "0 \<le> pfx_network p" "pfx_network p < 2 ^ nat (bit_length (pfx_family p))"
    and "valid_address a"
  shows "prefix_contains p a \<longleftrightarrow> addr_family a = pfx_family p \<and>
    agree (bit_length (pfx_family p)) (pfx_length p) (addr_value a) (pfx_network p)"
  using assms agree_iff_drop[of "pfx_length p" "bit_length (pfx_family p)" "addr_value a" "pfx_network p"]
  by (auto simp: prefix_contains_def Let_def valid_prefix_iff valid_address_iff take_bit_int_eq_self)

lemma addr_bits_nth:
  assumes "i < nat (bit_length (addr_family a))"
  shows "addr_bits a ! i = of_bool (msb (bit_length (addr_family a)) (int i) (addr_value a))"
proof -
  have "nat (bit_length (addr_family a) - (1 + int i)) = nat (bit_length (addr_family a)) - Suc i"
    and "nat (bit_length (addr_family a) - 1 - int i) = nat (bit_length (addr_family a)) - Suc i"
    by linarith+
  with assms show ?thesis
    by (simp add: addr_bits_def rev_nth msb_def and_one_eq bit_iff_odd_drop_bit mod_2_eq_odd)
qed

lemma length_addr_bits [simp]: "length (addr_bits a) = nat (bit_length (addr_family a))"
  by (simp add: addr_bits_def)

end
