(* ===== verification/Hot_Trie.thy ===== *)
theory Hot_Trie
  imports Addressing "HOL-Library.Product_Lexorder"
begin

text \<open>
  The trie's shared vocabulary and its contract: \<open>hammertime.trie.structure.node\<close>.
  \<open>HotTrie\<close> is a Python \<open>Protocol\<close>; here it is a record of the operations a trie object offers.
  A result of type \<open>'a option\<close> is \<open>None\<close> when the operation does not return.
  The abstract specification reads every query off the set of HOT address values, and the locale
  \<open>hot_trie_impl\<close> states the contract each representation is proved to meet.
\<close>

type_synonym node_id = int

definition NO_NODE :: node_id where
  "NO_NODE = - 1"

record prefix_count =
  pc_prefix :: prefix
  pc_hot_count :: int

record node_view =
  nv_prefix :: prefix
  nv_hot_count :: int
  nv_children :: "prefix list"

record 't hot_trie =
  ht_family :: "'t \<Rightarrow> family"
  ht_bit_length :: "'t \<Rightarrow> int"
  ht_hot_ip_count :: "'t \<Rightarrow> int result"
  ht_node_count :: "'t \<Rightarrow> int"
  ht_add_hot_ip :: "'t \<Rightarrow> address \<Rightarrow> (bool result \<times> 't) option"
  ht_remove_hot_ip :: "'t \<Rightarrow> address \<Rightarrow> (bool result \<times> 't) option"
  ht_clear :: "'t \<Rightarrow> 't"
  ht_contains :: "'t \<Rightarrow> address \<Rightarrow> bool result option"
  ht_hot_count :: "'t \<Rightarrow> prefix \<Rightarrow> int result option"
  ht_ancestor_counts :: "'t \<Rightarrow> address \<Rightarrow> int \<Rightarrow> prefix_count list result option"
  ht_longest_matching_prefix :: "'t \<Rightarrow> address \<Rightarrow> prefix option result option"
  ht_iter_prefix_counts :: "'t \<Rightarrow> int \<Rightarrow> prefix_count list result option"
  ht_iter_hot_addresses :: "'t \<Rightarrow> address list result option"
  ht_iter_nodes :: "'t \<Rightarrow> node_view list result option"

section \<open>The abstract specification\<close>

text \<open>\<open>hot_below bits H l n\<close>: how many HOT values share their first \<open>l\<close> bits with \<open>n\<close>.\<close>

definition hot_below :: "int \<Rightarrow> int set \<Rightarrow> int \<Rightarrow> int \<Rightarrow> int" where
  "hot_below bits H l n = int (card {a \<in> H. agree bits l a n})"

definition prefix_at :: "family \<Rightarrow> int \<Rightarrow> int \<Rightarrow> prefix" where
  "prefix_at f v l = \<lparr>pfx_family = f, pfx_network = net_of (bit_length f) l v, pfx_length = l\<rparr>"

definition count_at :: "family \<Rightarrow> int set \<Rightarrow> int \<Rightarrow> int \<Rightarrow> prefix_count" where
  "count_at f H v l = \<lparr>pc_prefix = prefix_at f v l, pc_hot_count = hot_below (bit_length f) H l v\<rparr>"

definition spec_ancestor_counts :: "family \<Rightarrow> int set \<Rightarrow> int \<Rightarrow> int \<Rightarrow> prefix_count list" where
  "spec_ancestor_counts f H v m = map (count_at f H v) [m .. bit_length f]"

definition spec_longest_match :: "family \<Rightarrow> int set \<Rightarrow> int \<Rightarrow> prefix option" where
  "spec_longest_match f H v =
     (if H = {} then None
      else Some (prefix_at f v (Max {l \<in> {0 .. bit_length f}. 0 < hot_below (bit_length f) H l v})))"

text \<open>The prefixes with a HOT address beneath them, as (network, length) pairs: pre-order is the
  lexicographic order of these pairs.\<close>

definition hot_prefixes :: "int \<Rightarrow> int set \<Rightarrow> int \<Rightarrow> (int \<times> int) set" where
  "hot_prefixes bits H m = (\<lambda>(a, l). (net_of bits l a, l)) ` (H \<times> {m .. bits})"

definition spec_prefix_counts :: "family \<Rightarrow> int set \<Rightarrow> int \<Rightarrow> prefix_count list" where
  "spec_prefix_counts f H m =
     map (\<lambda>(n, l). count_at f H n l) (sorted_list_of_set (hot_prefixes (bit_length f) H m))"

definition spec_hot_addresses :: "family \<Rightarrow> int set \<Rightarrow> address list" where
  "spec_hot_addresses f H =
     map (\<lambda>v. \<lparr>addr_family = f, addr_value = v\<rparr>) (sorted_list_of_set H)"

definition value_range :: "family \<Rightarrow> int set" where
  "value_range f = {0 ..< 2 ^ nat (bit_length f)}"

lemma value_range_iff: "v \<in> value_range f \<longleftrightarrow> 0 \<le> v \<and> v < 2 ^ nat (bit_length f)"
  by (simp add: value_range_def)

lemma finite_value_range [simp]: "finite (value_range f)"
  by (simp add: value_range_def)

lemma valid_address_range: "valid_address a \<longleftrightarrow> addr_value a \<in> value_range (addr_family a)"
  by (simp add: valid_address_iff value_range_iff)

lemma hot_below_empty [simp]: "hot_below bits {} l n = 0"
  by (simp add: hot_below_def)

lemma hot_below_nonneg [simp]: "0 \<le> hot_below bits H l n"
  by (simp add: hot_below_def)

lemma hot_below_pos_iff:
  "finite H \<Longrightarrow> 0 < hot_below bits H l n \<longleftrightarrow> (\<exists>a \<in> H. agree bits l a n)"
  by (auto simp: hot_below_def card_gt_0_iff)

lemma hot_below_zero_length [simp]: "hot_below bits H 0 n = int (card H)"
  by (simp add: hot_below_def)

lemma hot_below_singleton [simp]: "hot_below bits {n} l v = of_bool (agree bits l n v)"
proof -
  have "{a \<in> {n}. agree bits l a v} = (if agree bits l n v then {n} else {})" by auto
  then show ?thesis by (simp add: hot_below_def)
qed

lemma hot_below_cong: "agree bits l n m \<Longrightarrow> hot_below bits H l n = hot_below bits H l m"
  unfolding hot_below_def by (rule arg_cong[of _ _ "\<lambda>A. int (card A)"]) (meson agree_sym agree_trans)

lemma hot_below_host:
  assumes "H \<subseteq> value_range f" "v \<in> value_range f"
  shows "hot_below (bit_length f) H (bit_length f) v = of_bool (v \<in> H)"
proof -
  have "a \<in> H \<Longrightarrow> agree (bit_length f) (bit_length f) a v \<longleftrightarrow> a = v" for a
    using assms by (intro agree_bits_eq) (auto simp: value_range_iff)
  then have "{a \<in> H. agree (bit_length f) (bit_length f) a v} = H \<inter> {v}" by auto
  then show ?thesis by (simp add: hot_below_def)
qed

lemma hot_below_insert:
  assumes "finite H" "v \<notin> H"
  shows "hot_below bits (insert v H) l n = hot_below bits H l n + of_bool (agree bits l v n)"
proof (cases "agree bits l v n")
  case True
  then have "{a \<in> insert v H. agree bits l a n} = insert v {a \<in> H. agree bits l a n}" by auto
  with True assms show ?thesis by (simp add: hot_below_def)
next
  case False
  then have "{a \<in> insert v H. agree bits l a n} = {a \<in> H. agree bits l a n}" by auto
  with False show ?thesis by (simp add: hot_below_def)
qed

lemma hot_below_union:
  assumes "finite A" "finite B" "A \<inter> B = {}"
  shows "hot_below bits (A \<union> B) l n = hot_below bits A l n + hot_below bits B l n"
proof -
  have "{a \<in> A \<union> B. agree bits l a n} = {a \<in> A. agree bits l a n} \<union> {a \<in> B. agree bits l a n}" by auto
  with assms show ?thesis
    by (simp add: hot_below_def) (subst card_Un_disjoint; auto)
qed

text \<open>Spec section 12: a prefix's count is the sum of its two halves' counts.\<close>

lemma hot_below_split:
  assumes "finite H" "0 \<le> l" "l < bits" "agree bits l n0 n" "agree bits l n1 n"
    "\<not> msb bits l n0" "msb bits l n1"
  shows "hot_below bits H l n = hot_below bits H (l + 1) n0 + hot_below bits H (l + 1) n1"
proof -
  let ?A = "{a \<in> H. agree bits (l + 1) a n0}" and ?B = "{a \<in> H. agree bits (l + 1) a n1}"
  have "agree bits l a n \<longleftrightarrow> agree bits (l + 1) a n0 \<or> agree bits (l + 1) a n1" for a
    using assms by (auto simp: agree_Suc intro: agree_trans agree_sym)
  then have "{a \<in> H. agree bits l a n} = ?A \<union> ?B" by auto
  moreover have "?A \<inter> ?B = {}" using assms by (auto simp: agree_Suc)
  ultimately show ?thesis
    using assms(1) by (simp add: hot_below_def card_Un_disjoint)
qed

text \<open>Longest match: the best length is where the counts stop being positive.\<close>

lemma spec_longest_match_eqI:
  assumes "finite H" "H \<noteq> {}" "0 \<le> l" "l \<le> bit_length f" "0 < hot_below (bit_length f) H l v"
    "l < bit_length f \<Longrightarrow> \<not> 0 < hot_below (bit_length f) H (l + 1) v"
  shows "spec_longest_match f H v = Some (prefix_at f v l)"
proof -
  let ?L = "{k \<in> {0 .. bit_length f}. 0 < hot_below (bit_length f) H k v}"
  have "Max ?L = l"
  proof (rule Max_eqI)
    show "finite ?L" by (rule finite_subset[of _ "{0 .. bit_length f}"]) auto
    show "l \<in> ?L" using assms by simp
    fix k assume k: "k \<in> ?L"
    show "k \<le> l"
    proof (rule ccontr)
      assume "\<not> k \<le> l"
      with k assms have "l + 1 \<le> k" and "l < bit_length f" by auto
      with k have "0 < hot_below (bit_length f) H (l + 1) v"
        using \<open>finite H\<close> by (auto simp: hot_below_pos_iff intro: agree_mono)
      with assms \<open>l < bit_length f\<close> show False by simp
    qed
  qed
  with assms show ?thesis by (simp add: spec_longest_match_def)
qed

lemma finite_hot_prefixes [simp]: "finite H \<Longrightarrow> finite (hot_prefixes bits H m)"
  by (simp add: hot_prefixes_def)

text \<open>A list is the specified iteration once it is sorted, distinct and complete.\<close>

lemma spec_prefix_counts_eqI:
  assumes "sorted ps" "distinct ps" "set ps = hot_prefixes (bit_length f) H m"
  shows "spec_prefix_counts f H m = map (\<lambda>(n, l). count_at f H n l) ps"
proof -
  have "sorted_list_of_set (hot_prefixes (bit_length f) H m) = ps"
    using assms by (metis sorted_list_of_set.idem_if_sorted_distinct)
  then show ?thesis by (simp add: spec_prefix_counts_def)
qed

lemma spec_hot_addresses_eqI:
  assumes "sorted vs" "distinct vs" "set vs = H"
  shows "spec_hot_addresses f H = map (\<lambda>v. \<lparr>addr_family = f, addr_value = v\<rparr>) vs"
proof -
  have "sorted_list_of_set H = vs"
    using assms by (metis sorted_list_of_set.idem_if_sorted_distinct)
  then show ?thesis by (simp add: spec_hot_addresses_def)
qed

section \<open>Sequences of mutations\<close>

datatype trie_op = AddHotIp address | RemoveHotIp address | ClearTrie

definition op_address_ok :: "family \<Rightarrow> trie_op \<Rightarrow> bool" where
  "op_address_ok f c = (case c of
      AddHotIp a \<Rightarrow> valid_address a \<and> addr_family a = f
    | RemoveHotIp a \<Rightarrow> valid_address a \<and> addr_family a = f
    | ClearTrie \<Rightarrow> True)"

text \<open>What a sequence of calls answers and does to the hot set.\<close>

definition spec_op :: "int set \<Rightarrow> trie_op \<Rightarrow> bool \<times> int set" where
  "spec_op H c = (case c of
      AddHotIp a \<Rightarrow> (addr_value a \<notin> H, insert (addr_value a) H)
    | RemoveHotIp a \<Rightarrow> (addr_value a \<in> H, H - {addr_value a})
    | ClearTrie \<Rightarrow> (False, {}))"

fun spec_run :: "int set \<Rightarrow> trie_op list \<Rightarrow> bool list \<times> int set" where
  "spec_run H [] = ([], H)"
| "spec_run H (c # cs) =
     (let (b, H') = spec_op H c; (bs, H'') = spec_run H' cs in (b # bs, H''))"

definition trie_step :: "'t hot_trie \<Rightarrow> 't \<Rightarrow> trie_op \<Rightarrow> (bool result \<times> 't) option" where
  "trie_step ops t c = (case c of
      AddHotIp a \<Rightarrow> ht_add_hot_ip ops t a
    | RemoveHotIp a \<Rightarrow> ht_remove_hot_ip ops t a
    | ClearTrie \<Rightarrow> Some (Inr False, ht_clear ops t))"

fun trie_run :: "'t hot_trie \<Rightarrow> 't \<Rightarrow> trie_op list \<Rightarrow> (bool list \<times> 't) option" where
  "trie_run ops t [] = Some ([], t)"
| "trie_run ops t (c # cs) =
     (case trie_step ops t c of
        Some (Inr b, t') \<Rightarrow> (case trie_run ops t' cs of Some (bs, t'') \<Rightarrow> Some (b # bs, t'') | None \<Rightarrow> None)
      | _ \<Rightarrow> None)"

section \<open>The contract\<close>

text \<open>The laws of \<open>HotTrie\<close> (its docstring and ADR-0014 decision 2): the family is checked before
  anything else and a wrong one changes nothing; the mutators return whether the hot set changed;
  every query is a function of the hot set.\<close>

locale hot_trie_impl =
  fixes ops :: "'t hot_trie"
    and invar :: "'t \<Rightarrow> bool"
    and hot_set :: "'t \<Rightarrow> int set"
  assumes range: "invar t \<Longrightarrow> hot_set t \<subseteq> value_range (ht_family ops t)"
    and bits: "ht_bit_length ops t = bit_length (ht_family ops t)"
    and add: "invar t \<Longrightarrow> valid_address a \<Longrightarrow> addr_family a = ht_family ops t \<Longrightarrow>
      \<exists>t'. ht_add_hot_ip ops t a = Some (Inr (addr_value a \<notin> hot_set t), t') \<and> invar t' \<and>
        hot_set t' = insert (addr_value a) (hot_set t) \<and> ht_family ops t' = ht_family ops t \<and>
        (addr_value a \<in> hot_set t \<longrightarrow> t' = t)"
    and remove: "invar t \<Longrightarrow> valid_address a \<Longrightarrow> addr_family a = ht_family ops t \<Longrightarrow>
      \<exists>t'. ht_remove_hot_ip ops t a = Some (Inr (addr_value a \<in> hot_set t), t') \<and> invar t' \<and>
        hot_set t' = hot_set t - {addr_value a} \<and> ht_family ops t' = ht_family ops t \<and>
        (addr_value a \<notin> hot_set t \<longrightarrow> t' = t)"
    and clear: "invar (ht_clear ops t) \<and> hot_set (ht_clear ops t) = {} \<and>
      ht_family ops (ht_clear ops t) = ht_family ops t"
    and wrong_family: "addr_family a \<noteq> ht_family ops t \<Longrightarrow>
      ht_add_hot_ip ops t a = Some (Inl ValueError, t) \<and>
      ht_remove_hot_ip ops t a = Some (Inl ValueError, t) \<and>
      ht_contains ops t a = Some (Inl ValueError) \<and>
      ht_ancestor_counts ops t a m = Some (Inl ValueError) \<and>
      ht_longest_matching_prefix ops t a = Some (Inl ValueError)"
    and wrong_prefix_family: "pfx_family p \<noteq> ht_family ops t \<Longrightarrow>
      ht_hot_count ops t p = Some (Inl ValueError)"
    and hot_ip_count: "invar t \<Longrightarrow> ht_hot_ip_count ops t = Inr (int (card (hot_set t)))"
    and contains: "invar t \<Longrightarrow> valid_address a \<Longrightarrow> addr_family a = ht_family ops t \<Longrightarrow>
      ht_contains ops t a = Some (Inr (addr_value a \<in> hot_set t))"
    and hot_count: "invar t \<Longrightarrow> valid_prefix p \<Longrightarrow> pfx_family p = ht_family ops t \<Longrightarrow>
      ht_hot_count ops t p =
        Some (Inr (hot_below (bit_length (ht_family ops t)) (hot_set t) (pfx_length p) (pfx_network p)))"
    and ancestor_counts: "invar t \<Longrightarrow> valid_address a \<Longrightarrow> addr_family a = ht_family ops t \<Longrightarrow>
      ht_ancestor_counts ops t a m =
        Some (if 0 \<le> m \<and> m \<le> bit_length (ht_family ops t)
              then Inr (spec_ancestor_counts (ht_family ops t) (hot_set t) (addr_value a) m)
              else Inl ValueError)"
    and longest_match: "invar t \<Longrightarrow> valid_address a \<Longrightarrow> addr_family a = ht_family ops t \<Longrightarrow>
      ht_longest_matching_prefix ops t a =
        Some (Inr (spec_longest_match (ht_family ops t) (hot_set t) (addr_value a)))"
    and iter_prefix_counts: "invar t \<Longrightarrow>
      ht_iter_prefix_counts ops t m =
        Some (if 0 \<le> m \<and> m \<le> bit_length (ht_family ops t)
              then Inr (spec_prefix_counts (ht_family ops t) (hot_set t) m)
              else Inl ValueError)"
    and iter_hot_addresses: "invar t \<Longrightarrow>
      ht_iter_hot_addresses ops t = Some (Inr (spec_hot_addresses (ht_family ops t) (hot_set t)))"
begin

lemma finite_hot: "invar t \<Longrightarrow> finite (hot_set t)"
  using range finite_subset finite_value_range by blast

text \<open>One mutation does what the set-level specification says.\<close>

lemma step_refines:
  assumes "invar t" "op_address_ok (ht_family ops t) c"
  shows "\<exists>t'. trie_step ops t c = Some (Inr (fst (spec_op (hot_set t) c)), t') \<and> invar t' \<and>
    hot_set t' = snd (spec_op (hot_set t) c) \<and> ht_family ops t' = ht_family ops t"
proof (cases c)
  case (AddHotIp a)
  then show ?thesis using add[OF assms(1), of a] assms(2)
    by (auto simp: trie_step_def spec_op_def op_address_ok_def)
next
  case (RemoveHotIp a)
  then show ?thesis using remove[OF assms(1), of a] assms(2)
    by (auto simp: trie_step_def spec_op_def op_address_ok_def)
next
  case ClearTrie
  then show ?thesis using clear[of t] by (simp add: trie_step_def spec_op_def)
qed

text \<open>A sequence of mutations never fails and tracks the set-level run.\<close>

lemma run_refines:
  "invar t \<Longrightarrow> \<forall>c \<in> set cs. op_address_ok (ht_family ops t) c \<Longrightarrow>
    \<exists>t'. trie_run ops t cs = Some (fst (spec_run (hot_set t) cs), t') \<and> invar t' \<and>
      hot_set t' = snd (spec_run (hot_set t) cs) \<and> ht_family ops t' = ht_family ops t"
proof (induction cs arbitrary: t)
  case Nil
  then show ?case by simp
next
  case (Cons c cs)
  obtain t1 where t1: "trie_step ops t c = Some (Inr (fst (spec_op (hot_set t) c)), t1)" "invar t1"
    "hot_set t1 = snd (spec_op (hot_set t) c)" "ht_family ops t1 = ht_family ops t"
    using step_refines[of t c] Cons.prems by auto
  then obtain t2 where "trie_run ops t1 cs = Some (fst (spec_run (hot_set t1) cs), t2)" "invar t2"
    "hot_set t2 = snd (spec_run (hot_set t1) cs)" "ht_family ops t2 = ht_family ops t1"
    using Cons.IH[of t1] Cons.prems by auto
  with t1 show ?case by (simp add: Let_def split_beta)
qed

text \<open>Section 12 for the stored counts: a prefix's count is the sum of its halves' counts and lies
  between 0 and the prefix's capacity.\<close>

lemma count_sums:
  assumes "invar t" "0 \<le> l" "l < bit_length (ht_family ops t)"
    and n: "agree (bit_length (ht_family ops t)) l n0 n" "agree (bit_length (ht_family ops t)) l n1 n"
      "\<not> msb (bit_length (ht_family ops t)) l n0" "msb (bit_length (ht_family ops t)) l n1"
    and c: "ht_hot_count ops t (prefix_at (ht_family ops t) n l) = Some (Inr c)"
      "ht_hot_count ops t (prefix_at (ht_family ops t) n0 (l + 1)) = Some (Inr c0)"
      "ht_hot_count ops t (prefix_at (ht_family ops t) n1 (l + 1)) = Some (Inr c1)"
  shows "c = c0 + c1"
proof -
  let ?f = "ht_family ops t"
  have vp: "valid_prefix (prefix_at ?f m k)" if "0 \<le> k" "k \<le> bit_length ?f" for m k
    using that by (simp add: valid_prefix_def prefix_at_def)
  have cnt: "ht_hot_count ops t (prefix_at ?f m k) = Some (Inr (hot_below (bit_length ?f) (hot_set t) k m))"
    if "0 \<le> k" "k \<le> bit_length ?f" for m k
    using hot_count[OF assms(1) vp[OF that], of m] that
    by (simp add: prefix_at_def hot_below_cong[of _ _ "net_of (bit_length ?f) k m" m])
  show ?thesis
    using hot_below_split[OF finite_hot[OF assms(1)] assms(2,3) n] c assms(2,3) by (simp add: cnt)
qed

end

text \<open>The answers two tries give to every query on valid arguments, errors included.\<close>

definition same_queries :: "'a hot_trie \<Rightarrow> 'b hot_trie \<Rightarrow> 'a \<Rightarrow> 'b \<Rightarrow> bool" where
  "same_queries opsA opsB s t \<longleftrightarrow> ht_family opsA s = ht_family opsB t \<and>
     ht_hot_ip_count opsA s = ht_hot_ip_count opsB t \<and>
     (\<forall>x. valid_address x \<longrightarrow> ht_contains opsA s x = ht_contains opsB t x) \<and>
     (\<forall>p. valid_prefix p \<longrightarrow> ht_hot_count opsA s p = ht_hot_count opsB t p) \<and>
     (\<forall>x m. valid_address x \<longrightarrow> ht_ancestor_counts opsA s x m = ht_ancestor_counts opsB t x m) \<and>
     (\<forall>x. valid_address x \<longrightarrow>
        ht_longest_matching_prefix opsA s x = ht_longest_matching_prefix opsB t x) \<and>
     (\<forall>m. ht_iter_prefix_counts opsA s m = ht_iter_prefix_counts opsB t m) \<and>
     ht_iter_hot_addresses opsA s = ht_iter_hot_addresses opsB t"

text \<open>Two representations side by side: section 27's equivalence, for every sequence of calls.\<close>

locale hot_trie_pair =
  a: hot_trie_impl opsA invarA setA + b: hot_trie_impl opsB invarB setB
  for opsA :: "'a hot_trie" and invarA setA and opsB :: "'b hot_trie" and invarB setB
begin

lemma same_set_same_queries:
  assumes "invarA s" "invarB t" "setA s = setB t" "ht_family opsA s = ht_family opsB t"
  shows "same_queries opsA opsB s t"
proof -
  have "valid_address x \<Longrightarrow> ht_contains opsA s x = ht_contains opsB t x" for x
    using assms a.contains[of s x] b.contains[of t x] a.wrong_family[of x s] b.wrong_family[of x t]
    by (cases "addr_family x = ht_family opsB t") auto
  moreover have "valid_prefix p \<Longrightarrow> ht_hot_count opsA s p = ht_hot_count opsB t p" for p
    using assms a.hot_count[of s p] b.hot_count[of t p] a.wrong_prefix_family[of p s]
      b.wrong_prefix_family[of p t]
    by (cases "pfx_family p = ht_family opsB t") auto
  moreover have "valid_address x \<Longrightarrow> ht_ancestor_counts opsA s x m = ht_ancestor_counts opsB t x m" for x m
    using assms a.ancestor_counts[of s x m] b.ancestor_counts[of t x m] a.wrong_family[of x s]
      b.wrong_family[of x t]
    by (cases "addr_family x = ht_family opsB t") auto
  moreover have "valid_address x \<Longrightarrow>
      ht_longest_matching_prefix opsA s x = ht_longest_matching_prefix opsB t x" for x
    using assms a.longest_match[of s x] b.longest_match[of t x] a.wrong_family[of x s]
      b.wrong_family[of x t]
    by (cases "addr_family x = ht_family opsB t") auto
  ultimately show ?thesis
    using assms a.hot_ip_count[of s] b.hot_ip_count[of t] a.iter_prefix_counts[of s]
      b.iter_prefix_counts[of t] a.iter_hot_addresses[of s] b.iter_hot_addresses[of t]
    by (simp add: same_queries_def)
qed

lemma runs_equivalent:
  assumes "invarA s" "invarB t" "setA s = setB t" "ht_family opsA s = ht_family opsB t"
    and "\<forall>c \<in> set cs. op_address_ok (ht_family opsA s) c"
  shows "\<exists>bs s' t'. trie_run opsA s cs = Some (bs, s') \<and> trie_run opsB t cs = Some (bs, t') \<and>
    same_queries opsA opsB s' t'"
proof -
  obtain s' where "trie_run opsA s cs = Some (fst (spec_run (setA s) cs), s')" "invarA s'"
    "setA s' = snd (spec_run (setA s) cs)" "ht_family opsA s' = ht_family opsA s"
    using a.run_refines[OF assms(1,5)] by auto
  moreover obtain t' where "trie_run opsB t cs = Some (fst (spec_run (setB t) cs), t')" "invarB t'"
    "setB t' = snd (spec_run (setB t) cs)" "ht_family opsB t' = ht_family opsB t"
    using b.run_refines[OF assms(2), of cs] assms(4,5) by auto
  ultimately show ?thesis using same_set_same_queries[of s' t'] assms by auto
qed

end

end
