(* ===== verification/Patricia_Tree.thy ===== *)
theory Patricia_Tree
  imports Hot_Trie
begin

text \<open>
  Path-compressed trees as values: the shape the Patricia trie keeps in its arena (ADR-0014
  decision 6), with the arena ids of its nodes. The theory proves the facts the walks rest on: which
  addresses a subtree holds, what a divergence inside an edge means for the counts, and what
  splitting an edge or collapsing a parent does to the set of addresses.
\<close>

datatype ptree =
    PLeaf node_id int
  | PBranch node_id int int int ptree ptree

fun p_id :: "ptree \<Rightarrow> node_id" where
  "p_id (PLeaf i v) = i"
| "p_id (PBranch i n l c t0 t1) = i"

fun p_net :: "ptree \<Rightarrow> int" where
  "p_net (PLeaf i v) = v"
| "p_net (PBranch i n l c t0 t1) = n"

fun p_len :: "int \<Rightarrow> ptree \<Rightarrow> int" where
  "p_len bits (PLeaf i v) = bits"
| "p_len bits (PBranch i n l c t0 t1) = l"

fun p_count :: "ptree \<Rightarrow> int" where
  "p_count (PLeaf i v) = 1"
| "p_count (PBranch i n l c t0 t1) = c"

fun p_ids :: "ptree \<Rightarrow> node_id list" where
  "p_ids (PLeaf i v) = [i]"
| "p_ids (PBranch i n l c t0 t1) = i # p_ids t0 @ p_ids t1"

fun p_set :: "ptree \<Rightarrow> int set" where
  "p_set (PLeaf i v) = {v}"
| "p_set (PBranch i n l c t0 t1) = p_set t0 \<union> p_set t1"

definition p_child :: "bool \<Rightarrow> ptree \<Rightarrow> ptree \<Rightarrow> ptree" where
  "p_child b t0 t1 = (if b then t1 else t0)"

text \<open>Decision 6: a leaf holds an address; an internal node has exactly two children whose prefixes
  strictly extend it and differ at its length; the counts add up.\<close>

fun p_ok :: "int \<Rightarrow> ptree \<Rightarrow> bool" where
  "p_ok bits (PLeaf i v) \<longleftrightarrow> 0 \<le> v \<and> v < 2 ^ nat bits"
| "p_ok bits (PBranch i n l c t0 t1) \<longleftrightarrow>
     0 \<le> l \<and> l < bits \<and> 0 \<le> n \<and> n < 2 ^ nat bits \<and> net_of bits l n = n \<and>
     l < p_len bits t0 \<and> l < p_len bits t1 \<and>
     agree bits l (p_net t0) n \<and> agree bits l (p_net t1) n \<and>
     \<not> msb bits l (p_net t0) \<and> msb bits l (p_net t1) \<and>
     c = p_count t0 + p_count t1 \<and> p_ok bits t0 \<and> p_ok bits t1"

section \<open>What a subtree holds\<close>

lemma p_id_in_ids [simp]: "p_id t \<in> set (p_ids t)"
  by (cases t) auto

lemma p_set_nonempty [simp]: "p_set t \<noteq> {}"
  by (induction t) auto

lemma finite_p_set [simp]: "finite (p_set t)"
  by (induction t) auto

lemma p_len_bounds: "p_ok bits t \<Longrightarrow> 0 \<le> bits \<Longrightarrow> 0 \<le> p_len bits t \<and> p_len bits t \<le> bits"
  by (cases t) auto

lemma p_set_agree: "p_ok bits t \<Longrightarrow> a \<in> p_set t \<Longrightarrow> agree bits (p_len bits t) a (p_net t)"
proof (induction t)
  case (PBranch i n l c t0 t1)
  have "agree bits l a (p_net t)" if "a \<in> p_set t" "t = t0 \<or> t = t1" for t
    using PBranch that by (auto intro: agree_mono)
  moreover have "agree bits l (p_net t) n" if "t = t0 \<or> t = t1" for t using PBranch.prems that by auto
  ultimately show ?case using PBranch.prems(2) by (auto intro: agree_trans)
qed simp

lemma p_set_range: "p_ok bits t \<Longrightarrow> p_set t \<subseteq> {0 ..< 2 ^ nat bits}"
  by (induction t) auto

lemma p_net_range: "p_ok bits t \<Longrightarrow> 0 \<le> p_net t \<and> p_net t < 2 ^ nat bits"
  by (cases t) auto

lemma p_net_canonical: "p_ok bits t \<Longrightarrow> net_of bits (p_len bits t) (p_net t) = p_net t"
  by (cases t) auto

text \<open>The branch bit of an internal node separates its two children.\<close>

lemma p_side:
  assumes "p_ok bits (PBranch i n l c t0 t1)"
  shows "a \<in> p_set t0 \<Longrightarrow> \<not> msb bits l a" "a \<in> p_set t1 \<Longrightarrow> msb bits l a"
    "a \<in> p_set t0 \<union> p_set t1 \<Longrightarrow> agree bits l a n"
proof -
  show "a \<in> p_set t0 \<Longrightarrow> \<not> msb bits l a" "a \<in> p_set t1 \<Longrightarrow> msb bits l a"
    using assms p_set_agree[of bits t0 a] p_set_agree[of bits t1 a] agree_msb[of bits _ a _ l] by auto
  show "a \<in> p_set t0 \<union> p_set t1 \<Longrightarrow> agree bits l a n"
    using p_set_agree[OF assms, of a] by simp
qed

lemma p_disjoint: "p_ok bits (PBranch i n l c t0 t1) \<Longrightarrow> p_set t0 \<inter> p_set t1 = {}"
  using p_side by blast

lemma p_count_card: "p_ok bits t \<Longrightarrow> p_count t = int (card (p_set t))"
proof (induction t)
  case (PBranch i n l c t0 t1)
  then show ?case using p_disjoint[OF PBranch.prems] by (simp add: card_Un_disjoint)
qed simp

lemma p_count_pos: "p_ok bits t \<Longrightarrow> 0 < p_count t"
  by (simp add: p_count_card card_gt_0_iff)

section \<open>Counts\<close>

text \<open>A value that leaves the path inside the edge above a subtree has nothing of the subtree below.\<close>

lemma p_diverged:
  assumes "p_ok bits t" "m \<le> p_len bits t" "\<not> agree bits m (p_net t) v" "m \<le> l"
  shows "hot_below bits (p_set t) l v = 0"
proof -
  have "\<not> agree bits l a v" if "a \<in> p_set t" for a
    using p_set_agree[OF assms(1) that] assms agree_trans agree_mono agree_sym by meson
  then show ?thesis by (simp add: hot_below_def)
qed

lemma p_covered:
  assumes "p_ok bits t" "l \<le> p_len bits t" "agree bits l (p_net t) v"
  shows "hot_below bits (p_set t) l v = p_count t"
proof -
  have "{a \<in> p_set t. agree bits l a v} = p_set t"
    using p_set_agree[OF assms(1)] assms agree_trans agree_mono by blast
  then show ?thesis using p_count_card[OF assms(1)] by (simp add: hot_below_def)
qed

lemma p_descend:
  assumes "p_ok bits (PBranch i n l c t0 t1)" "l < k"
  shows "hot_below bits (p_set t0 \<union> p_set t1) k v = hot_below bits (p_set (p_child (msb bits l v) t0 t1)) k v"
proof -
  have l: "0 \<le> l" using assms(1) by simp
  have "agree bits k a v \<Longrightarrow> msb bits l a = msb bits l v" for a using l assms(2) by (intro agree_msb)
  then have "{a \<in> p_set t0 \<union> p_set t1. agree bits k a v} =
      {a \<in> p_set (p_child (msb bits l v) t0 t1). agree bits k a v}"
    using p_side[OF assms(1)] unfolding p_child_def by (cases "msb bits l v") auto
  then show ?thesis by (simp add: hot_below_def)
qed

lemma p_member_side:
  "p_ok bits (PBranch i n l c t0 t1) \<Longrightarrow> a \<in> p_set t0 \<union> p_set t1 \<longleftrightarrow> a \<in> p_set (p_child (msb bits l a) t0 t1)"
  using p_side[of bits i n l c t0 t1 a] unfolding p_child_def by auto

lemma p_child_ok: "p_ok bits (PBranch i n l c t0 t1) \<Longrightarrow> p_ok bits (p_child b t0 t1)"
  by (simp add: p_child_def)

section \<open>Insertion\<close>

text \<open>The nodes wholly above the new leaf, the subtree to split above, and the new tree; \<open>ii\<close> and
  \<open>li\<close> are the ids of the new internal node and the new leaf.\<close>

definition p_diverges :: "int \<Rightarrow> int \<Rightarrow> ptree \<Rightarrow> bool" where
  "p_diverges bits v t \<longleftrightarrow> \<not> agree bits (p_len bits t) (p_net t) v"

fun p_path :: "int \<Rightarrow> int \<Rightarrow> ptree \<Rightarrow> node_id list" where
  "p_path bits v (PLeaf i n) = []"
| "p_path bits v (PBranch i n l c t0 t1) =
     (if p_diverges bits v (PBranch i n l c t0 t1) then []
      else i # (if msb bits l v then p_path bits v t1 else p_path bits v t0))"

fun p_target :: "int \<Rightarrow> int \<Rightarrow> ptree \<Rightarrow> ptree" where
  "p_target bits v (PLeaf i n) = PLeaf i n"
| "p_target bits v (PBranch i n l c t0 t1) =
     (if p_diverges bits v (PBranch i n l c t0 t1) then PBranch i n l c t0 t1
      else if msb bits l v then p_target bits v t1 else p_target bits v t0)"

definition p_split :: "int \<Rightarrow> int \<Rightarrow> node_id \<Rightarrow> node_id \<Rightarrow> ptree \<Rightarrow> ptree" where
  "p_split bits v ii li t =
     (let common = cpl bits (p_net t) v; leaf = PLeaf li v in
      PBranch ii (net_of bits common v) common (p_count t + 1)
        (if msb bits common v then t else leaf) (if msb bits common v then leaf else t))"

fun p_insert :: "int \<Rightarrow> int \<Rightarrow> node_id \<Rightarrow> node_id \<Rightarrow> ptree \<Rightarrow> ptree" where
  "p_insert bits v ii li (PLeaf i n) = p_split bits v ii li (PLeaf i n)"
| "p_insert bits v ii li (PBranch i n l c t0 t1) =
     (if p_diverges bits v (PBranch i n l c t0 t1) then p_split bits v ii li (PBranch i n l c t0 t1)
      else if msb bits l v then PBranch i n l (c + 1) t0 (p_insert bits v ii li t1)
      else PBranch i n l (c + 1) (p_insert bits v ii li t0) t1)"

lemma p_split_ok:
  assumes "p_ok bits t" "0 \<le> bits" "0 \<le> v" "v < 2 ^ nat bits" "p_diverges bits v t"
    "k \<le> p_len bits t" "agree bits k (p_net t) v" "0 \<le> k"
  shows "p_ok bits (p_split bits v ii li t)" "k \<le> p_len bits (p_split bits v ii li t)"
    "agree bits k (p_net (p_split bits v ii li t)) v" "p_set (p_split bits v ii li t) = insert v (p_set t)"
    "p_count (p_split bits v ii li t) = p_count t + 1"
proof -
  let ?c = "cpl bits (p_net t) v"
  have L: "0 \<le> p_len bits t" "p_len bits t \<le> bits" using p_len_bounds[OF assms(1,2)] by auto
  have c0: "0 \<le> ?c" "?c \<le> bits" using assms(2) by simp_all
  have lt: "?c < p_len bits t"
    using assms(5) cpl_ge_iff[OF L, of "p_net t" v] by (auto simp: p_diverges_def)
  have ag: "agree bits ?c (p_net t) v" using cpl_ge_iff[of ?c bits "p_net t" v] c0 by simp
  have "\<not> agree bits (?c + 1) (p_net t) v"
    using cpl_ge_iff[of "?c + 1" bits "p_net t" v] c0 lt L by simp
  then have df: "msb bits ?c (p_net t) \<noteq> msb bits ?c v" using ag c0 by (simp add: agree_Suc)
  have ck: "k \<le> ?c" using cpl_ge_iff[of k bits "p_net t" v] assms L by simp
  have net: "agree bits ?c (net_of bits ?c v) v" "agree bits ?c v (net_of bits ?c v)"
    "agree bits ?c (p_net t) (net_of bits ?c v)"
    using c0 ag by (auto intro: agree_trans)
  have rng: "0 \<le> net_of bits ?c v \<and> net_of bits ?c v < 2 ^ nat bits"
    using net_of_le[OF assms(3), of bits ?c] assms(4) by linarith
  show "p_ok bits (p_split bits v ii li t)"
    using assms lt L c0 df net rng by (auto simp: p_split_def Let_def net_of_net_of)
  show "k \<le> p_len bits (p_split bits v ii li t)" using ck by (simp add: p_split_def Let_def)
  show "agree bits k (p_net (p_split bits v ii li t)) v"
    using net ck by (auto simp: p_split_def Let_def intro: agree_mono)
qed (auto simp: p_split_def Let_def)

lemma p_insert_ok:
  assumes "p_ok bits t" "0 \<le> bits" "0 \<le> v" "v < 2 ^ nat bits" "v \<notin> p_set t"
    "k \<le> p_len bits t" "agree bits k (p_net t) v" "0 \<le> k"
  shows "p_ok bits (p_insert bits v ii li t) \<and> k \<le> p_len bits (p_insert bits v ii li t) \<and>
    agree bits k (p_net (p_insert bits v ii li t)) v \<and>
    p_set (p_insert bits v ii li t) = insert v (p_set t) \<and> p_count (p_insert bits v ii li t) = p_count t + 1"
  using assms
proof (induction t arbitrary: k)
  case (PLeaf i n)
  have "p_diverges bits v (PLeaf i n)"
    using PLeaf.prems agree_bits_eq[of n bits v] by (auto simp: p_diverges_def)
  then show ?case using p_split_ok[OF PLeaf.prems(1-4) _ PLeaf.prems(6-8)] by simp
next
  case (PBranch i n l c t0 t1)
  show ?case
  proof (cases "p_diverges bits v (PBranch i n l c t0 t1)")
    case True
    then show ?thesis using p_split_ok[OF PBranch.prems(1-4) _ PBranch.prems(6-8)] by simp
  next
    case False
    then have nv: "agree bits l n v" by (simp add: p_diverges_def)
    have l: "0 \<le> l" "l < bits" using PBranch.prems(1) by auto
    have ext: "agree bits (l + 1) (p_net t) v"
      if "agree bits l (p_net t) n" "msb bits l (p_net t) = msb bits l v" for t
      using that nv l by (auto simp: agree_Suc intro: agree_trans)
    have up: "agree bits l x n \<and> msb bits l x = msb bits l v" if "agree bits (l + 1) x v" for x
      using that nv l by (auto simp: agree_Suc intro: agree_trans agree_sym)
    show ?thesis
    proof (cases "msb bits l v")
      case True
      have "p_ok bits (p_insert bits v ii li t1) \<and> l + 1 \<le> p_len bits (p_insert bits v ii li t1) \<and>
          agree bits (l + 1) (p_net (p_insert bits v ii li t1)) v \<and>
          p_set (p_insert bits v ii li t1) = insert v (p_set t1) \<and>
          p_count (p_insert bits v ii li t1) = p_count t1 + 1"
        using PBranch.prems True l ext[of t1] by (intro PBranch.IH(2)) auto
      then show ?thesis
        using True False PBranch.prems(1,6,7) up[of "p_net (p_insert bits v ii li t1)"] by simp
    next
      case low: False
      have "p_ok bits (p_insert bits v ii li t0) \<and> l + 1 \<le> p_len bits (p_insert bits v ii li t0) \<and>
          agree bits (l + 1) (p_net (p_insert bits v ii li t0)) v \<and>
          p_set (p_insert bits v ii li t0) = insert v (p_set t0) \<and>
          p_count (p_insert bits v ii li t0) = p_count t0 + 1"
        using PBranch.prems low l ext[of t0] by (intro PBranch.IH(1)) auto
      then show ?thesis
        using low False PBranch.prems(1,6,7) up[of "p_net (p_insert bits v ii li t0)"] by simp
    qed
  qed
qed

lemma p_insert_ids: "set (p_ids (p_insert bits v ii li t)) = insert ii (insert li (set (p_ids t)))"
  by (induction t) (auto simp: p_split_def Let_def)

lemma p_insert_distinct:
  "distinct (p_ids t) \<Longrightarrow> ii \<notin> set (p_ids t) \<Longrightarrow> li \<notin> set (p_ids t) \<Longrightarrow> ii \<noteq> li \<Longrightarrow>
   distinct (p_ids (p_insert bits v ii li t))"
  by (induction t) (auto simp: p_split_def Let_def p_insert_ids)

lemma p_path_ids: "set (p_path bits v t) \<subseteq> set (p_ids t)"
  by (induction t) auto

section \<open>Deletion\<close>

fun p_is_leaf :: "ptree \<Rightarrow> bool" where
  "p_is_leaf (PLeaf i v) = True"
| "p_is_leaf (PBranch i n l c t0 t1) = False"

text \<open>The path of \<open>remove_hot_ip\<close>, root to leaf, and the tree with the leaf and its parent collapsed
  into the sibling.\<close>

fun p_trail :: "int \<Rightarrow> int \<Rightarrow> ptree \<Rightarrow> node_id list" where
  "p_trail bits v (PLeaf i n) = [i]"
| "p_trail bits v (PBranch i n l c t0 t1) =
     i # (if msb bits l v then p_trail bits v t1 else p_trail bits v t0)"

fun p_delete :: "int \<Rightarrow> int \<Rightarrow> ptree \<Rightarrow> ptree" where
  "p_delete bits v (PLeaf i n) = PLeaf i n"
| "p_delete bits v (PBranch i n l c t0 t1) =
     (if msb bits l v then
        (if p_is_leaf t1 then t0 else PBranch i n l (c - 1) t0 (p_delete bits v t1))
      else
        (if p_is_leaf t0 then t1 else PBranch i n l (c - 1) (p_delete bits v t0) t1))"

lemma p_leaf_set: "p_is_leaf t \<Longrightarrow> v \<in> p_set t \<Longrightarrow> p_set t = {v} \<and> p_count t = 1"
  by (cases t) auto

lemma p_delete_ok:
  assumes "p_ok bits t" "v \<in> p_set t" "\<not> p_is_leaf t" "0 \<le> bits"
  shows "p_ok bits (p_delete bits v t) \<and> p_len bits t \<le> p_len bits (p_delete bits v t) \<and>
    agree bits (p_len bits t) (p_net (p_delete bits v t)) (p_net t) \<and>
    p_set (p_delete bits v t) = p_set t - {v} \<and> p_count (p_delete bits v t) = p_count t - 1"
  using assms
proof (induction t)
  case (PBranch i n l c t0 t1)
  note side = p_side[OF PBranch.prems(1)]
  have l: "0 \<le> l" "l < bits" using PBranch.prems(1) by auto
  have keep: "agree bits l x n \<and> msb bits l x = msb bits l (p_net t)"
    if "agree bits (p_len bits t) x (p_net t)" "l < p_len bits t" "agree bits l (p_net t) n" for x t
    using that l by (meson agree_mono agree_trans agree_msb order_less_imp_le)
  show ?case
  proof (cases "msb bits l v")
    case True
    then have v: "v \<in> p_set t1" "v \<notin> p_set t0" using side PBranch.prems(2) by auto
    show ?thesis
    proof (cases "p_is_leaf t1")
      case leaf: True
      then show ?thesis using True PBranch.prems v p_leaf_set[OF leaf v(1)] by auto
    next
      case False
      then have "p_ok bits (p_delete bits v t1) \<and> p_len bits t1 \<le> p_len bits (p_delete bits v t1) \<and>
          agree bits (p_len bits t1) (p_net (p_delete bits v t1)) (p_net t1) \<and>
          p_set (p_delete bits v t1) = p_set t1 - {v} \<and> p_count (p_delete bits v t1) = p_count t1 - 1"
        using PBranch v by auto
      then show ?thesis using True False PBranch.prems v keep[of t1] by auto
    qed
  next
    case low: False
    then have v: "v \<in> p_set t0" "v \<notin> p_set t1" using side PBranch.prems(2) by auto
    show ?thesis
    proof (cases "p_is_leaf t0")
      case leaf: True
      then show ?thesis using low PBranch.prems v p_leaf_set[OF leaf v(1)] by auto
    next
      case False
      then have "p_ok bits (p_delete bits v t0) \<and> p_len bits t0 \<le> p_len bits (p_delete bits v t0) \<and>
          agree bits (p_len bits t0) (p_net (p_delete bits v t0)) (p_net t0) \<and>
          p_set (p_delete bits v t0) = p_set t0 - {v} \<and> p_count (p_delete bits v t0) = p_count t0 - 1"
        using PBranch v by auto
      then show ?thesis using low False PBranch.prems v keep[of t0] by auto
    qed
  qed
qed simp

end
