(* ===== verification/Node_Arena.thy ===== *)
theory Node_Arena
  imports Hot_Trie
begin

text \<open>
  The Patricia trie's storage, \<open>hammertime.trie.structure.arena\<close>: parallel Python lists indexed
  by node id and a LIFO free list. The lists are modelled as they are, with Python's indexing.
  The lemmas show that under \<open>arena_ok\<close> the arena is a finite map from the live ids to node slots:
  \<open>allocate\<close> adds a fresh id, \<open>release\<close> deletes one, a field assignment updates one slot, and
  the free list holds exactly the dead slots, each once.
\<close>

section \<open>State and operations\<close>

record node_arena =
  ar_network :: "int list"
  ar_length :: "int list"
  ar_hot_count :: "int list"
  ar_child :: "node_id list"
  ar_free_ids :: "node_id list"

definition arena_new :: node_arena where
  "arena_new = \<lparr>ar_network = [], ar_length = [], ar_hot_count = [], ar_child = [], ar_free_ids = []\<rparr>"

text \<open>Assignments to the storage lists: \<open>arena.network[i] = v\<close> and the like.\<close>

definition arena_set_network :: "int \<Rightarrow> int \<Rightarrow> (node_arena, unit) action" where
  "arena_set_network i v = writeS (\<lambda>ar. bindE (py_set (ar_network ar) i v) (\<lambda>l. Inr (ar\<lparr>ar_network := l\<rparr>)))"

definition arena_set_length :: "int \<Rightarrow> int \<Rightarrow> (node_arena, unit) action" where
  "arena_set_length i v = writeS (\<lambda>ar. bindE (py_set (ar_length ar) i v) (\<lambda>l. Inr (ar\<lparr>ar_length := l\<rparr>)))"

definition arena_set_hot :: "int \<Rightarrow> int \<Rightarrow> (node_arena, unit) action" where
  "arena_set_hot i v = writeS (\<lambda>ar. bindE (py_set (ar_hot_count ar) i v) (\<lambda>l. Inr (ar\<lparr>ar_hot_count := l\<rparr>)))"

definition arena_set_child :: "int \<Rightarrow> node_id \<Rightarrow> (node_arena, unit) action" where
  "arena_set_child i v = writeS (\<lambda>ar. bindE (py_set (ar_child ar) i v) (\<lambda>l. Inr (ar\<lparr>ar_child := l\<rparr>)))"

definition arena_is_live :: "node_arena \<Rightarrow> node_id \<Rightarrow> bool" where
  "arena_is_live ar i \<longleftrightarrow> 0 \<le> i \<and> i < int (length (ar_length ar)) \<and> 0 \<le> ar_length ar ! nat i"

definition arena_allocate :: "int \<Rightarrow> int \<Rightarrow> int \<Rightarrow> (node_arena, node_id) action" where
  "arena_allocate network len hot =
     bindS (readS (\<lambda>_. guardE (\<not> len < 0) ValueError)) (\<lambda>_.
     bindS (readS (\<lambda>ar. Inr (ar_free_ids ar))) (\<lambda>free.
       if free \<noteq> [] then
         (let i = last free in
          bindS (writeS (\<lambda>ar. Inr (ar\<lparr>ar_free_ids := butlast free\<rparr>))) (\<lambda>_.
          bindS (arena_set_network i network) (\<lambda>_.
          bindS (arena_set_length i len) (\<lambda>_.
          bindS (arena_set_hot i hot) (\<lambda>_.
          bindS (arena_set_child (2 * i) NO_NODE) (\<lambda>_.
          bindS (arena_set_child (2 * i + 1) NO_NODE) (\<lambda>_. returnS i)))))))
       else
         bindS (readS (\<lambda>ar. Inr (int (length (ar_length ar))))) (\<lambda>i.
         bindS (writeS (\<lambda>ar. Inr \<lparr>ar_network = ar_network ar @ [network], ar_length = ar_length ar @ [len],
                   ar_hot_count = ar_hot_count ar @ [hot], ar_child = ar_child ar @ [NO_NODE] @ [NO_NODE],
                   ar_free_ids = ar_free_ids ar\<rparr>)) (\<lambda>_. returnS i))))"

definition arena_release :: "node_id \<Rightarrow> (node_arena, unit) action" where
  "arena_release i =
     bindS (readS (\<lambda>ar. guardE (arena_is_live ar i) ValueError)) (\<lambda>_.
     bindS (arena_set_length i (- 1)) (\<lambda>_.
       writeS (\<lambda>ar. Inr (ar\<lparr>ar_free_ids := ar_free_ids ar @ [i]\<rparr>))))"

definition arena_clear :: "node_arena \<Rightarrow> node_arena" where
  "arena_clear ar = ar\<lparr>ar_network := [], ar_length := [], ar_hot_count := [], ar_child := [], ar_free_ids := []\<rparr>"

definition arena_live_count :: "node_arena \<Rightarrow> int" where
  "arena_live_count ar = int (length (ar_length ar)) - int (length (ar_free_ids ar))"

definition arena_capacity :: "node_arena \<Rightarrow> int" where
  "arena_capacity ar = int (length (ar_length ar))"

definition arena_free_count :: "node_arena \<Rightarrow> int" where
  "arena_free_count ar = int (length (ar_free_ids ar))"

section \<open>Invariant and abstraction\<close>

record node_slot =
  sl_network :: int
  sl_length :: int
  sl_hot :: int
  sl_child0 :: node_id
  sl_child1 :: node_id

text \<open>Amendment 2, A11: the free list is exactly the dead slots, no id listed twice.\<close>

definition arena_ok :: "node_arena \<Rightarrow> bool" where
  "arena_ok ar \<longleftrightarrow>
     length (ar_network ar) = length (ar_length ar) \<and> length (ar_hot_count ar) = length (ar_length ar) \<and>
     length (ar_child ar) = 2 * length (ar_length ar) \<and> distinct (ar_free_ids ar) \<and>
     set (ar_free_ids ar) = {i. 0 \<le> i \<and> i < int (length (ar_length ar)) \<and> ar_length ar ! nat i < 0}"

definition arena_sized :: "node_arena \<Rightarrow> bool" where
  "arena_sized ar \<longleftrightarrow> length (ar_network ar) = length (ar_length ar) \<and>
     length (ar_hot_count ar) = length (ar_length ar) \<and> length (ar_child ar) = 2 * length (ar_length ar)"

lemma arena_ok_sized: "arena_ok ar \<Longrightarrow> arena_sized ar"
  by (simp add: arena_ok_def arena_sized_def)

definition arena_map :: "node_arena \<Rightarrow> node_id \<rightharpoonup> node_slot" where
  "arena_map ar i =
     (if arena_is_live ar i
      then Some \<lparr>sl_network = ar_network ar ! nat i, sl_length = ar_length ar ! nat i,
                 sl_hot = ar_hot_count ar ! nat i, sl_child0 = ar_child ar ! (2 * nat i),
                 sl_child1 = ar_child ar ! (2 * nat i + 1)\<rparr>
      else None)"

definition sl_child :: "bool \<Rightarrow> node_slot \<Rightarrow> node_id" where
  "sl_child b s = (if b then sl_child1 s else sl_child0 s)"

definition sl_set_child :: "bool \<Rightarrow> node_id \<Rightarrow> node_slot \<Rightarrow> node_slot" where
  "sl_set_child b c s = (if b then s\<lparr>sl_child1 := c\<rparr> else s\<lparr>sl_child0 := c\<rparr>)"

lemma arena_map_live: "arena_map ar i = Some s \<Longrightarrow> arena_is_live ar i"
  by (auto simp: arena_map_def split: if_splits)

lemma arena_map_slot:
  "arena_map ar i = Some s \<Longrightarrow>
   s = \<lparr>sl_network = ar_network ar ! nat i, sl_length = ar_length ar ! nat i,
        sl_hot = ar_hot_count ar ! nat i, sl_child0 = ar_child ar ! (2 * nat i),
        sl_child1 = ar_child ar ! (2 * nat i + 1)\<rparr>"
  by (auto simp: arena_map_def split: if_splits)

lemma arena_map_None_iff: "arena_map ar i = None \<longleftrightarrow> \<not> arena_is_live ar i"
  by (simp add: arena_map_def)

lemma arena_map_nonneg: "arena_map ar i = Some s \<Longrightarrow> 0 \<le> i \<and> i < int (length (ar_length ar))"
  using arena_map_live[of ar i s] by (simp add: arena_is_live_def)

lemma arena_map_NO_NODE [simp]: "arena_map ar NO_NODE = None"
  by (simp add: arena_map_def arena_is_live_def NO_NODE_def)

lemma finite_dom_arena_map [simp]: "finite (dom (arena_map ar))"
  by (rule finite_subset[of _ "{0 ..< int (length (ar_length ar))}"]) (auto dest: arena_map_nonneg)

lemma arena_reads_sized:
  assumes "arena_sized ar" "arena_map ar i = Some s"
  shows "py_get (ar_network ar) i = Inr (sl_network s)" "py_get (ar_length ar) i = Inr (sl_length s)"
    "py_get (ar_hot_count ar) i = Inr (sl_hot s)"
    "py_get (ar_child ar) (2 * i + of_bool b) = Inr (sl_child b s)"
    "py_get (ar_child ar) (2 * i) = Inr (sl_child0 s)"
    "py_get (ar_child ar) (2 * i + 1) = Inr (sl_child1 s)"
    "py_get (ar_child ar) (2 * i + 1 - of_bool b) = Inr (sl_child (\<not> b) s)"
proof -
  have i: "0 \<le> i" "i < int (length (ar_length ar))"
    and s: "s = \<lparr>sl_network = ar_network ar ! nat i, sl_length = ar_length ar ! nat i,
                 sl_hot = ar_hot_count ar ! nat i, sl_child0 = ar_child ar ! (2 * nat i),
                 sl_child1 = ar_child ar ! (2 * nat i + 1)\<rparr>"
    using assms(2) by (auto simp: arena_map_def arena_is_live_def split: if_splits)
  have n: "nat (2 * i) = 2 * nat i" "nat (2 * i + 1) = 2 * nat i + 1" using i by linarith+
  show "py_get (ar_network ar) i = Inr (sl_network s)" "py_get (ar_length ar) i = Inr (sl_length s)"
    "py_get (ar_hot_count ar) i = Inr (sl_hot s)"
    using assms(1) i s by (simp_all add: arena_sized_def)
  show c: "py_get (ar_child ar) (2 * i + of_bool b) = Inr (sl_child b s)" for b
    using assms(1) i s n by (simp add: arena_sized_def sl_child_def)
  show "py_get (ar_child ar) (2 * i) = Inr (sl_child0 s)" "py_get (ar_child ar) (2 * i + 1) = Inr (sl_child1 s)"
    using c[of False] c[of True] by (simp_all add: sl_child_def)
  show "py_get (ar_child ar) (2 * i + 1 - of_bool b) = Inr (sl_child (\<not> b) s)"
    using c[of "\<not> b"] by (cases b) simp_all
qed

lemma arena_reads:
  assumes "arena_ok ar" "arena_map ar i = Some s"
  shows "py_get (ar_network ar) i = Inr (sl_network s)" "py_get (ar_length ar) i = Inr (sl_length s)"
    "py_get (ar_hot_count ar) i = Inr (sl_hot s)"
    "py_get (ar_child ar) (2 * i + of_bool b) = Inr (sl_child b s)"
    "py_get (ar_child ar) (2 * i) = Inr (sl_child0 s)"
    "py_get (ar_child ar) (2 * i + 1) = Inr (sl_child1 s)"
    "py_get (ar_child ar) (2 * i + 1 - of_bool b) = Inr (sl_child (\<not> b) s)"
  using arena_reads_sized[OF arena_ok_sized[OF assms(1)] assms(2)] by blast+

lemma arena_set_hot_ok:
  assumes "arena_ok ar" "arena_map ar i = Some s"
  shows "\<exists>ar'. arena_set_hot i v ar = (Inr (), ar') \<and> arena_ok ar' \<and>
    arena_map ar' = (arena_map ar)(i \<mapsto> s\<lparr>sl_hot := v\<rparr>)"
proof -
  have i: "0 \<le> i" "i < int (length (ar_length ar))" using arena_map_nonneg[OF assms(2)] by auto
  let ?ar = "ar\<lparr>ar_hot_count := (ar_hot_count ar)[nat i := v]\<rparr>"
  have "arena_set_hot i v ar = (Inr (), ?ar)"
    using assms(1) i by (simp add: arena_set_hot_def writeS_def arena_ok_def)
  moreover have "arena_ok ?ar" using assms(1) by (simp add: arena_ok_def)
  moreover have "arena_map ?ar j = ((arena_map ar)(i \<mapsto> s\<lparr>sl_hot := v\<rparr>)) j" for j
  proof (cases "j = i")
    case True
    have "arena_is_live ?ar i" using arena_map_live[OF assms(2)] by (simp add: arena_is_live_def)
    moreover have "nat i < length (ar_hot_count ar)" using assms(1) i by (simp add: arena_ok_def)
    ultimately show ?thesis using True arena_map_slot[OF assms(2)] by (simp add: arena_map_def)
  next
    case False
    then have "0 \<le> j \<Longrightarrow> nat i \<noteq> nat j" using i by linarith
    with False show ?thesis by (simp add: arena_map_def arena_is_live_def)
  qed
  ultimately show ?thesis by blast
qed

lemma nat_double: "0 \<le> (i::int) \<Longrightarrow> nat (2 * i + of_bool b) = 2 * nat i + of_bool b"
  by (cases b) auto

lemma arena_set_child_ok:
  assumes "arena_ok ar" "arena_map ar i = Some s"
  shows "\<exists>ar'. arena_set_child (2 * i + of_bool b) v ar = (Inr (), ar') \<and> arena_ok ar' \<and>
    arena_map ar' = (arena_map ar)(i \<mapsto> sl_set_child b v s)"
proof -
  have i: "0 \<le> i" "i < int (length (ar_length ar))" using arena_map_nonneg[OF assms(2)] by auto
  let ?ar = "ar\<lparr>ar_child := (ar_child ar)[2 * nat i + of_bool b := v]\<rparr>"
  have "arena_set_child (2 * i + of_bool b) v ar = (Inr (), ?ar)"
    using assms(1) i nat_double[OF i(1), of b]
    by (cases b) (simp_all add: arena_set_child_def writeS_def arena_ok_def)
  moreover have "arena_ok ?ar" using assms(1) by (simp add: arena_ok_def)
  moreover have "arena_map ?ar j = ((arena_map ar)(i \<mapsto> sl_set_child b v s)) j" for j
  proof -
    have lv: "arena_is_live ?ar j = arena_is_live ar j" by (simp add: arena_is_live_def)
    have ne: "2 * nat j \<noteq> Suc (2 * nat i)" "Suc (2 * nat j) \<noteq> 2 * nat i"
      using double_not_eq_Suc_double Suc_double_not_eq_double by blast+
    show ?thesis
    proof (cases "j = i")
      case True
      have "2 * nat i + of_bool b < length (ar_child ar)" using assms(1) i by (cases b) (simp_all add: arena_ok_def)
      then show ?thesis
        using True arena_map_live[OF assms(2)] arena_map_slot[OF assms(2)] lv
        by (cases b) (simp_all add: arena_map_def sl_set_child_def)
    next
      case False
      then have "0 \<le> j \<Longrightarrow> nat i \<noteq> nat j" using i by linarith
      then have "arena_is_live ar j \<Longrightarrow> nat i \<noteq> nat j" by (simp add: arena_is_live_def)
      with False lv ne ne[symmetric] show ?thesis by (cases b) (auto simp: arena_map_def)
    qed
  qed
  ultimately show ?thesis by blast
qed

lemma arena_release_ok:
  assumes "arena_ok ar" "arena_map ar i = Some s"
  shows "\<exists>ar'. arena_release i ar = (Inr (), ar') \<and> arena_ok ar' \<and> arena_map ar' = (arena_map ar)(i := None)"
proof -
  have lv: "arena_is_live ar i" using arena_map_live[OF assms(2)] .
  then have i: "0 \<le> i" "i < int (length (ar_length ar))" "0 \<le> ar_length ar ! nat i"
    by (simp_all add: arena_is_live_def)
  let ?ar = "ar\<lparr>ar_length := (ar_length ar)[nat i := -1], ar_free_ids := ar_free_ids ar @ [i]\<rparr>"
  have "arena_release i ar = (Inr (), ?ar)"
    using lv i by (simp add: arena_release_def bindS_def arena_set_length_def writeS_def)
  moreover have "arena_ok ?ar"
    using assms(1) i by (auto simp: arena_ok_def nth_list_update nat_eq_iff)
  moreover have "arena_map ?ar j = ((arena_map ar)(i := None)) j" for j
    using i by (auto simp: arena_map_def arena_is_live_def nth_list_update nat_eq_iff)
  ultimately show ?thesis by blast
qed

lemma arena_allocate_ok:
  assumes "arena_ok ar" "0 \<le> len"
  shows "\<exists>i ar'. arena_allocate network len hot ar = (Inr i, ar') \<and> arena_ok ar' \<and>
    0 \<le> i \<and> arena_map ar i = None \<and>
    arena_map ar' = (arena_map ar)(i \<mapsto> \<lparr>sl_network = network, sl_length = len, sl_hot = hot,
      sl_child0 = NO_NODE, sl_child1 = NO_NODE\<rparr>)"
proof (cases "ar_free_ids ar = []")
  case True
  let ?n = "length (ar_length ar)"
  let ?ar = "\<lparr>ar_network = ar_network ar @ [network], ar_length = ar_length ar @ [len],
     ar_hot_count = ar_hot_count ar @ [hot], ar_child = ar_child ar @ [NO_NODE, NO_NODE],
     ar_free_ids = ar_free_ids ar\<rparr>"
  have "arena_allocate network len hot ar = (Inr (int ?n), ?ar)"
    using True assms(2) by (simp add: arena_allocate_def bindS_def writeS_def)
  moreover have "arena_ok ?ar"
    using assms True by (auto simp: arena_ok_def nth_append split: if_splits)
  moreover have "arena_map ar (int ?n) = None" by (simp add: arena_map_def arena_is_live_def)
  moreover have "arena_map ?ar j = ((arena_map ar)(int ?n \<mapsto> \<lparr>sl_network = network, sl_length = len,
      sl_hot = hot, sl_child0 = NO_NODE, sl_child1 = NO_NODE\<rparr>)) j" for j
  proof (cases "j = int ?n")
    case True
    then show ?thesis using assms by (simp add: arena_map_def arena_is_live_def arena_ok_def nth_append)
  next
    case False
    have "arena_is_live ?ar j = arena_is_live ar j"
      using False by (auto simp: arena_is_live_def nth_append nat_less_iff)
    moreover have "arena_is_live ar j \<Longrightarrow> nat j < ?n" by (auto simp: arena_is_live_def nat_less_iff)
    moreover have "length (ar_network ar) = ?n" "length (ar_hot_count ar) = ?n" "length (ar_child ar) = 2 * ?n"
      using assms(1) by (simp_all add: arena_ok_def)
    ultimately show ?thesis
      using False by (cases "arena_is_live ar j") (auto simp: arena_map_def nth_append)
  qed
  ultimately show ?thesis by fastforce
next
  case False
  then obtain ys k where free: "ar_free_ids ar = ys @ [k]" by (metis rev_exhaust)
  let ?n = "length (ar_length ar)"
  let ?ar = "\<lparr>ar_network = (ar_network ar)[nat k := network], ar_length = (ar_length ar)[nat k := len],
     ar_hot_count = (ar_hot_count ar)[nat k := hot],
     ar_child = (ar_child ar)[2 * nat k := NO_NODE, 2 * nat k + 1 := NO_NODE],
     ar_free_ids = ys\<rparr>"
  have i: "0 \<le> k" "k < int ?n" "ar_length ar ! nat k < 0"
    using assms(1) free unfolding arena_ok_def by auto
  have n: "nat (2 * k) = 2 * nat k" "nat (2 * k + 1) = 2 * nat k + 1" using i by linarith+
  have "arena_allocate network len hot ar = (Inr k, ?ar)"
    using free assms i n by (simp add: arena_allocate_def bindS_def writeS_def arena_set_network_def
        arena_set_length_def arena_set_hot_def arena_set_child_def arena_ok_def Let_def)
  moreover have "arena_ok ?ar"
  proof -
    have d: "distinct (ys)" "k \<notin> set (ys)"
      and fs: "insert k (set (ys)) =
        {j. 0 \<le> j \<and> j < int ?n \<and> ar_length ar ! nat j < 0}"
      using assms(1) free unfolding arena_ok_def by simp_all
    have "set (ys) = {j. 0 \<le> j \<and> j < int ?n \<and> ar_length ar ! nat j < 0} - {k}"
      using d fs by blast
    also have "\<dots> = {j. 0 \<le> j \<and> j < int ?n \<and> (ar_length ar)[nat k := len] ! nat j < 0}"
      using i assms(2) by (auto simp: nth_list_update nat_eq_iff)
    finally show ?thesis using assms(1) d by (simp add: arena_ok_def)
  qed
  moreover have "arena_map ar k = None" using i by (simp add: arena_map_def arena_is_live_def)
  moreover have "arena_map ?ar j = ((arena_map ar)(k \<mapsto> \<lparr>sl_network = network, sl_length = len,
      sl_hot = hot, sl_child0 = NO_NODE, sl_child1 = NO_NODE\<rparr>)) j" for j
  proof (cases "j = k")
    case True
    then show ?thesis using assms i by (simp add: arena_map_def arena_is_live_def arena_ok_def)
  next
    case False
    have "2 * nat j \<noteq> Suc (2 * nat k)" "Suc (2 * nat j) \<noteq> 2 * nat k"
      using double_not_eq_Suc_double Suc_double_not_eq_double by blast+
    moreover have "0 \<le> j \<Longrightarrow> nat k \<noteq> nat j" using False i by linarith
    ultimately show ?thesis
      using False by (cases "0 \<le> j") (simp_all add: arena_map_def arena_is_live_def)
  qed
  ultimately show ?thesis using i by fastforce
qed

lemma arena_new_ok [simp]: "arena_ok arena_new" "arena_map arena_new = Map.empty"
  by (auto simp: arena_ok_def arena_new_def arena_map_def arena_is_live_def)

lemma arena_clear_ok [simp]: "arena_clear ar = arena_new"
  by (simp add: arena_clear_def arena_new_def)

lemma arena_live_count_card:
  assumes "arena_ok ar"
  shows "arena_live_count ar = int (card (dom (arena_map ar)))"
proof -
  let ?n = "length (ar_length ar)"
  let ?dead = "{i. 0 \<le> i \<and> i < int ?n \<and> ar_length ar ! nat i < 0}"
  have dom: "dom (arena_map ar) = {i. 0 \<le> i \<and> i < int ?n \<and> 0 \<le> ar_length ar ! nat i}"
    by (auto simp: arena_map_def arena_is_live_def split: if_splits)
  have fin: "finite ?dead" by (rule finite_subset[of _ "{0 ..< int ?n}"]) auto
  have "{0 ..< int ?n} = dom (arena_map ar) \<union> ?dead" unfolding dom by auto
  then have "card {0 ..< int ?n} = card (dom (arena_map ar)) + card ?dead"
  proof -
    have "dom (arena_map ar) \<inter> ?dead = {}" unfolding dom by auto
    with fin \<open>{0 ..< int ?n} = _\<close> show ?thesis by (simp only: card_Un_disjoint finite_dom_arena_map)
  qed
  moreover have "card ?dead = length (ar_free_ids ar)"
    using assms by (metis arena_ok_def distinct_card)
  ultimately show ?thesis by (simp add: arena_live_count_def)
qed

end
