(* ===== verification/Patricia_Trie.thy ===== *)
theory Patricia_Trie
  imports Node_Arena
begin

text \<open>
  The production representation, \<open>hammertime.trie.structure.patricia\<close>: a path-compressed trie
  whose nodes live in a \<open>NodeArena\<close>. The walks follow child links through the arena, which nothing
  in the data type keeps acyclic, so each is a \<^theory_text>\<open>partial_function (option)\<close> and \<open>None\<close> is a walk
  that does not return. A mutator returns its result and the state the trie is left in.
\<close>

section \<open>State\<close>

record patricia =
  pt_family :: family
  pt_arena :: node_arena
  pt_root :: node_id

definition pt_new :: "family \<Rightarrow> patricia" where
  "pt_new f = \<lparr>pt_family = f, pt_arena = arena_new, pt_root = NO_NODE\<rparr>"

definition pt_bit_length :: "patricia \<Rightarrow> int" where
  "pt_bit_length pt = bit_length (pt_family pt)"

definition pt_hot_ip_count :: "patricia \<Rightarrow> int result" where
  "pt_hot_ip_count pt =
     (if pt_root pt = NO_NODE then Inr 0 else py_get (ar_hot_count (pt_arena pt)) (pt_root pt))"

definition pt_node_count :: "patricia \<Rightarrow> int" where
  "pt_node_count pt = arena_live_count (pt_arena pt)"

section \<open>Helpers\<close>

definition pt_check_family :: "patricia \<Rightarrow> family \<Rightarrow> unit result" where
  "pt_check_family pt f = guardE (f = pt_family pt) ValueError"

definition pt_check_min_length :: "patricia \<Rightarrow> int \<Rightarrow> unit result" where
  "pt_check_min_length pt m = guardE (0 \<le> m \<and> m \<le> pt_bit_length pt) ValueError"

definition pt_prefix_of :: "patricia \<Rightarrow> int \<Rightarrow> int \<Rightarrow> prefix result" where
  "pt_prefix_of pt v len =
     (let host_bits = pt_bit_length pt - len in
      bindE (py_shr v host_bits) (\<lambda>x. bindE (py_shl x host_bits) (\<lambda>n. mk_prefix (pt_family pt) n len)))"

definition pt_node_prefix :: "patricia \<Rightarrow> node_id \<Rightarrow> prefix result" where
  "pt_node_prefix pt nid =
     bindE (py_get (ar_network (pt_arena pt)) nid) (\<lambda>n.
     bindE (py_get (ar_length (pt_arena pt)) nid) (\<lambda>l. mk_prefix (pt_family pt) n l))"

text \<open>Run an operation of the arena on the trie's arena.\<close>

definition on_arena :: "(node_arena, 'a) action \<Rightarrow> (patricia, 'a) action" where
  "on_arena m pt = (case m (pt_arena pt) of (r, ar) \<Rightarrow> (r, pt\<lparr>pt_arena := ar\<rparr>))"

definition pt_set_root :: "node_id \<Rightarrow> (patricia, unit) action" where
  "pt_set_root nid = writeS (\<lambda>pt. Inr (pt\<lparr>pt_root := nid\<rparr>))"

definition pt_relink :: "node_id \<Rightarrow> int \<Rightarrow> node_id \<Rightarrow> (patricia, unit) action" where
  "pt_relink parent v new_child =
     (if parent = NO_NODE then pt_set_root new_child
      else bindS (readS (\<lambda>pt. bindE (py_get (ar_length (pt_arena pt)) parent) (\<lambda>l. bit_at v l (pt_bit_length pt))))
             (\<lambda>branch. on_arena (arena_set_child (2 * parent + branch) new_child)))"

text \<open>\<open>arena.hot_count[ancestor] += d\<close> for every ancestor of a path.\<close>

fun pt_bump :: "int \<Rightarrow> node_id list \<Rightarrow> (patricia, unit) action" where
  "pt_bump d [] = returnS ()"
| "pt_bump d (i # is) =
     bindS (readS (\<lambda>pt. py_get (ar_hot_count (pt_arena pt)) i)) (\<lambda>c.
     bindS (on_arena (arena_set_hot i (c + d))) (\<lambda>_. pt_bump d is))"

section \<open>Walks\<close>

text \<open>One step of a walk: the node's length and the bits it shares with a value.\<close>

definition pt_visit :: "node_arena \<Rightarrow> int \<Rightarrow> int \<Rightarrow> node_id \<Rightarrow> (int \<times> int) result" where
  "pt_visit ar bits v nid =
     bindE (py_get (ar_length ar) nid) (\<lambda>len.
     bindE (py_get (ar_network ar) nid) (\<lambda>n.
     bindE (common_prefix_length n v bits) (\<lambda>common. Inr (len, common))))"

definition pt_next :: "node_arena \<Rightarrow> int \<Rightarrow> int \<Rightarrow> node_id \<Rightarrow> int \<Rightarrow> node_id result" where
  "pt_next ar bits v nid len = bindE (bit_at v len bits) (\<lambda>b. py_get (ar_child ar) (2 * nid + b))"

partial_function (option) pt_count_at_loop ::
  "node_arena \<Rightarrow> int \<Rightarrow> int \<Rightarrow> int \<Rightarrow> node_id \<Rightarrow> int result option" where
  "pt_count_at_loop ar bits network target nid =
     (if nid = NO_NODE then Some (Inr 0)
      else case pt_visit ar bits network nid of
        Inl e \<Rightarrow> Some (Inl e)
      | Inr (len, common) \<Rightarrow>
          if common < min len target then Some (Inr 0)
          else if len \<ge> target then Some (py_get (ar_hot_count ar) nid)
          else (case pt_next ar bits network nid len of
                  Inl e \<Rightarrow> Some (Inl e)
                | Inr nxt \<Rightarrow> pt_count_at_loop ar bits network target nxt))"

definition pt_count_at :: "patricia \<Rightarrow> int \<Rightarrow> int \<Rightarrow> int result option" where
  "pt_count_at pt network target =
     pt_count_at_loop (pt_arena pt) (pt_bit_length pt) network target (pt_root pt)"

text \<open>\<open>for index in range(i, j + 1): counts[index] = c\<close>.\<close>

fun pt_fill :: "int list \<Rightarrow> int \<Rightarrow> int list \<Rightarrow> int list result" where
  "pt_fill [] c counts = Inr counts"
| "pt_fill (i # is) c counts = bindE (py_set counts i c) (pt_fill is c)"

partial_function (option) pt_counts_along_loop ::
  "node_arena \<Rightarrow> int \<Rightarrow> int \<Rightarrow> int list \<Rightarrow> int \<Rightarrow> node_id \<Rightarrow> int list result option" where
  "pt_counts_along_loop ar bits v counts filled nid =
     (if nid = NO_NODE then Some (Inr counts)
      else case bindE (pt_visit ar bits v nid) (\<lambda>(len, common).
                bindE (py_get (ar_hot_count ar) nid) (\<lambda>count.
                bindE (pt_fill [filled + 1 .. min len common] count counts) (\<lambda>counts'.
                  Inr (len, common, counts')))) of
        Inl e \<Rightarrow> Some (Inl e)
      | Inr (len, common, counts') \<Rightarrow>
          if common < len \<or> len = bits then Some (Inr counts')
          else (case pt_next ar bits v nid len of
                  Inl e \<Rightarrow> Some (Inl e)
                | Inr nxt \<Rightarrow> pt_counts_along_loop ar bits v counts' (max filled (min len common)) nxt))"

definition pt_counts_along :: "patricia \<Rightarrow> int \<Rightarrow> int list result option" where
  "pt_counts_along pt v =
     pt_counts_along_loop (pt_arena pt) (pt_bit_length pt) v
       (replicate (nat (pt_bit_length pt + 1)) 0) (- 1) (pt_root pt)"

text \<open>\<open>_dfs\<close>: the head of the list is the top of the stack.\<close>

definition pt_push :: "node_id \<Rightarrow> int \<Rightarrow> (node_id \<times> int) list" where
  "pt_push c len = (if c \<noteq> NO_NODE then [(c, len)] else [])"

partial_function (option) pt_dfs_loop ::
  "node_arena \<Rightarrow> (node_id \<times> int) list \<Rightarrow> (node_id \<times> int) list result option" where
  "pt_dfs_loop ar stack =
     (case stack of
        [] \<Rightarrow> Some (Inr [])
      | (nid, parent_length) # stack' \<Rightarrow>
          (case bindE (py_get (ar_length ar) nid) (\<lambda>len.
                bindE (py_get (ar_child ar) (2 * nid + 1)) (\<lambda>c1.
                bindE (py_get (ar_child ar) (2 * nid)) (\<lambda>c0. Inr (pt_push c0 len @ pt_push c1 len)))) of
             Inl e \<Rightarrow> Some (Inl e)
           | Inr ps \<Rightarrow>
               Option.bind (pt_dfs_loop ar (ps @ stack')) (\<lambda>r.
                 Some (bindE r (\<lambda>rest. Inr ((nid, parent_length) # rest))))))"

definition pt_dfs :: "patricia \<Rightarrow> (node_id \<times> int) list result option" where
  "pt_dfs pt = (if pt_root pt = NO_NODE then Some (Inr []) else pt_dfs_loop (pt_arena pt) [(pt_root pt, - 1)])"

section \<open>Queries\<close>

definition pt_contains :: "patricia \<Rightarrow> address \<Rightarrow> bool result option" where
  "pt_contains pt a =
     (case pt_check_family pt (addr_family a) of
        Inl e \<Rightarrow> Some (Inl e)
      | Inr _ \<Rightarrow> map_option (\<lambda>r. bindE r (\<lambda>c. Inr (c = 1))) (pt_count_at pt (addr_value a) (pt_bit_length pt)))"

definition pt_hot_count :: "patricia \<Rightarrow> prefix \<Rightarrow> int result option" where
  "pt_hot_count pt p =
     (case pt_check_family pt (pfx_family p) of
        Inl e \<Rightarrow> Some (Inl e)
      | Inr _ \<Rightarrow> pt_count_at pt (pfx_network p) (pfx_length p))"

definition pt_ancestor_counts :: "patricia \<Rightarrow> address \<Rightarrow> int \<Rightarrow> prefix_count list result option" where
  "pt_ancestor_counts pt a m =
     (case bindE (pt_check_family pt (addr_family a)) (\<lambda>_. pt_check_min_length pt m) of
        Inl e \<Rightarrow> Some (Inl e)
      | Inr _ \<Rightarrow> map_option (\<lambda>r. bindE r (\<lambda>counts.
          mapE (\<lambda>l. bindE (pt_prefix_of pt (addr_value a) l) (\<lambda>p. bindE (py_get counts l) (\<lambda>c.
                  Inr \<lparr>pc_prefix = p, pc_hot_count = c\<rparr>)))
               [m .. pt_bit_length pt]))
          (pt_counts_along pt (addr_value a)))"

fun pt_longest_loop :: "patricia \<Rightarrow> int \<Rightarrow> int list \<Rightarrow> int list \<Rightarrow> prefix option result" where
  "pt_longest_loop pt v counts [] = Inr None"
| "pt_longest_loop pt v counts (l # ls) =
     bindE (py_get counts l) (\<lambda>c.
       if 0 < c then bindE (pt_prefix_of pt v l) (\<lambda>p. Inr (Some p)) else pt_longest_loop pt v counts ls)"

definition pt_longest_matching_prefix :: "patricia \<Rightarrow> address \<Rightarrow> prefix option result option" where
  "pt_longest_matching_prefix pt a =
     (case pt_check_family pt (addr_family a) of
        Inl e \<Rightarrow> Some (Inl e)
      | Inr _ \<Rightarrow> map_option (\<lambda>r. bindE r (\<lambda>counts.
          pt_longest_loop pt (addr_value a) counts (rev [0 .. pt_bit_length pt])))
          (pt_counts_along pt (addr_value a)))"

text \<open>The prefixes a visited node stands for: its compressed edge expanded.\<close>

definition pt_edge_counts :: "patricia \<Rightarrow> int \<Rightarrow> node_id \<times> int \<Rightarrow> prefix_count list result" where
  "pt_edge_counts pt m = (\<lambda>(nid, parent_length).
     bindE (py_get (ar_hot_count (pt_arena pt)) nid) (\<lambda>count.
       if count \<le> 0 then Inr []
       else bindE (py_get (ar_network (pt_arena pt)) nid) (\<lambda>network.
            bindE (py_get (ar_length (pt_arena pt)) nid) (\<lambda>len.
              mapE (\<lambda>l. bindE (pt_prefix_of pt network l) (\<lambda>p. Inr \<lparr>pc_prefix = p, pc_hot_count = count\<rparr>))
                   [max (parent_length + 1) m .. len]))))"

definition pt_iter_prefix_counts :: "patricia \<Rightarrow> int \<Rightarrow> prefix_count list result option" where
  "pt_iter_prefix_counts pt m =
     (case pt_check_min_length pt m of
        Inl e \<Rightarrow> Some (Inl e)
      | Inr _ \<Rightarrow> map_option (\<lambda>r. bindE r (\<lambda>ns.
          bindE (mapE (pt_edge_counts pt m) ns) (\<lambda>css. Inr (concat css)))) (pt_dfs pt))"

definition pt_iter_hot_addresses :: "patricia \<Rightarrow> address list result option" where
  "pt_iter_hot_addresses pt =
     map_option (\<lambda>r. bindE r (\<lambda>ns.
       bindE (mapE (\<lambda>(nid, _). bindE (py_get (ar_length (pt_arena pt)) nid) (\<lambda>len.
                if len = pt_bit_length pt
                then bindE (py_get (ar_network (pt_arena pt)) nid) (\<lambda>v.
                     bindE (mk_address (pt_family pt) v) (\<lambda>a. Inr [a]))
                else Inr [])) ns) (\<lambda>ass. Inr (concat ass)))) (pt_dfs pt)"

definition pt_iter_nodes :: "patricia \<Rightarrow> node_view list result option" where
  "pt_iter_nodes pt =
     map_option (\<lambda>r. bindE r (\<lambda>ns.
       mapE (\<lambda>(nid, _).
         bindE (py_get (ar_child (pt_arena pt)) (2 * nid)) (\<lambda>c0.
         bindE (py_get (ar_child (pt_arena pt)) (2 * nid + 1)) (\<lambda>c1.
         bindE (mapE (pt_node_prefix pt) (filter (\<lambda>c. c \<noteq> NO_NODE) [c0, c1])) (\<lambda>children.
         bindE (pt_node_prefix pt nid) (\<lambda>p.
         bindE (py_get (ar_hot_count (pt_arena pt)) nid) (\<lambda>count.
           Inr \<lparr>nv_prefix = p, nv_hot_count = count, nv_children = children\<rparr>)))))) ns)) (pt_dfs pt)"

section \<open>Mutation\<close>

text \<open>The descent of \<open>add_hot_ip\<close>: where the new leaf's path leaves the trie, as the nodes wholly
  above the new leaf (root first), the last of them, the node to split above and the bits shared
  with it; or the guard on a leaf that \<open>contains\<close> did not accept.\<close>

partial_function (option) pt_add_walk ::
  "node_arena \<Rightarrow> int \<Rightarrow> int \<Rightarrow> node_id list \<Rightarrow> node_id \<Rightarrow> node_id \<Rightarrow>
   (node_id list \<times> node_id \<times> node_id \<times> int) result option" where
  "pt_add_walk ar bits v path parent nid =
     (case pt_visit ar bits v nid of
        Inl e \<Rightarrow> Some (Inl e)
      | Inr (len, common) \<Rightarrow>
          if common < len then Some (Inr (path, parent, nid, common))
          else if len = bits then Some (Inl InvariantViolation)
          else (case pt_next ar bits v nid len of
                  Inl e \<Rightarrow> Some (Inl e)
                | Inr nxt \<Rightarrow> pt_add_walk ar bits v (path @ [nid]) nid nxt))"

definition pt_split :: "int \<Rightarrow> int \<Rightarrow> node_id \<Rightarrow> node_id \<Rightarrow> int \<Rightarrow> (patricia, unit) action" where
  "pt_split bits v parent nid common =
     bindS (readS (\<lambda>pt. bindE (py_shr v (bits - common)) (\<lambda>x. py_shl x (bits - common)))) (\<lambda>network.
     bindS (readS (\<lambda>pt. py_get (ar_hot_count (pt_arena pt)) nid)) (\<lambda>count.
     bindS (on_arena (arena_allocate network common (count + 1))) (\<lambda>internal.
     bindS (on_arena (arena_allocate v bits 1)) (\<lambda>leaf.
     bindS (readS (\<lambda>pt. bit_at v common bits)) (\<lambda>branch.
     bindS (on_arena (arena_set_child (2 * internal + branch) leaf)) (\<lambda>_.
     bindS (on_arena (arena_set_child (2 * internal + 1 - branch) nid)) (\<lambda>_.
       pt_relink parent v internal)))))))"

definition pt_add_hot_ip :: "patricia \<Rightarrow> address \<Rightarrow> (bool result \<times> patricia) option" where
  "pt_add_hot_ip pt a =
     (case pt_check_family pt (addr_family a) of
        Inl e \<Rightarrow> Some (Inl e, pt)
      | Inr _ \<Rightarrow>
     (case pt_contains pt a of
        None \<Rightarrow> None
      | Some (Inl e) \<Rightarrow> Some (Inl e, pt)
      | Some (Inr True) \<Rightarrow> Some (Inr False, pt)
      | Some (Inr False) \<Rightarrow>
          (let bits = pt_bit_length pt; v = addr_value a in
           if pt_root pt = NO_NODE
           then Some (bindS (on_arena (arena_allocate v bits 1)) (\<lambda>leaf.
                      bindS (pt_set_root leaf) (\<lambda>_. returnS True)) pt)
           else (case pt_add_walk (pt_arena pt) bits v [] NO_NODE (pt_root pt) of
                   None \<Rightarrow> None
                 | Some (Inl e) \<Rightarrow> Some (Inl e, pt)
                 | Some (Inr (path, parent, nid, common)) \<Rightarrow>
                     Some (bindS (pt_split bits v parent nid common) (\<lambda>_.
                           bindS (pt_bump 1 path) (\<lambda>_. returnS True)) pt)))))"

text \<open>The descent of \<open>remove_hot_ip\<close>: the path from the root to the leaf.\<close>

partial_function (option) pt_remove_walk ::
  "node_arena \<Rightarrow> int \<Rightarrow> int \<Rightarrow> node_id list \<Rightarrow> node_id \<Rightarrow> node_id list result option" where
  "pt_remove_walk ar bits v path nid =
     (case py_get (ar_length ar) nid of
        Inl e \<Rightarrow> Some (Inl e)
      | Inr len \<Rightarrow>
          if len = bits then Some (Inr (path @ [nid]))
          else (case pt_next ar bits v nid len of
                  Inl e \<Rightarrow> Some (Inl e)
                | Inr nxt \<Rightarrow> pt_remove_walk ar bits v (path @ [nid]) nxt))"

definition pt_collapse :: "int \<Rightarrow> int \<Rightarrow> node_id list \<Rightarrow> (patricia, bool) action" where
  "pt_collapse bits v path =
     (let leaf = last path in
      if length path = 1
      then bindS (pt_set_root NO_NODE) (\<lambda>_. bindS (on_arena (arena_release leaf)) (\<lambda>_. returnS True))
      else
        (let parent = last (butlast path);
             grandparent = (if length path \<ge> 3 then last (butlast (butlast path)) else NO_NODE) in
         bindS (readS (\<lambda>pt. bindE (py_get (ar_length (pt_arena pt)) parent) (\<lambda>l. bit_at v l bits))) (\<lambda>branch.
         bindS (readS (\<lambda>pt. py_get (ar_child (pt_arena pt)) (2 * parent + 1 - branch))) (\<lambda>sibling.
         bindS (pt_relink grandparent v sibling) (\<lambda>_.
         bindS (pt_bump (- 1) (butlast (butlast path))) (\<lambda>_.
         bindS (on_arena (arena_release leaf)) (\<lambda>_.
         bindS (on_arena (arena_release parent)) (\<lambda>_. returnS True))))))))"

definition pt_remove_hot_ip :: "patricia \<Rightarrow> address \<Rightarrow> (bool result \<times> patricia) option" where
  "pt_remove_hot_ip pt a =
     (case pt_check_family pt (addr_family a) of
        Inl e \<Rightarrow> Some (Inl e, pt)
      | Inr _ \<Rightarrow>
     (case pt_contains pt a of
        None \<Rightarrow> None
      | Some (Inl e) \<Rightarrow> Some (Inl e, pt)
      | Some (Inr False) \<Rightarrow> Some (Inr False, pt)
      | Some (Inr True) \<Rightarrow>
          (case pt_remove_walk (pt_arena pt) (pt_bit_length pt) (addr_value a) [] (pt_root pt) of
             None \<Rightarrow> None
           | Some (Inl e) \<Rightarrow> Some (Inl e, pt)
           | Some (Inr path) \<Rightarrow> Some (pt_collapse (pt_bit_length pt) (addr_value a) path pt))))"

definition pt_clear :: "patricia \<Rightarrow> patricia" where
  "pt_clear pt = pt\<lparr>pt_arena := arena_clear (pt_arena pt), pt_root := NO_NODE\<rparr>"

definition patricia_ops :: "patricia hot_trie" where
  "patricia_ops = \<lparr>
     ht_family = pt_family,
     ht_bit_length = pt_bit_length,
     ht_hot_ip_count = pt_hot_ip_count,
     ht_node_count = pt_node_count,
     ht_add_hot_ip = pt_add_hot_ip,
     ht_remove_hot_ip = pt_remove_hot_ip,
     ht_clear = pt_clear,
     ht_contains = pt_contains,
     ht_hot_count = pt_hot_count,
     ht_ancestor_counts = pt_ancestor_counts,
     ht_longest_matching_prefix = pt_longest_matching_prefix,
     ht_iter_prefix_counts = pt_iter_prefix_counts,
     ht_iter_hot_addresses = pt_iter_hot_addresses,
     ht_iter_nodes = pt_iter_nodes\<rparr>"

end
