(* ===== verification/Patricia_Queries.thy ===== *)
theory Patricia_Queries
  imports Patricia_Tree Patricia_Trie
begin

text \<open>
  The Patricia trie's invariant and queries. \<open>p_rep\<close> says that the arena holds a path-compressed
  tree; under it every walk returns, raises nothing, and computes what the set of HOT values says.
\<close>

section \<open>Invariant and abstraction\<close>

fun p_rep :: "int \<Rightarrow> (node_id \<rightharpoonup> node_slot) \<Rightarrow> ptree \<Rightarrow> bool" where
  "p_rep bits m (PLeaf i v) \<longleftrightarrow>
     m i = Some \<lparr>sl_network = v, sl_length = bits, sl_hot = 1, sl_child0 = NO_NODE, sl_child1 = NO_NODE\<rparr>"
| "p_rep bits m (PBranch i n l c t0 t1) \<longleftrightarrow>
     m i = Some \<lparr>sl_network = n, sl_length = l, sl_hot = c, sl_child0 = p_id t0, sl_child1 = p_id t1\<rparr> \<and>
     p_rep bits m t0 \<and> p_rep bits m t1"

definition patricia_holds :: "patricia \<Rightarrow> ptree \<Rightarrow> bool" where
  "patricia_holds pt t \<longleftrightarrow> p_id t = pt_root pt \<and> p_rep (pt_bit_length pt) (arena_map (pt_arena pt)) t \<and>
     p_ok (pt_bit_length pt) t \<and> distinct (p_ids t) \<and> set (p_ids t) = dom (arena_map (pt_arena pt))"

definition patricia_invar :: "patricia \<Rightarrow> bool" where
  "patricia_invar pt \<longleftrightarrow> arena_ok (pt_arena pt) \<and>
     (if pt_root pt = NO_NODE then arena_map (pt_arena pt) = Map.empty else \<exists>t. patricia_holds pt t)"

text \<open>The HOT values: the networks of the live nodes at full length.\<close>

definition patricia_set :: "patricia \<Rightarrow> int set" where
  "patricia_set pt =
     {sl_network s | i s. arena_map (pt_arena pt) i = Some s \<and> sl_length s = pt_bit_length pt}"

lemma p_rep_cong: "(\<And>i. i \<in> set (p_ids t) \<Longrightarrow> m' i = m i) \<Longrightarrow> p_rep bits m' t = p_rep bits m t"
  by (induction t) auto

lemma p_rep_dom: "p_rep bits m t \<Longrightarrow> i \<in> set (p_ids t) \<Longrightarrow> \<exists>s. m i = Some s"
  by (induction t) auto

lemma p_rep_id: "p_rep bits m t \<Longrightarrow> \<exists>s. m (p_id t) = Some s"
  by (cases t) auto

lemma p_rep_slot:
  "p_rep bits m t \<Longrightarrow> \<exists>s. m (p_id t) = Some s \<and> sl_network s = p_net t \<and> sl_length s = p_len bits t \<and>
     sl_hot s = p_count t"
  by (cases t) auto

lemma p_rep_not_NO_NODE [simp]: "p_rep bits (arena_map ar) t \<Longrightarrow> p_id t \<noteq> NO_NODE"
  by (metis p_rep_id arena_map_NO_NODE option.distinct(1))

lemma p_rep_set:
  "p_rep bits m t \<Longrightarrow> p_ok bits t \<Longrightarrow>
   {sl_network s | i s. i \<in> set (p_ids t) \<and> m i = Some s \<and> sl_length s = bits} = p_set t"
proof (induction t)
  case (PBranch i n l c t0 t1)
  have "{sl_network s | j s. j \<in> set (p_ids (PBranch i n l c t0 t1)) \<and> m j = Some s \<and> sl_length s = bits} =
      {sl_network s | j s. j \<in> set (p_ids t0) \<and> m j = Some s \<and> sl_length s = bits} \<union>
      {sl_network s | j s. j \<in> set (p_ids t1) \<and> m j = Some s \<and> sl_length s = bits}"
    using PBranch.prems by auto
  then show ?case using PBranch by simp
qed auto

lemma patricia_set_tree: "patricia_holds pt t \<Longrightarrow> patricia_set pt = p_set t"
proof -
  assume h: "patricia_holds pt t"
  then have "patricia_set pt = {sl_network s | i s. i \<in> set (p_ids t) \<and>
      arena_map (pt_arena pt) i = Some s \<and> sl_length s = pt_bit_length pt}"
    by (auto simp: patricia_set_def patricia_holds_def)
  also have "\<dots> = p_set t" using h by (intro p_rep_set) (simp_all add: patricia_holds_def)
  finally show ?thesis .
qed

lemma patricia_cases:
  assumes "patricia_invar pt"
  obtains "pt_root pt = NO_NODE" "arena_map (pt_arena pt) = Map.empty" "patricia_set pt = {}"
  | t where "pt_root pt \<noteq> NO_NODE" "patricia_holds pt t" "patricia_set pt = p_set t"
  using assms patricia_set_tree by (auto simp: patricia_invar_def patricia_set_def split: if_splits)

section \<open>One step of a walk\<close>

lemma pt_visit_ok:
  assumes "arena_ok ar" "p_rep bits (arena_map ar) t" "0 \<le> bits"
  shows "pt_visit ar bits v (p_id t) = Inr (p_len bits t, cpl bits (p_net t) v)"
    "py_get (ar_hot_count ar) (p_id t) = Inr (p_count t)"
    "py_get (ar_length ar) (p_id t) = Inr (p_len bits t)"
    "py_get (ar_network ar) (p_id t) = Inr (p_net t)"
proof -
  obtain s where s: "arena_map ar (p_id t) = Some s" "sl_network s = p_net t" "sl_length s = p_len bits t"
    "sl_hot s = p_count t" using p_rep_slot[OF assms(2)] by blast
  note r = arena_reads[OF assms(1) s(1)]
  show "pt_visit ar bits v (p_id t) = Inr (p_len bits t, cpl bits (p_net t) v)"
    using r s assms(3) by (simp add: pt_visit_def common_prefix_length_eq)
  show "py_get (ar_hot_count ar) (p_id t) = Inr (p_count t)" "py_get (ar_length ar) (p_id t) = Inr (p_len bits t)"
    "py_get (ar_network ar) (p_id t) = Inr (p_net t)" using r s by simp_all
qed

lemma pt_next_ok:
  assumes "arena_ok ar" "p_rep bits (arena_map ar) (PBranch i n l c t0 t1)" "l < bits"
  shows "pt_next ar bits v i l = Inr (p_id (p_child (msb bits l v) t0 t1))"
proof -
  have s: "arena_map ar i = Some \<lparr>sl_network = n, sl_length = l, sl_hot = c, sl_child0 = p_id t0, sl_child1 = p_id t1\<rparr>"
    using assms(2) by simp
  show ?thesis
    using arena_reads(4)[OF assms(1) s, of "msb bits l v"] assms(3)
    by (simp add: pt_next_def bit_at_msb sl_child_def p_child_def)
qed

lemma p_rep_child: "p_rep bits m (PBranch i n l c t0 t1) \<Longrightarrow> p_rep bits m (p_child b t0 t1)"
  by (simp add: p_child_def)

section \<open>Counting\<close>

lemma pt_count_at_loop_ok:
  assumes "arena_ok ar" "p_rep bits (arena_map ar) t" "p_ok bits t" "0 \<le> bits" "0 \<le> k" "k \<le> bits"
  shows "pt_count_at_loop ar bits v k (p_id t) = Some (Inr (hot_below bits (p_set t) k v))"
  using assms(2,3)
proof (induction t)
  case (PLeaf i n)
  have "agree bits k n v \<longleftrightarrow> \<not> cpl bits n v < k" using cpl_ge_iff[of k bits n v] assms by auto
  then show ?case
    using PLeaf pt_visit_ok[OF assms(1) PLeaf(1) assms(4)] p_rep_not_NO_NODE[OF PLeaf(1)] assms(5,6)
    by (subst pt_count_at_loop.simps) (auto simp: min_def)
next
  case (PBranch i n l c t0 t1)
  let ?t = "PBranch i n l c t0 t1"
  have l: "0 \<le> l" "l < bits" using PBranch.prems(2) by auto
  have ag: "agree bits m n v \<longleftrightarrow> \<not> cpl bits n v < m" if "0 \<le> m" "m \<le> bits" for m
    using cpl_ge_iff[of m bits n v] that by auto
  note unf = pt_count_at_loop.simps[of ar bits v k i]
  note vis = pt_visit_ok[OF assms(1) PBranch.prems(1) assms(4)]
  have nn: "i \<noteq> NO_NODE" using p_rep_not_NO_NODE[OF PBranch.prems(1)] by simp
  show ?case
  proof (cases "cpl bits n v < min l k")
    case True
    then have "\<not> agree bits (min l k) n v" using ag[of "min l k"] l assms(5,6) by auto
    then have "hot_below bits (p_set ?t) k v = 0"
      using p_diverged[OF PBranch.prems(2), of "min l k" v k] by auto
    with True show ?thesis using vis(1)[of v] nn unf by simp
  next
    case False
    then have mk: "agree bits (min l k) n v" using ag[of "min l k"] l assms(5,6) by auto
    show ?thesis
    proof (cases "k \<le> l")
      case True
      then have "hot_below bits (p_set ?t) k v = c"
        using p_covered[OF PBranch.prems(2), of k v] mk by (simp add: min_def split: if_splits)
      with True False show ?thesis using vis nn unf by simp
    next
      case lk: False
      have "pt_count_at_loop ar bits v k (p_id (p_child (msb bits l v) t0 t1)) =
          Some (Inr (hot_below bits (p_set (p_child (msb bits l v) t0 t1)) k v))"
        using PBranch by (simp add: p_child_def)
      then show ?thesis
        using False lk vis(1)[of v] nn unf pt_next_ok[OF assms(1) PBranch.prems(1) l(2), of v]
          p_descend[OF PBranch.prems(2), of k v] by simp
    qed
  qed
qed

lemma pt_count_at_ok:
  assumes "patricia_invar pt" "0 \<le> k" "k \<le> pt_bit_length pt"
  shows "pt_count_at pt v k = Some (Inr (hot_below (pt_bit_length pt) (patricia_set pt) k v))"
  using assms(1)
proof (cases rule: patricia_cases)
  case 1
  then show ?thesis by (simp add: pt_count_at_def pt_count_at_loop.simps)
next
  case (2 t)
  then show ?thesis
    using pt_count_at_loop_ok[of "pt_arena pt" "pt_bit_length pt" t k v] assms
    by (auto simp: patricia_holds_def patricia_invar_def pt_count_at_def)
qed

section \<open>The counts along an address\<close>

lemma pt_fill_ok:
  "0 \<le> a \<Longrightarrow> b < int (length cs) \<Longrightarrow>
   \<exists>cs'. pt_fill [a .. b] c cs = Inr cs' \<and> length cs' = length cs \<and>
     (\<forall>i < length cs. cs' ! i = (if a \<le> int i \<and> int i \<le> b then c else cs ! i))"
proof (induction "nat (b - a + 1)" arbitrary: a cs)
  case 0
  then show ?case by simp
next
  case (Suc d)
  then have "a \<le> b" by simp
  moreover have "d = nat (b - (a + 1) + 1)" using Suc.hyps(2) \<open>a \<le> b\<close> by linarith
  ultimately obtain cs' where cs': "pt_fill [a + 1 .. b] c (cs[nat a := c]) = Inr cs'" "length cs' = length cs"
    "\<forall>i < length cs. cs' ! i = (if a + 1 \<le> int i \<and> int i \<le> b then c else cs[nat a := c] ! i)"
    using Suc.hyps(1)[of "a + 1" "cs[nat a := c]"] Suc.prems by auto
  have "pt_fill [a .. b] c cs = Inr cs'"
    using \<open>a \<le> b\<close> Suc.prems cs'(1) by (simp add: upto_rec1)
  moreover have "cs' ! i = (if a \<le> int i \<and> int i \<le> b then c else cs ! i)" if "i < length cs" for i
    using cs'(3) that Suc.prems \<open>a \<le> b\<close> by (cases "int i = a") (auto simp: nth_list_update)
  ultimately show ?case using cs'(2) by blast
qed

lemma pt_counts_along_loop_ok:
  assumes "arena_ok ar" "p_rep bits (arena_map ar) t" "p_ok bits t" "0 \<le> bits"
    "- 1 \<le> f" "f < p_len bits t" "agree bits (f + 1) (p_net t) v"
    "int (length cs) = bits + 1" "\<And>i. f < int i \<Longrightarrow> i < length cs \<Longrightarrow> cs ! i = 0"
  shows "\<exists>cs'. pt_counts_along_loop ar bits v cs f (p_id t) = Some (Inr cs') \<and> length cs' = length cs \<and>
    (\<forall>i < length cs. cs' ! i = (if int i \<le> f then cs ! i else hot_below bits (p_set t) (int i) v))"
  using assms(2-)
proof (induction t arbitrary: f cs)
  case (PLeaf i n)
  let ?k = "cpl bits n v"
  have k: "0 \<le> ?k" "?k \<le> bits" using assms(4) by simp_all
  obtain cs' where cs': "pt_fill [f + 1 .. min bits ?k] 1 cs = Inr cs'" "length cs' = length cs"
    "\<forall>j < length cs. cs' ! j = (if f + 1 \<le> int j \<and> int j \<le> min bits ?k then 1 else cs ! j)"
    using pt_fill_ok[of "f + 1" "min bits ?k" cs 1] PLeaf.prems k by auto
  have "pt_counts_along_loop ar bits v cs f i = Some (Inr cs')"
    using pt_visit_ok[OF assms(1) PLeaf.prems(1) assms(4)] p_rep_not_NO_NODE[OF PLeaf.prems(1)] cs'(1)
    by (subst pt_counts_along_loop.simps) simp
  moreover have "cs' ! j = (if int j \<le> f then cs ! j else hot_below bits {n} (int j) v)" if "j < length cs" for j
  proof -
    have "agree bits (int j) n v \<longleftrightarrow> int j \<le> ?k" using cpl_ge_iff[of "int j" bits n v] that PLeaf.prems by simp
    then have "hot_below bits {n} (int j) v = (if int j \<le> ?k then 1 else 0)" by simp
    then show ?thesis using cs'(3) that PLeaf.prems k by auto
  qed
  ultimately show ?case using cs'(2) by simp
next
  case (PBranch i n l c t0 t1)
  let ?t = "PBranch i n l c t0 t1" and ?k = "cpl bits n v"
  let ?s = "p_child (msb bits l v) t0 t1"
  have l: "0 \<le> l" "l < bits" using PBranch.prems(2) by auto
  have k: "0 \<le> ?k" "?k \<le> bits" using assms(4) by simp_all
  obtain cs1 where cs1: "pt_fill [f + 1 .. min l ?k] c cs = Inr cs1" "length cs1 = length cs"
    "\<forall>j < length cs. cs1 ! j = (if f + 1 \<le> int j \<and> int j \<le> min l ?k then c else cs ! j)"
  proof -
    have "min l ?k < int (length cs)" using PBranch.prems(7) l by simp
    then show thesis using pt_fill_ok[of "f + 1" "min l ?k" cs c] PBranch.prems(4) that by auto
  qed
  note vis = pt_visit_ok[OF assms(1) PBranch.prems(1) assms(4)]
  have nn: "i \<noteq> NO_NODE" using p_rep_not_NO_NODE[OF PBranch.prems(1)] by simp
  note unf = pt_counts_along_loop.simps[of ar bits v cs f i]
  have ag: "agree bits m n v \<longleftrightarrow> m \<le> ?k" if "0 \<le> m" "m \<le> bits" for m
    using cpl_ge_iff[of m bits n v] that by auto
  have cov: "hot_below bits (p_set ?t) m v = c" if "0 \<le> m" "m \<le> l" "m \<le> ?k" for m
    using p_covered[OF PBranch.prems(2), of m v] ag[of m] that l by simp
  show ?case
  proof (cases "?k < l")
    case True
    have "pt_counts_along_loop ar bits v cs f i = Some (Inr cs1)"
      using vis nn cs1(1) True unf by simp
    moreover have "hot_below bits (p_set ?t) m v = 0" if "?k < m" "m \<le> bits" for m
      using p_diverged[OF PBranch.prems(2), of "?k + 1" v m] ag[of "?k + 1"] that True k l by simp
    ultimately show ?thesis
      using cs1(2,3) cov True PBranch.prems(7,8) by (intro exI[of _ cs1]) auto
  next
    case False
    have s: "p_rep bits (arena_map ar) ?s" "p_ok bits ?s" "l < p_len bits ?s"
      using PBranch.prems by (auto simp: p_child_def)
    have "agree bits (l + 1) (p_net ?s) v"
      using PBranch.prems(2) ag[of l] False l by (auto simp: agree_Suc p_child_def intro: agree_trans)
    moreover have "cs1 ! j = 0" if "l < int j" "j < length cs" for j
      using cs1(3) that False PBranch.prems(5,8) by auto
    ultimately have "\<exists>cs'. pt_counts_along_loop ar bits v cs1 l (p_id ?s) = Some (Inr cs') \<and>
        length cs' = length cs1 \<and>
        (\<forall>j < length cs1. cs' ! j = (if int j \<le> l then cs1 ! j else hot_below bits (p_set ?s) (int j) v))"
      using PBranch.IH(1)[of l cs1] PBranch.IH(2)[of l cs1] s l assms(4) cs1(2) PBranch.prems(7)
      unfolding p_child_def by (cases "msb bits l v") auto
    then obtain cs' where cs': "pt_counts_along_loop ar bits v cs1 l (p_id ?s) = Some (Inr cs')"
      "length cs' = length cs"
      "\<forall>j < length cs. cs' ! j = (if int j \<le> l then cs1 ! j else hot_below bits (p_set ?s) (int j) v)"
      using cs1(2) by auto
    have mm: "min l ?k = l" "max f l = l" using False PBranch.prems(5) by auto
    have "pt_counts_along_loop ar bits v cs f i = Some (Inr cs')"
      using vis nn cs1(1) False l unf pt_next_ok[OF assms(1) PBranch.prems(1) l(2), of v] cs'(1) mm by simp
    moreover have "cs' ! j = (if int j \<le> f then cs ! j else hot_below bits (p_set ?t) (int j) v)"
      if "j < length cs" for j
    proof (cases "int j \<le> l")
      case True
      then show ?thesis using cs'(3) cs1(3) that cov[of "int j"] False PBranch.prems(5) by auto
    next
      case False
      then show ?thesis using cs'(3) that p_descend[OF PBranch.prems(2), of "int j" v] PBranch.prems(5) by simp
    qed
    ultimately show ?thesis using cs'(2) by simp
  qed
qed

lemma pt_counts_along_ok:
  assumes "patricia_invar pt"
  shows "\<exists>cs. pt_counts_along pt v = Some (Inr cs) \<and> int (length cs) = pt_bit_length pt + 1 \<and>
    (\<forall>i. 0 \<le> i \<and> i \<le> pt_bit_length pt \<longrightarrow>
      py_get cs i = Inr (hot_below (pt_bit_length pt) (patricia_set pt) i v))"
  using assms
proof (cases rule: patricia_cases)
  case 1
  then show ?thesis
    by (simp add: pt_counts_along_def pt_counts_along_loop.simps pt_bit_length_def)
next
  case (2 t)
  let ?b = "pt_bit_length pt" and ?z = "replicate (nat (pt_bit_length pt + 1)) (0::int)"
  have b: "0 \<le> ?b" by (simp add: pt_bit_length_def)
  have h: "arena_ok (pt_arena pt)" "p_rep ?b (arena_map (pt_arena pt)) t" "p_ok ?b t" "p_id t = pt_root pt"
    using assms 2(2) by (auto simp: patricia_invar_def patricia_holds_def)
  obtain cs where cs: "pt_counts_along_loop (pt_arena pt) ?b v ?z (- 1) (p_id t) = Some (Inr cs)"
    "length cs = length ?z" "\<forall>i < length ?z. cs ! i = hot_below ?b (p_set t) (int i) v"
    using pt_counts_along_loop_ok[OF h(1-3) b, of "- 1" v ?z] p_len_bounds[OF h(3) b] b by auto
  have "py_get cs i = Inr (hot_below ?b (p_set t) i v)" if "0 \<le> i" "i \<le> ?b" for i
    using cs(2,3) that b by simp
  with cs b h(4) 2(3) show ?thesis by (simp add: pt_counts_along_def)
qed

section \<open>Traversal\<close>

fun p_pre :: "int \<Rightarrow> ptree \<Rightarrow> int \<Rightarrow> (ptree \<times> int) list" where
  "p_pre bits (PLeaf i v) pl = [(PLeaf i v, pl)]"
| "p_pre bits (PBranch i n l c t0 t1) pl = (PBranch i n l c t0 t1, pl) # p_pre bits t0 l @ p_pre bits t1 l"

lemma p_pre_rep: "p_rep bits m t \<Longrightarrow> w \<in> set (p_pre bits t pl) \<Longrightarrow> p_rep bits m (fst w)"
  by (induction bits t pl rule: p_pre.induct) auto

lemma p_pre_ok: "p_ok bits t \<Longrightarrow> w \<in> set (p_pre bits t pl) \<Longrightarrow> p_ok bits (fst w)"
  by (induction bits t pl rule: p_pre.induct) auto

definition pre_ids :: "(ptree \<times> int) list \<Rightarrow> (node_id \<times> int) list" where
  "pre_ids ws = map (\<lambda>(t, pl). (p_id t, pl)) ws"

lemma pre_ids_simps [simp]:
  "pre_ids [] = []" "pre_ids (w # ws) = (p_id (fst w), snd w) # pre_ids ws"
  "pre_ids (xs @ ys) = pre_ids xs @ pre_ids ys"
  by (simp_all add: pre_ids_def split_beta)

lemma pt_dfs_loop_ok:
  assumes "arena_ok ar" "p_rep bits (arena_map ar) t" "pt_dfs_loop ar stack = Some (Inr rest)"
  shows "pt_dfs_loop ar ((p_id t, pl) # stack) = Some (Inr (pre_ids (p_pre bits t pl) @ rest))"
  using assms(2,3)
proof (induction t arbitrary: pl stack rest)
  case (PLeaf i n)
  note r = arena_reads[OF assms(1), of i]
  show ?case using PLeaf.prems r by (subst pt_dfs_loop.simps) (simp add: pt_push_def)
next
  case (PBranch i n l c t0 t1)
  note r = arena_reads[OF assms(1), of i]
  have nn: "p_id t0 \<noteq> NO_NODE" "p_id t1 \<noteq> NO_NODE" using PBranch.prems(1) by auto
  have "pt_dfs_loop ar ((p_id t1, l) # stack) = Some (Inr (pre_ids (p_pre bits t1 l) @ rest))"
    using PBranch by simp
  then have "pt_dfs_loop ar ((p_id t0, l) # (p_id t1, l) # stack) =
      Some (Inr (pre_ids (p_pre bits t0 l) @ pre_ids (p_pre bits t1 l) @ rest))"
    using PBranch.IH(1) PBranch.prems(1) by simp
  then show ?case
    using PBranch.prems(1) r nn by (subst pt_dfs_loop.simps) (simp add: pt_push_def)
qed

lemma pt_dfs_ok:
  assumes "patricia_invar pt" "patricia_holds pt t"
  shows "pt_dfs pt = Some (Inr (pre_ids (p_pre (pt_bit_length pt) t (- 1))))"
proof -
  let ?b = "pt_bit_length pt"
  have h: "arena_ok (pt_arena pt)" "p_rep ?b (arena_map (pt_arena pt)) t" "p_id t = pt_root pt"
    using assms by (auto simp: patricia_invar_def patricia_holds_def)
  have "pt_root pt \<noteq> NO_NODE" using p_rep_not_NO_NODE[OF h(2)] h(3) by simp
  moreover have "pt_dfs_loop (pt_arena pt) [] = Some (Inr [])" by (subst pt_dfs_loop.simps) simp
  ultimately show ?thesis using pt_dfs_loop_ok[OF h(1,2), of "[]" "[]" "- 1"] h(3) by (simp add: pt_dfs_def)
qed

text \<open>Pre-order is address order.\<close>

lemma net_of_mono_len:
  assumes "0 \<le> a" "k \<le> l" "l \<le> bits"
  shows "net_of bits k a \<le> net_of bits l a"
  using net_of_le[of "net_of bits l a" bits k] net_of_le[OF assms(1), of bits l] net_of_net_of[OF assms(2,3), of a]
  by simp

lemma below_branch:
  assumes "agree bits l a b" "\<not> msb bits l a" "msb bits l b" "0 \<le> l" "l < bits"
    "0 \<le> a" "a < 2 ^ nat bits" "0 \<le> b" "b < 2 ^ nat bits"
  shows "a < net_of bits (l + 1) b"
proof -
  let ?k = "nat (bits - (l + 1))"
  have k: "nat (bits - l) = Suc ?k" "nat (bits - 1 - l) = ?k" using assms(5) by linarith+
  have half: "drop_bit ?k x = 2 * drop_bit (Suc ?k) x + of_bool (bit x ?k)" for x :: int
    by (simp add: drop_bit_eq_div bit_iff_odd power_Suc2 zdiv_zmult2_eq del: power_Suc)
  have "drop_bit (Suc ?k) a = drop_bit (Suc ?k) b"
    using agree_iff_drop[of l bits a b] assms k(1) by (simp add: take_bit_int_eq_self)
  then have "drop_bit ?k a < drop_bit ?k b"
    using assms(2,3) half[of a] half[of b] by (simp add: msb_def k(2))
  then have "a < 2 ^ ?k * drop_bit ?k b"
    by (simp add: drop_bit_eq_div) (metis int_ge_less_than_def linorder_not_less zdiv_mono1 nonzero_mult_div_cancel_left
      power_not_zero zero_less_numeral zero_less_power zero_neq_numeral)
  then show ?thesis by (simp add: net_of_def push_bit_eq_mult mult.commute)
qed

lemma p_below:
  assumes "p_ok bits (PBranch i n l c t0 t1)" "a \<in> p_set t0" "b \<in> p_set t1"
  shows "a < net_of bits (l + 1) b"
proof (rule below_branch)
  note s = p_side[OF assms(1)]
  show "agree bits l a b" using s(3)[of a] s(3)[of b] assms(2,3) agree_trans agree_sym by blast
  show "\<not> msb bits l a" "msb bits l b" using s assms(2,3) by auto
  show "0 \<le> a" "a < 2 ^ nat bits" "0 \<le> b" "b < 2 ^ nat bits" "0 \<le> l" "l < bits"
    using assms p_set_range[of bits t0] p_set_range[of bits t1] by auto
qed

fun p_leaves :: "ptree \<Rightarrow> int list" where
  "p_leaves (PLeaf i v) = [v]"
| "p_leaves (PBranch i n l c t0 t1) = p_leaves t0 @ p_leaves t1"

lemma set_p_leaves [simp]: "set (p_leaves t) = p_set t"
  by (induction t) auto

lemma p_leaves_sorted: "p_ok bits t \<Longrightarrow> sorted_wrt (<) (p_leaves t)"
proof (induction t)
  case (PBranch i n l c t0 t1)
  have "a < b" if "a \<in> p_set t0" "b \<in> p_set t1" for a b
  proof -
    have "0 \<le> b" using p_set_range[of bits t1] PBranch.prems that by auto
    then show ?thesis using p_below[OF PBranch.prems that] net_of_le[of b bits "l + 1"] by linarith
  qed
  with PBranch show ?case by (simp add: sorted_wrt_append)
qed simp

text \<open>The (network, length) pairs of the compressed edges, in the order they are yielded.\<close>

definition edge_pairs :: "int \<Rightarrow> int \<Rightarrow> ptree \<times> int \<Rightarrow> (int \<times> int) list" where
  "edge_pairs bits m w = map (\<lambda>l. (net_of bits l (p_net (fst w)), l)) [max (snd w + 1) m .. p_len bits (fst w)]"

definition below_pairs :: "int \<Rightarrow> int set \<Rightarrow> int \<Rightarrow> (int \<times> int) set" where
  "below_pairs bits A k = (\<lambda>(a, l). (net_of bits l a, l)) ` (A \<times> {k .. bits})"

lemma edge_pairs_set:
  assumes "p_ok bits t" "0 \<le> m" "0 \<le> bits"
  shows "set (edge_pairs bits m (t, pl)) = (\<lambda>(a, l). (net_of bits l a, l)) ` (p_set t \<times> {max (pl + 1) m .. p_len bits t})"
proof -
  have "net_of bits l a = net_of bits l (p_net t)" if "a \<in> p_set t" "max (pl + 1) m \<le> l" "l \<le> p_len bits t" for a l
  proof -
    have "agree bits l a (p_net t)" using p_set_agree[OF assms(1) that(1)] that(3) by (rule agree_mono)
    moreover have "0 \<le> a \<and> a < 2 ^ nat bits" using p_set_range[OF assms(1)] that(1) by auto
    ultimately show ?thesis
      using net_of_eq_iff[of a bits "p_net t" l] p_net_range[OF assms(1)] p_len_bounds[OF assms(1,3)] that assms(2)
      by auto
  qed
  then have "(\<lambda>(a, l). (net_of bits l a, l)) ` (p_set t \<times> {max (pl + 1) m .. p_len bits t}) =
      (\<lambda>l. (net_of bits l (p_net t), l)) ` snd ` (p_set t \<times> {max (pl + 1) m .. p_len bits t})"
    unfolding image_image by (intro image_cong) auto
  then show ?thesis by (simp add: edge_pairs_def)
qed

lemma p_pre_pairs:
  "p_ok bits t \<Longrightarrow> 0 \<le> m \<Longrightarrow> 0 \<le> bits \<Longrightarrow> pl < p_len bits t \<Longrightarrow>
   set (concat (map (edge_pairs bits m) (p_pre bits t pl))) = below_pairs bits (p_set t) (max (pl + 1) m)"
proof (induction bits t pl rule: p_pre.induct)
  case (1 bits i v pl)
  then show ?case using edge_pairs_set[OF 1(1,2,3), of pl] by (simp add: below_pairs_def)
next
  case (2 bits i n l c t0 t1 pl)
  have split: "{max (pl + 1) m .. bits} = {max (pl + 1) m .. l} \<union> {max (l + 1) m .. bits}"
    using 2(3,6) by auto
  have "below_pairs bits (p_set t0 \<union> p_set t1) (max (pl + 1) m) =
      (\<lambda>(a, l). (net_of bits l a, l)) ` ((p_set t0 \<union> p_set t1) \<times> {max (pl + 1) m .. l}) \<union>
      below_pairs bits (p_set t0) (max (l + 1) m) \<union> below_pairs bits (p_set t1) (max (l + 1) m)"
    unfolding below_pairs_def split by (simp add: Sigma_Un_distrib1 Sigma_Un_distrib2 image_Un) blast
  then show ?case using 2 edge_pairs_set[OF 2(3,4,5), of pl] by (simp add: Un_assoc)
qed

lemma edge_sorted:
  assumes "0 \<le> n" "len \<le> bits"
  shows "sorted_wrt (<) (map (\<lambda>l. (net_of bits l n, l)) [a .. len])"
proof -
  have "sorted_wrt (\<lambda>x y. (net_of bits x n, x) < (net_of bits y n, y)) [a .. len]"
  proof (rule sorted_wrt_mono_rel)
    show "sorted_wrt (<) [a .. len]" by simp
    fix x y assume "x \<in> set [a .. len]" "y \<in> set [a .. len]" "x < y"
    then show "(net_of bits x n, x) < (net_of bits y n, y)"
      using net_of_mono_len[OF assms(1), of x y bits] assms(2) by (auto simp: less_prod_def')
  qed
  then show ?thesis by (simp add: sorted_wrt_map)
qed

lemma p_pre_sorted:
  "p_ok bits t \<Longrightarrow> 0 \<le> m \<Longrightarrow> 0 \<le> bits \<Longrightarrow> pl < p_len bits t \<Longrightarrow>
   sorted_wrt (<) (concat (map (edge_pairs bits m) (p_pre bits t pl)))"
proof (induction bits t pl rule: p_pre.induct)
  case (1 bits i v pl)
  then show ?case by (simp add: edge_pairs_def edge_sorted)
next
  case (2 bits i n l c t0 t1 pl)
  let ?t = "PBranch i n l c t0 t1"
  let ?P = "\<lambda>t. concat (map (edge_pairs bits m) (p_pre bits t l))"
  have ok: "p_ok bits t0" "p_ok bits t1" "l < p_len bits t0" "l < p_len bits t1" and l: "0 \<le> l" "l < bits"
    using 2(3) by auto
  have pairs: "set (?P t) = below_pairs bits (p_set t) (max (l + 1) m)" if "t = t0 \<or> t = t1" for t
    using p_pre_pairs[OF _ 2(4,5)] ok that by auto
  have rng: "0 \<le> a \<and> a < 2 ^ nat bits" if "a \<in> p_set t0 \<union> p_set t1" for a
    using p_set_range[OF 2(3)] that by auto
  have top: "x < y" if xy: "x \<in> set (edge_pairs bits m (?t, pl))" "y \<in> set (?P t0) \<union> set (?P t1)" for x y
  proof -
    obtain k where k: "x = (net_of bits k n, k)" "max (pl + 1) m \<le> k" "k \<le> l"
      using xy(1) by (auto simp: edge_pairs_def)
    have "y \<in> below_pairs bits (p_set t0) (max (l + 1) m) \<union> below_pairs bits (p_set t1) (max (l + 1) m)"
      using xy(2) pairs[of t0] pairs[of t1] by blast
    then obtain a j where j: "y = (net_of bits j a, j)" "a \<in> p_set t0 \<union> p_set t1" "l + 1 \<le> j" "j \<le> bits"
      unfolding below_pairs_def by auto
    have "net_of bits k a = net_of bits k n"
      using net_of_eq_iff[of a bits n k] p_side(3)[OF 2(3), of a] j(2) k rng[of a] l p_net_range[OF 2(3)] 2(4)
      by (auto intro: agree_mono)
    then show ?thesis using net_of_mono_len[of a k j bits] rng[OF j(2)] j k by (auto simp: less_prod_def')
  qed
  have mid: "x < y" if xy: "x \<in> set (?P t0)" "y \<in> set (?P t1)" for x y
  proof -
    have "x \<in> below_pairs bits (p_set t0) (max (l + 1) m)" "y \<in> below_pairs bits (p_set t1) (max (l + 1) m)"
      using xy pairs[of t0] pairs[of t1] by blast+
    then obtain a j b k where j: "x = (net_of bits j a, j)" "a \<in> p_set t0" "l + 1 \<le> j" "j \<le> bits"
      and k: "y = (net_of bits k b, k)" "b \<in> p_set t1" "l + 1 \<le> k" "k \<le> bits"
      unfolding below_pairs_def by auto
    have "net_of bits j a \<le> a" using net_of_le[of a bits j] rng[of a] j by simp
    also have "a < net_of bits (l + 1) b" using p_below[OF 2(3) j(2) k(2)] .
    also have "\<dots> \<le> net_of bits k b" using net_of_mono_len[of b "l + 1" k bits] rng[of b] k by simp
    finally show ?thesis using j k by (simp add: less_prod_def')
  qed
  have "sorted_wrt (<) (edge_pairs bits m (?t, pl))"
    using p_net_range[OF 2(3)] l by (simp add: edge_pairs_def edge_sorted)
  moreover have "sorted_wrt (<) (?P t0)" "sorted_wrt (<) (?P t1)" using 2 ok by simp_all
  ultimately show ?case using top mid by (simp add: sorted_wrt_append)
qed

lemma p_pre_counts:
  "p_ok bits t \<Longrightarrow> 0 \<le> bits \<Longrightarrow> pl < p_len bits t \<Longrightarrow> w \<in> set (p_pre bits t pl) \<Longrightarrow> 0 \<le> l \<Longrightarrow> snd w < l \<Longrightarrow>
   l \<le> p_len bits (fst w) \<Longrightarrow> pl \<le> snd w \<and>
   hot_below bits (p_set t) l (p_net (fst w)) = p_count (fst w)"
proof (induction bits t pl rule: p_pre.induct)
  case (1 bits i v pl)
  then show ?case using p_covered[OF 1(1), of l v] by auto
next
  case (2 bits i n lb c t0 t1 pl)
  have ok: "p_ok bits t0" "p_ok bits t1" "lb < p_len bits t0" "lb < p_len bits t1" using 2(3) by auto
  consider "w = (PBranch i n lb c t0 t1, pl)" | b where "w \<in> set (p_pre bits (p_child b t0 t1) lb)"
  proof -
    have "w = (PBranch i n lb c t0 t1, pl) \<or> w \<in> set (p_pre bits (p_child False t0 t1) lb) \<or>
        w \<in> set (p_pre bits (p_child True t0 t1) lb)"
      using 2(6) by (auto simp: p_child_def)
    then show thesis using that by blast
  qed
  then show ?case
  proof cases
    case 1
    then show ?thesis using p_covered[OF 2(3), of l n] 2(8,9) by auto
  next
    case (2 b)
    have ih: "lb \<le> snd w \<and> hot_below bits (p_set (p_child b t0 t1)) l (p_net (fst w)) = p_count (fst w)"
      using "2.IH" "2.prems" ok 2 by (cases b) (auto simp: p_child_def)
    moreover have "0 < p_count (fst w)"
      using p_count_pos[of bits "fst w"] p_pre_ok[OF _ 2] ok by (auto simp: p_child_def split: if_splits)
    ultimately obtain a where a: "a \<in> p_set (p_child b t0 t1)" "agree bits l a (p_net (fst w))"
      using hot_below_pos_iff[of "p_set (p_child b t0 t1)" bits l "p_net (fst w)"] by auto
    have "msb bits lb a = b"
      using a(1) p_side[OF "2.prems"(1), of a] by (cases b) (auto simp: p_child_def)
    then have "msb bits lb (p_net (fst w)) = b"
      using a(2) ih "2.prems" by (auto dest: agree_msb[of bits l _ _ lb])
    then show ?thesis using ih p_descend[OF "2.prems"(1), of l "p_net (fst w)"] "2.prems" by auto
  qed
qed

section \<open>The methods\<close>

lemma pt_bits_nonneg [simp]: "0 \<le> pt_bit_length pt"
  by (simp add: pt_bit_length_def)

lemma patricia_set_range: "patricia_invar pt \<Longrightarrow> patricia_set pt \<subseteq> value_range (pt_family pt)"
  by (erule patricia_cases)
    (auto simp: patricia_holds_def value_range_def pt_bit_length_def dest: p_set_range)

lemma pt_prefix_of_correct:
  assumes "0 \<le> l" "l \<le> pt_bit_length pt"
  shows "pt_prefix_of pt v l = Inr (prefix_at (pt_family pt) v l)"
  using assms mk_prefix_valid[of l "pt_family pt" v]
  by (simp add: pt_prefix_of_def pt_bit_length_def prefix_at_def Let_def net_of_def)

lemma pt_contains_correct:
  assumes "patricia_invar pt" "valid_address a" "addr_family a = pt_family pt"
  shows "pt_contains pt a = Some (Inr (addr_value a \<in> patricia_set pt))"
proof -
  have "hot_below (pt_bit_length pt) (patricia_set pt) (pt_bit_length pt) (addr_value a) =
      of_bool (addr_value a \<in> patricia_set pt)"
    using hot_below_host[OF patricia_set_range[OF assms(1)]] assms(2,3)
    by (simp add: pt_bit_length_def valid_address_range)
  then show ?thesis
    using pt_count_at_ok[OF assms(1), of "pt_bit_length pt" "addr_value a"] assms(3)
    by (simp add: pt_contains_def pt_check_family_def)
qed

lemma pt_hot_count_correct:
  assumes "patricia_invar pt" "valid_prefix p" "pfx_family p = pt_family pt"
  shows "pt_hot_count pt p =
    Some (Inr (hot_below (bit_length (pt_family pt)) (patricia_set pt) (pfx_length p) (pfx_network p)))"
  using pt_count_at_ok[OF assms(1), of "pfx_length p" "pfx_network p"] assms(2,3)
  by (simp add: pt_hot_count_def pt_check_family_def pt_bit_length_def valid_prefix_iff)

lemma pt_hot_ip_count_correct:
  assumes "patricia_invar pt"
  shows "pt_hot_ip_count pt = Inr (int (card (patricia_set pt)))"
  using assms
proof (cases rule: patricia_cases)
  case (2 t)
  have h: "arena_ok (pt_arena pt)" "p_rep (pt_bit_length pt) (arena_map (pt_arena pt)) t" "p_id t = pt_root pt"
    "p_ok (pt_bit_length pt) t"
    using assms 2(2) by (auto simp: patricia_invar_def patricia_holds_def)
  show ?thesis
    using pt_visit_ok(2)[OF h(1,2)] h(3) 2(1,3) p_count_card[OF h(4)] by (simp add: pt_hot_ip_count_def)
qed (simp add: pt_hot_ip_count_def)

lemma pt_ancestor_counts_correct:
  assumes "patricia_invar pt" "addr_family a = pt_family pt"
  shows "pt_ancestor_counts pt a m =
    Some (if 0 \<le> m \<and> m \<le> bit_length (pt_family pt)
          then Inr (spec_ancestor_counts (pt_family pt) (patricia_set pt) (addr_value a) m) else Inl ValueError)"
proof (cases "0 \<le> m \<and> m \<le> bit_length (pt_family pt)")
  case True
  obtain cs where cs: "pt_counts_along pt (addr_value a) = Some (Inr cs)"
    "\<forall>i. 0 \<le> i \<and> i \<le> pt_bit_length pt \<longrightarrow>
      py_get cs i = Inr (hot_below (pt_bit_length pt) (patricia_set pt) i (addr_value a))"
    using pt_counts_along_ok[OF assms(1), of "addr_value a"] by blast
  have "mapE (\<lambda>l. bindE (pt_prefix_of pt (addr_value a) l) (\<lambda>p. bindE (py_get cs l) (\<lambda>c.
          Inr \<lparr>pc_prefix = p, pc_hot_count = c\<rparr>))) [m .. pt_bit_length pt] =
      Inr (map (count_at (pt_family pt) (patricia_set pt) (addr_value a)) [m .. pt_bit_length pt])"
    using True cs(2) by (intro mapE_all_Inr) (simp add: pt_prefix_of_correct count_at_def pt_bit_length_def)
  with True cs(1) assms(2) show ?thesis
    by (simp add: pt_ancestor_counts_def pt_check_family_def pt_check_min_length_def pt_bit_length_def
        spec_ancestor_counts_def)
next
  case False
  then show ?thesis
    using assms(2) by (auto simp: pt_ancestor_counts_def pt_check_family_def pt_check_min_length_def
        pt_bit_length_def guardE_def)
qed

lemma pt_longest_loop_ok:
  assumes "\<And>i. i \<in> set ls \<Longrightarrow> py_get cs i = Inr (h i) \<and> 0 \<le> i \<and> i \<le> pt_bit_length pt"
  shows "pt_longest_loop pt v cs ls =
    Inr (map_option (prefix_at (pt_family pt) v) (find (\<lambda>l. 0 < h l) ls))"
  using assms by (induction ls) (auto simp: pt_prefix_of_correct)

lemma find_rev_upto:
  "find P (rev [0 .. int n]) = Some l \<Longrightarrow> 0 \<le> l \<and> l \<le> int n \<and> P l \<and> (\<forall>k. l < k \<and> k \<le> int n \<longrightarrow> \<not> P k)"
proof (induction n)
  case 0
  then show ?case by (auto split: if_splits)
next
  case (Suc n)
  have "[0 .. int (Suc n)] = [0 .. int n] @ [int (Suc n)]" by (simp add: upto_rec2)
  with Suc show ?case by (auto split: if_splits) (smt (verit) of_nat_Suc)
qed

lemma pt_longest_correct:
  assumes "patricia_invar pt" "addr_family a = pt_family pt"
  shows "pt_longest_matching_prefix pt a =
    Some (Inr (spec_longest_match (pt_family pt) (patricia_set pt) (addr_value a)))"
proof -
  let ?b = "pt_bit_length pt" and ?H = "patricia_set pt" and ?v = "addr_value a"
  let ?h = "\<lambda>l. hot_below ?b ?H l ?v"
  have fin: "finite ?H" using patricia_set_range[OF assms(1)] finite_subset finite_value_range by blast
  obtain cs where cs: "pt_counts_along pt ?v = Some (Inr cs)"
    "\<forall>i. 0 \<le> i \<and> i \<le> ?b \<longrightarrow> py_get cs i = Inr (?h i)"
    using pt_counts_along_ok[OF assms(1), of ?v] by blast
  have loop: "pt_longest_matching_prefix pt a =
      Some (Inr (map_option (prefix_at (pt_family pt) ?v) (find (\<lambda>l. 0 < ?h l) (rev [0 .. ?b]))))"
    using cs assms(2) pt_longest_loop_ok[of "rev [0 .. ?b]" cs ?h pt ?v]
    by (simp add: pt_longest_matching_prefix_def pt_check_family_def)
  show ?thesis
  proof (cases "find (\<lambda>l. 0 < ?h l) (rev [0 .. ?b])")
    case None
    then have "\<not> 0 < ?h 0" unfolding find_None_iff by (metis atLeastAtMost_iff order_refl pt_bits_nonneg set_rev set_upto)
    then have "?H = {}" using fin by simp
    with None loop show ?thesis by (simp add: spec_longest_match_def)
  next
    case (Some l)
    then have l: "0 \<le> l" "l \<le> ?b" "0 < ?h l" "\<forall>k. l < k \<and> k \<le> ?b \<longrightarrow> \<not> 0 < ?h k"
      using find_rev_upto[of "\<lambda>l. 0 < ?h l" "nat ?b" l] by auto
    then have "?H \<noteq> {}" by auto
    with l fin have "spec_longest_match (pt_family pt) ?H ?v = Some (prefix_at (pt_family pt) ?v l)"
      by (intro spec_longest_match_eqI) (auto simp: pt_bit_length_def)
    with Some loop show ?thesis by simp
  qed
qed

lemma edge_counts_ok:
  assumes "arena_ok (pt_arena pt)" "p_rep (pt_bit_length pt) (arena_map (pt_arena pt)) t"
    "p_ok (pt_bit_length pt) t" "- 1 < p_len (pt_bit_length pt) t" "0 \<le> m" "w \<in> set (p_pre (pt_bit_length pt) t (- 1))"
  shows "pt_edge_counts pt m (p_id (fst w), snd w) =
    Inr (map (\<lambda>(n, l). count_at (pt_family pt) (p_set t) n l) (edge_pairs (pt_bit_length pt) m w))"
proof -
  let ?b = "pt_bit_length pt"
  have w: "p_rep ?b (arena_map (pt_arena pt)) (fst w)" "p_ok ?b (fst w)"
    using p_pre_rep[OF assms(2,6)] p_pre_ok[OF assms(3,6)] by auto
  note r = pt_visit_ok[OF assms(1) w(1)]
  have el: "bindE (pt_prefix_of pt (p_net (fst w)) l) (\<lambda>p. Inr \<lparr>pc_prefix = p, pc_hot_count = p_count (fst w)\<rparr>) =
      Inr (count_at (pt_family pt) (p_set t) (net_of ?b l (p_net (fst w))) l)"
    if "l \<in> set [max (snd w + 1) m .. p_len ?b (fst w)]" for l
  proof -
    have l: "snd w < l" "0 \<le> l" "l \<le> p_len ?b (fst w)" "l \<le> ?b"
      using that assms(5) p_len_bounds[OF w(2)] by auto
    have "hot_below ?b (p_set t) l (net_of ?b l (p_net (fst w))) = p_count (fst w)"
      using p_pre_counts[OF assms(3) _ assms(4,6) l(2,1,3)] l
        hot_below_cong[of ?b l "net_of ?b l (p_net (fst w))" "p_net (fst w)" "p_set t"] by simp
    then show ?thesis
      using l pt_prefix_of_correct[of l pt "p_net (fst w)"]
      by (simp add: count_at_def prefix_at_def net_of_net_of pt_bit_length_def)
  qed
  have "mapE (\<lambda>l. bindE (pt_prefix_of pt (p_net (fst w)) l) (\<lambda>p. Inr \<lparr>pc_prefix = p, pc_hot_count = p_count (fst w)\<rparr>))
      [max (snd w + 1) m .. p_len ?b (fst w)] =
    Inr (map (\<lambda>l. count_at (pt_family pt) (p_set t) (net_of ?b l (p_net (fst w))) l)
      [max (snd w + 1) m .. p_len ?b (fst w)])"
    by (rule mapE_all_Inr) (rule el)
  then show ?thesis
    using r p_count_pos[OF w(2)] by (simp add: pt_edge_counts_def edge_pairs_def o_def)
qed

lemma pt_iter_prefix_counts_correct:
  assumes "patricia_invar pt"
  shows "pt_iter_prefix_counts pt m =
    Some (if 0 \<le> m \<and> m \<le> bit_length (pt_family pt)
          then Inr (spec_prefix_counts (pt_family pt) (patricia_set pt) m) else Inl ValueError)"
proof (cases "0 \<le> m \<and> m \<le> bit_length (pt_family pt)")
  case True
  let ?b = "pt_bit_length pt"
  have chk: "pt_check_min_length pt m = Inr ()" using True by (simp add: pt_check_min_length_def pt_bit_length_def)
  show ?thesis using assms
  proof (cases rule: patricia_cases)
    case 1
    then show ?thesis
      using True chk by (simp add: pt_iter_prefix_counts_def pt_dfs_def spec_prefix_counts_def hot_prefixes_def)
  next
    case (2 t)
    have h: "arena_ok (pt_arena pt)" "p_rep ?b (arena_map (pt_arena pt)) t" "p_ok ?b t"
      using assms 2(2) by (auto simp: patricia_invar_def patricia_holds_def)
    have len: "- 1 < p_len ?b t" using p_len_bounds[OF h(3)] by simp
    let ?ws = "p_pre ?b t (- 1)"
    let ?ps = "concat (map (edge_pairs ?b m) ?ws)"
    have "mapE (pt_edge_counts pt m) (pre_ids ?ws) =
        Inr (map (\<lambda>w. map (\<lambda>(n, l). count_at (pt_family pt) (p_set t) n l) (edge_pairs ?b m w)) ?ws)"
    proof -
      have "mapE (pt_edge_counts pt m) (pre_ids ws) =
          Inr (map (\<lambda>w. map (\<lambda>(n, l). count_at (pt_family pt) (p_set t) n l) (edge_pairs ?b m w)) ws)"
        if "set ws \<subseteq> set ?ws" for ws
        using that edge_counts_ok[OF h len, of m] True by (induction ws) auto
      then show ?thesis by simp
    qed
    moreover have "concat (map (\<lambda>w. map (\<lambda>(n, l). count_at (pt_family pt) (p_set t) n l) (edge_pairs ?b m w)) ?ws) =
        map (\<lambda>(n, l). count_at (pt_family pt) (p_set t) n l) ?ps"
      by (simp add: map_concat o_def)
    moreover have "spec_prefix_counts (pt_family pt) (p_set t) m =
        map (\<lambda>(n, l). count_at (pt_family pt) (p_set t) n l) ?ps"
    proof (rule spec_prefix_counts_eqI)
      have "sorted_wrt (<) ?ps" using p_pre_sorted[OF h(3) _ _ len] True by simp
      then show "sorted ?ps" "distinct ?ps" by (simp_all add: strict_sorted_iff)
      have "set ?ps = below_pairs ?b (p_set t) (max (- 1 + 1) m)"
        using True by (intro p_pre_pairs[OF h(3) _ _ len]) simp_all
      then show "set ?ps = hot_prefixes (bit_length (pt_family pt)) (p_set t) m"
        using True by (simp add: below_pairs_def hot_prefixes_def pt_bit_length_def max_def)
    qed
    ultimately show ?thesis
      using True chk pt_dfs_ok[OF assms 2(2)] 2(3) by (simp add: pt_iter_prefix_counts_def del: pre_ids_simps)
  qed
next
  case False
  then show ?thesis
    by (auto simp: pt_iter_prefix_counts_def pt_check_min_length_def pt_bit_length_def guardE_def)
qed

lemma pt_iter_hot_addresses_correct:
  assumes "patricia_invar pt"
  shows "pt_iter_hot_addresses pt = Some (Inr (spec_hot_addresses (pt_family pt) (patricia_set pt)))"
  using assms
proof (cases rule: patricia_cases)
  case 1
  then show ?thesis by (simp add: pt_iter_hot_addresses_def pt_dfs_def spec_hot_addresses_def)
next
  case (2 t)
  let ?b = "pt_bit_length pt"
  let ?f = "\<lambda>(nid, pl::int). bindE (py_get (ar_length (pt_arena pt)) nid) (\<lambda>len.
      if len = ?b then bindE (py_get (ar_network (pt_arena pt)) nid) (\<lambda>v.
        bindE (mk_address (pt_family pt) v) (\<lambda>a. Inr [a])) else Inr [])"
  have h: "arena_ok (pt_arena pt)" "p_rep ?b (arena_map (pt_arena pt)) t" "p_ok ?b t"
    using assms 2(2) by (auto simp: patricia_invar_def patricia_holds_def)
  have "\<exists>css. mapE ?f (pre_ids (p_pre ?b s pl)) = Inr css \<and>
      concat css = map (\<lambda>v. \<lparr>addr_family = pt_family pt, addr_value = v\<rparr>) (p_leaves s)"
    if "p_rep ?b (arena_map (pt_arena pt)) s" "p_ok ?b s" for s pl
    using that
  proof (induction s arbitrary: pl)
    case (PLeaf i v)
    then show ?case using pt_visit_ok[OF h(1) PLeaf(1)] by (simp add: pt_bit_length_def)
  next
    case (PBranch i n l c t0 t1)
    have app: "mapE f (xs @ ys) = Inr (as @ bs)" if "mapE f xs = Inr as" "mapE f ys = Inr bs"
      for f :: "node_id \<times> int \<Rightarrow> address list result" and xs ys as bs
      using that by (induction xs arbitrary: as) (auto simp: bindE_eq_Inr)
    obtain as bs where "mapE ?f (pre_ids (p_pre ?b t0 l)) = Inr as" "mapE ?f (pre_ids (p_pre ?b t1 l)) = Inr bs"
      "concat as = map (\<lambda>v. \<lparr>addr_family = pt_family pt, addr_value = v\<rparr>) (p_leaves t0)"
      "concat bs = map (\<lambda>v. \<lparr>addr_family = pt_family pt, addr_value = v\<rparr>) (p_leaves t1)"
      using PBranch.IH(1)[of l] PBranch.IH(2)[of l] PBranch.prems by auto
    with app[of ?f "pre_ids (p_pre ?b t0 l)" as "pre_ids (p_pre ?b t1 l)" bs] PBranch.prems
    show ?case using pt_visit_ok(3)[OF h(1) PBranch.prems(1)] by simp
  qed
  then obtain css where "mapE ?f (pre_ids (p_pre ?b t (- 1))) = Inr css"
    "concat css = map (\<lambda>v. \<lparr>addr_family = pt_family pt, addr_value = v\<rparr>) (p_leaves t)" using h by blast
  moreover have "spec_hot_addresses (pt_family pt) (p_set t) =
      map (\<lambda>v. \<lparr>addr_family = pt_family pt, addr_value = v\<rparr>) (p_leaves t)"
    using p_leaves_sorted[OF h(3)] by (intro spec_hot_addresses_eqI) (simp_all add: strict_sorted_iff)
  ultimately show ?thesis
    using pt_dfs_ok[OF assms 2(2)] 2(3) by (simp add: pt_iter_hot_addresses_def del: pre_ids_simps)
qed

end
