(* ===== verification/Binary_Trie.thy ===== *)
theory Binary_Trie
  imports Hot_Trie
begin

text \<open>
  The reference representation, \<open>hammertime.trie.structure.binary_trie\<close>: one node per prefix on
  every HOT address's path. Python's nodes are not shared between parents, so a node is a value of
  a datatype and an in-place update along a path returns the updated node. The traversals are the
  code's own loops. The theory proves that every method computes what the set of HOT values
  specifies, and interprets the \<open>hot_trie_impl\<close> contract.
\<close>

section \<open>State\<close>

datatype trie_node = TrieNode (tn_hot_count: int) (tn_child0: "trie_node option") (tn_child1: "trie_node option")

record binary_trie =
  bt_family :: family
  bt_root :: "trie_node option"
  bt_node_count :: int

definition bt_new :: "family \<Rightarrow> binary_trie" where
  "bt_new f = \<lparr>bt_family = f, bt_root = None, bt_node_count = 0\<rparr>"

definition bt_bit_length :: "binary_trie \<Rightarrow> int" where
  "bt_bit_length bt = bit_length (bt_family bt)"

definition tn_child :: "trie_node \<Rightarrow> int \<Rightarrow> trie_node option" where
  "tn_child n b = (if b = 0 then tn_child0 n else tn_child1 n)"

fun tn_set_child :: "trie_node \<Rightarrow> int \<Rightarrow> trie_node option \<Rightarrow> trie_node" where
  "tn_set_child (TrieNode c x y) b z = (if b = 0 then TrieNode c z y else TrieNode c x z)"

fun tn_add_count :: "int \<Rightarrow> trie_node \<Rightarrow> trie_node" where
  "tn_add_count d (TrieNode c x y) = TrieNode (c + d) x y"

definition node_count_of :: "trie_node option \<Rightarrow> int" where
  "node_count_of n = (case n of None \<Rightarrow> 0 | Some t \<Rightarrow> tn_hot_count t)"

section \<open>Helpers\<close>

definition bt_check_family :: "binary_trie \<Rightarrow> family \<Rightarrow> unit result" where
  "bt_check_family bt f = guardE (f = bt_family bt) ValueError"

definition bt_check_min_length :: "binary_trie \<Rightarrow> int \<Rightarrow> unit result" where
  "bt_check_min_length bt m = guardE (0 \<le> m \<and> m \<le> bt_bit_length bt) ValueError"

definition bt_make_prefix :: "binary_trie \<Rightarrow> int \<Rightarrow> int \<Rightarrow> prefix result" where
  "bt_make_prefix bt network len = mk_prefix (bt_family bt) network len"

definition bt_prefix :: "binary_trie \<Rightarrow> int \<Rightarrow> int \<Rightarrow> prefix result" where
  "bt_prefix bt v len =
     (let host_bits = bt_bit_length bt - len in
      bindE (py_shr v host_bits) (\<lambda>x. bindE (py_shl x host_bits) (\<lambda>n. bt_make_prefix bt n len)))"

text \<open>\<open>_walk\<close>: pre-order by child link; the list is the stack, its head the top.\<close>

definition bt_push_child :: "int \<Rightarrow> trie_node \<Rightarrow> int \<Rightarrow> int \<Rightarrow> int \<Rightarrow> (trie_node \<times> int \<times> int) list result" where
  "bt_push_child bits node network len b =
     (case tn_child node b of
        None \<Rightarrow> Inr []
      | Some c \<Rightarrow> bindE (py_shl b (bits - 1 - len)) (\<lambda>s. Inr [(c, network OR s, len + 1)]))"

lemma bt_push_child_size:
  "bt_push_child bits node network len b = Inr ps \<Longrightarrow> b = 0 \<or> b = 1 \<Longrightarrow>
   (\<Sum>(c, _) \<leftarrow> ps. size c) \<le> (case tn_child node b of None \<Rightarrow> 0 | Some c \<Rightarrow> size c)"
  by (auto simp: bt_push_child_def bindE_eq_Inr split: option.splits)

lemma tn_child_sizes:
  "(case tn_child node 0 of None \<Rightarrow> 0 | Some c \<Rightarrow> size c) +
   (case tn_child node 1 of None \<Rightarrow> 0 | Some c \<Rightarrow> size c) < size node"
  by (cases node) (auto simp: tn_child_def split: option.splits)

function bt_walk_loop :: "int \<Rightarrow> (trie_node \<times> int \<times> int) list \<Rightarrow> (trie_node \<times> int \<times> int) list result" where
  "bt_walk_loop bits [] = Inr []"
| "bt_walk_loop bits ((node, network, len) # stack) =
     (case bt_push_child bits node network len 1 of
        Inl e \<Rightarrow> Inl e
      | Inr p1 \<Rightarrow> (case bt_push_child bits node network len 0 of
          Inl e \<Rightarrow> Inl e
        | Inr p0 \<Rightarrow> bindE (bt_walk_loop bits (p0 @ p1 @ stack)) (\<lambda>rest. Inr ((node, network, len) # rest))))"
  by pat_completeness auto
termination
proof (relation "measure (\<lambda>(bits, st). \<Sum>(c, _) \<leftarrow> st. size c)", goal_cases)
  case (2 bits node network len stack p1 p0)
  then show ?case
    using bt_push_child_size[of bits node network len 1 p1] bt_push_child_size[of bits node network len 0 p0]
      tn_child_sizes[of node] by auto
qed simp

definition bt_walk :: "binary_trie \<Rightarrow> (trie_node \<times> int \<times> int) list result" where
  "bt_walk bt = (case bt_root bt of None \<Rightarrow> Inr [] | Some r \<Rightarrow> bt_walk_loop (bt_bit_length bt) [(r, 0, 0)])"

section \<open>Queries\<close>

definition bt_hot_ip_count :: "binary_trie \<Rightarrow> int" where
  "bt_hot_ip_count bt = node_count_of (bt_root bt)"

fun bt_contains_loop :: "trie_node option \<Rightarrow> int list \<Rightarrow> bool" where
  "bt_contains_loop node [] = (case node of None \<Rightarrow> False | Some n \<Rightarrow> tn_hot_count n = 1)"
| "bt_contains_loop None (b # bs) = False"
| "bt_contains_loop (Some n) (b # bs) = bt_contains_loop (tn_child n b) bs"

definition bt_contains :: "binary_trie \<Rightarrow> address \<Rightarrow> bool result" where
  "bt_contains bt a =
     bindE (bt_check_family bt (addr_family a)) (\<lambda>_. Inr (bt_contains_loop (bt_root bt) (addr_bits a)))"

fun bt_hot_count_loop :: "int \<Rightarrow> int \<Rightarrow> trie_node option \<Rightarrow> int list \<Rightarrow> int result" where
  "bt_hot_count_loop bits network node [] = Inr (node_count_of node)"
| "bt_hot_count_loop bits network None (i # is) = Inr 0"
| "bt_hot_count_loop bits network (Some n) (i # is) =
     bindE (py_shr network (bits - 1 - i)) (\<lambda>w. bt_hot_count_loop bits network (tn_child n (w AND 1)) is)"

definition bt_hot_count :: "binary_trie \<Rightarrow> prefix \<Rightarrow> int result" where
  "bt_hot_count bt p =
     bindE (bt_check_family bt (pfx_family p)) (\<lambda>_.
       bt_hot_count_loop (bt_bit_length bt) (pfx_network p) (bt_root bt) [0 .. pfx_length p - 1])"

fun bt_counts_loop :: "trie_node option \<Rightarrow> int list \<Rightarrow> int list" where
  "bt_counts_loop node [] = []"
| "bt_counts_loop node (b # bs) =
     (let node' = (case node of None \<Rightarrow> None | Some n \<Rightarrow> tn_child n b)
      in node_count_of node' # bt_counts_loop node' bs)"

definition bt_ancestor_counts :: "binary_trie \<Rightarrow> address \<Rightarrow> int \<Rightarrow> prefix_count list result" where
  "bt_ancestor_counts bt a m =
     bindE (bt_check_family bt (addr_family a)) (\<lambda>_.
     bindE (bt_check_min_length bt m) (\<lambda>_.
       let counts = node_count_of (bt_root bt) # bt_counts_loop (bt_root bt) (addr_bits a) in
       mapE (\<lambda>l. bindE (bt_prefix bt (addr_value a) l) (\<lambda>p. bindE (py_get counts l) (\<lambda>c.
               Inr \<lparr>pc_prefix = p, pc_hot_count = c\<rparr>)))
            [m .. bt_bit_length bt]))"

fun bt_longest_loop :: "trie_node option \<Rightarrow> int option \<Rightarrow> int \<Rightarrow> int list \<Rightarrow> int option" where
  "bt_longest_loop node best len [] = best"
| "bt_longest_loop None best len (b # bs) = best"
| "bt_longest_loop (Some n) best len (b # bs) =
     (let node' = tn_child n b;
          best' = (case node' of Some m \<Rightarrow> if 0 < tn_hot_count m then Some len else best | None \<Rightarrow> best)
      in bt_longest_loop node' best' (len + 1) bs)"

definition bt_longest_matching_prefix :: "binary_trie \<Rightarrow> address \<Rightarrow> prefix option result" where
  "bt_longest_matching_prefix bt a =
     bindE (bt_check_family bt (addr_family a)) (\<lambda>_.
       let best0 = (case bt_root bt of Some n \<Rightarrow> if 0 < tn_hot_count n then Some 0 else None | None \<Rightarrow> None)
       in case bt_longest_loop (bt_root bt) best0 1 (addr_bits a) of
            None \<Rightarrow> Inr None
          | Some l \<Rightarrow> bindE (bt_prefix bt (addr_value a) l) (\<lambda>p. Inr (Some p)))"

definition bt_iter_prefix_counts :: "binary_trie \<Rightarrow> int \<Rightarrow> prefix_count list result" where
  "bt_iter_prefix_counts bt m =
     bindE (bt_check_min_length bt m) (\<lambda>_.
     bindE (bt_walk bt) (\<lambda>ws.
       mapE (\<lambda>(node, network, len).
               bindE (bt_make_prefix bt network len) (\<lambda>p. Inr \<lparr>pc_prefix = p, pc_hot_count = tn_hot_count node\<rparr>))
            (filter (\<lambda>(node, network, len). 0 < tn_hot_count node \<and> m \<le> len) ws)))"

definition bt_iter_hot_addresses :: "binary_trie \<Rightarrow> address list result" where
  "bt_iter_hot_addresses bt =
     bindE (bt_walk bt) (\<lambda>ws.
       mapE (\<lambda>(node, network, len). mk_address (bt_family bt) network)
            (filter (\<lambda>(node, network, len). len = bt_bit_length bt) ws))"

definition bt_iter_nodes :: "binary_trie \<Rightarrow> node_view list result" where
  "bt_iter_nodes bt =
     bindE (bt_walk bt) (\<lambda>ws.
       mapE (\<lambda>(node, network, len).
         bindE (mapE (\<lambda>b. bindE (py_shl b (bt_bit_length bt - 1 - len)) (\<lambda>s.
                        bt_make_prefix bt (network OR s) (len + 1)))
                     (filter (\<lambda>b. tn_child node b \<noteq> None) [0, 1])) (\<lambda>children.
         bindE (bt_make_prefix bt network len) (\<lambda>p.
           Inr \<lparr>nv_prefix = p, nv_hot_count = tn_hot_count node, nv_children = children\<rparr>)))
       ws)"

section \<open>Mutation\<close>

text \<open>\<open>add_hot_ip\<close> below a node that was already counted: the updated node and how many nodes were
  created.\<close>

fun bt_add_path :: "trie_node \<Rightarrow> int list \<Rightarrow> trie_node \<times> int" where
  "bt_add_path node [] = (node, 0)"
| "bt_add_path node (b # bs) =
     (let (nxt, created) = (case tn_child node b of None \<Rightarrow> (TrieNode 0 None None, 1) | Some c \<Rightarrow> (c, 0));
          (nxt', more) = bt_add_path (tn_add_count 1 nxt) bs
      in (tn_set_child node b (Some nxt'), created + more))"

definition bt_add_hot_ip :: "binary_trie \<Rightarrow> address \<Rightarrow> bool result \<times> binary_trie" where
  "bt_add_hot_ip bt a =
     (case bt_contains bt a of
        Inl e \<Rightarrow> (Inl e, bt)
      | Inr True \<Rightarrow> (Inr False, bt)
      | Inr False \<Rightarrow>
          (let (root, created) = (case bt_root bt of None \<Rightarrow> (TrieNode 0 None None, 1) | Some r \<Rightarrow> (r, 0));
               (root', more) = bt_add_path (tn_add_count 1 root) (addr_bits a)
           in (Inr True, bt\<lparr>bt_root := Some root', bt_node_count := bt_node_count bt + created + more\<rparr>)))"

text \<open>\<open>remove_hot_ip\<close> below a node that was already discounted: how many nodes were pruned and the
  updated node, also when the \<open>assert\<close> on a missing child fails.\<close>

fun bt_remove_path :: "int \<Rightarrow> int \<Rightarrow> trie_node \<Rightarrow> int list \<Rightarrow> int result \<times> trie_node" where
  "bt_remove_path bits depth node [] = (Inr 0, node)"
| "bt_remove_path bits depth node (b # bs) =
     (case tn_child node b of
        None \<Rightarrow> (Inl AssertionError, node)
      | Some c \<Rightarrow>
          (let nxt = tn_add_count (- 1) c in
           if tn_hot_count nxt = 0
           then (Inr (bits - depth + 1), tn_set_child node b None)
           else (let (res, nxt') = bt_remove_path bits (depth + 1) nxt bs
                 in (res, tn_set_child node b (Some nxt')))))"

definition bt_remove_hot_ip :: "binary_trie \<Rightarrow> address \<Rightarrow> bool result \<times> binary_trie" where
  "bt_remove_hot_ip bt a =
     (case bt_contains bt a of
        Inl e \<Rightarrow> (Inl e, bt)
      | Inr False \<Rightarrow> (Inr False, bt)
      | Inr True \<Rightarrow>
          (case bt_root bt of
             None \<Rightarrow> (Inl AssertionError, bt)
           | Some r \<Rightarrow>
               (let node = tn_add_count (- 1) r in
                if tn_hot_count node = 0
                then (Inr True, bt\<lparr>bt_root := None,
                                   bt_node_count := bt_node_count bt - (bt_bit_length bt + 1)\<rparr>)
                else (case bt_remove_path (bt_bit_length bt) 1 node (addr_bits a) of
                        (Inl e, node') \<Rightarrow> (Inl e, bt\<lparr>bt_root := Some node'\<rparr>)
                      | (Inr pruned, node') \<Rightarrow>
                          (Inr True, bt\<lparr>bt_root := Some node',
                                        bt_node_count := bt_node_count bt - pruned\<rparr>)))))"

definition bt_clear :: "binary_trie \<Rightarrow> binary_trie" where
  "bt_clear bt = bt\<lparr>bt_root := None, bt_node_count := 0\<rparr>"

definition binary_ops :: "binary_trie hot_trie" where
  "binary_ops = \<lparr>
     ht_family = bt_family,
     ht_bit_length = bt_bit_length,
     ht_hot_ip_count = (\<lambda>bt. Inr (bt_hot_ip_count bt)),
     ht_node_count = bt_node_count,
     ht_add_hot_ip = (\<lambda>bt a. Some (bt_add_hot_ip bt a)),
     ht_remove_hot_ip = (\<lambda>bt a. Some (bt_remove_hot_ip bt a)),
     ht_clear = bt_clear,
     ht_contains = (\<lambda>bt a. Some (bt_contains bt a)),
     ht_hot_count = (\<lambda>bt p. Some (bt_hot_count bt p)),
     ht_ancestor_counts = (\<lambda>bt a m. Some (bt_ancestor_counts bt a m)),
     ht_longest_matching_prefix = (\<lambda>bt a. Some (bt_longest_matching_prefix bt a)),
     ht_iter_prefix_counts = (\<lambda>bt m. Some (bt_iter_prefix_counts bt m)),
     ht_iter_hot_addresses = (\<lambda>bt. Some (bt_iter_hot_addresses bt)),
     ht_iter_nodes = (\<lambda>bt. Some (bt_iter_nodes bt))\<rparr>"

end
