(* ===== verification/Binary_Trie_Correct.thy ===== *)
theory Binary_Trie_Correct
  imports Binary_Trie
begin

text \<open>
  The reference trie against the set-level specification: the invariant of section 12, its
  preservation, the functional behaviour of every query, and the interpretation of the contract.
\<close>

section \<open>Invariant and abstraction\<close>

text \<open>\<open>r\<close> is the number of levels left below a node; the values are relative to its prefix.\<close>

fun bt_ok :: "nat \<Rightarrow> trie_node option \<Rightarrow> bool" where
  "bt_ok r None = True"
| "bt_ok 0 (Some n) = (n = TrieNode 1 None None)"
| "bt_ok (Suc r) (Some n) =
     ((tn_child0 n \<noteq> None \<or> tn_child1 n \<noteq> None) \<and> bt_ok r (tn_child0 n) \<and> bt_ok r (tn_child1 n) \<and>
      tn_hot_count n = node_count_of (tn_child0 n) + node_count_of (tn_child1 n))"

fun bt_set :: "nat \<Rightarrow> trie_node option \<Rightarrow> int set" where
  "bt_set r None = {}"
| "bt_set 0 (Some n) = {0}"
| "bt_set (Suc r) (Some n) = bt_set r (tn_child0 n) \<union> (+) (2 ^ r) ` bt_set r (tn_child1 n)"

fun bt_nodes :: "nat \<Rightarrow> trie_node option \<Rightarrow> int" where
  "bt_nodes r None = 0"
| "bt_nodes 0 (Some n) = 1"
| "bt_nodes (Suc r) (Some n) = 1 + bt_nodes r (tn_child0 n) + bt_nodes r (tn_child1 n)"

definition binary_invar :: "binary_trie \<Rightarrow> bool" where
  "binary_invar bt \<longleftrightarrow> bt_ok (nat (bt_bit_length bt)) (bt_root bt) \<and>
     bt_node_count bt = bt_nodes (nat (bt_bit_length bt)) (bt_root bt)"

definition binary_set :: "binary_trie \<Rightarrow> int set" where
  "binary_set bt = bt_set (nat (bt_bit_length bt)) (bt_root bt)"

lemma node_count_of_simps [simp]:
  "node_count_of None = 0" "node_count_of (Some n) = tn_hot_count n"
  by (simp_all add: node_count_of_def)

lemma node_count_of_nonzero: "node_count_of n \<noteq> 0 \<Longrightarrow> \<exists>m. n = Some m"
  by (cases n) auto

lemma bt_set_range: "bt_set r n \<subseteq> {0 ..< 2 ^ r}"
proof (induction r n rule: bt_set.induct)
  case (3 r n)
  then show ?case by (auto simp: subset_iff)
qed auto

lemma bt_set_bounds: "a \<in> bt_set r n \<Longrightarrow> 0 \<le> a \<and> a < 2 ^ r"
  using bt_set_range[of r n] by (auto simp: subset_iff)

lemma finite_bt_set [simp]: "finite (bt_set r n)"
  by (rule finite_subset[OF bt_set_range]) simp

lemma bt_halves_disjoint: "bt_set r x \<inter> (+) (2 ^ r) ` bt_set r y = {}"
  using bt_set_bounds[of _ r x] bt_set_bounds[of _ r y] by fastforce

lemma bt_count_card: "bt_ok r n \<Longrightarrow> node_count_of n = int (card (bt_set r n))"
proof (induction r n rule: bt_ok.induct)
  case (3 r n)
  then show ?case
    by (simp add: card_Un_disjoint[OF _ _ bt_halves_disjoint] card_image_plus)
qed auto

lemma bt_set_empty_iff: "bt_ok r n \<Longrightarrow> bt_set r n = {} \<longleftrightarrow> n = None"
  by (induction r n rule: bt_ok.induct) auto

lemma bt_count_pos: "bt_ok r (Some n) \<Longrightarrow> 0 < tn_hot_count n"
  using bt_count_card[of r "Some n"] bt_set_empty_iff[of r "Some n"] by (simp add: card_gt_0_iff)

section \<open>Leading bits of a value\<close>

fun lead :: "nat \<Rightarrow> nat \<Rightarrow> int \<Rightarrow> int list" where
  "lead r 0 v = []"
| "lead 0 (Suc l) v = []"
| "lead (Suc r) (Suc l) v = of_bool (bit v r) # lead r l v"

lemma length_lead [simp]: "l \<le> r \<Longrightarrow> length (lead r l v) = l"
  by (induction r l v rule: lead.induct) auto

lemma nth_lead: "l \<le> r \<Longrightarrow> i < l \<Longrightarrow> lead r l v ! i = of_bool (bit v (r - Suc i))"
  by (induction r l v arbitrary: i rule: lead.induct) (auto simp: nth_Cons split: nat.splits)

lemma addr_bits_lead:
  "addr_bits a = lead (nat (bit_length (addr_family a))) (nat (bit_length (addr_family a))) (addr_value a)"
proof (rule nth_equalityI)
  fix i assume i: "i < length (addr_bits a)"
  then have "nat (bit_length (addr_family a) - 1 - int i) = nat (bit_length (addr_family a)) - Suc i"
    by simp
  with i show "addr_bits a ! i =
      lead (nat (bit_length (addr_family a))) (nat (bit_length (addr_family a))) (addr_value a) ! i"
    by (simp add: addr_bits_nth nth_lead msb_def)
qed simp

lemma agree_step:
  "agree (int (Suc r)) (int (Suc l)) a n \<longleftrightarrow> bit a r = bit n r \<and> agree (int r) (int l) a n"
proof -
  have "(\<forall>i. 0 \<le> i \<and> i < int (Suc l) \<longrightarrow> P i) \<longleftrightarrow> P 0 \<and> (\<forall>i. 0 \<le> i \<and> i < int l \<longrightarrow> P (i + 1))"
    for P :: "int \<Rightarrow> bool"
  proof safe
    fix i assume all: "P 0" "\<forall>i. 0 \<le> i \<and> i < int l \<longrightarrow> P (i + 1)" and i: "0 \<le> i" "i < int (Suc l)"
    show "P i"
    proof (cases "i = 0")
      case False
      with i have "0 \<le> i - 1 \<and> i - 1 < int l" by simp
      with all have "P (i - 1 + 1)" by blast
      then show ?thesis by simp
    qed (use all in simp)
  qed auto
  moreover have "msb (int (Suc r)) (i + 1) x = msb (int r) i x" for i x
    by (simp add: msb_def algebra_simps)
  ultimately show ?thesis by (simp add: agree_def msb_def)
qed

lemma bit_high: "0 \<le> a \<Longrightarrow> a < 2 ^ r \<Longrightarrow> r \<le> m \<Longrightarrow> \<not> bit a m" for a :: int
  by (simp add: bit_iff_odd_drop_bit drop_bit_eq_0_iff[THEN iffD2] order.strict_trans2 power_increasing)

lemma bit_plus_high:
  fixes a :: int
  assumes "0 \<le> a" "a < 2 ^ r"
  shows "bit (2 ^ r + a) m \<longleftrightarrow> m = r \<or> bit a m"
proof -
  have "2 ^ r + a = push_bit r 1 OR a"
    using assms by (simp add: disjunctive_add[symmetric] bit_push_bit_iff)
      (subst disjunctive_add; auto simp: bit_exp_iff dest: bit_high)
  then show ?thesis by (auto simp: bit_or_iff bit_exp_iff)
qed

lemma agree_high:
  fixes a :: int
  assumes "0 \<le> a" "a < 2 ^ r" "l \<le> int r"
  shows "agree (int r) l (2 ^ r + a) n \<longleftrightarrow> agree (int r) l a n"
proof -
  have "0 \<le> i \<Longrightarrow> i < l \<Longrightarrow> msb (int r) i (2 ^ r + a) = msb (int r) i a" for i
    using assms by (auto simp: msb_def bit_plus_high)
  then show ?thesis by (simp add: agree_def)
qed

section \<open>Descending\<close>

fun bt_descend :: "trie_node option \<Rightarrow> int list \<Rightarrow> trie_node option" where
  "bt_descend n [] = n"
| "bt_descend None (b # bs) = None"
| "bt_descend (Some n) (b # bs) = bt_descend (tn_child n b) bs"

lemma bt_descend_None [simp]: "bt_descend None bs = None"
  by (cases bs) auto

lemma tn_child_of_bool [simp]:
  "tn_child n (of_bool b) = (if b then tn_child1 n else tn_child0 n)"
  by (simp add: tn_child_def)

lemma hot_below_low:
  assumes "A \<subseteq> {0 ..< 2 ^ r}"
  shows "hot_below (int (Suc r)) A (int (Suc l)) v = (if bit v r then 0 else hot_below (int r) A (int l) v)"
proof -
  have "{a \<in> A. agree (int (Suc r)) (int (Suc l)) a v} = (if bit v r then {} else {a \<in> A. agree (int r) (int l) a v})"
    using assms bit_high[of _ r r] by (auto simp: agree_step subset_iff simp del: of_nat_Suc)
  then show ?thesis by (simp add: hot_below_def del: of_nat_Suc)
qed

lemma hot_below_high:
  assumes "A \<subseteq> {0 ..< 2 ^ r}" "l \<le> r"
  shows "hot_below (int (Suc r)) ((+) (2 ^ r) ` A) (int (Suc l)) v =
    (if bit v r then hot_below (int r) A (int l) v else 0)"
proof -
  have "a \<in> A \<Longrightarrow> agree (int (Suc r)) (int (Suc l)) (2 ^ r + a) v \<longleftrightarrow> bit v r \<and> agree (int r) (int l) a v" for a
    using assms by (auto simp: agree_step agree_high bit_plus_high subset_iff simp del: of_nat_Suc)
  then have "{a \<in> (+) (2 ^ r) ` A. agree (int (Suc r)) (int (Suc l)) a v} =
      (if bit v r then (+) (2 ^ r) ` {a \<in> A. agree (int r) (int l) a v} else {})"
    by (auto simp del: of_nat_Suc)
  then show ?thesis by (simp add: hot_below_def card_image_plus del: of_nat_Suc)
qed

lemma bt_descend_count:
  "bt_ok r n \<Longrightarrow> l \<le> r \<Longrightarrow> hot_below (int r) (bt_set r n) (int l) v = node_count_of (bt_descend n (lead r l v))"
proof (induction r l v arbitrary: n rule: lead.induct)
  case (1 r v)
  then show ?case by (simp add: bt_count_card)
next
  case (3 r l v)
  then show ?case
    by (cases n) (auto simp: hot_below_union[OF _ _ bt_halves_disjoint] hot_below_low[OF bt_set_range]
        hot_below_high[OF bt_set_range] simp del: of_nat_Suc)
qed simp

lemma bt_descend_ok: "bt_ok r n \<Longrightarrow> l \<le> r \<Longrightarrow> bt_ok (r - l) (bt_descend n (lead r l v))"
proof (induction r l v arbitrary: n rule: lead.induct)
  case (3 r l v)
  then show ?case by (cases n) auto
qed auto

text \<open>The loops of the queries are descents.\<close>

lemma bt_contains_loop_descend:
  "bt_contains_loop n bs = (case bt_descend n bs of None \<Rightarrow> False | Some m \<Rightarrow> tn_hot_count m = 1)"
  by (induction n bs rule: bt_contains_loop.induct) auto

lemma bt_hot_count_loop_descend:
  "0 \<le> k \<Longrightarrow> k \<le> len \<Longrightarrow> len \<le> bits \<Longrightarrow>
   bt_hot_count_loop bits v n [k .. len - 1] =
     Inr (node_count_of (bt_descend n (lead (nat (bits - k)) (nat (len - k)) v)))"
proof (induction "nat (len - k)" arbitrary: k n)
  case 0
  then show ?case by simp
next
  case (Suc d)
  then have "k \<le> len - 1" by simp
  then have up: "[k .. len - 1] = k # [k + 1 .. len - 1]" by (simp add: upto_rec1)
  have ld: "lead (nat (bits - k)) (nat (len - k)) v =
      of_bool (bit v (nat (bits - k - 1))) # lead (nat (bits - (k + 1))) (nat (len - (k + 1))) v"
  proof -
    have "nat (bits - k) = Suc (nat (bits - (k + 1)))" "nat (len - k) = Suc (nat (len - (k + 1)))"
      "nat (bits - k - 1) = nat (bits - (k + 1))"
      using Suc.prems \<open>k \<le> len - 1\<close> by auto
    then show ?thesis by simp
  qed
  have sh: "drop_bit (nat (bits - 1 - k)) v AND 1 = of_bool (bit v (nat (bits - k - 1)))"
    by (simp add: and_one_eq bit_iff_odd_drop_bit mod_2_eq_odd algebra_simps)
  show ?case
  proof (cases n)
    case None
    then show ?thesis by (simp add: up)
  next
    case (Some m)
    have "bt_hot_count_loop bits v n [k .. len - 1] =
        bt_hot_count_loop bits v (tn_child m (of_bool (bit v (nat (bits - k - 1))))) [k + 1 .. len - 1]"
      using Some Suc.prems \<open>k \<le> len - 1\<close> by (simp add: up sh del: tn_child_of_bool)
    also have "\<dots> = Inr (node_count_of (bt_descend (tn_child m (of_bool (bit v (nat (bits - k - 1)))))
        (lead (nat (bits - (k + 1))) (nat (len - (k + 1))) v)))"
      using Suc by (intro Suc.hyps(1)) auto
    finally show ?thesis by (simp add: Some ld del: tn_child_of_bool)
  qed
qed

lemma bt_counts_loop_descend:
  "i \<le> length bs \<Longrightarrow> (node_count_of n # bt_counts_loop n bs) ! i = node_count_of (bt_descend n (take i bs))"
proof (induction bs arbitrary: n i)
  case (Cons b bs)
  show ?case
  proof (cases i)
    case (Suc j)
    then show ?thesis
      using Cons.IH[of j "case n of None \<Rightarrow> None | Some m \<Rightarrow> tn_child m b"] Cons.prems
      by (cases n) (auto simp: Let_def)
  qed simp
qed simp

lemma length_bt_counts_loop [simp]: "length (bt_counts_loop n bs) = length bs"
  by (induction bs arbitrary: n) (auto simp: Let_def)

lemma take_lead: "l \<le> r \<Longrightarrow> take l (lead r r v) = lead r l v"
  by (rule nth_equalityI) (auto simp: nth_lead)

lemma bt_longest_loop_descend:
  "bt_ok r (Some m) \<Longrightarrow>
   \<exists>L. bt_longest_loop (Some m) (Some (len - 1)) len (lead r r v) = Some (len - 1 + int L) \<and> L \<le> r \<and>
     bt_descend (Some m) (lead r L v) \<noteq> None \<and>
     (L < r \<longrightarrow> bt_descend (Some m) (lead r (Suc L) v) = None)"
proof (induction r arbitrary: m len)
  case 0
  then show ?case by (intro exI[of _ 0]) simp
next
  case (Suc r)
  let ?c = "if bit v r then tn_child1 m else tn_child0 m"
  show ?case
  proof (cases ?c)
    case None
    then have "bt_longest_loop (Some m) (Some (len - 1)) len (lead (Suc r) (Suc r) v) = Some (len - 1)"
      by (cases r) (auto simp: Let_def)
    with None show ?thesis by (intro exI[of _ 0]) (simp add: Let_def)
  next
    case (Some k)
    then have ok: "bt_ok r (Some k)" using Suc.prems by (auto split: if_splits)
    then obtain L where L: "bt_longest_loop (Some k) (Some (len + 1 - 1)) (len + 1) (lead r r v) = Some (len + 1 - 1 + int L)"
      "L \<le> r" "bt_descend (Some k) (lead r L v) \<noteq> None" "L < r \<longrightarrow> bt_descend (Some k) (lead r (Suc L) v) = None"
      using Suc.IH[of k "len + 1"] by blast
    from L Some bt_count_pos[OF ok] show ?thesis
      by (intro exI[of _ "Suc L"]) (simp add: Let_def split: if_splits)
  qed
qed

section \<open>Mutation\<close>

definition bt_enter :: "trie_node option \<Rightarrow> int list \<Rightarrow> trie_node \<times> int" where
  "bt_enter n bs =
     (let (x, created) = (case n of None \<Rightarrow> (TrieNode 0 None None, 1) | Some c \<Rightarrow> (c, 0));
          (x', more) = bt_add_path (tn_add_count 1 x) bs
      in (x', created + more))"

lemma bt_enter_Nil: "bt_enter n [] = (case n of None \<Rightarrow> (TrieNode 1 None None, 1) | Some c \<Rightarrow> (tn_add_count 1 c, 0))"
  by (simp add: bt_enter_def split: option.splits)

lemma bt_enter_Cons:
  "bt_enter n (b # bs) =
     (let (x, created) = (case n of None \<Rightarrow> (TrieNode 0 None None, 1) | Some c \<Rightarrow> (c, 0));
          (y, more) = bt_enter (tn_child x b) bs
      in (tn_set_child (tn_add_count 1 x) b (Some y), created + more))"
proof -
  have "tn_child (tn_add_count 1 x) b = tn_child x b" for x by (cases x) (simp add: tn_child_def)
  then show ?thesis
    by (auto simp: bt_enter_def Let_def split: prod.splits option.splits)
qed

lemma tn_set_child_of_bool:
  "tn_set_child (tn_add_count d n) (of_bool b) c =
     (if b then TrieNode (tn_hot_count n + d) (tn_child0 n) c else TrieNode (tn_hot_count n + d) c (tn_child1 n))"
  by (cases n) simp

lemma take_bit_top: "take_bit (Suc r) (v::int) = (if bit v r then 2 ^ r + take_bit r v else take_bit r v)"
  by (simp add: take_bit_Suc_from_most)

lemma bt_enter_correct:
  "bt_ok r n \<Longrightarrow> take_bit r v \<notin> bt_set r n \<Longrightarrow> bt_enter n (lead r r v) = (x, k) \<Longrightarrow>
   bt_ok r (Some x) \<and> bt_set r (Some x) = insert (take_bit r v) (bt_set r n) \<and>
   bt_nodes r (Some x) = bt_nodes r n + k \<and> tn_hot_count x = node_count_of n + 1"
proof (induction r arbitrary: n x k)
  case 0
  then show ?case by (cases n) (auto simp: bt_enter_Nil)
next
  case (Suc r)
  define m where "m = (case n of None \<Rightarrow> TrieNode 0 None None | Some c \<Rightarrow> c)"
  define created :: int where "created = (case n of None \<Rightarrow> 1 | Some c \<Rightarrow> 0)"
  let ?c = "if bit v r then tn_child1 m else tn_child0 m"
  obtain y j where y: "bt_enter ?c (lead r r v) = (y, j)" by fastforce
  have x: "x = (if bit v r then TrieNode (tn_hot_count m + 1) (tn_child0 m) (Some y)
                else TrieNode (tn_hot_count m + 1) (Some y) (tn_child1 m))" and k: "k = created + j"
    using Suc.prems(3) y
    by (auto simp: bt_enter_Cons m_def created_def tn_set_child_of_bool simp del: of_bool_eq
        split: option.splits if_splits prod.splits)
  have ok: "bt_ok r (tn_child0 m)" "bt_ok r (tn_child1 m)"
    and cnt: "tn_hot_count m = node_count_of (tn_child0 m) + node_count_of (tn_child1 m)"
    and set: "bt_set (Suc r) n = bt_set r (tn_child0 m) \<union> (+) (2 ^ r) ` bt_set r (tn_child1 m)"
    and nodes: "bt_nodes (Suc r) n + created = 1 + bt_nodes r (tn_child0 m) + bt_nodes r (tn_child1 m)"
    and cn: "node_count_of n = tn_hot_count m"
    using Suc.prems(1) by (cases n; simp add: m_def created_def)+
  have "take_bit r v \<notin> bt_set r ?c"
    using Suc.prems(2) unfolding set take_bit_top by auto
  then have "bt_ok r (Some y) \<and> bt_set r (Some y) = insert (take_bit r v) (bt_set r ?c) \<and>
      bt_nodes r (Some y) = bt_nodes r ?c + j \<and> tn_hot_count y = node_count_of ?c + 1"
    using Suc.IH[OF _ _ y] ok by simp
  then show ?case using ok cnt nodes cn unfolding set x k take_bit_top by auto
qed

lemma bt_single: "bt_ok r (Some n) \<Longrightarrow> tn_hot_count n = 1 \<Longrightarrow> bt_nodes r (Some n) = int r + 1"
proof (induction r arbitrary: n)
  case (Suc r)
  have pos: "bt_ok r c \<Longrightarrow> c \<noteq> None \<Longrightarrow> 0 < node_count_of c" for c
    using bt_count_pos by (cases c) auto
  from Suc show ?case
    using pos[of "tn_child0 n"] pos[of "tn_child1 n"]
    by (cases "tn_child0 n"; cases "tn_child1 n") auto
qed simp

lemma diff_high: "(c::int) + t \<notin> A \<Longrightarrow> A \<union> (+) c ` (B - {t}) = (A \<union> (+) c ` B) - {c + t}"
  by auto

lemma diff_low: "(t::int) \<notin> (+) c ` B \<Longrightarrow> (A - {t}) \<union> (+) c ` B = (A \<union> (+) c ` B) - {t}"
  by auto

lemma bt_remove_correct:
  "bt_ok r (Some m) \<Longrightarrow> take_bit r v \<in> bt_set r (Some m) \<Longrightarrow> tn_hot_count m \<noteq> 1 \<Longrightarrow> bits - depth + 1 = int r \<Longrightarrow>
   \<exists>p x. bt_remove_path bits depth (tn_add_count (- 1) m) (lead r r v) = (Inr p, x) \<and>
     bt_ok r (Some x) \<and> bt_set r (Some x) = bt_set r (Some m) - {take_bit r v} \<and>
     bt_nodes r (Some x) = bt_nodes r (Some m) - p \<and> tn_hot_count x = tn_hot_count m - 1"
proof (induction r arbitrary: m depth)
  case 0
  then show ?case by simp
next
  case (Suc r)
  let ?c = "if bit v r then tn_child1 m else tn_child0 m"
  have high: "2 ^ r + take_bit r v \<notin> bt_set r c" for c
    using bt_set_bounds[of "2 ^ r + take_bit r v" r c] by auto
  have low: "take_bit r v \<notin> (+) (2 ^ r) ` bt_set r c" for c
  proof
    assume "take_bit r v \<in> (+) (2 ^ r) ` bt_set r c"
    then obtain x where "x \<in> bt_set r c" "take_bit r v = 2 ^ r + x" by auto
    with bt_set_bounds[of x r c] take_bit_int_less_exp[of r v] show False by linarith
  qed
  have mem: "take_bit r v \<in> bt_set r ?c"
  proof (cases "bit v r")
    case True
    with Suc.prems(2) high[of "tn_child0 m"] show ?thesis by (auto simp: take_bit_top)
  next
    case False
    with Suc.prems(2) low[of "tn_child1 m"] show ?thesis by (simp add: take_bit_top)
  qed
  then obtain k where k: "?c = Some k" by (cases ?c) auto
  have okk: "bt_ok r (Some k)" using Suc.prems(1) k by (auto split: if_splits)
  have cnt: "tn_hot_count m = node_count_of (tn_child0 m) + node_count_of (tn_child1 m)"
    using Suc.prems(1) by simp
  show ?case
  proof (cases "tn_hot_count k = 1")
    case True
    have "card (bt_set r (Some k)) = 1" using bt_count_card[OF okk] True by simp
    then have sk: "bt_set r (Some k) = {take_bit r v}"
      using mem k by (auto simp: card_1_singleton_iff)
    have nk: "bt_nodes r (Some k) = int r + 1" using bt_single[OF okk True] .
    have "tn_hot_count (tn_add_count (- 1) k) = 0" using True by (cases k) simp
    then have rem: "bt_remove_path bits depth (tn_add_count (- 1) m) (lead (Suc r) (Suc r) v) =
        (Inr (int (Suc r)), if bit v r then TrieNode (tn_hot_count m - 1) (tn_child0 m) None
                  else TrieNode (tn_hot_count m - 1) None (tn_child1 m))"
      using k Suc.prems(4) by (cases m) (auto simp: Let_def tn_child_def split: if_splits)
    show ?thesis
      using Suc.prems(1,3) k sk nk cnt True diff_high[OF high, of _ "{take_bit r v}"]
        diff_low[OF low, of "{take_bit r v}"] unfolding rem take_bit_top
      by (cases "bit v r") (auto dest: node_count_of_nonzero)
  next
    case False
    then obtain p x where x: "bt_remove_path bits (depth + 1) (tn_add_count (- 1) k) (lead r r v) = (Inr p, x)"
      "bt_ok r (Some x)" "bt_set r (Some x) = bt_set r (Some k) - {take_bit r v}"
      "bt_nodes r (Some x) = bt_nodes r (Some k) - p" "tn_hot_count x = tn_hot_count k - 1"
      using Suc.IH[OF okk _ False, of "depth + 1"] mem k Suc.prems(4) by auto
    have "tn_hot_count (tn_add_count (- 1) k) \<noteq> 0" using False by (cases k) simp
    then have rem: "bt_remove_path bits depth (tn_add_count (- 1) m) (lead (Suc r) (Suc r) v) =
        (Inr p, if bit v r then TrieNode (tn_hot_count m - 1) (tn_child0 m) (Some x)
                  else TrieNode (tn_hot_count m - 1) (Some x) (tn_child1 m))"
      using k x(1) by (cases m) (auto simp: Let_def tn_child_def split: if_splits)
    show ?thesis
      using Suc.prems(1) k x(2,4,5) cnt diff_high[OF high] diff_low[OF low] x(3) unfolding rem take_bit_top
      by (cases "bit v r") simp_all
  qed
qed

section \<open>Traversal\<close>

text \<open>The pre-order list the stack loop produces, by recursion on the levels left.\<close>

fun bt_pre :: "int \<Rightarrow> nat \<Rightarrow> trie_node option \<Rightarrow> int \<Rightarrow> (trie_node \<times> int \<times> int) list" where
  "bt_pre bits r None net = []"
| "bt_pre bits 0 (Some n) net = [(n, net, bits)]"
| "bt_pre bits (Suc r) (Some n) net =
     (n, net, bits - int (Suc r)) # bt_pre bits r (tn_child0 n) net @ bt_pre bits r (tn_child1 n) (net + 2 ^ r)"

lemma dvd_not_bit: "2 ^ Suc r dvd (net::int) \<Longrightarrow> \<not> bit net r"
  by (metis bit_push_bit_iff dvd_def lessI linorder_not_le mult.commute push_bit_eq_mult)

lemma or_high: "2 ^ Suc r dvd (net::int) \<Longrightarrow> net OR push_bit r 1 = net + 2 ^ r"
  using dvd_not_bit[of r net] by (subst disjunctive_add[symmetric]) (auto simp: bit_exp_iff)

lemma bt_walk_loop_pre:
  "bt_ok r (Some n) \<Longrightarrow> 2 ^ r dvd net \<Longrightarrow> len = bits - int r \<Longrightarrow>
   bt_walk_loop bits ((n, net, len) # stack) =
     bindE (bt_walk_loop bits stack) (\<lambda>rest. Inr (bt_pre bits r (Some n) net @ rest))"
proof (induction r arbitrary: n net len stack)
  case 0
  then show ?case by (simp add: bt_push_child_def tn_child_def)
next
  case (Suc r)
  have push1: "bt_push_child bits n net len 1 =
      Inr (case tn_child1 n of None \<Rightarrow> [] | Some c \<Rightarrow> [(c, net + 2 ^ r, bits - int r)])"
    using Suc.prems or_high[OF Suc.prems(2)]
    by (auto simp: bt_push_child_def tn_child_def split: option.splits)
  have push0: "bt_push_child bits n net len 0 =
      Inr (case tn_child0 n of None \<Rightarrow> [] | Some c \<Rightarrow> [(c, net, bits - int r)])"
    using Suc.prems by (auto simp: bt_push_child_def tn_child_def split: option.splits)
  have d: "2 ^ r dvd net" "2 ^ r dvd net + 2 ^ r"
    using Suc.prems(2) by (auto intro: dvd_trans[OF le_imp_power_dvd])
  have IH: "bt_ok r c \<Longrightarrow> 2 ^ r dvd x \<Longrightarrow>
      bt_walk_loop bits ((case c of None \<Rightarrow> [] | Some m \<Rightarrow> [(m, x, bits - int r)]) @ st) =
      bindE (bt_walk_loop bits st) (\<lambda>rest. Inr (bt_pre bits r c x @ rest))" for c x st
  proof (cases c)
    case None
    then show ?thesis by (cases "bt_walk_loop bits st") auto
  qed (use Suc.IH in simp)
  have "bt_walk_loop bits ((n, net, len) # stack) =
      bindE (bindE (bindE (bt_walk_loop bits stack) (\<lambda>rest. Inr (bt_pre bits r (tn_child1 n) (net + 2 ^ r) @ rest)))
        (\<lambda>rest. Inr (bt_pre bits r (tn_child0 n) net @ rest))) (\<lambda>rest. Inr ((n, net, len) # rest))"
    using Suc.prems(1) d by (simp add: push0 push1 IH)
  then show ?case using Suc.prems(3) by (cases "bt_walk_loop bits stack") auto
qed

definition walk_pair :: "trie_node \<times> int \<times> int \<Rightarrow> int \<times> int" where
  "walk_pair w = (fst (snd w), snd (snd w))"

lemma net_of_step:
  assumes "0 \<le> a" "a < 2 ^ r" "0 \<le> l" "l \<le> int r"
  shows "net_of (1 + int r) (1 + l) a = net_of (int r) l a"
    "net_of (1 + int r) (1 + l) (2 ^ r + a) = 2 ^ r + net_of (int r) l a"
proof -
  show "net_of (1 + int r) (1 + l) a = net_of (int r) l a" by (simp add: net_of_def)
  have "nat (int r - l) \<le> r" using assms by simp
  then have "(2::int) ^ r = 2 ^ (r - nat (int r - l)) * 2 ^ nat (int r - l)"
    by (simp flip: power_add)
  then show "net_of (1 + int r) (1 + l) (2 ^ r + a) = 2 ^ r + net_of (int r) l a"
    by (simp add: net_of_def push_bit_eq_mult drop_bit_eq_div algebra_simps)
qed

lemma net_of_0: "0 \<le> a \<Longrightarrow> a < 2 ^ r \<Longrightarrow> net_of (int r) 0 a = 0"
  by (simp add: net_of_def drop_bit_eq_0_iff)

lemma times_image: "(+) (c::int) ` A \<times> (+) (1::int) ` L = (\<lambda>(a, l). (c + a, 1 + l)) ` (A \<times> L)"
  by force

lemma bt_pre_pairs:
  "bt_ok r n \<Longrightarrow> walk_pair ` set (bt_pre bits r n net) =
     (\<lambda>(a, l). (net + net_of (int r) l a, bits - int r + l)) ` (bt_set r n \<times> {0 .. int r})"
proof (induction bits r n net rule: bt_pre.induct)
  case (3 bits r n net)
  let ?f = "\<lambda>(a, l). (net + net_of (1 + int r) l a, bits - (1 + int r) + l)"
  have split: "{0 .. 1 + int r} = insert 0 ((+) 1 ` {0 .. int r})"
    by (simp add: image_add_atLeastAtMost) (auto simp: atLeastAtMost_iff)
  have ne: "bt_set (Suc r) (Some n) \<noteq> {}" using bt_set_empty_iff[OF "3.prems"] by simp
  have zero: "?f ` (bt_set (Suc r) (Some n) \<times> {0}) = {(net, bits - (1 + int r))}"
  proof -
    have "a \<in> bt_set (Suc r) (Some n) \<Longrightarrow> net_of (1 + int r) 0 a = 0" for a
      using net_of_0[of a "Suc r"] bt_set_bounds[of a "Suc r" "Some n"] by simp
    with ne show ?thesis by (auto simp: image_iff simp del: bt_set.simps)
  qed
  have low: "?f ` (bt_set r c \<times> (+) 1 ` {0 .. int r}) =
      (\<lambda>(a, l). (net + net_of (int r) l a, bits - int r + l)) ` (bt_set r c \<times> {0 .. int r})" for c
    unfolding times_image[of 0, simplified] image_image
    by (rule image_cong) (auto simp: net_of_step(1) dest: bt_set_bounds)
  have high: "?f ` ((+) (2 ^ r) ` bt_set r c \<times> (+) 1 ` {0 .. int r}) =
      (\<lambda>(a, l). (net + 2 ^ r + net_of (int r) l a, bits - int r + l)) ` (bt_set r c \<times> {0 .. int r})" for c
    unfolding times_image image_image
    by (rule image_cong) (auto simp: net_of_step(2) dest: bt_set_bounds)
  have "?f ` (bt_set (Suc r) (Some n) \<times> {0 .. 1 + int r}) =
      ?f ` (bt_set (Suc r) (Some n) \<times> {0}) \<union>
      ?f ` (bt_set r (tn_child0 n) \<times> (+) 1 ` {0 .. int r}) \<union>
      ?f ` ((+) (2 ^ r) ` bt_set r (tn_child1 n) \<times> (+) 1 ` {0 .. int r})"
    unfolding split by (auto simp: image_Un Sigma_Un_distrib1)
  then show ?case
    using "3.IH" "3.prems" unfolding zero low high by (simp add: walk_pair_def image_Un)
qed (auto simp: walk_pair_def net_of_def)

lemma bt_pre_bounds:
  assumes "bt_ok r n" "w \<in> set (bt_pre bits r n net)"
  shows "net \<le> fst (walk_pair w) \<and> fst (walk_pair w) < net + 2 ^ r \<and>
    bits - int r \<le> snd (walk_pair w) \<and> snd (walk_pair w) \<le> bits"
proof -
  obtain a l where "a \<in> bt_set r n" "0 \<le> l" "l \<le> int r" "walk_pair w = (net + net_of (int r) l a, bits - int r + l)"
  proof -
    have "walk_pair w \<in> walk_pair ` set (bt_pre bits r n net)" using assms(2) by simp
    then show thesis using that unfolding bt_pre_pairs[OF assms(1)] by auto
  qed
  with net_of_le[of a "int r" l] bt_set_bounds[of a r n] show ?thesis by auto
qed

lemma bt_pre_sorted:
  "bt_ok r n \<Longrightarrow> sorted_wrt (<) (map walk_pair (bt_pre bits r n net))"
proof (induction bits r n net rule: bt_pre.induct)
  case (3 bits r n net)
  have "walk_pair x < walk_pair y"
    if "x \<in> set (bt_pre bits r (tn_child0 n) net)" "y \<in> set (bt_pre bits r (tn_child1 n) (net + 2 ^ r))" for x y
    using bt_pre_bounds[OF _ that(1)] bt_pre_bounds[OF _ that(2)] "3.prems" by (auto simp: less_prod_def')
  moreover have "(net, bits - (1 + int r)) < walk_pair x"
    if "x \<in> set (bt_pre bits r (tn_child0 n) net) \<or> x \<in> set (bt_pre bits r (tn_child1 n) (net + 2 ^ r))" for x
    using that bt_pre_bounds[of r "tn_child0 n" x bits net] bt_pre_bounds[of r "tn_child1 n" x bits "net + 2 ^ r"]
      "3.prems" zero_less_power[of "2::int" r]
    by (auto simp: less_prod_def' simp del: zero_less_power)
  ultimately show ?case
    using 3 by (auto simp: sorted_wrt_append sorted_wrt_map walk_pair_def[of "(n, net, _)"])
qed auto

lemma bit_plus_dvd:
  fixes v :: int
  assumes "2 ^ Suc r dvd net" "m \<le> r"
  shows "bit (net + v) m = bit v m"
proof -
  have "take_bit (Suc r) (net + v) = take_bit (Suc r) v"
    using assms(1) by (simp add: take_bit_eq_mod mod_add_left_eq[symmetric] dvd_eq_mod_eq_0 del: mod_add_left_eq power_Suc)
  then have "bit (take_bit (Suc r) (net + v)) m = bit (take_bit (Suc r) v) m" by simp
  then show ?thesis using assms(2) by (simp add: bit_take_bit_iff)
qed

text \<open>Every visited triple is the node its network leads to.\<close>

lemma bt_pre_descend:
  "bt_ok r n \<Longrightarrow> 2 ^ r dvd net \<Longrightarrow> (m, x, len) \<in> set (bt_pre bits r n net) \<Longrightarrow>
   \<exists>l\<le>r. len = bits - int r + int l \<and> bt_descend n (lead r l x) = Some m"
proof (induction bits r n net arbitrary: m x len rule: bt_pre.induct)
  case (3 bits r n net)
  have d: "2 ^ r dvd net" "2 ^ r dvd net + 2 ^ r"
    using "3.prems"(2) by (auto intro: dvd_trans[OF le_imp_power_dvd])
  have bnd: "net \<le> x \<and> x < net + 2 ^ r" if "(m, x, len) \<in> set (bt_pre bits r (tn_child0 n) net)"
    using bt_pre_bounds[OF _ that] "3.prems"(1) by (simp add: walk_pair_def)
  have bnd1: "net + 2 ^ r \<le> x \<and> x < net + 2 ^ r + 2 ^ r"
    if "(m, x, len) \<in> set (bt_pre bits r (tn_child1 n) (net + 2 ^ r))"
    using bt_pre_bounds[OF _ that] "3.prems"(1) by (simp add: walk_pair_def)
  have b: "bit x r = bit (x - net) r" using bit_plus_dvd[OF "3.prems"(2), of r "x - net"] by simp
  consider "(m, x, len) = (n, net, bits - int (Suc r))"
    | "(m, x, len) \<in> set (bt_pre bits r (tn_child0 n) net)"
    | "(m, x, len) \<in> set (bt_pre bits r (tn_child1 n) (net + 2 ^ r))"
    using "3.prems"(3) by auto
  then show ?case
  proof cases
    case 1
    then show ?thesis by (intro exI[of _ 0]) simp
  next
    case 2
    then obtain l where "l \<le> r" "len = bits - int r + int l" "bt_descend (tn_child0 n) (lead r l x) = Some m"
      using "3.IH"(1)[of m x len] "3.prems"(1) d by auto
    moreover have "\<not> bit x r" using bnd[OF 2] b bit_high[of "x - net" r r] by simp
    ultimately show ?thesis by (intro exI[of _ "Suc l"]) (simp add: tn_child_def)
  next
    case 3
    then obtain l where "l \<le> r" "len = bits - int r + int l" "bt_descend (tn_child1 n) (lead r l x) = Some m"
      using "3.IH"(2)[of m x len] "3.prems"(1) d by auto
    moreover have "bit x r"
      using bnd1[OF 3] b bit_plus_high[of "x - net - 2 ^ r" r r] by simp
    ultimately show ?thesis by (intro exI[of _ "Suc l"]) (simp add: tn_child_def)
  qed
qed auto

lemma bt_pre_count:
  assumes "bt_ok r n" "(m, x, len) \<in> set (bt_pre (int r) r n 0)"
  shows "tn_hot_count m = hot_below (int r) (bt_set r n) len x" "0 < tn_hot_count m"
proof -
  obtain l where l: "l \<le> r" "len = int l" "bt_descend n (lead r l x) = Some m"
    using bt_pre_descend[OF assms(1) _ assms(2)] by auto
  show "tn_hot_count m = hot_below (int r) (bt_set r n) len x"
    using bt_descend_count[OF assms(1) l(1), of x] l by simp
  show "0 < tn_hot_count m"
    using bt_descend_ok[OF assms(1) l(1), of x] l(3) bt_count_pos[of "r - l" m] by simp
qed

section \<open>The methods\<close>

lemma int_bit_length [simp]: "int (nat (bit_length f)) = bit_length f"
  by simp

lemma binary_set_range: "binary_set bt \<subseteq> value_range (bt_family bt)"
  using bt_set_range by (simp add: binary_set_def value_range_def bt_bit_length_def)

lemma finite_binary_set [simp]: "finite (binary_set bt)"
  by (simp add: binary_set_def)

lemma binary_descend:
  assumes "binary_invar bt" "0 \<le> l" "l \<le> bit_length (bt_family bt)"
  shows "node_count_of (bt_descend (bt_root bt) (lead (nat (bit_length (bt_family bt))) (nat l) v)) =
    hot_below (bit_length (bt_family bt)) (binary_set bt) l v"
  using assms bt_descend_count[of "nat (bit_length (bt_family bt))" "bt_root bt" "nat l" v]
  by (simp add: binary_invar_def binary_set_def bt_bit_length_def)

lemma bt_contains_correct:
  assumes "binary_invar bt" "valid_address a" "addr_family a = bt_family bt"
  shows "bt_contains bt a = Inr (addr_value a \<in> binary_set bt)"
proof -
  let ?f = "bt_family bt"
  let ?d = "bt_descend (bt_root bt) (addr_bits a)"
  have "node_count_of ?d = of_bool (addr_value a \<in> binary_set bt)"
    using binary_descend[OF assms(1), of "bit_length ?f" "addr_value a"] assms(2,3)
      hot_below_host[OF binary_set_range, of "addr_value a" bt]
    by (simp add: addr_bits_lead valid_address_range)
  then have "bt_contains_loop (bt_root bt) (addr_bits a) \<longleftrightarrow> addr_value a \<in> binary_set bt"
    by (cases ?d) (auto simp: bt_contains_loop_descend)
  with assms(3) show ?thesis by (simp add: bt_contains_def bt_check_family_def)
qed

lemma bt_hot_count_correct:
  assumes "binary_invar bt" "valid_prefix p" "pfx_family p = bt_family bt"
  shows "bt_hot_count bt p =
    Inr (hot_below (bit_length (bt_family bt)) (binary_set bt) (pfx_length p) (pfx_network p))"
  using assms binary_descend[OF assms(1), of "pfx_length p" "pfx_network p"]
  by (simp add: bt_hot_count_def bt_check_family_def bt_bit_length_def valid_prefix_iff
      bt_hot_count_loop_descend[of 0, simplified])

lemma bt_prefix_correct:
  assumes "0 \<le> l" "l \<le> bit_length (bt_family bt)"
  shows "bt_prefix bt v l = Inr (prefix_at (bt_family bt) v l)"
  using assms mk_prefix_valid[of l "bt_family bt" v]
  by (simp add: bt_prefix_def bt_bit_length_def bt_make_prefix_def prefix_at_def Let_def net_of_def)

lemma bt_ancestor_counts_correct:
  assumes "binary_invar bt" "valid_address a" "addr_family a = bt_family bt"
  shows "bt_ancestor_counts bt a m =
    (if 0 \<le> m \<and> m \<le> bit_length (bt_family bt)
     then Inr (spec_ancestor_counts (bt_family bt) (binary_set bt) (addr_value a) m) else Inl ValueError)"
proof (cases "0 \<le> m \<and> m \<le> bit_length (bt_family bt)")
  case True
  let ?f = "bt_family bt"
  let ?cs = "node_count_of (bt_root bt) # bt_counts_loop (bt_root bt) (addr_bits a)"
  have "?cs ! nat l = hot_below (bit_length ?f) (binary_set bt) l (addr_value a)"
    if "m \<le> l" "l \<le> bit_length ?f" for l
    using bt_counts_loop_descend[of "nat l" "addr_bits a" "bt_root bt"] that True assms
      binary_descend[OF assms(1), of l "addr_value a"]
    by (simp add: addr_bits_lead take_lead)
  then have "mapE (\<lambda>l. bindE (bt_prefix bt (addr_value a) l) (\<lambda>p. bindE (py_get ?cs l) (\<lambda>c.
               Inr \<lparr>pc_prefix = p, pc_hot_count = c\<rparr>))) [m .. bt_bit_length bt] =
      Inr (map (count_at ?f (binary_set bt) (addr_value a)) [m .. bt_bit_length bt])"
    using True assms
    by (intro mapE_all_Inr) (simp add: bt_prefix_correct bt_bit_length_def count_at_def)
  with True assms show ?thesis
    by (simp add: bt_ancestor_counts_def bt_check_family_def bt_check_min_length_def
        spec_ancestor_counts_def bt_bit_length_def)
next
  case False
  with assms show ?thesis
    by (auto simp: bt_ancestor_counts_def bt_check_family_def bt_check_min_length_def bt_bit_length_def
        guardE_def)
qed

lemma bt_longest_correct:
  assumes "binary_invar bt" "valid_address a" "addr_family a = bt_family bt"
  shows "bt_longest_matching_prefix bt a =
    Inr (spec_longest_match (bt_family bt) (binary_set bt) (addr_value a))"
proof (cases "bt_root bt")
  case None
  then show ?thesis
    using assms by (cases "addr_bits a")
      (auto simp: bt_longest_matching_prefix_def bt_check_family_def spec_longest_match_def binary_set_def)
next
  case (Some n)
  let ?f = "bt_family bt" and ?B = "bit_length (bt_family bt)"
  have ok: "bt_ok (nat ?B) (Some n)"
    using assms(1) Some by (simp add: binary_invar_def bt_bit_length_def)
  then have ne: "binary_set bt \<noteq> {}"
    using bt_set_empty_iff Some by (simp add: binary_set_def bt_bit_length_def)
  obtain L where L: "bt_longest_loop (Some n) (Some 0) 1 (lead (nat ?B) (nat ?B) (addr_value a)) = Some (int L)"
    "L \<le> nat ?B" "bt_descend (Some n) (lead (nat ?B) L (addr_value a)) \<noteq> None"
    "L < nat ?B \<longrightarrow> bt_descend (Some n) (lead (nat ?B) (Suc L) (addr_value a)) = None"
    using bt_longest_loop_descend[OF ok, of 1 "addr_value a"] by auto
  have cnt: "hot_below ?B (binary_set bt) (int k) (addr_value a) =
      node_count_of (bt_descend (Some n) (lead (nat ?B) k (addr_value a)))" if "k \<le> nat ?B" for k
    using binary_descend[OF assms(1), of "int k" "addr_value a"] that Some by (simp add: le_nat_iff)
  obtain m where m: "bt_descend (Some n) (lead (nat ?B) L (addr_value a)) = Some m" using L(3) by auto
  then have "0 < tn_hot_count m" using bt_descend_ok[OF ok L(2), of "addr_value a"] bt_count_pos by simp
  then have "spec_longest_match ?f (binary_set bt) (addr_value a) = Some (prefix_at ?f (addr_value a) (int L))"
  proof (intro spec_longest_match_eqI)
    show "\<not> 0 < hot_below ?B (binary_set bt) (int L + 1) (addr_value a)" if "int L < ?B"
      using cnt[of "Suc L"] L(4) that by (simp add: add.commute)
  qed (use ne L(2) cnt[OF L(2)] m in \<open>auto simp: le_nat_iff\<close>)
  moreover have "0 < tn_hot_count n" using bt_count_pos[OF ok] .
  ultimately show ?thesis
    using assms L(1,2) Some
    by (simp add: bt_longest_matching_prefix_def bt_check_family_def addr_bits_lead Let_def bt_prefix_correct
        le_nat_iff)
qed

lemma bt_walk_pre:
  assumes "binary_invar bt"
  shows "bt_walk bt = Inr (bt_pre (bit_length (bt_family bt)) (nat (bit_length (bt_family bt))) (bt_root bt) 0)"
proof (cases "bt_root bt")
  case (Some n)
  let ?B = "bit_length (bt_family bt)"
  have "bt_walk_loop ?B ((n, 0, 0) # []) =
      bindE (bt_walk_loop ?B []) (\<lambda>rest. Inr (bt_pre ?B (nat ?B) (Some n) 0 @ rest))"
    using assms Some by (intro bt_walk_loop_pre) (simp_all add: binary_invar_def bt_bit_length_def)
  with Some show ?thesis by (simp add: bt_walk_def bt_bit_length_def del: bt_walk_loop.simps(2))
qed (simp add: bt_walk_def)

lemma bt_walk_facts:
  assumes "binary_invar bt"
  obtains ws where "bt_walk bt = Inr ws" "sorted_wrt (<) (map walk_pair ws)"
    "walk_pair ` set ws = hot_prefixes (bit_length (bt_family bt)) (binary_set bt) 0"
    "\<forall>m x len. (m, x, len) \<in> set ws \<longrightarrow>
       tn_hot_count m = hot_below (bit_length (bt_family bt)) (binary_set bt) len x \<and> 0 < tn_hot_count m"
proof -
  let ?B = "bit_length (bt_family bt)"
  have ok: "bt_ok (nat ?B) (bt_root bt)" and set: "binary_set bt = bt_set (nat ?B) (bt_root bt)"
    using assms by (simp_all add: binary_invar_def binary_set_def bt_bit_length_def)
  show thesis
  proof (rule that[OF bt_walk_pre[OF assms]])
    show "sorted_wrt (<) (map walk_pair (bt_pre ?B (nat ?B) (bt_root bt) 0))"
      by (rule bt_pre_sorted[OF ok])
    show "walk_pair ` set (bt_pre ?B (nat ?B) (bt_root bt) 0) = hot_prefixes ?B (binary_set bt) 0"
      by (simp add: bt_pre_pairs[OF ok] hot_prefixes_def set)
    show "\<forall>m x len. (m, x, len) \<in> set (bt_pre ?B (nat ?B) (bt_root bt) 0) \<longrightarrow>
        tn_hot_count m = hot_below ?B (binary_set bt) len x \<and> 0 < tn_hot_count m"
      using bt_pre_count[OF ok] by (simp add: set)
  qed
qed

lemma hot_prefixes_canonical: "(x, l) \<in> hot_prefixes bits H m \<Longrightarrow> l \<le> bits \<and> m \<le> l \<and> net_of bits l x = x"
  by (auto simp: hot_prefixes_def net_of_net_of)

lemma hot_prefixes_filter:
  "0 \<le> m \<Longrightarrow> {p \<in> hot_prefixes bits H 0. m \<le> snd p} = hot_prefixes bits H m"
  by (force simp: hot_prefixes_def)

lemma hot_prefixes_host: "0 \<le> bits \<Longrightarrow> fst ` {p \<in> hot_prefixes bits H 0. snd p = bits} = H"
  by (force simp: hot_prefixes_def)

lemma bt_iter_prefix_counts_correct:
  assumes "binary_invar bt"
  shows "bt_iter_prefix_counts bt m =
    (if 0 \<le> m \<and> m \<le> bit_length (bt_family bt)
     then Inr (spec_prefix_counts (bt_family bt) (binary_set bt) m) else Inl ValueError)"
proof (cases "0 \<le> m \<and> m \<le> bit_length (bt_family bt)")
  case True
  let ?B = "bit_length (bt_family bt)"
  obtain ws where ws: "bt_walk bt = Inr ws" "sorted_wrt (<) (map walk_pair ws)"
    "walk_pair ` set ws = hot_prefixes ?B (binary_set bt) 0"
    "\<forall>n x len. (n, x, len) \<in> set ws \<longrightarrow>
       tn_hot_count n = hot_below ?B (binary_set bt) len x \<and> 0 < tn_hot_count n"
    by (rule bt_walk_facts[OF assms])
  define fs where "fs = filter (\<lambda>w. m \<le> snd (walk_pair w)) ws"
  have fs: "filter (\<lambda>(node, network, len). 0 < tn_hot_count node \<and> m \<le> len) ws = fs"
    unfolding fs_def by (rule filter_cong) (use ws(4) in \<open>auto simp: walk_pair_def\<close>)
  have mp: "map walk_pair fs = filter (\<lambda>p. m \<le> snd p) (map walk_pair ws)"
    by (simp add: fs_def filter_map o_def)
  have "sorted_wrt (<) (map walk_pair fs)" unfolding mp by (rule sorted_wrt_filter[OF ws(2)])
  moreover have "set (map walk_pair fs) = hot_prefixes ?B (binary_set bt) m"
    using True ws(3) hot_prefixes_filter[of m ?B "binary_set bt"] by (simp add: mp)
  ultimately have spec: "spec_prefix_counts (bt_family bt) (binary_set bt) m =
      map (\<lambda>(n, l). count_at (bt_family bt) (binary_set bt) n l) (map walk_pair fs)"
    by (intro spec_prefix_counts_eqI) (auto simp: strict_sorted_iff)
  have el: "(case w of (node, network, len) \<Rightarrow>
        bindE (bt_make_prefix bt network len) (\<lambda>p. Inr \<lparr>pc_prefix = p, pc_hot_count = tn_hot_count node\<rparr>)) =
      Inr (case walk_pair w of (n, l) \<Rightarrow> count_at (bt_family bt) (binary_set bt) n l)" if "w \<in> set fs" for w
  proof -
    obtain n x l where w: "w = (n, x, l)" by (cases w)
    have "walk_pair w \<in> hot_prefixes ?B (binary_set bt) 0" using that ws(3) by (auto simp: fs_def)
    then have c: "0 \<le> l" "l \<le> ?B" "net_of ?B l x = x"
      using hot_prefixes_canonical[of x l] w by (auto simp: walk_pair_def)
    then show ?thesis
      using ws(4)[rule_format, of n x l] that w mk_prefix_valid[of l "bt_family bt" x]
      by (simp add: fs_def bt_make_prefix_def walk_pair_def count_at_def prefix_at_def)
  qed
  have M: "mapE (\<lambda>(node, network, len).
        bindE (bt_make_prefix bt network len) (\<lambda>p. Inr \<lparr>pc_prefix = p, pc_hot_count = tn_hot_count node\<rparr>)) fs =
      Inr (map (\<lambda>w. case walk_pair w of (n, l) \<Rightarrow> count_at (bt_family bt) (binary_set bt) n l) fs)"
    by (rule mapE_all_Inr) (rule el)
  show ?thesis
    using True unfolding bt_iter_prefix_counts_def ws(1) bindE_simps fs M spec
    by (simp add: bt_check_min_length_def bt_bit_length_def)
next
  case False
  then show ?thesis
    by (auto simp: bt_iter_prefix_counts_def bt_check_min_length_def bt_bit_length_def guardE_def)
qed

lemma bt_iter_hot_addresses_correct:
  assumes "binary_invar bt"
  shows "bt_iter_hot_addresses bt = Inr (spec_hot_addresses (bt_family bt) (binary_set bt))"
proof -
  let ?B = "bit_length (bt_family bt)"
  obtain ws where ws: "bt_walk bt = Inr ws" "sorted_wrt (<) (map walk_pair ws)"
    "walk_pair ` set ws = hot_prefixes ?B (binary_set bt) 0"
    using bt_walk_facts[OF assms] by metis
  define fs where "fs = filter (\<lambda>p. snd p = ?B) (map walk_pair ws)"
  have "sorted_wrt (<) fs" unfolding fs_def by (rule sorted_wrt_filter[OF ws(2)])
  then have srt: "sorted_wrt (<) (map fst fs)"
    unfolding sorted_wrt_map by (rule sorted_wrt_mono_rel[rotated]) (auto simp: fs_def less_prod_def')
  have set: "set (map fst fs) = binary_set bt"
    using ws(3) hot_prefixes_host[of ?B "binary_set bt"] by (simp add: fs_def)
  have "filter (\<lambda>(node, network, len). len = bt_bit_length bt) ws = filter (\<lambda>w. snd (walk_pair w) = ?B) ws"
    by (rule filter_cong) (auto simp: walk_pair_def bt_bit_length_def)
  moreover have "map fst fs = map (fst \<circ> walk_pair) (filter (\<lambda>w. snd (walk_pair w) = ?B) ws)"
    by (simp add: fs_def filter_map o_def)
  moreover have "mapE (\<lambda>(node, network, len). mk_address (bt_family bt) network)
      (filter (\<lambda>w. snd (walk_pair w) = ?B) ws) =
      Inr (map (\<lambda>w. \<lparr>addr_family = bt_family bt, addr_value = (fst \<circ> walk_pair) w\<rparr>)
        (filter (\<lambda>w. snd (walk_pair w) = ?B) ws))"
  proof (rule mapE_all_Inr)
    fix w assume w: "w \<in> set (filter (\<lambda>w. snd (walk_pair w) = ?B) ws)"
    then have "fst (walk_pair w) \<in> binary_set bt" using set by (force simp: fs_def)
    then have "fst (walk_pair w) \<in> value_range (bt_family bt)" using binary_set_range by auto
    then show "(case w of (node, network, len) \<Rightarrow> mk_address (bt_family bt) network) =
        Inr \<lparr>addr_family = bt_family bt, addr_value = (fst \<circ> walk_pair) w\<rparr>"
      by (cases w) (simp add: walk_pair_def value_range_iff)
  qed
  ultimately show ?thesis
    using srt set by (simp add: bt_iter_hot_addresses_def ws(1) o_def
        spec_hot_addresses_eqI[of "map fst fs"] strict_sorted_iff)
qed

section \<open>The mutators\<close>

lemma bt_add_correct:
  assumes "binary_invar bt" "valid_address a" "addr_family a = bt_family bt"
  shows "\<exists>bt'. bt_add_hot_ip bt a = (Inr (addr_value a \<notin> binary_set bt), bt') \<and> binary_invar bt' \<and>
    binary_set bt' = insert (addr_value a) (binary_set bt) \<and> bt_family bt' = bt_family bt \<and>
    (addr_value a \<in> binary_set bt \<longrightarrow> bt' = bt)"
proof (cases "addr_value a \<in> binary_set bt")
  case True
  with assms bt_contains_correct[OF assms] show ?thesis by (auto simp: bt_add_hot_ip_def)
next
  case False
  let ?r = "nat (bt_bit_length bt)"
  have v: "take_bit ?r (addr_value a) = addr_value a"
    using assms(2,3) by (simp add: valid_address_iff bt_bit_length_def take_bit_int_eq_self)
  obtain x k where x: "bt_enter (bt_root bt) (lead ?r ?r (addr_value a)) = (x, k)" by fastforce
  then have ok: "bt_ok ?r (Some x) \<and> bt_set ?r (Some x) = insert (addr_value a) (binary_set bt) \<and>
      bt_nodes ?r (Some x) = bt_nodes ?r (bt_root bt) + k"
    using bt_enter_correct[OF _ _ x] assms(1) False by (simp add: binary_invar_def binary_set_def v)
  have "bt_add_hot_ip bt a = (Inr True, bt\<lparr>bt_root := Some x, bt_node_count := bt_node_count bt + k\<rparr>)"
    using x assms(3) False bt_contains_correct[OF assms]
    by (auto simp: bt_add_hot_ip_def bt_enter_def addr_bits_lead bt_bit_length_def Let_def split: prod.splits)
  with ok False assms(1) show ?thesis
    by (simp add: binary_invar_def binary_set_def bt_bit_length_def)
qed

lemma bt_remove_method_correct:
  assumes "binary_invar bt" "valid_address a" "addr_family a = bt_family bt"
  shows "\<exists>bt'. bt_remove_hot_ip bt a = (Inr (addr_value a \<in> binary_set bt), bt') \<and> binary_invar bt' \<and>
    binary_set bt' = binary_set bt - {addr_value a} \<and> bt_family bt' = bt_family bt \<and>
    (addr_value a \<notin> binary_set bt \<longrightarrow> bt' = bt)"
proof (cases "addr_value a \<in> binary_set bt")
  case False
  with assms bt_contains_correct[OF assms] show ?thesis by (auto simp: bt_remove_hot_ip_def)
next
  case True
  let ?r = "nat (bt_bit_length bt)"
  have v: "take_bit ?r (addr_value a) = addr_value a"
    using assms(2,3) by (simp add: valid_address_iff bt_bit_length_def take_bit_int_eq_self)
  obtain n where n: "bt_root bt = Some n" using True by (cases "bt_root bt") (auto simp: binary_set_def)
  have ok: "bt_ok ?r (Some n)" "bt_node_count bt = bt_nodes ?r (Some n)" "addr_value a \<in> bt_set ?r (Some n)"
    using assms(1) True n by (simp_all add: binary_invar_def binary_set_def)
  have cnt: "tn_hot_count (tn_add_count (- 1) n) = tn_hot_count n - 1" by (cases n) simp
  show ?thesis
  proof (cases "tn_hot_count n = 1")
    case one: True
    have "bt_set ?r (Some n) = {addr_value a}"
      using bt_count_card[OF ok(1)] one ok(3) by (auto simp: card_1_singleton_iff)
    with True one cnt n ok(2) bt_single[OF ok(1) one] bt_contains_correct[OF assms] show ?thesis
      by (simp add: bt_remove_hot_ip_def binary_invar_def binary_set_def bt_bit_length_def)
  next
    case False
    then obtain p x where x: "bt_remove_path (bt_bit_length bt) 1 (tn_add_count (- 1) n)
          (lead ?r ?r (addr_value a)) = (Inr p, x)"
      "bt_ok ?r (Some x)" "bt_set ?r (Some x) = bt_set ?r (Some n) - {addr_value a}"
      "bt_nodes ?r (Some x) = bt_nodes ?r (Some n) - p"
      using bt_remove_correct[OF ok(1) _ False, of "addr_value a" "bt_bit_length bt" 1, unfolded v] ok(3)
      by (auto simp: bt_bit_length_def)
    have "bt_remove_hot_ip bt a = (Inr True, bt\<lparr>bt_root := Some x, bt_node_count := bt_node_count bt - p\<rparr>)"
      using x(1) n False cnt True assms(3) bt_contains_correct[OF assms]
      by (simp add: bt_remove_hot_ip_def addr_bits_lead bt_bit_length_def)
    with x(2-4) n True ok(2) show ?thesis
      by (simp add: binary_invar_def binary_set_def bt_bit_length_def)
  qed
qed

lemma binary_ops_simps [simp]:
  "ht_family binary_ops = bt_family" "ht_bit_length binary_ops = bt_bit_length"
  "ht_hot_ip_count binary_ops bt = Inr (bt_hot_ip_count bt)"
  "ht_node_count binary_ops = bt_node_count"
  "ht_add_hot_ip binary_ops bt a = Some (bt_add_hot_ip bt a)"
  "ht_remove_hot_ip binary_ops bt a = Some (bt_remove_hot_ip bt a)"
  "ht_clear binary_ops = bt_clear"
  "ht_contains binary_ops bt a = Some (bt_contains bt a)"
  "ht_hot_count binary_ops bt p = Some (bt_hot_count bt p)"
  "ht_ancestor_counts binary_ops bt a m = Some (bt_ancestor_counts bt a m)"
  "ht_longest_matching_prefix binary_ops bt a = Some (bt_longest_matching_prefix bt a)"
  "ht_iter_prefix_counts binary_ops bt m = Some (bt_iter_prefix_counts bt m)"
  "ht_iter_hot_addresses binary_ops bt = Some (bt_iter_hot_addresses bt)"
  "ht_iter_nodes binary_ops bt = Some (bt_iter_nodes bt)"
  by (simp_all add: binary_ops_def)

lemma bt_wrong_family:
  assumes "addr_family a \<noteq> bt_family bt"
  shows "bt_contains bt a = Inl ValueError" "bt_add_hot_ip bt a = (Inl ValueError, bt)"
    "bt_remove_hot_ip bt a = (Inl ValueError, bt)" "bt_ancestor_counts bt a m = Inl ValueError"
    "bt_longest_matching_prefix bt a = Inl ValueError"
  using assms by (simp_all add: bt_contains_def bt_add_hot_ip_def bt_remove_hot_ip_def
      bt_ancestor_counts_def bt_longest_matching_prefix_def bt_check_family_def)

interpretation bt: hot_trie_impl binary_ops binary_invar binary_set
proof (unfold_locales, goal_cases)
  case (1 t)
  then show ?case using binary_set_range by simp
next
  case (3 t a)
  then show ?case using bt_add_correct[of t a] by simp
next
  case (4 t a)
  then show ?case using bt_remove_method_correct[of t a] by simp
next
  case (8 t)
  then show ?case
    using bt_count_card by (simp add: bt_hot_ip_count_def binary_invar_def binary_set_def)
next
  case (5 t)
  then show ?case by (simp add: bt_clear_def binary_invar_def binary_set_def)
next
  case (7 p t)
  then show ?case by (simp add: bt_hot_count_def bt_check_family_def)
qed (simp_all add: bt_bit_length_def bt_wrong_family bt_contains_correct bt_hot_count_correct
    bt_ancestor_counts_correct bt_longest_correct bt_iter_prefix_counts_correct
    bt_iter_hot_addresses_correct)

end
