(* ===== verification/Patricia_Correct.thy ===== *)
theory Patricia_Correct
  imports Patricia_Queries Binary_Trie_Correct
begin

text \<open>
  The Patricia trie's mutators, and the two contracts: \<open>hot_trie_impl\<close> for the Patricia trie, and
  \<open>hot_trie_pair\<close> for it beside the binary trie (the equivalence section 27 demands).
\<close>

section \<open>Insertion in the arena\<close>

lemma p_target_diverges:
  "p_ok bits t \<Longrightarrow> v \<notin> p_set t \<Longrightarrow> 0 \<le> bits \<Longrightarrow> 0 \<le> v \<Longrightarrow> v < 2 ^ nat bits \<Longrightarrow>
   p_diverges bits v (p_target bits v t) \<and> p_ok bits (p_target bits v t)"
proof (induction t)
  case (PLeaf i n)
  then show ?case using agree_bits_eq[of n bits v] by (auto simp: p_diverges_def)
qed auto

lemma p_target_rep: "p_rep bits m t \<Longrightarrow> p_rep bits m (p_target bits v t)"
  by (induction t) auto

lemma p_target_id: "p_id (p_target bits v t) \<in> set (p_ids t)"
  by (induction t) auto

lemma pt_add_walk_ok:
  assumes "arena_ok ar" "p_rep bits (arena_map ar) t" "p_ok bits t" "v \<notin> p_set t"
    "0 \<le> bits" "0 \<le> v" "v < 2 ^ nat bits"
  shows "pt_add_walk ar bits v path parent (p_id t) =
    Some (Inr (path @ p_path bits v t, last (parent # p_path bits v t), p_id (p_target bits v t),
      cpl bits (p_net (p_target bits v t)) v))"
  using assms(2-4)
proof (induction t arbitrary: path parent)
  case (PLeaf i n)
  have "cpl bits n v < bits"
    using cpl_ge_iff[of bits bits n v] agree_bits_eq[of n bits v] PLeaf.prems assms(5-7) by auto
  then show ?case
    using pt_visit_ok(1)[OF assms(1) PLeaf.prems(1) assms(5), of v] by (subst pt_add_walk.simps) simp
next
  case (PBranch i n l c t0 t1)
  have l: "0 \<le> l" "l < bits" using PBranch.prems(2) by auto
  have dv: "p_diverges bits v (PBranch i n l c t0 t1) \<longleftrightarrow> cpl bits n v < l"
    using cpl_ge_iff[of l bits n v] l by (auto simp: p_diverges_def)
  note vis = pt_visit_ok(1)[OF assms(1) PBranch.prems(1) assms(5), of v]
  note unf = pt_add_walk.simps[of ar bits v path parent i]
  show ?case
  proof (cases "cpl bits n v < l")
    case True
    then show ?thesis using vis dv unf by simp
  next
    case False
    have "pt_add_walk ar bits v path parent i =
        pt_add_walk ar bits v (path @ [i]) i (p_id (p_child (msb bits l v) t0 t1))"
      using False vis unf pt_next_ok[OF assms(1) PBranch.prems(1) l(2), of v] l by simp
    then show ?thesis
      using PBranch.IH(1)[of "path @ [i]" i] PBranch.IH(2)[of "path @ [i]" i] PBranch.prems False dv
      by (cases "msb bits l v") (simp_all add: p_child_def)
  qed
qed

text \<open>What one call of \<open>add_hot_ip\<close> does to the slot of a node on the path.\<close>

definition sl_add :: "int \<Rightarrow> int \<Rightarrow> node_id \<Rightarrow> bool \<Rightarrow> node_slot \<Rightarrow> node_slot" where
  "sl_add bits v ii at_end s =
     (if at_end then sl_set_child (msb bits (sl_length s) v) ii s else s)\<lparr>sl_hot := sl_hot s + 1\<rparr>"

definition split_slot :: "int \<Rightarrow> int \<Rightarrow> node_id \<Rightarrow> ptree \<Rightarrow> node_slot" where
  "split_slot bits v li t =
     (let common = cpl bits (p_net t) v in
      \<lparr>sl_network = net_of bits common v, sl_length = common, sl_hot = p_count t + 1,
       sl_child0 = (if msb bits common v then p_id t else li),
       sl_child1 = (if msb bits common v then li else p_id t)\<rparr>)"

definition leaf_slot :: "int \<Rightarrow> int \<Rightarrow> node_slot" where
  "leaf_slot bits v = \<lparr>sl_network = v, sl_length = bits, sl_hot = 1, sl_child0 = NO_NODE, sl_child1 = NO_NODE\<rparr>"

lemma p_id_split [simp]: "p_id (p_split bits v ii li t) = ii"
  by (simp add: p_split_def Let_def)

lemma p_split_rep:
  assumes "p_rep bits m t" "m ii = Some (split_slot bits v li t)" "m li = Some (leaf_slot bits v)"
  shows "p_rep bits m (p_split bits v ii li t)"
  using assms by (auto simp: p_split_def split_slot_def leaf_slot_def Let_def)

lemma p_insert_rep:
  assumes "p_rep bits m t" "distinct (p_ids t)" "ii \<notin> set (p_ids t)" "li \<notin> set (p_ids t)"
    "m' ii = Some (split_slot bits v li (p_target bits v t))" "m' li = Some (leaf_slot bits v)"
    "\<And>j. j \<in> set (p_ids t) \<Longrightarrow> m' j =
       (if j \<in> set (p_path bits v t)
        then map_option (sl_add bits v ii (j = last (p_path bits v t))) (m j) else m j)"
  shows "p_rep bits m' (p_insert bits v ii li t) \<and>
    p_id (p_insert bits v ii li t) = (if p_path bits v t = [] then ii else p_id t)"
  using assms
proof (induction t)
  case (PLeaf i n)
  then have "p_rep bits m' (PLeaf i n)" by simp
  with PLeaf.prems(5,6) show ?case using p_split_rep[of bits m' "PLeaf i n" ii v li] by simp
next
  case (PBranch i n l c t0 t1)
  let ?t = "PBranch i n l c t0 t1"
  show ?case
  proof (cases "p_diverges bits v ?t")
    case True
    then have path: "p_path bits v ?t = []" by simp
    have "p_rep bits m' ?t = p_rep bits m ?t"
      by (rule p_rep_cong) (use PBranch.prems(7) path in simp)
    then show ?thesis
      using True PBranch.prems(1,5,6) p_split_rep[of bits m' ?t ii v li] by simp
  next
    case False
    have d: "i \<notin> set (p_ids t0)" "i \<notin> set (p_ids t1)" "set (p_ids t0) \<inter> set (p_ids t1) = {}"
      using PBranch.prems(2) by auto
    have mi: "m i = Some \<lparr>sl_network = n, sl_length = l, sl_hot = c, sl_child0 = p_id t0, sl_child1 = p_id t1\<rparr>"
      using PBranch.prems(1) by simp
    have sub: "set (p_path bits v t0) \<subseteq> set (p_ids t0)" "set (p_path bits v t1) \<subseteq> set (p_ids t1)"
      by (rule p_path_ids)+
    show ?thesis
    proof (cases "msb bits l v")
      case True
      have path: "p_path bits v ?t = i # p_path bits v t1" using True False by simp
      have r0: "p_rep bits m' t0"
      proof -
        have "p_rep bits m' t0 = p_rep bits m t0"
          by (rule p_rep_cong) (use PBranch.prems(7) path d sub in auto)
        then show ?thesis using PBranch.prems(1) by simp
      qed
      have r1: "p_rep bits m' (p_insert bits v ii li t1) \<and>
          p_id (p_insert bits v ii li t1) = (if p_path bits v t1 = [] then ii else p_id t1)"
      proof (rule PBranch.IH(2))
        show "m' j = (if j \<in> set (p_path bits v t1)
            then map_option (sl_add bits v ii (j = last (p_path bits v t1))) (m j) else m j)"
          if "j \<in> set (p_ids t1)" for j
          using PBranch.prems(7)[of j] path d that by (cases "p_path bits v t1 = []") auto
      qed (use PBranch.prems True False in auto)
      have "m' i = Some (sl_add bits v ii (p_path bits v t1 = [])
          \<lparr>sl_network = n, sl_length = l, sl_hot = c, sl_child0 = p_id t0, sl_child1 = p_id t1\<rparr>)"
      proof -
        have "i = last (i # p_path bits v t1) \<longleftrightarrow> p_path bits v t1 = []"
          using d sub by (metis last.simps last_in_set subsetD)
        then show ?thesis using PBranch.prems(7)[of i] path mi by simp
      qed
      then show ?thesis
        using r0 r1 True False path by (simp add: sl_add_def sl_set_child_def)
    next
      case low: False
      have path: "p_path bits v ?t = i # p_path bits v t0" using low False by simp
      have r1: "p_rep bits m' t1"
      proof -
        have "p_rep bits m' t1 = p_rep bits m t1"
          by (rule p_rep_cong) (use PBranch.prems(7) path d sub in auto)
        then show ?thesis using PBranch.prems(1) by simp
      qed
      have r0: "p_rep bits m' (p_insert bits v ii li t0) \<and>
          p_id (p_insert bits v ii li t0) = (if p_path bits v t0 = [] then ii else p_id t0)"
      proof (rule PBranch.IH(1))
        show "m' j = (if j \<in> set (p_path bits v t0)
            then map_option (sl_add bits v ii (j = last (p_path bits v t0))) (m j) else m j)"
          if "j \<in> set (p_ids t0)" for j
          using PBranch.prems(7)[of j] path d that by (cases "p_path bits v t0 = []") auto
      qed (use PBranch.prems low False in auto)
      have "m' i = Some (sl_add bits v ii (p_path bits v t0 = [])
          \<lparr>sl_network = n, sl_length = l, sl_hot = c, sl_child0 = p_id t0, sl_child1 = p_id t1\<rparr>)"
      proof -
        have "i = last (i # p_path bits v t0) \<longleftrightarrow> p_path bits v t0 = []"
          using d sub by (metis last.simps last_in_set subsetD)
        then show ?thesis using PBranch.prems(7)[of i] path mi by simp
      qed
      then show ?thesis
        using r0 r1 low False path by (simp add: sl_add_def sl_set_child_def)
    qed
  qed
qed

section \<open>Actions on the arena\<close>

lemma on_arena_Inr: "f (pt_arena pt) = (Inr x, ar) \<Longrightarrow> on_arena f pt = (Inr x, pt\<lparr>pt_arena := ar\<rparr>)"
  by (simp add: on_arena_def)

lemma pt_bump_ok:
  assumes "arena_ok (pt_arena pt)" "distinct ns" "set ns \<subseteq> dom (arena_map (pt_arena pt))"
  shows "\<exists>ar'. pt_bump d ns pt = (Inr (), pt\<lparr>pt_arena := ar'\<rparr>) \<and> arena_ok ar' \<and>
    (\<forall>j. arena_map ar' j =
      (if j \<in> set ns then map_option (\<lambda>s. s\<lparr>sl_hot := sl_hot s + d\<rparr>) (arena_map (pt_arena pt) j)
       else arena_map (pt_arena pt) j))"
  using assms
proof (induction ns arbitrary: pt)
  case Nil
  then show ?case by (intro exI[of _ "pt_arena pt"]) simp
next
  case (Cons i ns)
  obtain s where s: "arena_map (pt_arena pt) i = Some s" using Cons.prems(3) by auto
  obtain ar1 where ar1: "arena_set_hot i (sl_hot s + d) (pt_arena pt) = (Inr (), ar1)" "arena_ok ar1"
    "arena_map ar1 = (arena_map (pt_arena pt))(i \<mapsto> s\<lparr>sl_hot := sl_hot s + d\<rparr>)"
    using arena_set_hot_ok[OF Cons.prems(1) s] by blast
  obtain ar' where ar': "pt_bump d ns (pt\<lparr>pt_arena := ar1\<rparr>) = (Inr (), pt\<lparr>pt_arena := ar'\<rparr>)" "arena_ok ar'"
    "\<forall>j. arena_map ar' j =
      (if j \<in> set ns then map_option (\<lambda>s. s\<lparr>sl_hot := sl_hot s + d\<rparr>) (arena_map ar1 j) else arena_map ar1 j)"
  proof -
    have "set ns \<subseteq> dom (arena_map ar1)" using Cons.prems(3) ar1(3) by auto
    then show thesis using Cons.IH[of "pt\<lparr>pt_arena := ar1\<rparr>"] Cons.prems(2) ar1(2) that by auto
  qed
  have "pt_bump d (i # ns) pt = (Inr (), pt\<lparr>pt_arena := ar'\<rparr>)"
    using arena_reads(3)[OF Cons.prems(1) s] ar1(1) ar'(1) by (simp add: bindS_def on_arena_def)
  then show ?case using ar'(2,3) ar1(3) s Cons.prems(2) by (intro exI[of _ ar']) auto
qed

lemma pt_relink_ok:
  assumes "arena_ok (pt_arena pt)" "arena_map (pt_arena pt) p = Some s" "sl_length s < pt_bit_length pt"
  shows "\<exists>ar'. pt_relink p v c pt = (Inr (), pt\<lparr>pt_arena := ar'\<rparr>) \<and> arena_ok ar' \<and>
    arena_map ar' = (arena_map (pt_arena pt))(p \<mapsto> sl_set_child (msb (pt_bit_length pt) (sl_length s) v) c s)"
proof -
  let ?b = "msb (pt_bit_length pt) (sl_length s) v"
  obtain ar' where ar': "arena_set_child (2 * p + of_bool ?b) c (pt_arena pt) = (Inr (), ar')" "arena_ok ar'"
    "arena_map ar' = (arena_map (pt_arena pt))(p \<mapsto> sl_set_child ?b c s)"
    using arena_set_child_ok[OF assms(1,2)] by blast
  have "p \<noteq> NO_NODE" using assms(2) by auto
  then have "pt_relink p v c pt = (Inr (), pt\<lparr>pt_arena := ar'\<rparr>)"
    using arena_reads(2)[OF assms(1,2)] assms(3) ar'(1)
    by (simp add: pt_relink_def bindS_def bit_at_msb on_arena_def)
  with ar' show ?thesis by blast
qed

lemma pt_relink_root: "pt_relink NO_NODE v c pt = (Inr (), pt\<lparr>pt_root := c\<rparr>)"
  by (simp add: pt_relink_def pt_set_root_def writeS_def)

lemma p_ok_target_len:
  "p_ok bits t \<Longrightarrow> p_rep bits m t \<Longrightarrow> j \<in> set (p_path bits v t) \<Longrightarrow> \<exists>s. m j = Some s \<and> sl_length s < bits"
  by (induction t) (auto split: if_splits)

text \<open>The state after the split: two fresh nodes, and the edge into the split point relinked.\<close>

lemma pt_split_ok:
  fixes t v pt
  defines "bits \<equiv> pt_bit_length pt" and "m \<equiv> arena_map (pt_arena pt)"
  defines "tg \<equiv> p_target bits v t" and "path \<equiv> p_path bits v t"
  assumes "arena_ok (pt_arena pt)" "p_rep bits m t" "p_ok bits t" "v \<notin> p_set t" "0 \<le> v" "v < 2 ^ nat bits"
  shows "\<exists>ar' ii li. pt_split bits v (last (NO_NODE # path)) (p_id tg) (cpl bits (p_net tg) v) pt =
      (Inr (), pt\<lparr>pt_arena := ar', pt_root := (if path = [] then ii else pt_root pt)\<rparr>) \<and> arena_ok ar' \<and>
    m ii = None \<and> m li = None \<and> ii \<noteq> li \<and> ii \<noteq> NO_NODE \<and>
    arena_map ar' = (\<lambda>j. if j = ii then Some (split_slot bits v li tg) else if j = li then Some (leaf_slot bits v)
      else if path \<noteq> [] \<and> j = last path
      then map_option (\<lambda>s. sl_set_child (msb bits (sl_length s) v) ii s) (m j) else m j)"
proof -
  let ?c = "cpl bits (p_net tg) v" and ?n = "net_of bits (cpl bits (p_net tg) v) v"
  have b: "0 \<le> bits" by (simp add: bits_def)
  have tg: "p_rep bits m tg" "p_ok bits tg" "p_diverges bits v tg"
    using p_target_rep p_target_diverges assms b unfolding tg_def by auto
  have c: "0 \<le> ?c" "?c < bits"
    using cpl_ge_iff[of "p_len bits tg" bits "p_net tg" v] tg(3) p_len_bounds[OF tg(2) b] b
    by (auto simp: p_diverges_def)
  let ?new = "\<lambda>n l h. \<lparr>sl_network = n, sl_length = l, sl_hot = h, sl_child0 = NO_NODE, sl_child1 = NO_NODE\<rparr>"
  obtain ii ar1 where a1: "arena_allocate ?n ?c (p_count tg + 1) (pt_arena pt) = (Inr ii, ar1)" "arena_ok ar1"
    "0 \<le> ii" "m ii = None" "arena_map ar1 = m(ii \<mapsto> ?new ?n ?c (p_count tg + 1))"
    using arena_allocate_ok[OF assms(5) c(1)] unfolding m_def by blast
  obtain li ar2 where a2: "arena_allocate v bits 1 ar1 = (Inr li, ar2)" "arena_ok ar2"
    "arena_map ar1 li = None" "arena_map ar2 = (arena_map ar1)(li \<mapsto> ?new v bits 1)"
    using arena_allocate_ok[OF a1(2) b] by blast
  have li: "m li = None" "ii \<noteq> li" "ii \<noteq> NO_NODE"
    using a2(3) a1(3,5) by (auto simp: NO_NODE_def split: if_splits)
  let ?b = "msb bits ?c v"
  have m2: "arena_map ar2 ii = Some (?new ?n ?c (p_count tg + 1))" using a2(4) a1(5) li by simp
  obtain ar3 where a3: "arena_set_child (2 * ii + of_bool ?b) li ar2 = (Inr (), ar3)" "arena_ok ar3"
    "arena_map ar3 = (arena_map ar2)(ii \<mapsto> sl_set_child ?b li (?new ?n ?c (p_count tg + 1)))"
    using arena_set_child_ok[OF a2(2) m2] by blast
  have m3: "arena_map ar3 ii = Some (sl_set_child ?b li (?new ?n ?c (p_count tg + 1)))" using a3(3) by simp
  obtain ar4 where a4: "arena_set_child (2 * ii + of_bool (\<not> ?b)) (p_id tg) ar3 = (Inr (), ar4)" "arena_ok ar4"
    "arena_map ar4 = (arena_map ar3)(ii \<mapsto> sl_set_child (\<not> ?b) (p_id tg) (sl_set_child ?b li (?new ?n ?c (p_count tg + 1))))"
    using arena_set_child_ok[OF a3(2) m3] by blast
  have m4: "arena_map ar4 = m(ii \<mapsto> split_slot bits v li tg, li \<mapsto> leaf_slot bits v)"
    using li by (auto simp: a4(3) a3(3) a2(4) a1(5) split_slot_def leaf_slot_def sl_set_child_def Let_def)
  have run: "pt_split bits v p (p_id tg) ?c pt = pt_relink p v ii (pt\<lparr>pt_arena := ar4\<rparr>)" for p
    using pt_visit_ok(2)[OF assms(5) tg(1)[unfolded m_def] b] c a1(1) a2(1) a3(1) a4(1)
    by (cases ?b) (simp_all add: pt_split_def bindS_def on_arena_def bit_at_msb net_of_def)
  show ?thesis
  proof (cases "path = []")
    case True
    with run[of NO_NODE] a4(2) m4 li a1(3,4) show ?thesis
      by (intro exI[of _ ar4] exI[of _ ii] exI[of _ li]) (auto simp: pt_relink_root)
  next
    case False
    then have lp: "last path \<in> set path" by simp
    then obtain s where s: "m (last path) = Some s" "sl_length s < bits"
      using p_ok_target_len[OF assms(7,6)] unfolding path_def by blast
    then have ne: "last path \<noteq> ii" "last path \<noteq> li" using a1(4) li by auto
    then have s4: "arena_map ar4 (last path) = Some s" using s m4 by simp
    obtain ar5 where a5: "pt_relink (last path) v ii (pt\<lparr>pt_arena := ar4\<rparr>) = (Inr (), pt\<lparr>pt_arena := ar5\<rparr>)"
      "arena_ok ar5" "arena_map ar5 = (arena_map ar4)(last path \<mapsto> sl_set_child (msb bits (sl_length s) v) ii s)"
      using pt_relink_ok[of "pt\<lparr>pt_arena := ar4\<rparr>" "last path" s v ii] a4(2) s4 s(2)
      by (auto simp: bits_def pt_bit_length_def)
    with run[of "last path"] False s ne m4 li a1(3,4) show ?thesis
      by (intro exI[of _ ar5] exI[of _ ii] exI[of _ li]) auto
  qed
qed

section \<open>Adding\<close>

lemma patricia_holdsI:
  assumes "arena_ok (pt_arena pt)" "p_id t = pt_root pt" "p_rep (pt_bit_length pt) (arena_map (pt_arena pt)) t"
    "p_ok (pt_bit_length pt) t" "distinct (p_ids t)" "set (p_ids t) = dom (arena_map (pt_arena pt))"
  shows "patricia_invar pt \<and> patricia_set pt = p_set t"
proof -
  have h: "patricia_holds pt t" using assms by (simp add: patricia_holds_def)
  have "pt_root pt \<noteq> NO_NODE" using p_rep_not_NO_NODE[OF assms(3)] assms(2) by simp
  then show ?thesis using h assms(1) patricia_set_tree[OF h] by (auto simp: patricia_invar_def)
qed

lemma p_path_distinct: "distinct (p_ids t) \<Longrightarrow> distinct (p_path bits v t)"
proof (induction t)
  case (PBranch i n l c t0 t1)
  then show ?case using p_path_ids[of bits v t0] p_path_ids[of bits v t1] by auto
qed simp

lemma pt_add_tree:
  assumes "patricia_invar pt" "patricia_holds pt t" "v \<notin> p_set t" "0 \<le> v" "v < 2 ^ nat (pt_bit_length pt)"
  shows "\<exists>pt' path parent nid common.
    pt_add_walk (pt_arena pt) (pt_bit_length pt) v [] NO_NODE (pt_root pt) = Some (Inr (path, parent, nid, common)) \<and>
    bindS (pt_split (pt_bit_length pt) v parent nid common) (\<lambda>_. bindS (pt_bump 1 path) (\<lambda>_. returnS True)) pt =
      (Inr True, pt') \<and>
    patricia_invar pt' \<and> patricia_set pt' = insert v (p_set t) \<and> pt_family pt' = pt_family pt"
proof -
  let ?b = "pt_bit_length pt" and ?m = "arena_map (pt_arena pt)"
  let ?p = "p_path ?b v t" and ?tg = "p_target ?b v t"
  have h: "arena_ok (pt_arena pt)" "p_rep ?b ?m t" "p_ok ?b t" "distinct (p_ids t)" "set (p_ids t) = dom ?m"
    "p_id t = pt_root pt"
    using assms(1,2) by (auto simp: patricia_invar_def patricia_holds_def)
  have walk: "pt_add_walk (pt_arena pt) ?b v [] NO_NODE (pt_root pt) =
      Some (Inr (?p, last (NO_NODE # ?p), p_id ?tg, cpl ?b (p_net ?tg) v))"
    using pt_add_walk_ok[OF h(1-3) assms(3) _ assms(4,5), of "[]" NO_NODE] h(6) by simp
  obtain ar1 ii li where s: "pt_split ?b v (last (NO_NODE # ?p)) (p_id ?tg) (cpl ?b (p_net ?tg) v) pt =
      (Inr (), pt\<lparr>pt_arena := ar1, pt_root := (if ?p = [] then ii else pt_root pt)\<rparr>)" "arena_ok ar1"
    "?m ii = None" "?m li = None" "ii \<noteq> li" "ii \<noteq> NO_NODE"
    "arena_map ar1 = (\<lambda>j. if j = ii then Some (split_slot ?b v li ?tg) else if j = li then Some (leaf_slot ?b v)
      else if ?p \<noteq> [] \<and> j = last ?p
      then map_option (\<lambda>s. sl_set_child (msb ?b (sl_length s) v) ii s) (?m j) else ?m j)"
    using pt_split_ok[OF h(1-3) assms(3-5)] by blast
  let ?pt1 = "pt\<lparr>pt_arena := ar1, pt_root := (if ?p = [] then ii else pt_root pt)\<rparr>"
  have pid: "set ?p \<subseteq> dom ?m" using p_path_ids[of ?b v t] h(5) by simp
  have "set ?p \<subseteq> dom (arena_map (pt_arena ?pt1))" using pid s(7) by (auto split: if_splits)
  then obtain ar2 where b: "pt_bump 1 ?p ?pt1 = (Inr (), ?pt1\<lparr>pt_arena := ar2\<rparr>)" "arena_ok ar2"
    "\<forall>j. arena_map ar2 j = (if j \<in> set ?p then map_option (\<lambda>s. s\<lparr>sl_hot := sl_hot s + 1\<rparr>) (arena_map ar1 j)
      else arena_map ar1 j)"
    using pt_bump_ok[of ?pt1 ?p 1] s(2) p_path_distinct[OF h(4)] by auto
  have fresh: "ii \<notin> set (p_ids t)" "li \<notin> set (p_ids t)" "ii \<notin> set ?p" "li \<notin> set ?p"
    using s(3,4) h(5) pid by auto
  let ?t' = "p_insert ?b v ii li t" and ?pt2 = "?pt1\<lparr>pt_arena := ar2\<rparr>"
  have rep: "p_rep ?b (arena_map ar2) ?t' \<and> p_id ?t' = (if ?p = [] then ii else p_id t)"
  proof (rule p_insert_rep[OF h(2,4) fresh(1,2)])
    show "arena_map ar2 ii = Some (split_slot ?b v li ?tg)" "arena_map ar2 li = Some (leaf_slot ?b v)"
      using b(3) s(5,7) fresh by simp_all
    show "arena_map ar2 j = (if j \<in> set ?p then map_option (sl_add ?b v ii (j = last ?p)) (?m j) else ?m j)"
      if "j \<in> set (p_ids t)" for j
      using that b(3) s(7) fresh
      by (cases "?m j") (auto simp: sl_add_def sl_set_child_def)
  qed
  have ins: "p_ok ?b ?t' \<and> p_set ?t' = insert v (p_set t)"
    using p_insert_ok[OF h(3) _ assms(4,5,3), of 0] p_len_bounds[OF h(3)] by simp
  have "set (p_ids ?t') = dom (arena_map ar2)"
  proof -
    have "j \<in> dom (arena_map ar2) \<longleftrightarrow> j = ii \<or> j = li \<or> j \<in> dom ?m" for j
      using b(3) s(7) fresh pid by (cases "?m j") (auto simp: domIff split: if_splits)
    then show ?thesis using h(5) p_insert_ids[of ?b v ii li t] by auto
  qed
  then have "patricia_invar ?pt2 \<and> patricia_set ?pt2 = p_set ?t'"
    using b(2) rep ins h(6) p_insert_distinct[OF h(4) fresh(1,2) s(5), of ?b v]
    by (intro patricia_holdsI) (simp_all add: pt_bit_length_def)
  moreover have "bindS (pt_split ?b v (last (NO_NODE # ?p)) (p_id ?tg) (cpl ?b (p_net ?tg) v))
      (\<lambda>_. bindS (pt_bump 1 ?p) (\<lambda>_. returnS True)) pt = (Inr True, ?pt2)"
    using s(1) b(1) by (simp add: bindS_def)
  ultimately show ?thesis using walk ins by (intro exI[of _ ?pt2]) auto
qed

lemma pt_add_correct:
  assumes "patricia_invar pt" "valid_address a" "addr_family a = pt_family pt"
  shows "\<exists>pt'. pt_add_hot_ip pt a = Some (Inr (addr_value a \<notin> patricia_set pt), pt') \<and> patricia_invar pt' \<and>
    patricia_set pt' = insert (addr_value a) (patricia_set pt) \<and> pt_family pt' = pt_family pt \<and>
    (addr_value a \<in> patricia_set pt \<longrightarrow> pt' = pt)"
proof -
  let ?v = "addr_value a" and ?b = "pt_bit_length pt"
  have v: "0 \<le> ?v" "?v < 2 ^ nat ?b" using assms(2,3) by (auto simp: valid_address_iff pt_bit_length_def)
  note has = pt_contains_correct[OF assms]
  have fam: "pt_check_family pt (addr_family a) = Inr ()" using assms(3) by (simp add: pt_check_family_def)
  show ?thesis
  proof (cases "?v \<in> patricia_set pt")
    case True
    then show ?thesis using has fam assms(1) by (auto simp: pt_add_hot_ip_def)
  next
    case False
    from assms(1) show ?thesis
    proof (cases rule: patricia_cases)
      case 1
      have ok: "arena_ok (pt_arena pt)" using assms(1) by (simp add: patricia_invar_def)
      obtain i ar where al: "arena_allocate ?v ?b 1 (pt_arena pt) = (Inr i, ar)" "arena_ok ar" "0 \<le> i"
        "arena_map ar = Map.empty(i \<mapsto> leaf_slot ?b ?v)"
        using arena_allocate_ok[OF ok, of ?b ?v 1] 1(2) by (auto simp: leaf_slot_def)
      let ?pt = "pt\<lparr>pt_arena := ar, pt_root := i\<rparr>"
      have "patricia_invar ?pt \<and> patricia_set ?pt = p_set (PLeaf i ?v)"
        using al v by (intro patricia_holdsI) (auto simp: leaf_slot_def pt_bit_length_def)
      moreover have "pt_add_hot_ip pt a = Some (Inr True, ?pt)"
        using has False fam 1(1) al(1)
        by (simp add: pt_add_hot_ip_def bindS_def on_arena_def pt_set_root_def writeS_def)
      ultimately show ?thesis using False 1(3) by auto
    next
      case (2 t)
      then obtain pt' path parent nid common where
        "pt_add_walk (pt_arena pt) ?b ?v [] NO_NODE (pt_root pt) = Some (Inr (path, parent, nid, common))"
        "bindS (pt_split ?b ?v parent nid common) (\<lambda>_. bindS (pt_bump 1 path) (\<lambda>_. returnS True)) pt = (Inr True, pt')"
        "patricia_invar pt'" "patricia_set pt' = insert ?v (p_set t)" "pt_family pt' = pt_family pt"
        using pt_add_tree[OF assms(1) 2(2) _ v] False by auto
      then show ?thesis using has False fam 2 by (simp add: pt_add_hot_ip_def)
    qed
  qed
qed

section \<open>Removing\<close>

text \<open>The parts of the path of \<open>remove_hot_ip\<close>: the ancestors that keep both children, the parent that
  collapses and its surviving child, and the leaf.\<close>

fun p_anc :: "int \<Rightarrow> int \<Rightarrow> ptree \<Rightarrow> node_id list" where
  "p_anc bits v (PLeaf i n) = []"
| "p_anc bits v (PBranch i n l c t0 t1) =
     (let s = p_child (msb bits l v) t0 t1 in if p_is_leaf s then [] else
      i # (if msb bits l v then p_anc bits v t1 else p_anc bits v t0))"

fun p_par :: "int \<Rightarrow> int \<Rightarrow> ptree \<Rightarrow> ptree" where
  "p_par bits v (PLeaf i n) = PLeaf i n"
| "p_par bits v (PBranch i n l c t0 t1) =
     (let s = p_child (msb bits l v) t0 t1 in if p_is_leaf s then PBranch i n l c t0 t1 else
      (if msb bits l v then p_par bits v t1 else p_par bits v t0))"

fun p_near :: "int \<Rightarrow> int \<Rightarrow> ptree \<Rightarrow> node_id" where
  "p_near bits v (PLeaf i n) = i"
| "p_near bits v (PBranch i n l c t0 t1) = p_id (p_child (msb bits l v) t0 t1)"

fun p_far :: "int \<Rightarrow> int \<Rightarrow> ptree \<Rightarrow> node_id" where
  "p_far bits v (PLeaf i n) = i"
| "p_far bits v (PBranch i n l c t0 t1) = p_id (p_child (\<not> msb bits l v) t0 t1)"

lemma p_trail_parts:
  "\<not> p_is_leaf t \<Longrightarrow> p_trail bits v t = p_anc bits v t @ [p_id (p_par bits v t), p_near bits v (p_par bits v t)]"
proof (induction t)
  case (PBranch i n l c t0 t1)
  show ?case
  proof (cases "p_is_leaf (p_child (msb bits l v) t0 t1)")
    case True
    then show ?thesis by (cases t0; cases t1) (auto simp: p_child_def split: if_splits)
  next
    case False
    then show ?thesis using PBranch.IH by (auto simp: p_child_def Let_def)
  qed
qed simp

lemma p_par_branch: "\<not> p_is_leaf t \<Longrightarrow> \<not> p_is_leaf (p_par bits v t)"
  by (induction t) (auto simp: Let_def p_child_def split: if_splits)

lemma p_par_rep: "p_rep bits m t \<Longrightarrow> p_rep bits m (p_par bits v t)"
  by (induction t) (auto simp: Let_def p_child_def)

lemma p_par_ok: "p_ok bits t \<Longrightarrow> p_ok bits (p_par bits v t)"
  by (induction t) (auto simp: Let_def p_child_def)

lemma p_near_ids: "p_near bits v t \<in> set (p_ids t)"
  by (cases t) (auto simp: p_child_def)

lemma p_par_ids: "set (p_ids (p_par bits v t)) \<subseteq> set (p_ids t)"
  by (induction t) (auto simp: Let_def)

lemma p_anc_ids: "set (p_anc bits v t) \<subseteq> set (p_ids t)"
  by (induction t) (auto simp: Let_def)

lemma p_trail_distinct: "distinct (p_ids t) \<Longrightarrow> distinct (p_trail bits v t)"
proof (induction t)
  case (PBranch i n l c t0 t1)
  have "set (p_trail bits v t) \<subseteq> set (p_ids t)" for t by (induction t) auto
  then show ?case using PBranch by auto
qed simp

lemma pt_remove_walk_ok:
  assumes "arena_ok ar" "p_rep bits (arena_map ar) t" "p_ok bits t" "0 \<le> bits"
  shows "pt_remove_walk ar bits v path (p_id t) = Some (Inr (path @ p_trail bits v t))"
  using assms(2,3)
proof (induction t arbitrary: path)
  case (PLeaf i n)
  then show ?case
    using pt_visit_ok(3)[OF assms(1) PLeaf.prems(1) assms(4)] by (subst pt_remove_walk.simps) simp
next
  case (PBranch i n l c t0 t1)
  have l: "l < bits" using PBranch.prems(2) by simp
  have "pt_remove_walk ar bits v path i = pt_remove_walk ar bits v (path @ [i]) (p_id (p_child (msb bits l v) t0 t1))"
    using pt_visit_ok(3)[OF assms(1) PBranch.prems(1) assms(4)] pt_next_ok[OF assms(1) PBranch.prems(1) l, of v] l
    by (subst pt_remove_walk.simps) simp
  then show ?case
    using PBranch.IH(1)[of "path @ [i]"] PBranch.IH(2)[of "path @ [i]"] PBranch.prems by (simp add: p_child_def)
qed

definition sl_drop :: "int \<Rightarrow> int \<Rightarrow> node_id \<Rightarrow> bool \<Rightarrow> node_slot \<Rightarrow> node_slot" where
  "sl_drop bits v sib at_end s =
     (if at_end then sl_set_child (msb bits (sl_length s) v) sib s else s)\<lparr>sl_hot := sl_hot s - 1\<rparr>"

lemma p_delete_rep:
  assumes "p_rep bits m t" "distinct (p_ids t)" "\<not> p_is_leaf t"
    "\<And>j. j \<in> set (p_ids t) \<Longrightarrow> j \<noteq> p_id (p_par bits v t) \<Longrightarrow> j \<noteq> p_near bits v (p_par bits v t) \<Longrightarrow> m' j =
       (if j \<in> set (p_anc bits v t)
        then map_option (sl_drop bits v (p_far bits v (p_par bits v t)) (j = last (p_anc bits v t))) (m j) else m j)"
  shows "p_rep bits m' (p_delete bits v t) \<and>
    p_id (p_delete bits v t) = (if p_anc bits v t = [] then p_far bits v (p_par bits v t) else p_id t)"
  using assms
proof (induction t)
  case (PBranch i n l c t0 t1)
  let ?t = "PBranch i n l c t0 t1"
  define s o' where "s = p_child (msb bits l v) t0 t1" and "o' = p_child (\<not> msb bits l v) t0 t1"
  have d: "i \<notin> set (p_ids s)" "i \<notin> set (p_ids o')" "set (p_ids s) \<inter> set (p_ids o') = {}"
    and so: "p_rep bits m s" "p_rep bits m o'" "distinct (p_ids s)"
      "set (p_ids s) \<subseteq> set (p_ids ?t)" "set (p_ids o') \<subseteq> set (p_ids ?t)"
    using PBranch.prems(1,2) by (auto simp: s_def o'_def p_child_def)
  show ?case
  proof (cases "p_is_leaf s")
    case True
    then have par: "p_par bits v ?t = ?t" "p_anc bits v ?t = []" "p_delete bits v ?t = o'"
      by (auto simp: s_def o'_def p_child_def Let_def split: if_splits)
    have ps: "p_id s \<in> set (p_ids s)" by simp
    have "p_rep bits m' o' = p_rep bits m o'"
    proof (rule p_rep_cong)
      fix j assume j: "j \<in> set (p_ids o')"
      have "j \<noteq> i" "j \<noteq> p_id s" using j d ps by (blast, blast)
      then show "m' j = m j"
        using PBranch.prems(4)[of j] j so(5) par by (auto simp: s_def)
    qed
    then show ?thesis using so(2) par by (simp add: o'_def)
  next
    case False
    have par: "p_par bits v ?t = p_par bits v s" "p_anc bits v ?t = i # p_anc bits v s"
      using False by (auto simp: s_def p_child_def Let_def)
    let ?far = "p_far bits v (p_par bits v s)"
    have in_s: "p_id (p_par bits v s) \<in> set (p_ids s)" "p_near bits v (p_par bits v s) \<in> set (p_ids s)"
      "set (p_anc bits v s) \<subseteq> set (p_ids s)"
      using p_par_ids[of bits v s] p_near_ids[of bits v "p_par bits v s"] p_id_in_ids[of "p_par bits v s"] p_anc_ids
      by blast+
    have rs: "p_rep bits m' (p_delete bits v s) \<and>
        p_id (p_delete bits v s) = (if p_anc bits v s = [] then ?far else p_id s)"
    proof -
      have main: "m' j = (if j \<in> set (p_anc bits v s)
          then map_option (sl_drop bits v ?far (j = last (p_anc bits v s))) (m j) else m j)"
        if "j \<in> set (p_ids s)" "j \<noteq> p_id (p_par bits v s)" "j \<noteq> p_near bits v (p_par bits v s)" for j
        using PBranch.prems(4)[of j] that so(4) par d(1) by (cases "p_anc bits v s = []") auto
      show ?thesis
        using PBranch.IH(1) PBranch.IH(2) so(1,3) False main unfolding s_def p_child_def
        by (cases "msb bits l v") auto
    qed
    have ro: "p_rep bits m' o'"
    proof -
      have "p_rep bits m' o' = p_rep bits m o'"
      proof (rule p_rep_cong)
        fix j assume j: "j \<in> set (p_ids o')"
        then have "j \<notin> set (p_ids s)" "j \<noteq> i" using d by auto
        then have "j \<noteq> p_id (p_par bits v s)" "j \<noteq> p_near bits v (p_par bits v s)" "j \<notin> set (i # p_anc bits v s)"
          using in_s by auto
        then show "m' j = m j"
          using PBranch.prems(4)[of j, unfolded par] j so(5) by auto
      qed
      then show ?thesis using so(2) by simp
    qed
    have "m' i = Some (sl_drop bits v ?far (p_anc bits v s = [])
        \<lparr>sl_network = n, sl_length = l, sl_hot = c, sl_child0 = p_id t0, sl_child1 = p_id t1\<rparr>)"
    proof -
      have "i = last (i # p_anc bits v s) \<longleftrightarrow> p_anc bits v s = []"
        using d in_s(3) by (metis last.simps last_in_set subsetD)
      then show ?thesis using PBranch.prems(1) PBranch.prems(4)[of i] par in_s d by auto
    qed
    then show ?thesis
      using rs ro False par unfolding s_def o'_def p_child_def
      by (cases "msb bits l v") (auto simp: sl_drop_def sl_set_child_def)
  qed
qed simp

lemma p_delete_ids:
  "distinct (p_ids t) \<Longrightarrow> \<not> p_is_leaf t \<Longrightarrow>
   set (p_ids (p_delete bits v t)) = set (p_ids t) - {p_id (p_par bits v t), p_near bits v (p_par bits v t)} \<and>
   distinct (p_ids (p_delete bits v t))"
proof (induction t)
  case (PBranch i n l c t0 t1)
  have leaf: "p_is_leaf s \<Longrightarrow> p_ids s = [p_id s]" for s by (cases s) auto
  have in_s: "p_id (p_par bits v s) \<in> set (p_ids s)" "p_near bits v (p_par bits v s) \<in> set (p_ids s)" for s
    using p_par_ids[of bits v s] p_near_ids[of bits v "p_par bits v s"] p_id_in_ids[of "p_par bits v s"] by blast+
  show ?case
    using PBranch leaf[of t0] leaf[of t1] in_s[of t0] in_s[of t1]
    by (cases "msb bits l v"; cases "p_is_leaf (p_child (msb bits l v) t0 t1)") (auto simp: p_child_def Let_def)
qed simp

lemma p_anc_len:
  "p_ok bits t \<Longrightarrow> p_rep bits m t \<Longrightarrow> j \<in> set (p_anc bits v t) \<Longrightarrow> \<exists>s. m j = Some s \<and> sl_length s < bits"
  by (induction t) (auto simp: Let_def split: if_splits)

lemma arena_release_two:
  assumes "arena_ok ar" "arena_map ar i = Some s" "arena_map ar j = Some s'" "i \<noteq> j"
  shows "\<exists>ar1 ar2. arena_release i ar = (Inr (), ar1) \<and> arena_release j ar1 = (Inr (), ar2) \<and> arena_ok ar2 \<and>
    arena_map ar2 = (arena_map ar)(i := None, j := None)"
proof -
  obtain ar1 where 1: "arena_release i ar = (Inr (), ar1)" "arena_ok ar1" "arena_map ar1 = (arena_map ar)(i := None)"
    using arena_release_ok[OF assms(1,2)] by blast
  then have "arena_map ar1 j = Some s'" using assms(3,4) by simp
  from arena_release_ok[OF 1(2) this] show ?thesis using 1 by auto
qed

text \<open>Relinking the grandparent and discounting the ancestors.\<close>

lemma pt_detach_ok:
  fixes pt v t sib
  defines "bits \<equiv> pt_bit_length pt" and "m \<equiv> arena_map (pt_arena pt)" and "anc \<equiv> p_anc (pt_bit_length pt) v t"
  assumes "arena_ok (pt_arena pt)" "p_rep bits m t" "p_ok bits t" "distinct anc"
  shows "\<exists>ar'. bindS (pt_relink (if anc = [] then NO_NODE else last anc) v sib) (\<lambda>_. pt_bump (- 1) anc) pt =
      (Inr (), pt\<lparr>pt_arena := ar', pt_root := (if anc = [] then sib else pt_root pt)\<rparr>) \<and> arena_ok ar' \<and>
    (\<forall>j. arena_map ar' j =
      (if j \<in> set anc then map_option (sl_drop bits v sib (j = last anc)) (m j) else m j))"
proof (cases "anc = []")
  case True
  then show ?thesis using assms(4) by (intro exI[of _ "pt_arena pt"]) (simp add: bindS_def pt_relink_root m_def)
next
  case False
  then have la: "last anc \<in> set anc" by simp
  then obtain s where s: "m (last anc) = Some s" "sl_length s < bits"
    using p_anc_len[OF assms(6,5)] unfolding anc_def bits_def by blast
  obtain ar1 where r: "pt_relink (last anc) v sib pt = (Inr (), pt\<lparr>pt_arena := ar1\<rparr>)" "arena_ok ar1"
    "arena_map ar1 = m(last anc \<mapsto> sl_set_child (msb bits (sl_length s) v) sib s)"
    using pt_relink_ok[OF assms(4), of "last anc" s v sib] s unfolding m_def bits_def by blast
  have "set anc \<subseteq> dom m"
    using p_anc_len[OF assms(6,5)] unfolding anc_def bits_def by blast
  then have "set anc \<subseteq> dom (arena_map ar1)" using r(3) by auto
  then obtain ar2 where b: "pt_bump (- 1) anc (pt\<lparr>pt_arena := ar1\<rparr>) = (Inr (), pt\<lparr>pt_arena := ar2\<rparr>)" "arena_ok ar2"
    "\<forall>j. arena_map ar2 j = (if j \<in> set anc then map_option (\<lambda>s. s\<lparr>sl_hot := sl_hot s + - 1\<rparr>) (arena_map ar1 j)
      else arena_map ar1 j)"
    using pt_bump_ok[of "pt\<lparr>pt_arena := ar1\<rparr>" anc "- 1"] r(2) assms(7) by auto
  have "arena_map ar2 j = (if j \<in> set anc then map_option (sl_drop bits v sib (j = last anc)) (m j) else m j)" for j
  proof (cases "j = last anc")
    case True
    then show ?thesis using b(3) r(3) s la by (simp add: sl_drop_def sl_set_child_def)
  next
    case False
    then show ?thesis using b(3) r(3) by (cases "m j") (auto simp: sl_drop_def)
  qed
  with r(1) b(1,2) False show ?thesis by (intro exI[of _ ar2]) (simp add: bindS_def)
qed

lemma pt_collapse_tree:
  assumes "patricia_invar pt" "patricia_holds pt t" "v \<in> p_set t" "\<not> p_is_leaf t"
  shows "\<exists>pt'. pt_collapse (pt_bit_length pt) v (p_trail (pt_bit_length pt) v t) pt = (Inr True, pt') \<and>
    patricia_invar pt' \<and> patricia_set pt' = p_set t - {v} \<and> pt_family pt' = pt_family pt"
proof -
  let ?b = "pt_bit_length pt" and ?m = "arena_map (pt_arena pt)"
  let ?anc = "p_anc ?b v t" and ?par = "p_par ?b v t"
  let ?lf = "p_near ?b v ?par" and ?sib = "p_far ?b v ?par"
  have h: "arena_ok (pt_arena pt)" "p_rep ?b ?m t" "p_ok ?b t" "distinct (p_ids t)" "set (p_ids t) = dom ?m"
    "p_id t = pt_root pt"
    using assms(1,2) by (auto simp: patricia_invar_def patricia_holds_def)
  have trail: "p_trail ?b v t = ?anc @ [p_id ?par, ?lf]" using p_trail_parts[OF assms(4)] .
  have dist: "distinct ?anc" "p_id ?par \<notin> set ?anc" "?lf \<notin> set ?anc" "p_id ?par \<noteq> ?lf"
    using p_trail_distinct[OF h(4), of ?b v] unfolding trail by auto
  obtain i n l c t0 t1 where par: "?par = PBranch i n l c t0 t1"
    using p_par_branch[OF assms(4), of ?b v] by (cases ?par) auto
  have pok: "p_rep ?b ?m (PBranch i n l c t0 t1)" "l < ?b"
    using p_par_rep[OF h(2), of v] p_par_ok[OF h(3), of v] par by auto
  have ip: "p_id ?par = i" using par by simp
  have mi: "?m i = Some \<lparr>sl_network = n, sl_length = l, sl_hot = c, sl_child0 = p_id t0, sl_child1 = p_id t1\<rparr>"
    using pok(1) by simp
  have branch: "bindE (py_get (ar_length (pt_arena pt)) i) (\<lambda>l. bit_at v l ?b) = Inr (of_bool (msb ?b l v))"
    using arena_reads(2)[OF h(1) mi] pok(2) by (simp add: bit_at_msb)
  have sib: "py_get (ar_child (pt_arena pt)) (2 * i + 1 - of_bool (msb ?b l v)) = Inr ?sib"
    using arena_reads(7)[OF h(1) mi] par by (simp add: sl_child_def p_child_def)
  obtain ar1 where d: "bindS (pt_relink (if ?anc = [] then NO_NODE else last ?anc) v ?sib) (\<lambda>_. pt_bump (- 1) ?anc) pt =
      (Inr (), pt\<lparr>pt_arena := ar1, pt_root := (if ?anc = [] then ?sib else pt_root pt)\<rparr>)" "arena_ok ar1"
    "\<forall>j. arena_map ar1 j = (if j \<in> set ?anc then map_option (sl_drop ?b v ?sib (j = last ?anc)) (?m j) else ?m j)"
    using pt_detach_ok[OF h(1-3) dist(1), of ?sib] by blast
  let ?pt1 = "pt\<lparr>pt_arena := ar1, pt_root := (if ?anc = [] then ?sib else pt_root pt)\<rparr>"
  have lfm: "?lf \<in> dom ?m" using p_near_ids[of ?b v ?par] p_par_ids[of ?b v t] h(5) by blast
  obtain s1 s2 where live: "arena_map ar1 ?lf = Some s1" "arena_map ar1 i = Some s2"
    using lfm mi d(3) dist(2,3) ip by auto
  obtain ar2 ar3 where rel: "arena_release ?lf ar1 = (Inr (), ar2)" "arena_release i ar2 = (Inr (), ar3)" "arena_ok ar3"
    "arena_map ar3 = (arena_map ar1)(?lf := None, i := None)"
    using arena_release_two[OF d(2) live] dist(4) ip by auto
  let ?pt2 = "?pt1\<lparr>pt_arena := ar3\<rparr>" and ?t' = "p_delete ?b v t"
  have rep: "p_rep ?b (arena_map ar3) ?t' \<and> p_id ?t' = (if ?anc = [] then ?sib else p_id t)"
    by (rule p_delete_rep[OF h(2,4) assms(4)]) (use rel(4) d(3) ip in simp)
  have ids: "set (p_ids ?t') = dom ?m - {i, ?lf} \<and> distinct (p_ids ?t')"
    using p_delete_ids[OF h(4) assms(4), of ?b v] h(5) ip by simp
  have "dom (arena_map ar3) = dom ?m - {i, ?lf}"
  proof -
    have "j \<in> dom (arena_map ar1) \<longleftrightarrow> j \<in> dom ?m" for j using d(3) by (auto simp: domIff)
    then show ?thesis using rel(4) by auto
  qed
  then have inv: "patricia_invar ?pt2 \<and> patricia_set ?pt2 = p_set ?t'"
    using rel(3) rep ids h(6) p_delete_ok[OF h(3) assms(3,4)]
    by (intro patricia_holdsI) (simp_all add: pt_bit_length_def)
  have gp: "(if length (p_trail ?b v t) \<ge> 3 then last ?anc else NO_NODE) =
      (if ?anc = [] then NO_NODE else last ?anc)" "length (p_trail ?b v t) \<noteq> 1"
    "last (butlast (p_trail ?b v t)) = i" "last (p_trail ?b v t) = ?lf" "butlast (butlast (p_trail ?b v t)) = ?anc"
    unfolding trail by (auto simp: butlast_append ip Suc_le_eq)
  have "pt_collapse ?b v (p_trail ?b v t) pt =
      bindS (bindS (pt_relink (if ?anc = [] then NO_NODE else last ?anc) v ?sib) (\<lambda>_. pt_bump (- 1) ?anc))
        (\<lambda>_. bindS (on_arena (arena_release ?lf)) (\<lambda>_. bindS (on_arena (arena_release i)) (\<lambda>_. returnS True))) pt"
    unfolding pt_collapse_def Let_def gp(3,4,5) gp(1) if_not_P[OF gp(2)]
    by (subst bindS_readS, rule branch, subst bindS_readS, rule sib) (simp only: bindS_assoc)
  also have "\<dots> = (Inr True, ?pt2)"
    by (subst bindS_Inr, rule d(1)) (use rel(1,2) in \<open>simp add: bindS_def on_arena_def\<close>)
  finally show ?thesis using inv p_delete_ok[OF h(3) assms(3,4)] by auto
qed

lemma pt_remove_correct:
  assumes "patricia_invar pt" "valid_address a" "addr_family a = pt_family pt"
  shows "\<exists>pt'. pt_remove_hot_ip pt a = Some (Inr (addr_value a \<in> patricia_set pt), pt') \<and> patricia_invar pt' \<and>
    patricia_set pt' = patricia_set pt - {addr_value a} \<and> pt_family pt' = pt_family pt \<and>
    (addr_value a \<notin> patricia_set pt \<longrightarrow> pt' = pt)"
proof -
  let ?v = "addr_value a" and ?b = "pt_bit_length pt"
  note has = pt_contains_correct[OF assms]
  have fam: "pt_check_family pt (addr_family a) = Inr ()" using assms(3) by (simp add: pt_check_family_def)
  show ?thesis
  proof (cases "?v \<in> patricia_set pt")
    case False
    then show ?thesis using has fam assms(1) by (auto simp: pt_remove_hot_ip_def)
  next
    case True
    with assms(1) obtain t where t: "pt_root pt \<noteq> NO_NODE" "patricia_holds pt t" "patricia_set pt = p_set t"
      by (auto elim: patricia_cases)
    have h: "arena_ok (pt_arena pt)" "p_rep ?b (arena_map (pt_arena pt)) t" "p_ok ?b t"
      "p_id t = pt_root pt" "set (p_ids t) = dom (arena_map (pt_arena pt))"
      using assms(1) t(2) by (auto simp: patricia_invar_def patricia_holds_def)
    have run: "pt_remove_hot_ip pt a = Some (pt_collapse ?b ?v (p_trail ?b ?v t) pt)"
      using has True fam pt_remove_walk_ok[OF h(1-3), of ?v "[]"] h(4) by (simp add: pt_remove_hot_ip_def)
    show ?thesis
    proof (cases "p_is_leaf t")
      case leaf: True
      then obtain i where i: "t = PLeaf i ?v" using True t(3) by (cases t) auto
      obtain s where s: "arena_map (pt_arena pt) i = Some s" using h(2) i by auto
      obtain ar where ar: "arena_release i (pt_arena pt) = (Inr (), ar)" "arena_ok ar"
        "arena_map ar = (arena_map (pt_arena pt))(i := None)"
        using arena_release_ok[OF h(1) s] by blast
      have "dom (arena_map ar) = {}" using ar(3) h(5) i by auto
      then have e: "arena_map ar = Map.empty" by simp
      have "pt_collapse ?b ?v (p_trail ?b ?v t) pt = (Inr True, pt\<lparr>pt_root := NO_NODE, pt_arena := ar\<rparr>)"
        using i ar(1) by (simp add: pt_collapse_def bindS_def pt_set_root_def writeS_def on_arena_def)
      moreover have "patricia_invar (pt\<lparr>pt_root := NO_NODE, pt_arena := ar\<rparr>)"
        "patricia_set (pt\<lparr>pt_root := NO_NODE, pt_arena := ar\<rparr>) = {}"
        using ar(2) e by (simp_all add: patricia_invar_def patricia_set_def)
      ultimately show ?thesis using run True t(3) i by simp
    next
      case False
      then show ?thesis using pt_collapse_tree[OF assms(1) t(2) _ False, of ?v] run True t(3) by auto
    qed
  qed
qed

section \<open>The contracts\<close>

lemma patricia_ops_simps [simp]:
  "ht_family patricia_ops = pt_family" "ht_bit_length patricia_ops = pt_bit_length"
  "ht_hot_ip_count patricia_ops = pt_hot_ip_count" "ht_node_count patricia_ops = pt_node_count"
  "ht_add_hot_ip patricia_ops = pt_add_hot_ip" "ht_remove_hot_ip patricia_ops = pt_remove_hot_ip"
  "ht_clear patricia_ops = pt_clear" "ht_contains patricia_ops = pt_contains"
  "ht_hot_count patricia_ops = pt_hot_count" "ht_ancestor_counts patricia_ops = pt_ancestor_counts"
  "ht_longest_matching_prefix patricia_ops = pt_longest_matching_prefix"
  "ht_iter_prefix_counts patricia_ops = pt_iter_prefix_counts"
  "ht_iter_hot_addresses patricia_ops = pt_iter_hot_addresses" "ht_iter_nodes patricia_ops = pt_iter_nodes"
  by (simp_all add: patricia_ops_def)

lemma pt_wrong_family:
  assumes "addr_family a \<noteq> pt_family pt"
  shows "pt_contains pt a = Some (Inl ValueError)" "pt_add_hot_ip pt a = Some (Inl ValueError, pt)"
    "pt_remove_hot_ip pt a = Some (Inl ValueError, pt)" "pt_ancestor_counts pt a m = Some (Inl ValueError)"
    "pt_longest_matching_prefix pt a = Some (Inl ValueError)"
  using assms by (simp_all add: pt_contains_def pt_add_hot_ip_def pt_remove_hot_ip_def
      pt_ancestor_counts_def pt_longest_matching_prefix_def pt_check_family_def)

lemma patricia_empty:
  "patricia_invar (pt_new f)" "patricia_set (pt_new f) = {}" "patricia_invar (pt_clear pt)"
  "patricia_set (pt_clear pt) = {}" "pt_family (pt_clear pt) = pt_family pt"
  by (simp_all add: patricia_invar_def patricia_set_def pt_new_def pt_clear_def)

interpretation pat: hot_trie_impl patricia_ops patricia_invar patricia_set
proof (unfold_locales, goal_cases)
  case (1 t)
  then show ?case using patricia_set_range by simp
next
  case (3 t a)
  then show ?case using pt_add_correct[of t a] by simp
next
  case (4 t a)
  then show ?case using pt_remove_correct[of t a] by simp
next
  case (7 p t)
  then show ?case by (simp add: pt_hot_count_def pt_check_family_def)
qed (simp_all add: pt_bit_length_def patricia_empty pt_wrong_family pt_hot_ip_count_correct pt_contains_correct
    pt_hot_count_correct pt_ancestor_counts_correct pt_longest_correct pt_iter_prefix_counts_correct
    pt_iter_hot_addresses_correct)

interpretation pat_bin: hot_trie_pair patricia_ops patricia_invar patricia_set binary_ops binary_invar binary_set
  by unfold_locales

text \<open>Decision 6: a non-empty trie has \<open>2 * hot_ip_count - 1\<close> nodes.\<close>

lemma p_ids_count: "int (length (p_ids t)) = 2 * int (card (p_set t)) - 1" if "p_ok bits t"
  using that
proof (induction t)
  case (PBranch i n l c t0 t1)
  then show ?case using p_disjoint[OF PBranch.prems] by (simp add: card_Un_disjoint)
qed simp

lemma pt_node_count_correct:
  assumes "patricia_invar pt"
  shows "pt_node_count pt = max 0 (2 * int (card (patricia_set pt)) - 1)"
  using assms
proof (cases rule: patricia_cases)
  case 1
  then show ?thesis using arena_live_count_card assms by (simp add: patricia_invar_def pt_node_count_def)
next
  case (2 t)
  have h: "arena_ok (pt_arena pt)" "p_ok (pt_bit_length pt) t" "distinct (p_ids t)"
    "set (p_ids t) = dom (arena_map (pt_arena pt))"
    using assms 2(2) by (auto simp: patricia_invar_def patricia_holds_def)
  have "card (dom (arena_map (pt_arena pt))) = length (p_ids t)" using h(3,4) distinct_card by metis
  moreover have "0 < card (p_set t)" by (simp add: card_gt_0_iff)
  ultimately show ?thesis
    using arena_live_count_card[OF h(1)] p_ids_count[OF h(2)] 2(3) by (simp add: pt_node_count_def)
qed

end
