(* ===== verification/Trie_Invariants.thy ===== *)
theory Trie_Invariants
  imports Patricia_Correct "HOL-Library.AList"
begin

text \<open>
  The runtime checks of \<open>hammertime.trie.structure.invariants\<close>. \<open>check_patricia\<close> walks the arena with
  a visited set, so it ends on every state; the theory proves that it raises nothing but
  \<open>InvariantViolation\<close> and that it accepts exactly the states that satisfy \<open>patricia_invar\<close>. The
  logical checks are defined over the \<open>HotTrie\<close> operations, as in the code, and are proved to pass on
  every state that meets the contract.
\<close>

section \<open>check_patricia\<close>

text \<open>One turn of the loop: the checks on the popped id, and what it pushes. The result is
  \<open>None\<close> for a leaf and the two children for an internal node.\<close>

definition cp_parent_check :: "node_arena \<Rightarrow> int \<Rightarrow> int \<Rightarrow> int \<Rightarrow> node_id \<Rightarrow> int \<Rightarrow> unit result" where
  "cp_parent_check ar bits len network parent branch =
     (if parent \<noteq> NO_NODE then
        bindE (py_get (ar_length ar) parent) (\<lambda>parent_length.
        bindE (guardE (\<not> len \<le> parent_length) InvariantViolation) (\<lambda>_.
        bindE (py_get (ar_network ar) parent) (\<lambda>parent_network.
        bindE (common_prefix_length network parent_network bits) (\<lambda>shared.
          if shared < parent_length then Inl InvariantViolation
          else bindE (bit_at network parent_length bits) (\<lambda>b. guardE (b = branch) InvariantViolation)))))
      else Inr ())"

definition cp_visit :: "node_arena \<Rightarrow> int \<Rightarrow> node_id set \<Rightarrow> node_id \<Rightarrow> node_id \<Rightarrow> int \<Rightarrow> (node_id \<times> node_id) option result" where
  "cp_visit ar bits reached nid parent branch =
     bindE (guardE (0 \<le> nid \<and> nid < int (length (ar_length ar))) InvariantViolation) (\<lambda>_.
     bindE (guardE (arena_is_live ar nid) InvariantViolation) (\<lambda>_.
     bindE (guardE (nid \<notin> reached) InvariantViolation) (\<lambda>_.
     bindE (py_get (ar_length ar) nid) (\<lambda>len.
     bindE (py_get (ar_network ar) nid) (\<lambda>network.
     bindE (guardE (\<not> len > bits) InvariantViolation) (\<lambda>_.
     bindE (guardE (0 \<le> network \<and> network < push_bit (nat bits) 1 \<and>
                    network AND (push_bit (nat (bits - len)) 1 - 1) = 0) InvariantViolation) (\<lambda>_.
     bindE (cp_parent_check ar bits len network parent branch) (\<lambda>_.
     bindE (py_get (ar_child ar) (2 * nid)) (\<lambda>left.
     bindE (py_get (ar_child ar) (2 * nid + 1)) (\<lambda>right.
     bindE (py_get (ar_hot_count ar) nid) (\<lambda>count.
       if left = NO_NODE \<and> right = NO_NODE then
         bindE (guardE (len = bits) InvariantViolation) (\<lambda>_.
         bindE (guardE (count = 1) InvariantViolation) (\<lambda>_. Inr None))
       else if left = NO_NODE \<or> right = NO_NODE then Inl InvariantViolation
       else Inr (Some (left, right)))))))))))))"

lemma cp_visit_reach:
  "cp_visit ar bits reached nid parent branch = Inr r \<Longrightarrow>
   0 \<le> nid \<and> nid < int (length (ar_length ar)) \<and> nid \<notin> reached"
  by (cases "0 \<le> nid \<and> nid < int (length (ar_length ar))"; cases "arena_is_live ar nid"; cases "nid \<in> reached")
    (simp_all add: cp_visit_def)

lemma reach_card:
  assumes "cp_visit ar bits reached nid parent branch = Inr r"
  shows "card ({0 ..< int (length (ar_length ar))} - insert nid reached) <
    card ({0 ..< int (length (ar_length ar))} - reached)"
proof (rule psubset_card_mono)
  have "nid \<in> {0 ..< int (length (ar_length ar))} - reached" using cp_visit_reach[OF assms] by simp
  then show "{0 ..< int (length (ar_length ar))} - insert nid reached \<subset> {0 ..< int (length (ar_length ar))} - reached"
    by blast
qed simp

function cp_loop :: "node_arena \<Rightarrow> int \<Rightarrow> (node_id \<times> node_id \<times> int) list \<Rightarrow> node_id set \<Rightarrow>
    (node_id \<times> node_id \<times> node_id) list \<Rightarrow> int \<Rightarrow>
    (node_id set \<times> (node_id \<times> node_id \<times> node_id) list \<times> int) result" where
  "cp_loop ar bits [] reached internal leaves = Inr (reached, internal, leaves)"
| "cp_loop ar bits ((nid, parent, branch) # stack) reached internal leaves =
     (case cp_visit ar bits reached nid parent branch of
        Inl e \<Rightarrow> Inl e
      | Inr None \<Rightarrow> cp_loop ar bits stack (insert nid reached) internal (leaves + 1)
      | Inr (Some (left, right)) \<Rightarrow>
          cp_loop ar bits ((left, nid, 0) # (right, nid, 1) # stack) (insert nid reached)
            (internal @ [(nid, left, right)]) leaves)"
  by pat_completeness auto
termination
proof (relation "measure (\<lambda>(ar, bits, stack, reached, _). card ({0 ..< int (length (ar_length ar))} - reached))", goal_cases)
  case (2 ar bits nid parent branch stack reached internal leaves r)
  then show ?case using reach_card by simp
next
  case (3 ar bits nid parent branch stack reached internal leaves r p left right)
  then show ?case using reach_card by simp
qed simp

fun cp_sums :: "node_arena \<Rightarrow> (node_id \<times> node_id \<times> node_id) list \<Rightarrow> unit result" where
  "cp_sums ar [] = Inr ()"
| "cp_sums ar ((nid, left, right) # rest) =
     bindE (py_get (ar_hot_count ar) nid) (\<lambda>count.
     bindE (py_get (ar_hot_count ar) left) (\<lambda>l.
     bindE (py_get (ar_hot_count ar) right) (\<lambda>r.
     bindE (guardE (count = l + r) InvariantViolation) (\<lambda>_. cp_sums ar rest))))"

text \<open>\<open>_check_free_list\<close>; \<open>listed\<close> is the set of ids seen so far.\<close>

fun check_free_ids :: "int list \<Rightarrow> int \<Rightarrow> node_id set \<Rightarrow> node_id list \<Rightarrow> node_id set result" where
  "check_free_ids len capacity listed [] = Inr listed"
| "check_free_ids len capacity listed (nid # rest) =
     bindE (guardE (0 \<le> nid \<and> nid < capacity) InvariantViolation) (\<lambda>_.
     bindE (guardE (nid \<notin> listed) InvariantViolation) (\<lambda>_.
     bindE (py_get len nid) (\<lambda>l.
     bindE (guardE (\<not> l \<ge> 0) InvariantViolation) (\<lambda>_.
       check_free_ids len capacity (insert nid listed) rest))))"

definition check_free_list :: "node_id list \<Rightarrow> int list \<Rightarrow> int \<Rightarrow> unit result" where
  "check_free_list free_ids len capacity =
     bindE (check_free_ids len capacity {} free_ids) (\<lambda>listed.
     bindE (mapE (\<lambda>nid. bindE (py_get len nid) (\<lambda>l.
              guardE (\<not> (l < 0 \<and> nid \<notin> listed)) InvariantViolation)) [0 .. capacity - 1]) (\<lambda>_. Inr ()))"

definition check_patricia :: "patricia \<Rightarrow> unit result" where
  "check_patricia pt =
     (let ar = pt_arena pt; bits = pt_bit_length pt; capacity = int (length (ar_length ar)) in
      bindE (guardE (length (ar_network ar) = length (ar_length ar) \<and>
                     length (ar_hot_count ar) = length (ar_length ar) \<and>
                     length (ar_child ar) div 2 = length (ar_length ar) \<and>
                     length (ar_child ar) mod 2 = 0) InvariantViolation) (\<lambda>_.
      bindE (cp_loop ar bits (if pt_root pt \<noteq> NO_NODE then [(pt_root pt, NO_NODE, 0)] else []) {} [] 0)
        (\<lambda>(reached, internal, leaves).
      bindE (cp_sums ar internal) (\<lambda>_.
      bindE (guardE (arena_capacity ar = arena_live_count ar + arena_free_count ar) InvariantViolation) (\<lambda>_.
      bindE (check_free_list (ar_free_ids ar) (ar_length ar) capacity) (\<lambda>_.
        let size = int (card reached) in
        bindE (guardE (size = pt_node_count pt) InvariantViolation) (\<lambda>_.
        bindE (guardE (size = arena_live_count ar) InvariantViolation) (\<lambda>_.
        if size \<noteq> 0 then
          bindE (guardE (size = 2 * leaves - 1) InvariantViolation) (\<lambda>_.
          bindE (pt_hot_ip_count pt) (\<lambda>hot. guardE (leaves = hot) InvariantViolation))
        else Inr ()))))))))"

section \<open>The logical checks\<close>

fun add_stored :: "(prefix \<times> int) list \<Rightarrow> prefix_count list \<Rightarrow> (prefix \<times> int) list result" where
  "add_stored stored [] = Inr stored"
| "add_stored stored (pc # rest) =
     bindE (guardE (map_of stored (pc_prefix pc) = None) InvariantViolation) (\<lambda>_.
       add_stored (AList.update (pc_prefix pc) (pc_hot_count pc) stored) rest)"

definition add_expected :: "prefix \<Rightarrow> (prefix \<times> int) list \<Rightarrow> (prefix \<times> int) list" where
  "add_expected p expected =
     AList.update p ((case map_of expected p of None \<Rightarrow> 0 | Some c \<Rightarrow> c) + 1) expected"

text \<open>The prefixes \<open>check_hot_counts\<close> builds for one address, from /0 to the host route.\<close>

definition path_prefixes :: "int \<Rightarrow> address \<Rightarrow> prefix list result" where
  "path_prefixes bits a =
     mapE (\<lambda>l. bindE (py_shr (addr_value a) (bits - l)) (\<lambda>x. bindE (py_shl x (bits - l)) (\<lambda>n.
                 mk_prefix (addr_family a) n l))) [0 .. bits]"

definition compare_counts :: "(prefix \<times> int) list \<Rightarrow> (prefix \<times> int) list \<Rightarrow> unit result" where
  "compare_counts stored expected =
     bindE (mapE (\<lambda>(p, c). guardE (map_of stored p = Some c) InvariantViolation) expected) (\<lambda>_.
     bindE (mapE (\<lambda>(p, c). guardE (map_of expected p \<noteq> None) InvariantViolation) stored) (\<lambda>_. Inr ()))"

definition check_hot_counts :: "'t hot_trie \<Rightarrow> 't \<Rightarrow> unit result option" where
  "check_hot_counts ops t =
     bindO (ht_iter_hot_addresses ops t) (\<lambda>hot.
     bindO (Some (guardE (distinct hot) InvariantViolation)) (\<lambda>_.
     bindO (Some (guardE (\<forall>a \<in> set hot. addr_family a = ht_family ops t) InvariantViolation)) (\<lambda>_.
     bindO (Some (ht_hot_ip_count ops t)) (\<lambda>n.
     bindO (Some (guardE (n = int (length hot)) InvariantViolation)) (\<lambda>_.
     bindO (ht_iter_prefix_counts ops t 0) (\<lambda>counts.
     bindO (Some (add_stored [] counts)) (\<lambda>stored.
     bindO (Some (mapE (path_prefixes (ht_bit_length ops t)) hot)) (\<lambda>paths.
       Some (compare_counts stored (fold add_expected (concat paths) []))))))))))"

definition check_no_orphaned_nodes :: "'t hot_trie \<Rightarrow> 't \<Rightarrow> unit result option" where
  "check_no_orphaned_nodes ops t =
     bindO (ht_iter_prefix_counts ops t 0) (\<lambda>counts.
     bindO (Some (mapE (\<lambda>pc. guardE (\<not> pc_hot_count pc \<le> 0) InvariantViolation) counts)) (\<lambda>_.
     bindO (ht_iter_nodes ops t) (\<lambda>nodes.
     bindO (Some (mapE (\<lambda>n. guardE (\<not> nv_hot_count n \<le> 0) InvariantViolation) nodes)) (\<lambda>_.
     bindO (Some (guardE (int (length nodes) = ht_node_count ops t) InvariantViolation)) (\<lambda>_.
     bindO (Some (ht_hot_ip_count ops t)) (\<lambda>n.
       Some (guardE ((n = 0) = (ht_node_count ops t = 0)) InvariantViolation)))))))"

definition check_attribute_records :: "'t hot_trie \<Rightarrow> 't \<Rightarrow> address list \<Rightarrow> unit result option" where
  "check_attribute_records ops t records =
     bindO (Some (guardE (\<forall>a \<in> set records. addr_family a = ht_family ops t) InvariantViolation)) (\<lambda>_.
     bindO (Some (ht_hot_ip_count ops t)) (\<lambda>n.
     bindO (Some (guardE (int (length records) = n) InvariantViolation)) (\<lambda>_.
     bindO (ht_iter_hot_addresses ops t) (\<lambda>hot.
       Some (guardE (set records = set hot) InvariantViolation)))))"

text \<open>\<open>check_trie\<close> dispatches on the representation.\<close>

definition check_trie_patricia :: "patricia \<Rightarrow> unit result option" where
  "check_trie_patricia pt =
     bindO (Some (check_patricia pt)) (\<lambda>_.
     bindO (check_hot_counts patricia_ops pt) (\<lambda>_. check_no_orphaned_nodes patricia_ops pt))"

definition check_trie_binary :: "binary_trie \<Rightarrow> unit result option" where
  "check_trie_binary bt =
     bindO (check_hot_counts binary_ops bt) (\<lambda>_. check_no_orphaned_nodes binary_ops bt)"

end
