(* ===== verification/Trie_Checks.thy ===== *)
theory Trie_Checks
  imports Trie_Invariants
begin

text \<open>What the runtime checks decide.\<close>

section \<open>check_patricia accepts exactly the intact tries\<close>

text \<open>A tree's shape without its counts, and the counts.\<close>

fun p_shape :: "int \<Rightarrow> ptree \<Rightarrow> bool" where
  "p_shape bits (PLeaf i v) \<longleftrightarrow> 0 \<le> v \<and> v < 2 ^ nat bits"
| "p_shape bits (PBranch i n l c t0 t1) \<longleftrightarrow>
     0 \<le> l \<and> l < bits \<and> 0 \<le> n \<and> n < 2 ^ nat bits \<and> net_of bits l n = n \<and>
     l < p_len bits t0 \<and> l < p_len bits t1 \<and>
     agree bits l (p_net t0) n \<and> agree bits l (p_net t1) n \<and>
     \<not> msb bits l (p_net t0) \<and> msb bits l (p_net t1) \<and> p_shape bits t0 \<and> p_shape bits t1"

fun p_sums :: "ptree \<Rightarrow> bool" where
  "p_sums (PLeaf i v) \<longleftrightarrow> True"
| "p_sums (PBranch i n l c t0 t1) \<longleftrightarrow> c = p_count t0 + p_count t1 \<and> p_sums t0 \<and> p_sums t1"

fun p_internal :: "ptree \<Rightarrow> (node_id \<times> node_id \<times> node_id) list" where
  "p_internal (PLeaf i v) = []"
| "p_internal (PBranch i n l c t0 t1) = (i, p_id t0, p_id t1) # p_internal t0 @ p_internal t1"

fun p_leaf_count :: "ptree \<Rightarrow> int" where
  "p_leaf_count (PLeaf i v) = 1"
| "p_leaf_count (PBranch i n l c t0 t1) = p_leaf_count t0 + p_leaf_count t1"

lemma p_ok_split: "p_ok bits t \<longleftrightarrow> p_shape bits t \<and> p_sums t"
  by (induction t) auto

lemma p_leaf_count_ids: "int (length (p_ids t)) = 2 * p_leaf_count t - 1"
  by (induction t) auto

lemma p_sums_leaf_count: "p_sums t \<Longrightarrow> p_count t = p_leaf_count t"
  by (induction t) auto

text \<open>The condition a child's prefix meets with respect to its parent.\<close>

definition cp_extends :: "node_arena \<Rightarrow> int \<Rightarrow> int \<Rightarrow> int \<Rightarrow> node_id \<Rightarrow> int \<Rightarrow> bool" where
  "cp_extends ar bits len net parent branch \<longleftrightarrow> parent = NO_NODE \<or>
     (\<exists>s. arena_map ar parent = Some s \<and> sl_length s < len \<and> agree bits (sl_length s) net (sl_network s) \<and>
        branch = of_bool (msb bits (sl_length s) net))"

lemma arena_map_length: "arena_map ar i = Some s \<Longrightarrow> 0 \<le> sl_length s"
  using arena_map_live arena_map_slot by (fastforce simp: arena_is_live_def)

lemma cp_parent_check_eq:
  assumes "arena_sized ar" "0 \<le> bits" "len \<le> bits" "parent = NO_NODE \<or> arena_is_live ar parent"
  shows "cp_parent_check ar bits len net parent branch =
    guardE (cp_extends ar bits len net parent branch) InvariantViolation"
proof (cases "parent = NO_NODE")
  case True
  then show ?thesis by (simp add: cp_parent_check_def cp_extends_def)
next
  case False
  with assms(4) obtain s where s: "arena_map ar parent = Some s" by (auto simp: arena_map_def)
  note r = arena_reads_sized[OF assms(1) s]
  have sl: "0 \<le> sl_length s" using arena_map_length[OF s] .
  have "sl_length s < len \<Longrightarrow> \<not> cpl bits net (sl_network s) < sl_length s \<longleftrightarrow> agree bits (sl_length s) net (sl_network s)"
    using cpl_ge_iff[of "sl_length s" bits net "sl_network s"] sl assms(3) by auto
  moreover have "sl_length s < len \<Longrightarrow> bit_at net (sl_length s) bits = Inr (of_bool (msb bits (sl_length s) net))"
    using assms(3) by (simp add: bit_at_msb)
  ultimately show ?thesis
    using False r s assms(2)
    by (auto simp: cp_parent_check_def cp_extends_def common_prefix_length_eq guardE_def)
qed

lemma host_bits_zero: "v AND (push_bit h 1 - 1) = 0 \<longleftrightarrow> push_bit h (drop_bit h v) = (v::int)"
proof -
  have "push_bit h (drop_bit h v) + take_bit h v = v"
    by (simp add: push_bit_eq_mult drop_bit_eq_div take_bit_eq_mod div_mult_mod_eq)
  moreover have "v AND (push_bit h 1 - 1) = take_bit h v"
    by (simp add: take_bit_eq_mask mask_eq_exp_minus_1)
  ultimately show ?thesis by linarith
qed

definition cp_node_ok :: "node_arena \<Rightarrow> int \<Rightarrow> node_id set \<Rightarrow> node_id \<Rightarrow> node_id \<Rightarrow> int \<Rightarrow> node_slot \<Rightarrow> bool" where
  "cp_node_ok ar bits reached nid parent branch s \<longleftrightarrow>
     nid \<notin> reached \<and> sl_length s \<le> bits \<and> 0 \<le> sl_network s \<and> sl_network s < 2 ^ nat bits \<and>
     net_of bits (sl_length s) (sl_network s) = sl_network s \<and>
     cp_extends ar bits (sl_length s) (sl_network s) parent branch"

lemma cp_visit_eq:
  assumes "arena_sized ar" "0 \<le> bits" "parent = NO_NODE \<or> arena_is_live ar parent"
  shows "cp_visit ar bits reached nid parent branch =
    (case arena_map ar nid of
       None \<Rightarrow> Inl InvariantViolation
     | Some s \<Rightarrow>
         if \<not> cp_node_ok ar bits reached nid parent branch s then Inl InvariantViolation
         else if sl_child0 s = NO_NODE \<and> sl_child1 s = NO_NODE then
           (if sl_length s = bits \<and> sl_hot s = 1 then Inr None else Inl InvariantViolation)
         else if sl_child0 s = NO_NODE \<or> sl_child1 s = NO_NODE then Inl InvariantViolation
         else Inr (Some (sl_child0 s, sl_child1 s)))"
proof (cases "arena_map ar nid")
  case None
  then have "\<not> arena_is_live ar nid" by (simp add: arena_map_None_iff)
  with None show ?thesis
    by (cases "0 \<le> nid \<and> nid < int (length (ar_length ar))") (simp_all add: cp_visit_def guardE_def)
next
  case (Some s)
  note r = arena_reads_sized[OF assms(1) Some]
  have lv: "arena_is_live ar nid" using arena_map_live[OF Some] .
  then have rng: "0 \<le> nid \<and> nid < int (length (ar_length ar))" by (simp add: arena_is_live_def)
  show ?thesis
  proof (cases "nid \<in> reached \<or> bits < sl_length s")
    case True
    then show ?thesis
      using Some r(1,2) rng lv by (cases "nid \<in> reached") (simp_all add: cp_visit_def cp_node_ok_def)
  next
    case False
    have net: "(0 \<le> sl_network s \<and> sl_network s < push_bit (nat bits) 1 \<and>
        sl_network s AND (push_bit (nat (bits - sl_length s)) 1 - 1) = 0) \<longleftrightarrow>
        (0 \<le> sl_network s \<and> sl_network s < 2 ^ nat bits \<and> net_of bits (sl_length s) (sl_network s) = sl_network s)"
      by (simp add: host_bits_zero[unfolded push_bit_of_1] net_of_def)
    have par: "cp_parent_check ar bits (sl_length s) (sl_network s) parent branch =
        guardE (cp_extends ar bits (sl_length s) (sl_network s) parent branch) InvariantViolation"
      using False by (intro cp_parent_check_eq assms) simp
    show ?thesis
      unfolding cp_visit_def
      using False Some r rng lv by (simp add: net par cp_node_ok_def guardE_def del: push_bit_of_1)
  qed
qed

text \<open>The loop over a tree, and the tree a finished loop has seen.\<close>

lemma p_slot_ok:
  assumes "p_rep bits (arena_map ar) t" "p_shape bits t" "0 \<le> bits"
  shows "\<exists>s. arena_map ar (p_id t) = Some s \<and> sl_network s = p_net t \<and> sl_length s = p_len bits t \<and>
    p_len bits t \<le> bits \<and> 0 \<le> p_net t \<and> p_net t < 2 ^ nat bits \<and> net_of bits (p_len bits t) (p_net t) = p_net t"
  using assms by (cases t) auto

lemma cp_loop_tree:
  assumes "arena_sized ar" "0 \<le> bits" "p_rep bits (arena_map ar) t" "p_shape bits t" "distinct (p_ids t)"
    "set (p_ids t) \<inter> reached = {}" "parent = NO_NODE \<or> arena_is_live ar parent"
    "cp_extends ar bits (p_len bits t) (p_net t) parent branch"
  shows "cp_loop ar bits ((p_id t, parent, branch) # stack) reached internal leaves =
    cp_loop ar bits stack (reached \<union> set (p_ids t)) (internal @ p_internal t) (leaves + p_leaf_count t)"
  using assms(3-)
proof (induction t arbitrary: stack reached internal leaves parent branch)
  case (PLeaf i v)
  have "cp_visit ar bits reached i parent branch = Inr None"
    using PLeaf.prems cp_visit_eq[OF assms(1,2) PLeaf.prems(5)] by (auto simp: cp_node_ok_def)
  then show ?case by simp
next
  case (PBranch i n l c t0 t1)
  have nn: "p_id t0 \<noteq> NO_NODE" "p_id t1 \<noteq> NO_NODE" using PBranch.prems(1) by auto
  have mi: "arena_map ar i = Some \<lparr>sl_network = n, sl_length = l, sl_hot = c, sl_child0 = p_id t0, sl_child1 = p_id t1\<rparr>"
    using PBranch.prems(1) by simp
  have visit: "cp_visit ar bits reached i parent branch = Inr (Some (p_id t0, p_id t1))"
    using PBranch.prems cp_visit_eq[OF assms(1,2) PBranch.prems(5)] nn by (auto simp: cp_node_ok_def)
  have live: "i = NO_NODE \<or> arena_is_live ar i" using arena_map_live[OF mi] by simp
  have ext: "cp_extends ar bits (p_len bits t0) (p_net t0) i 0" "cp_extends ar bits (p_len bits t1) (p_net t1) i 1"
    using PBranch.prems(2) mi by (auto simp: cp_extends_def)
  let ?R = "insert i reached"
  have "cp_loop ar bits ((p_id t0, i, 0) # (p_id t1, i, 1) # stack) ?R (internal @ [(i, p_id t0, p_id t1)]) leaves =
      cp_loop ar bits ((p_id t1, i, 1) # stack) (?R \<union> set (p_ids t0)) (internal @ [(i, p_id t0, p_id t1)] @ p_internal t0)
        (leaves + p_leaf_count t0)"
    using PBranch.prems ext(1) live by (subst PBranch.IH(1)) auto
  also have "\<dots> = cp_loop ar bits stack (?R \<union> set (p_ids t0) \<union> set (p_ids t1))
      (internal @ [(i, p_id t0, p_id t1)] @ p_internal t0 @ p_internal t1) (leaves + p_leaf_count t0 + p_leaf_count t1)"
    using PBranch.prems ext(2) live by (subst PBranch.IH(2)) auto
  finally show ?case using visit by (simp add: Un_assoc add.assoc)
qed

definition cp_seen :: "node_arena \<Rightarrow> int \<Rightarrow> node_id \<times> node_id \<times> int \<Rightarrow> ptree \<Rightarrow> bool" where
  "cp_seen ar bits e t \<longleftrightarrow> (case e of (nid, parent, branch) \<Rightarrow>
     p_id t = nid \<and> p_rep bits (arena_map ar) t \<and> p_shape bits t \<and>
     cp_extends ar bits (p_len bits t) (p_net t) parent branch)"

definition cp_stack_ok :: "node_arena \<Rightarrow> (node_id \<times> node_id \<times> int) list \<Rightarrow> bool" where
  "cp_stack_ok ar stack \<longleftrightarrow> (\<forall>(nid, parent, branch) \<in> set stack. parent = NO_NODE \<or> arena_is_live ar parent)"

definition cp_result :: "node_arena \<Rightarrow> int \<Rightarrow> (node_id \<times> node_id \<times> int) list \<Rightarrow> node_id set \<Rightarrow>
    (node_id \<times> node_id \<times> node_id) list \<Rightarrow> int \<Rightarrow>
    node_id set \<times> (node_id \<times> node_id \<times> node_id) list \<times> int \<Rightarrow> bool" where
  "cp_result ar bits stack reached internal leaves r \<longleftrightarrow>
     (\<exists>ts. list_all2 (cp_seen ar bits) stack ts \<and> distinct (concat (map p_ids ts)) \<and>
        set (concat (map p_ids ts)) \<inter> reached = {} \<and>
        r = (reached \<union> set (concat (map p_ids ts)), internal @ concat (map p_internal ts),
             leaves + sum_list (map p_leaf_count ts)))"

lemma cp_loop_sound:
  assumes "arena_sized ar" "0 \<le> bits"
  shows "cp_stack_ok ar stack \<Longrightarrow>
    (case cp_loop ar bits stack reached internal leaves of
       Inl e \<Rightarrow> e = InvariantViolation
     | Inr r \<Rightarrow> cp_result ar bits stack reached internal leaves r)"
  using assms
proof (induction ar bits stack reached internal leaves rule: cp_loop.induct)
  case (1 ar bits reached internal leaves)
  then show ?case by (simp add: cp_result_def)
next
  case (2 ar bits nid parent branch stack reached internal leaves)
  have par: "parent = NO_NODE \<or> arena_is_live ar parent" and st: "cp_stack_ok ar stack"
    using "2.prems"(1) by (auto simp: cp_stack_ok_def)
  note eq = cp_visit_eq[OF "2.prems"(2,3) par, of reached nid branch]
  show ?case
  proof (cases "cp_visit ar bits reached nid parent branch")
    case (Inl e)
    then have "e = InvariantViolation" using eq by (auto split: option.splits if_splits)
    with Inl show ?thesis by simp
  next
    case (Inr r)
    then obtain s where s: "arena_map ar nid = Some s" "cp_node_ok ar bits reached nid parent branch s"
      using eq by (auto split: option.splits if_splits)
    show ?thesis
    proof (cases r)
      case None
      then have leaf: "sl_child0 s = NO_NODE" "sl_child1 s = NO_NODE" "sl_length s = bits" "sl_hot s = 1"
        using Inr eq s by (auto split: if_splits)
      let ?t = "PLeaf nid (sl_network s)"
      have seen: "cp_seen ar bits (nid, parent, branch) ?t"
        using s leaf by (auto simp: cp_seen_def cp_node_ok_def)
      have loop: "cp_loop ar bits ((nid, parent, branch) # stack) reached internal leaves =
          cp_loop ar bits stack (insert nid reached) internal (leaves + 1)" using Inr None by simp
      have ih: "case cp_loop ar bits stack (insert nid reached) internal (leaves + 1) of
           Inl e \<Rightarrow> e = InvariantViolation
         | Inr r \<Rightarrow> cp_result ar bits stack (insert nid reached) internal (leaves + 1) r"
        using "2.IH"(1)[OF Inr None st "2.prems"(2,3)] .
      show ?thesis
      proof (cases "cp_loop ar bits stack (insert nid reached) internal (leaves + 1)")
        case (Inl e)
        then show ?thesis using ih loop by simp
      next
        case (Inr q)
        with ih obtain ts where ts: "list_all2 (cp_seen ar bits) stack ts" "distinct (concat (map p_ids ts))"
          "set (concat (map p_ids ts)) \<inter> insert nid reached = {}"
          "q = (insert nid reached \<union> set (concat (map p_ids ts)), internal @ concat (map p_internal ts),
             leaves + 1 + sum_list (map p_leaf_count ts))"
          unfolding cp_result_def by auto
        have "cp_result ar bits ((nid, parent, branch) # stack) reached internal leaves q"
          unfolding cp_result_def using ts seen s(2)
          by (intro exI[of _ "?t # ts"]) (auto simp: cp_node_ok_def)
        then show ?thesis using Inr loop by simp
      qed
    next
      case (Some lr)
      then obtain left right where lr: "lr = (left, right)" by (cases lr)
      then have ch: "sl_child0 s = left" "sl_child1 s = right"
        using Inr Some eq s by (auto split: if_splits)
      have loop: "cp_loop ar bits ((nid, parent, branch) # stack) reached internal leaves =
          cp_loop ar bits ((left, nid, 0) # (right, nid, 1) # stack) (insert nid reached)
            (internal @ [(nid, left, right)]) leaves" using Inr Some lr by simp
      have "cp_stack_ok ar ((left, nid, 0) # (right, nid, 1) # stack)"
        using st arena_map_live[OF s(1)] by (simp add: cp_stack_ok_def)
      then have ih: "case cp_loop ar bits ((left, nid, 0) # (right, nid, 1) # stack) (insert nid reached)
            (internal @ [(nid, left, right)]) leaves of
           Inl e \<Rightarrow> e = InvariantViolation
         | Inr r \<Rightarrow> cp_result ar bits ((left, nid, 0) # (right, nid, 1) # stack) (insert nid reached)
             (internal @ [(nid, left, right)]) leaves r"
        using "2.IH"(2)[OF Inr Some lr[symmetric] _ "2.prems"(2,3)] lr by simp
      show ?thesis
      proof (cases "cp_loop ar bits ((left, nid, 0) # (right, nid, 1) # stack) (insert nid reached)
            (internal @ [(nid, left, right)]) leaves")
        case (Inl e)
        then show ?thesis using ih loop by simp
      next
        case (Inr q)
        with ih obtain t0 t1 ts where t: "cp_seen ar bits (left, nid, 0) t0" "cp_seen ar bits (right, nid, 1) t1"
          "list_all2 (cp_seen ar bits) stack ts" "distinct (concat (map p_ids (t0 # t1 # ts)))"
          "set (concat (map p_ids (t0 # t1 # ts))) \<inter> insert nid reached = {}"
          "q = (insert nid reached \<union> set (concat (map p_ids (t0 # t1 # ts))),
             internal @ [(nid, left, right)] @ concat (map p_internal (t0 # t1 # ts)),
             leaves + sum_list (map p_leaf_count (t0 # t1 # ts)))"
          unfolding cp_result_def list_all2_Cons1 by auto
        let ?t = "PBranch nid (sl_network s) (sl_length s) (sl_hot s) t0 t1"
        have seen: "cp_seen ar bits (nid, parent, branch) ?t"
        proof -
          have nn: "nid \<noteq> NO_NODE" using s(1) by auto
          have e: "sl_length s < p_len bits t0" "agree bits (sl_length s) (p_net t0) (sl_network s)"
            "\<not> msb bits (sl_length s) (p_net t0)" "sl_length s < p_len bits t1"
            "agree bits (sl_length s) (p_net t1) (sl_network s)" "msb bits (sl_length s) (p_net t1)"
            using t(1,2) s(1) nn by (auto simp: cp_seen_def cp_extends_def)
          have "p_len bits t0 \<le> bits" using t(1) "2.prems"(3) by (cases t0) (auto simp: cp_seen_def)
          then show ?thesis
            using e t(1,2) s ch arena_map_length[OF s(1)] by (auto simp: cp_seen_def cp_node_ok_def)
        qed
        have "cp_result ar bits ((nid, parent, branch) # stack) reached internal leaves q"
          unfolding cp_result_def using t seen s(2)
          by (intro exI[of _ "?t # ts"]) (auto simp: cp_node_ok_def cp_seen_def)
        then show ?thesis using Inr loop by simp
      qed
    qed
  qed
qed

text \<open>The counts of the internal nodes, and the free list.\<close>

lemma cp_sums_append: "cp_sums ar (xs @ ys) = bindE (cp_sums ar xs) (\<lambda>_. cp_sums ar ys)"
proof (induction ar xs rule: cp_sums.induct)
  case (2 ar nid left right rest)
  then show ?case
    by (cases "py_get (ar_hot_count ar) nid"; cases "py_get (ar_hot_count ar) left";
        cases "py_get (ar_hot_count ar) right") (auto simp: guardE_def)
qed simp

lemma cp_sums_tree:
  assumes "arena_sized ar" "p_rep bits (arena_map ar) t"
  shows "cp_sums ar (p_internal t) = guardE (p_sums t) InvariantViolation"
  using assms(2)
proof (induction t)
  case (PBranch i n l c t0 t1)
  have hot: "py_get (ar_hot_count ar) (p_id t) = Inr (p_count t)" if "p_rep bits (arena_map ar) t" for t
    using p_rep_slot[OF that] arena_reads_sized(3)[OF assms(1)] by fastforce
  show ?case
    using PBranch hot[of "PBranch i n l c t0 t1"] hot[of t0] hot[of t1]
    by (auto simp: cp_sums_append guardE_def)
qed simp

definition dead_slots :: "int list \<Rightarrow> node_id set" where
  "dead_slots len = {i. 0 \<le> i \<and> i < int (length len) \<and> len ! nat i < 0}"

lemma check_free_ids_eq:
  "check_free_ids len (int (length len)) listed ids =
     (if distinct ids \<and> set ids \<inter> listed = {} \<and> set ids \<subseteq> dead_slots len
      then Inr (listed \<union> set ids) else Inl InvariantViolation)"
proof (induction ids arbitrary: listed)
  case (Cons i ids)
  show ?case
  proof (cases "0 \<le> i \<and> i < int (length len)")
    case True
    then show ?thesis using Cons by (auto simp: guardE_def dead_slots_def)
  next
    case False
    then have "guardE (0 \<le> i \<and> i < int (length len)) InvariantViolation = Inl InvariantViolation"
      by (simp add: guardE_def)
    then show ?thesis using False by (auto simp: dead_slots_def)
  qed
qed simp

lemma mapE_guard:
  "bindE (mapE (\<lambda>x. guardE (P x) e) xs) (\<lambda>_. Inr ()) = guardE (\<forall>x \<in> set xs. P x) e"
  by (induction xs) (auto simp: guardE_def bindE_def split: sum.splits if_splits)

lemma mapE_cong: "(\<And>x. x \<in> set xs \<Longrightarrow> f x = g x) \<Longrightarrow> mapE f xs = mapE g xs"
  by (induction xs) auto

lemma check_free_list_eq:
  "check_free_list ids len (int (length len)) =
     guardE (distinct ids \<and> set ids = dead_slots len) InvariantViolation"
proof -
  have "mapE (\<lambda>nid. bindE (py_get len nid) (\<lambda>l. guardE (\<not> (l < 0 \<and> nid \<notin> L)) InvariantViolation))
          [0 .. int (length len) - 1] =
        mapE (\<lambda>nid. guardE (\<not> (len ! nat nid < 0 \<and> nid \<notin> L)) InvariantViolation) [0 .. int (length len) - 1]" for L
    by (rule mapE_cong) simp
  moreover have "(\<forall>i \<in> set [0 .. int (length len) - 1]. \<not> (len ! nat i < 0 \<and> i \<notin> L)) \<longleftrightarrow> dead_slots len \<subseteq> L" for L
    by (auto simp: dead_slots_def)
  ultimately have "bindE (mapE (\<lambda>nid. bindE (py_get len nid) (\<lambda>l. guardE (\<not> (l < 0 \<and> nid \<notin> L)) InvariantViolation))
      [0 .. int (length len) - 1]) (\<lambda>_. Inr ()) = guardE (dead_slots len \<subseteq> L) InvariantViolation" for L
    using mapE_guard[of "\<lambda>nid. \<not> (len ! nat nid < 0 \<and> nid \<notin> L)" InvariantViolation "[0 .. int (length len) - 1]"]
    by (simp only:)
  then show ?thesis
    unfolding check_free_list_def check_free_ids_eq by (auto simp: guardE_def)
qed

lemma arena_ok_iff:
  "arena_ok ar \<longleftrightarrow> arena_sized ar \<and> distinct (ar_free_ids ar) \<and> set (ar_free_ids ar) = dead_slots (ar_length ar)"
  by (auto simp: arena_ok_def arena_sized_def dead_slots_def)

definition cp_final :: "patricia \<Rightarrow> node_id set \<times> (node_id \<times> node_id \<times> node_id) list \<times> int \<Rightarrow> unit result" where
  "cp_final pt = (\<lambda>(reached, internal, leaves).
     bindE (cp_sums (pt_arena pt) internal) (\<lambda>_.
     bindE (guardE (distinct (ar_free_ids (pt_arena pt)) \<and>
        set (ar_free_ids (pt_arena pt)) = dead_slots (ar_length (pt_arena pt))) InvariantViolation) (\<lambda>_.
     bindE (guardE (int (card reached) = pt_node_count pt) InvariantViolation) (\<lambda>_.
     if card reached \<noteq> 0 then
       bindE (guardE (int (card reached) = 2 * leaves - 1) InvariantViolation) (\<lambda>_.
       bindE (pt_hot_ip_count pt) (\<lambda>hot. guardE (leaves = hot) InvariantViolation))
     else Inr ()))))"

lemma check_patricia_eq:
  "check_patricia pt =
     (if arena_sized (pt_arena pt)
      then bindE (cp_loop (pt_arena pt) (pt_bit_length pt)
             (if pt_root pt \<noteq> NO_NODE then [(pt_root pt, NO_NODE, 0)] else []) {} [] 0) (cp_final pt)
      else Inl InvariantViolation)"
proof -
  have sz: "(length (ar_network ar) = length (ar_length ar) \<and> length (ar_hot_count ar) = length (ar_length ar) \<and>
      length (ar_child ar) div 2 = length (ar_length ar) \<and> length (ar_child ar) mod 2 = 0) \<longleftrightarrow> arena_sized ar" for ar
    by (auto simp: arena_sized_def)
  have cap: "arena_capacity ar = arena_live_count ar + arena_free_count ar" for ar
    by (simp add: arena_capacity_def arena_live_count_def arena_free_count_def)
  have fin: "(\<lambda>(reached, internal, leaves).
      bindE (cp_sums (pt_arena pt) internal) (\<lambda>_.
      bindE (guardE (arena_capacity (pt_arena pt) = arena_live_count (pt_arena pt) + arena_free_count (pt_arena pt))
        InvariantViolation) (\<lambda>_.
      bindE (check_free_list (ar_free_ids (pt_arena pt)) (ar_length (pt_arena pt)) (int (length (ar_length (pt_arena pt))))) (\<lambda>_.
        let size = int (card reached) in
        bindE (guardE (size = pt_node_count pt) InvariantViolation) (\<lambda>_.
        bindE (guardE (size = arena_live_count (pt_arena pt)) InvariantViolation) (\<lambda>_.
        if size \<noteq> 0 then
          bindE (guardE (size = 2 * leaves - 1) InvariantViolation) (\<lambda>_.
          bindE (pt_hot_ip_count pt) (\<lambda>hot. guardE (leaves = hot) InvariantViolation))
        else Inr ())))))) = cp_final pt"
    by (rule ext) (auto simp: cp_final_def cap check_free_list_eq Let_def pt_node_count_def guardE_def bindE_def
        split: sum.splits)
  show ?thesis unfolding check_patricia_def Let_def[of "pt_arena pt"] Let_def[of "pt_bit_length pt"]
      Let_def[of "int (length (ar_length (pt_arena pt)))"] sz fin
    by (simp add: guardE_def)
qed

text \<open>The last clauses, once a tree has been seen.\<close>

lemma cp_final_tree:
  assumes "arena_sized (pt_arena pt)" "p_rep (pt_bit_length pt) (arena_map (pt_arena pt)) t"
    "p_id t = pt_root pt" "distinct (p_ids t)"
  shows "cp_final pt (set (p_ids t), p_internal t, p_leaf_count t) =
    guardE (p_sums t \<and> arena_ok (pt_arena pt) \<and> set (p_ids t) = dom (arena_map (pt_arena pt))) InvariantViolation"
proof -
  let ?ar = "pt_arena pt"
  have hot: "pt_hot_ip_count pt = Inr (p_count t)"
    using p_rep_slot[OF assms(2)] arena_reads_sized(3)[OF assms(1)] p_rep_not_NO_NODE[OF assms(2)] assms(3)
    by (fastforce simp: pt_hot_ip_count_def)
  have sub: "set (p_ids t) \<subseteq> dom (arena_map ?ar)" using p_rep_dom[OF assms(2)] by auto
  have "card (set (p_ids t)) \<noteq> 0" using p_id_in_ids[of t] by (metis card_eq_0_iff empty_iff finite_set)
  moreover have "int (card (set (p_ids t))) = 2 * p_leaf_count t - 1"
    using distinct_card[OF assms(4)] p_leaf_count_ids[of t] by simp
  moreover have "int (card (set (p_ids t))) = pt_node_count pt \<longleftrightarrow> set (p_ids t) = dom (arena_map ?ar)" if "arena_ok ?ar"
    using arena_live_count_card[OF that] sub card_subset_eq[OF _ sub] by (auto simp: pt_node_count_def)
  ultimately show ?thesis
    using cp_sums_tree[OF assms(1,2)] hot p_sums_leaf_count[of t] assms(1)
    by (auto simp: cp_final_def guardE_def arena_ok_iff)
qed

lemma cp_final_empty:
  assumes "arena_sized (pt_arena pt)"
  shows "cp_final pt ({}, [], 0) =
    guardE (arena_ok (pt_arena pt) \<and> arena_map (pt_arena pt) = Map.empty) InvariantViolation"
proof -
  let ?ar = "pt_arena pt"
  have "pt_node_count pt = 0 \<longleftrightarrow> arena_map ?ar = Map.empty" if "arena_ok ?ar"
    using arena_live_count_card[OF that] by (simp add: pt_node_count_def)
  then show ?thesis using assms by (auto simp: cp_final_def guardE_def arena_ok_iff)
qed

lemma check_patricia_decides:
  "check_patricia pt = guardE (patricia_invar pt) InvariantViolation"
proof (cases "arena_sized (pt_arena pt)")
  case False
  then show ?thesis by (auto simp: check_patricia_eq patricia_invar_def guardE_def dest: arena_ok_sized)
next
  case sized: True
  let ?ar = "pt_arena pt" and ?b = "pt_bit_length pt"
  show ?thesis
  proof (cases "pt_root pt = NO_NODE")
    case True
    then show ?thesis using sized cp_final_empty[OF sized] by (simp add: check_patricia_eq patricia_invar_def)
  next
    case False
    have st: "cp_stack_ok ?ar [(pt_root pt, NO_NODE, 0)]" by (simp add: cp_stack_ok_def)
    note snd = cp_loop_sound[OF sized pt_bits_nonneg[of pt] st, of "{}" "[]" 0]
    show ?thesis
    proof (cases "cp_loop ?ar ?b [(pt_root pt, NO_NODE, 0)] {} [] 0")
      case (Inl e)
      have "\<not> patricia_invar pt"
      proof
        assume "patricia_invar pt"
        then obtain t where "patricia_holds pt t" using False by (auto simp: patricia_invar_def)
        then have "cp_loop ?ar ?b [(pt_root pt, NO_NODE, 0)] {} [] 0 =
            cp_loop ?ar ?b [] ({} \<union> set (p_ids t)) ([] @ p_internal t) (0 + p_leaf_count t)"
          using cp_loop_tree[OF sized pt_bits_nonneg[of pt], of t "{}" NO_NODE 0 "[]" "[]" 0]
          by (auto simp: patricia_holds_def p_ok_split cp_extends_def)
        with Inl show False by simp
      qed
      with Inl snd sized False show ?thesis by (simp add: check_patricia_eq)
    next
      case (Inr r)
      with snd obtain t where t: "p_id t = pt_root pt" "p_rep ?b (arena_map ?ar) t" "p_shape ?b t"
        "distinct (p_ids t)" "r = (set (p_ids t), p_internal t, p_leaf_count t)"
        by (auto simp: cp_result_def list_all2_Cons1 cp_seen_def)
      have fin: "check_patricia pt = guardE (p_sums t \<and> arena_ok ?ar \<and> set (p_ids t) = dom (arena_map ?ar)) InvariantViolation"
        using cp_final_tree[OF sized t(2,1,4)] Inr t(5) sized False by (simp add: check_patricia_eq)
      have "patricia_invar pt \<longleftrightarrow> p_sums t \<and> arena_ok ?ar \<and> set (p_ids t) = dom (arena_map ?ar)"
      proof
        assume "p_sums t \<and> arena_ok ?ar \<and> set (p_ids t) = dom (arena_map ?ar)"
        then show "patricia_invar pt"
          using t False by (auto simp: patricia_invar_def patricia_holds_def p_ok_split)
      next
        assume inv: "patricia_invar pt"
        then obtain u where u: "patricia_holds pt u" using False by (auto simp: patricia_invar_def)
        then have "cp_loop ?ar ?b [(pt_root pt, NO_NODE, 0)] {} [] 0 =
            cp_loop ?ar ?b [] ({} \<union> set (p_ids u)) ([] @ p_internal u) (0 + p_leaf_count u)"
          using cp_loop_tree[OF sized pt_bits_nonneg[of pt], of u "{}" NO_NODE 0 "[]" "[]" 0]
          by (auto simp: patricia_holds_def p_ok_split cp_extends_def)
        then have same: "set (p_ids t) = set (p_ids u)" "p_internal t = p_internal u" using Inr t(5) by simp_all
        have "p_sums t \<longleftrightarrow> p_sums u"
          using cp_sums_tree[OF sized t(2)] cp_sums_tree[OF sized, of ?b u] u same(2)
          by (auto simp: patricia_holds_def guardE_def split: if_splits)
        then show "p_sums t \<and> arena_ok ?ar \<and> set (p_ids t) = dom (arena_map ?ar)"
          using u same inv by (auto simp: patricia_holds_def p_ok_split patricia_invar_def)
      qed
      with fin show ?thesis by simp
    qed
  qed
qed

section \<open>The logical checks pass on every state that meets the contract\<close>

lemma update_absent: "k \<notin> fst ` set al \<Longrightarrow> AList.update k v al = al @ [(k, v)]"
  by (induction al) auto

lemma map_of_absent: "map_of al k = None \<longleftrightarrow> k \<notin> fst ` set al"
  by (rule map_of_eq_None_iff)

lemma add_stored_distinct:
  "distinct (map pc_prefix pcs) \<Longrightarrow> set (map pc_prefix pcs) \<inter> fst ` set stored = {} \<Longrightarrow>
   add_stored stored pcs = Inr (stored @ map (\<lambda>pc. (pc_prefix pc, pc_hot_count pc)) pcs)"
proof (induction pcs arbitrary: stored)
  case (Cons pc pcs)
  then have "pc_prefix pc \<notin> fst ` set stored" by auto
  then have "map_of stored (pc_prefix pc) = None"
    "AList.update (pc_prefix pc) (pc_hot_count pc) stored = stored @ [(pc_prefix pc, pc_hot_count pc)]"
    by (simp_all add: map_of_absent update_absent)
  moreover have "add_stored (stored @ [(pc_prefix pc, pc_hot_count pc)]) pcs =
      Inr ((stored @ [(pc_prefix pc, pc_hot_count pc)]) @ map (\<lambda>pc. (pc_prefix pc, pc_hot_count pc)) pcs)"
    using Cons.prems by (intro Cons.IH) auto
  ultimately show ?case by simp
qed simp

lemma expected_map:
  "map_of (fold add_expected ps al) k =
     (if k \<in> set ps then Some ((case map_of al k of None \<Rightarrow> 0 | Some c \<Rightarrow> c) + int (count_list ps k)) else map_of al k)"
  by (induction ps arbitrary: al) (auto simp: add_expected_def update_conv' split: option.splits)

lemma expected_distinct: "distinct (map fst al) \<Longrightarrow> distinct (map fst (fold add_expected ps al))"
  by (induction ps arbitrary: al) (auto simp: add_expected_def distinct_update)

lemma count_list_distinct: "distinct xs \<Longrightarrow> x \<in> set xs \<Longrightarrow> count_list xs x = 1"
  by (induction xs) (auto simp: count_list_0_iff)

lemma prefix_at_eq_iff: "prefix_at f a l = prefix_at f b k \<longleftrightarrow> l = k \<and> net_of (bit_length f) l a = net_of (bit_length f) k b"
  by (auto simp: prefix_at_def)

lemma path_count:
  assumes "0 \<le> l" "l \<le> bit_length f"
  shows "count_list (map (prefix_at f a) [0 .. bit_length f]) (prefix_at f b l) =
    of_bool (net_of (bit_length f) l a = net_of (bit_length f) l b)"
proof -
  have "inj_on (prefix_at f a) X" for X by (auto simp: inj_on_def prefix_at_def)
  then have one: "count_list (map (prefix_at f a) [0 .. bit_length f]) (prefix_at f a l) = 1"
    using assms by (simp add: count_list_distinct distinct_map)
  show ?thesis
  proof (cases "net_of (bit_length f) l a = net_of (bit_length f) l b")
    case True
    then have "prefix_at f b l = prefix_at f a l" by (simp add: prefix_at_def)
    with one True show ?thesis by simp
  next
    case False
    then have "prefix_at f b l \<notin> set (map (prefix_at f a) [0 .. bit_length f])"
      by (auto simp: prefix_at_eq_iff)
    with False show ?thesis by (simp add: count_list_0_iff)
  qed
qed

lemma paths_count:
  assumes "set vs \<subseteq> value_range f" "distinct vs" "b \<in> value_range f" "0 \<le> l" "l \<le> bit_length f"
  shows "int (count_list (concat (map (\<lambda>a. map (prefix_at f a) [0 .. bit_length f]) vs)) (prefix_at f b l)) =
    hot_below (bit_length f) (set vs) l b"
  using assms(1,2)
proof (induction vs)
  case (Cons a vs)
  have "net_of (bit_length f) l a = net_of (bit_length f) l b \<longleftrightarrow> agree (bit_length f) l a b"
    using Cons.prems assms(3-5) by (intro net_of_eq_iff) (auto simp: value_range_iff)
  with Cons show ?case
    using path_count[OF assms(4,5), of a b] by (simp add: count_list_append hot_below_insert)
qed simp

context hot_trie_impl
begin

lemma stored_counts:
  assumes "invar t"
  shows "\<exists>stored. add_stored [] (spec_prefix_counts (ht_family ops t) (hot_set t) 0) = Inr stored \<and>
    distinct (map fst stored) \<and> fst ` set stored = {prefix_at (ht_family ops t) a l | a l. a \<in> hot_set t \<and> 0 \<le> l \<and> l \<le> bit_length (ht_family ops t)} \<and>
    (\<forall>a \<in> hot_set t. \<forall>l. 0 \<le> l \<and> l \<le> bit_length (ht_family ops t) \<longrightarrow>
      map_of stored (prefix_at (ht_family ops t) a l) = Some (hot_below (bit_length (ht_family ops t)) (hot_set t) l a))"
proof -
  let ?f = "ht_family ops t" and ?H = "hot_set t" and ?B = "bit_length (ht_family ops t)"
  let ?ps = "sorted_list_of_set (hot_prefixes ?B ?H 0)"
  let ?stored = "map (\<lambda>(n, l). (prefix_at ?f n l, hot_below ?B ?H l n)) ?ps"
  have fin: "finite (hot_prefixes ?B ?H 0)" using finite_hot[OF assms] by simp
  have keys: "map pc_prefix (spec_prefix_counts ?f ?H 0) = map (\<lambda>(n, l). prefix_at ?f n l) ?ps"
    by (simp add: spec_prefix_counts_def count_at_def split_beta o_def)
  have inj: "inj_on (\<lambda>(n, l). prefix_at ?f n l) (hot_prefixes ?B ?H 0)"
    by (auto simp: inj_on_def prefix_at_eq_iff dest!: hot_prefixes_canonical)
  have dist: "distinct (map pc_prefix (spec_prefix_counts ?f ?H 0))"
    unfolding keys using inj fin by (simp add: distinct_map)
  have st: "add_stored [] (spec_prefix_counts ?f ?H 0) = Inr ?stored"
    using add_stored_distinct[OF dist, of "[]"]
    by (simp add: spec_prefix_counts_def count_at_def split_beta o_def)
  have fsts: "map fst ?stored = map pc_prefix (spec_prefix_counts ?f ?H 0)"
    unfolding keys by (simp add: split_beta o_def)
  have img: "fst ` set ?stored = {prefix_at ?f a l | a l. a \<in> ?H \<and> 0 \<le> l \<and> l \<le> ?B}"
  proof -
    have "fst ` set ?stored = (\<lambda>(n, l). prefix_at ?f n l) ` hot_prefixes ?B ?H 0"
      using fin by (simp add: image_image split_beta)
    also have "\<dots> = {prefix_at ?f a l | a l. a \<in> ?H \<and> 0 \<le> l \<and> l \<le> ?B}"
      by (auto simp: hot_prefixes_def prefix_at_def image_iff net_of_net_of)
    finally show ?thesis .
  qed
  have val: "map_of ?stored (prefix_at ?f a l) = Some (hot_below ?B ?H l a)" if "a \<in> ?H" "0 \<le> l" "l \<le> ?B" for a l
  proof -
    have mem: "(net_of ?B l a, l) \<in> set ?ps" using that fin by (auto simp: hot_prefixes_def)
    have "prefix_at ?f (net_of ?B l a) l = prefix_at ?f a l" using that by (simp add: prefix_at_def net_of_net_of)
    moreover have "hot_below ?B ?H l (net_of ?B l a) = hot_below ?B ?H l a" using that by (intro hot_below_cong) simp
    ultimately have "(prefix_at ?f a l, hot_below ?B ?H l a) = (\<lambda>(n, l). (prefix_at ?f n l, hot_below ?B ?H l n)) (net_of ?B l a, l)"
      by simp
    then have "(prefix_at ?f a l, hot_below ?B ?H l a) \<in> set ?stored" unfolding set_map using mem by (rule image_eqI)
    moreover have "distinct (map fst ?stored)" unfolding fsts using dist .
    ultimately show ?thesis by (rule map_of_is_SomeI[rotated])
  qed
  show ?thesis using st fsts dist img val by (intro exI[of _ ?stored]) (simp only:, blast)
qed

lemma hot_counts_pass:
  assumes "invar t"
  shows "check_hot_counts ops t = Some (Inr ())"
proof -
  let ?f = "ht_family ops t" and ?H = "hot_set t" and ?B = "bit_length (ht_family ops t)"
  let ?vs = "sorted_list_of_set ?H"
  let ?hot = "spec_hot_addresses ?f ?H"
  have fin: "finite ?H" using finite_hot[OF assms] .
  have hot: "distinct ?hot" "\<forall>a \<in> set ?hot. addr_family a = ?f" "length ?hot = card ?H"
    using fin by (auto simp: spec_hot_addresses_def distinct_map inj_on_def)
  have paths: "mapE (path_prefixes ?B) ?hot = Inr (map (\<lambda>a. map (prefix_at ?f (addr_value a)) [0 .. ?B]) ?hot)"
  proof (rule mapE_all_Inr)
    fix a assume "a \<in> set ?hot"
    then have "addr_family a = ?f" using hot(2) by blast
    then show "path_prefixes ?B a = Inr (map (prefix_at ?f (addr_value a)) [0 .. ?B])"
      unfolding path_prefixes_def
      by (intro mapE_all_Inr) (use mk_prefix_valid[of _ ?f "addr_value a"] in \<open>auto simp: prefix_at_def net_of_def\<close>)
  qed
  let ?ps = "concat (map (\<lambda>a. map (prefix_at ?f a) [0 .. ?B]) ?vs)"
  have pp: "concat (map (\<lambda>a. map (prefix_at ?f (addr_value a)) [0 .. ?B]) ?hot) = ?ps"
    by (simp add: spec_hot_addresses_def o_def)
  obtain stored where st: "add_stored [] (spec_prefix_counts ?f ?H 0) = Inr stored"
    "fst ` set stored = {prefix_at ?f a l | a l. a \<in> ?H \<and> 0 \<le> l \<and> l \<le> ?B}"
    "\<forall>a \<in> ?H. \<forall>l. 0 \<le> l \<and> l \<le> ?B \<longrightarrow> map_of stored (prefix_at ?f a l) = Some (hot_below ?B ?H l a)"
    using stored_counts[OF assms] by blast
  let ?ex = "fold add_expected ?ps []"
  have dom_ex: "p \<in> set ?ps \<longleftrightarrow> (\<exists>a \<in> ?H. \<exists>l. 0 \<le> l \<and> l \<le> ?B \<and> p = prefix_at ?f a l)" for p
  proof -
    have "set ?ps = (\<Union>a \<in> ?H. prefix_at ?f a ` {0 .. ?B})" using fin by simp
    then show ?thesis by (simp only: UN_iff image_iff Bex_def atLeastAtMost_iff) blast
  qed
  have ex: "map_of stored p = Some c" if "(p, c) \<in> set ?ex" for p c
  proof -
    have "map_of ?ex p = Some c" using that expected_distinct[of "[]" ?ps] by (simp add: map_of_is_SomeI)
    then have "p \<in> set ?ps" and c: "c = int (count_list ?ps p)" by (auto simp: expected_map split: if_splits)
    then obtain a l where al: "a \<in> ?H" "0 \<le> l" "l \<le> ?B" "p = prefix_at ?f a l" using dom_ex by blast
    have "c = hot_below ?B ?H l a"
      using paths_count[of ?vs ?f a l] al fin range[OF assms] c by auto
    with al st(3) show ?thesis by simp
  qed
  have ex2: "map_of ?ex p \<noteq> None" if "(p, c) \<in> set stored" for p c
  proof -
    have "p \<in> fst ` set stored" using that by force
    then have "p \<in> set ?ps" using dom_ex[of p] st(2) by auto
    then show ?thesis by (simp add: expected_map)
  qed
  have "compare_counts stored ?ex = Inr ()"
  proof -
    have "mapE (\<lambda>(p, c). guardE (map_of stored p = Some c) InvariantViolation) ?ex = Inr (map (\<lambda>_. ()) ?ex)"
      using ex by (intro mapE_all_Inr) auto
    moreover have "mapE (\<lambda>(p, c). guardE (map_of ?ex p \<noteq> None) InvariantViolation) stored = Inr (map (\<lambda>_. ()) stored)"
      using ex2 by (intro mapE_all_Inr) auto
    ultimately show ?thesis by (simp add: compare_counts_def)
  qed
  then show ?thesis
    using iter_hot_addresses[OF assms] iter_prefix_counts[OF assms, of 0] hot hot_ip_count[OF assms] st(1) paths pp
    by (simp add: check_hot_counts_def bits)
qed

text \<open>Section 46.5: the record check accepts exactly the HOT set, each address once.\<close>

lemma attribute_records_decided:
  assumes "invar t" "distinct records"
  shows "check_attribute_records ops t records =
    Some (guardE (set records = (\<lambda>v. \<lparr>addr_family = ht_family ops t, addr_value = v\<rparr>) ` hot_set t) InvariantViolation)"
proof -
  let ?f = "ht_family ops t" and ?H = "hot_set t"
  let ?A = "(\<lambda>v. \<lparr>addr_family = ?f, addr_value = v\<rparr>) ` ?H"
  have fin: "finite ?H" using finite_hot[OF assms(1)] .
  have hot: "set (spec_hot_addresses ?f ?H) = ?A" using fin by (simp add: spec_hot_addresses_def)
  have "card ?A = card ?H" by (rule card_image) (simp add: inj_on_def)
  then have "set records = ?A \<Longrightarrow> int (length records) = int (card ?H)"
    using distinct_card[OF assms(2)] by simp
  then show ?thesis
    using iter_hot_addresses[OF assms(1)] hot_ip_count[OF assms(1)] hot
    by (auto simp: check_attribute_records_def guardE_def)
qed

end

text \<open>The materialized nodes, for the section 11 check.\<close>

locale hot_trie_nodes = hot_trie_impl +
  assumes iter_nodes: "invar t \<Longrightarrow> \<exists>ns. ht_iter_nodes ops t = Some (Inr ns) \<and>
      (\<forall>n \<in> set ns. 0 < nv_hot_count n) \<and> int (length ns) = ht_node_count ops t"
    and node_count_zero: "invar t \<Longrightarrow> ht_node_count ops t = 0 \<longleftrightarrow> hot_set t = {}"
begin

lemma no_orphans_pass:
  assumes "invar t"
  shows "check_no_orphaned_nodes ops t = Some (Inr ())"
proof -
  let ?f = "ht_family ops t" and ?H = "hot_set t"
  have fin: "finite ?H" using finite_hot[OF assms] .
  obtain ns where ns: "ht_iter_nodes ops t = Some (Inr ns)" "\<forall>n \<in> set ns. 0 < nv_hot_count n"
    "int (length ns) = ht_node_count ops t" using iter_nodes[OF assms] by blast
  have "0 < pc_hot_count pc" if pc: "pc \<in> set (spec_prefix_counts ?f ?H 0)" for pc
  proof -
    obtain n l where nl: "(n, l) \<in> hot_prefixes (bit_length ?f) ?H 0" "pc = count_at ?f ?H n l"
      using pc fin by (auto simp: spec_prefix_counts_def)
    then obtain a where "a \<in> ?H" "n = net_of (bit_length ?f) l a" "l \<le> bit_length ?f"
      by (auto simp: hot_prefixes_def)
    then have "0 < hot_below (bit_length ?f) ?H l n"
      using fin by (subst hot_below_pos_iff) (auto intro: bexI[of _ a])
    with nl show ?thesis by (simp add: count_at_def)
  qed
  then have "mapE (\<lambda>pc. guardE (\<not> pc_hot_count pc \<le> 0) InvariantViolation) (spec_prefix_counts ?f ?H 0) =
      Inr (map (\<lambda>_. ()) (spec_prefix_counts ?f ?H 0))"
    by (intro mapE_all_Inr) (simp add: guardE_def not_le)
  moreover have "mapE (\<lambda>n. guardE (\<not> nv_hot_count n \<le> 0) InvariantViolation) ns = Inr (map (\<lambda>_. ()) ns)"
    using ns(2) by (intro mapE_all_Inr) (simp add: guardE_def not_le)
  ultimately show ?thesis
    using ns iter_prefix_counts[OF assms, of 0] hot_ip_count[OF assms] node_count_zero[OF assms] fin
    by (simp add: check_no_orphaned_nodes_def)
qed

end

lemma bt_nodes_zero: "bt_nodes r n = 0 \<longleftrightarrow> n = None" "0 \<le> bt_nodes r n"
  by (induction r n rule: bt_nodes.induct) auto

lemma length_bt_pre: "int (length (bt_pre bits r n net)) = bt_nodes r n"
  by (induction bits r n net rule: bt_pre.induct) auto

lemma bt_pre_dvd:
  "2 ^ r dvd net \<Longrightarrow> (m, x, len) \<in> set (bt_pre bits r n net) \<Longrightarrow>
   2 ^ nat (bits - len) dvd x \<and> len \<le> bits \<and> bits - int r \<le> len"
proof (induction bits r n net rule: bt_pre.induct)
  case (3 bits r n net)
  have "2 ^ r dvd net" "2 ^ r dvd net + 2 ^ r"
    using "3.prems"(1) by (auto intro: dvd_trans[OF le_imp_power_dvd])
  then show ?case using 3 by (auto simp: nat_add_distrib)
qed auto

lemma bt_pre_leaf: "bt_ok r n \<Longrightarrow> (m, x, len) \<in> set (bt_pre bits r n net) \<Longrightarrow> len = bits \<Longrightarrow> m = TrieNode 1 None None"
  by (induction bits r n net rule: bt_pre.induct) (auto dest: bt_pre_dvd[rotated])

lemma net_of_dvd: "2 ^ nat (bits - l) dvd x \<Longrightarrow> net_of bits l x = x"
  by (auto simp: net_of_def push_bit_eq_mult drop_bit_eq_div)

lemma bt_iter_nodes_ok:
  assumes "binary_invar bt"
  shows "\<exists>ns. bt_iter_nodes bt = Inr ns \<and> (\<forall>n \<in> set ns. 0 < nv_hot_count n) \<and> int (length ns) = bt_node_count bt"
proof -
  let ?B = "bit_length (bt_family bt)" and ?f = "bt_family bt"
  let ?ws = "bt_pre ?B (nat ?B) (bt_root bt) 0"
  let ?h = "\<lambda>(node, network, len).
         bindE (mapE (\<lambda>b. bindE (py_shl b (bt_bit_length bt - 1 - len)) (\<lambda>s.
                        bt_make_prefix bt (network OR s) (len + 1)))
                     (filter (\<lambda>b. tn_child node b \<noteq> None) [0, 1])) (\<lambda>children.
         bindE (bt_make_prefix bt network len) (\<lambda>p.
           Inr \<lparr>nv_prefix = p, nv_hot_count = tn_hot_count node, nv_children = children\<rparr>))"
  have ok: "bt_ok (nat ?B) (bt_root bt)" using assms by (simp add: binary_invar_def bt_bit_length_def)
  have one: "\<exists>nv. ?h w = Inr nv \<and> 0 < nv_hot_count nv" if w: "w \<in> set ?ws" for w
  proof -
    obtain m x len where mx: "w = (m, x, len)" by (cases w)
    have d: "2 ^ nat (?B - len) dvd x" "len \<le> ?B" "0 \<le> len"
      using bt_pre_dvd[of "nat ?B" 0 m x len ?B "bt_root bt"] w mx by auto
    have own: "bt_make_prefix bt x len = Inr (prefix_at ?f x len)"
      using mk_prefix_valid[of len ?f x] d net_of_dvd[OF d(1)] by (simp add: bt_make_prefix_def prefix_at_def)
    have child: "\<exists>p. bindE (py_shl b (bt_bit_length bt - 1 - len)) (\<lambda>s. bt_make_prefix bt (x OR s) (len + 1)) = Inr p"
      if "b \<in> set (filter (\<lambda>b. tn_child m b \<noteq> None) [0, 1])" for b
    proof -
      have lt: "len < ?B"
        using bt_pre_leaf[OF ok, of m x len ?B 0] w mx d(2) that by (cases "len = ?B") (auto simp: tn_child_def)
      then have sh: "nat (?B - len) = Suc (nat (?B - 1 - len))" by simp
      then have "x OR push_bit (nat (?B - 1 - len)) 1 = x + 2 ^ nat (?B - 1 - len)" using or_high d(1) by metis
      have "2 ^ nat (?B - 1 - len) dvd x" using d(1) sh by (auto intro: dvd_trans[OF le_imp_power_dvd])
      have "2 ^ nat (?B - (len + 1)) dvd x OR push_bit (nat (?B - 1 - len)) b"
      proof -
        have "b \<in> set [0, 1]" using that unfolding set_filter by blast
        then have "b = 0 \<or> b = 1" by simp
        moreover have e: "?B - (len + 1) = ?B - 1 - len" by simp
        ultimately show ?thesis
          unfolding e using \<open>x OR push_bit _ 1 = _\<close> \<open>2 ^ nat (?B - 1 - len) dvd x\<close> by (auto simp del: push_bit_of_1)
      qed
      then show ?thesis
        using mk_prefix_valid[of "len + 1" ?f "x OR push_bit (nat (?B - 1 - len)) b"] net_of_dvd lt d(3)
        by (simp add: bt_bit_length_def bt_make_prefix_def)
    qed
    have "\<exists>g. mapE (\<lambda>b. bindE (py_shl b (bt_bit_length bt - 1 - len)) (\<lambda>s. bt_make_prefix bt (x OR s) (len + 1)))
        (filter (\<lambda>b. tn_child m b \<noteq> None) [0, 1]) = Inr g"
      by (rule mapE_exists) (rule child)
    moreover have "0 < tn_hot_count m"
      using bt_pre_count(2)[OF ok, of m x len] w mx by simp
    ultimately show ?thesis using own mx by (auto simp del: filter.simps)
  qed
  then obtain ns where ns: "mapE ?h ?ws = Inr ns" "length ns = length ?ws" "\<forall>n \<in> set ns. 0 < nv_hot_count n"
    using mapE_exists_all[of ?ws ?h "\<lambda>nv. 0 < nv_hot_count nv"] by blast
  have "bt_iter_nodes bt = Inr ns" using ns(1) bt_walk_pre[OF assms] by (simp add: bt_iter_nodes_def)
  then show ?thesis
    using ns(2,3) length_bt_pre[of ?B "nat ?B" "bt_root bt" 0] assms by (simp add: binary_invar_def bt_bit_length_def)
qed

interpretation btn: hot_trie_nodes binary_ops binary_invar binary_set
proof (unfold_locales, goal_cases)
  case (1 t)
  then show ?case using bt_iter_nodes_ok by simp
next
  case (2 t)
  then show ?case
    using bt_nodes_zero(1)[of _ "bt_root t"] bt_set_empty_iff by (auto simp: binary_invar_def binary_set_def)
qed

lemma pt_node_prefix_ok:
  assumes "arena_ok (pt_arena pt)" "p_rep (pt_bit_length pt) (arena_map (pt_arena pt)) t" "p_ok (pt_bit_length pt) t"
  shows "\<exists>p. pt_node_prefix pt (p_id t) = Inr p"
  using pt_visit_ok(3,4)[OF assms(1,2)] p_net_canonical[OF assms(3)] p_len_bounds[OF assms(3)]
    mk_prefix_valid[of "p_len (pt_bit_length pt) t" "pt_family pt" "p_net t"]
  by (simp add: pt_node_prefix_def pt_bit_length_def)

lemma length_p_pre: "length (p_pre bits t pl) = length (p_ids t)"
  by (induction bits t pl rule: p_pre.induct) auto

lemma pt_iter_nodes_ok:
  assumes "patricia_invar pt"
  shows "\<exists>ns. pt_iter_nodes pt = Some (Inr ns) \<and> (\<forall>n \<in> set ns. 0 < nv_hot_count n) \<and> int (length ns) = pt_node_count pt"
  using assms
proof (cases rule: patricia_cases)
  case 1
  then show ?thesis
    using pt_node_count_correct[OF assms] by (simp add: pt_iter_nodes_def pt_dfs_def)
next
  case (2 t)
  let ?b = "pt_bit_length pt" and ?m = "arena_map (pt_arena pt)"
  let ?h = "\<lambda>(nid, _::int).
         bindE (py_get (ar_child (pt_arena pt)) (2 * nid)) (\<lambda>c0.
         bindE (py_get (ar_child (pt_arena pt)) (2 * nid + 1)) (\<lambda>c1.
         bindE (mapE (pt_node_prefix pt) (filter (\<lambda>c. c \<noteq> NO_NODE) [c0, c1])) (\<lambda>children.
         bindE (pt_node_prefix pt nid) (\<lambda>p.
         bindE (py_get (ar_hot_count (pt_arena pt)) nid) (\<lambda>count.
           Inr \<lparr>nv_prefix = p, nv_hot_count = count, nv_children = children\<rparr>)))))"
  have h: "arena_ok (pt_arena pt)" "p_rep ?b ?m t" "p_ok ?b t" "distinct (p_ids t)" "set (p_ids t) = dom ?m"
    using assms 2(2) by (auto simp: patricia_invar_def patricia_holds_def)
  have one: "\<exists>nv. ?h w = Inr nv \<and> 0 < nv_hot_count nv" if w: "w \<in> set (pre_ids (p_pre ?b t (- 1)))" for w
  proof -
    obtain s pl where s: "w = (p_id s, pl)" "(s, pl) \<in> set (p_pre ?b t (- 1))"
      using w by (auto simp: pre_ids_def)
    have sr: "p_rep ?b ?m s" "p_ok ?b s" using p_pre_rep[OF h(2) s(2)] p_pre_ok[OF h(3) s(2)] by auto
    obtain p where p: "pt_node_prefix pt (p_id s) = Inr p" using pt_node_prefix_ok[OF h(1) sr] by blast
    note hot = pt_visit_ok(2)[OF h(1) sr(1) pt_bits_nonneg]
    show ?thesis
    proof (cases s)
      case (PLeaf i v)
      then show ?thesis using arena_reads(5,6)[OF h(1), of i] sr p hot s(1) by simp
    next
      case (PBranch i n l c t0 t1)
      have nn: "p_id t0 \<noteq> NO_NODE" "p_id t1 \<noteq> NO_NODE" using sr(1) PBranch by auto
      obtain p0 p1 where "pt_node_prefix pt (p_id t0) = Inr p0" "pt_node_prefix pt (p_id t1) = Inr p1"
        using pt_node_prefix_ok[OF h(1), of t0] pt_node_prefix_ok[OF h(1), of t1] sr PBranch by auto
      then show ?thesis
        using PBranch arena_reads(5,6)[OF h(1), of i] sr p hot s(1) nn p_count_pos[OF sr(2)] by simp
    qed
  qed
  then obtain ns where ns: "mapE ?h (pre_ids (p_pre ?b t (- 1))) = Inr ns"
    "length ns = length (pre_ids (p_pre ?b t (- 1)))" "\<forall>n \<in> set ns. 0 < nv_hot_count n"
    using mapE_exists_all[of "pre_ids (p_pre ?b t (- 1))" ?h "\<lambda>nv. 0 < nv_hot_count nv"] by blast
  have "int (length ns) = pt_node_count pt"
    using ns(2) distinct_card[OF h(4)] h(5) arena_live_count_card[OF h(1)]
    by (simp add: pre_ids_def length_p_pre pt_node_count_def)
  moreover have "pt_iter_nodes pt = Some (Inr ns)"
    using ns(1) pt_dfs_ok[OF assms 2(2)] by (simp add: pt_iter_nodes_def del: pre_ids_simps)
  ultimately show ?thesis using ns(3) by blast
qed

interpretation patn: hot_trie_nodes patricia_ops patricia_invar patricia_set
proof (unfold_locales, goal_cases)
  case (1 t)
  then show ?case using pt_iter_nodes_ok by simp
next
  case (2 t)
  then have "finite (patricia_set t)" using pat.finite_hot by simp
  then have "card (patricia_set t) = 0 \<longleftrightarrow> patricia_set t = {}" by simp
  then show ?case using pt_node_count_correct[OF 2] by (simp add: max_def) linarith
qed

lemma check_trie_patricia_pass: "patricia_invar pt \<Longrightarrow> check_trie_patricia pt = Some (Inr ())"
  by (simp add: check_trie_patricia_def check_patricia_decides pat.hot_counts_pass patn.no_orphans_pass)

lemma check_trie_binary_pass: "binary_invar bt \<Longrightarrow> check_trie_binary bt = Some (Inr ())"
  by (simp add: check_trie_binary_def bt.hot_counts_pass btn.no_orphans_pass)

end
