(* ===== verification/Attribute_Document.thy ===== *)
theory Attribute_Document
  imports Hammertime_Prelude
begin

text \<open>
  The per-IP attribute document, \<open>hammertime.core.events.attributes\<close>: the one read of a document
  into a canonical copy under a running lower bound on its serialized size, the section 46.2 rules,
  and the compact JSON text. A Python \<open>str\<close> is its list of code points; the text is ASCII and is
  also a list of code points. A float is seen only through \<open>math.isfinite\<close>, \<open>float.__repr__\<close> and
  \<open>is_integer\<close>. The code's explicit stack of frames is the recursion of \<open>read_value\<close>, in the same
  order. Documents are trees: a container shared between two places, or a cyclic one, is not
  modelled. The result is that the running bound rejects exactly the documents whose compact text is
  longer than the cap: no document that fits is refused, and no other one is serialized.
\<close>

section \<open>Documents\<close>

definition py_lit :: "string \<Rightarrow> pystr" where
  "py_lit s = map of_char s"

datatype py_float = PyFloat (fl_finite: bool) (fl_repr: pystr) (fl_integer: "int option")

datatype raw_key = KStr pystr | KOther

datatype raw =
    RNull | RBool bool | RInt int | RFloat py_float | RStr pystr
  | RList "raw list" | RDict "(raw_key \<times> raw) list" | ROther

datatype json =
    JNull | JBool bool | JInt int | JFloat py_float | JStr pystr
  | JList "json list" | JDict "(pystr \<times> json) list"

definition MAX_BYTES :: int where "MAX_BYTES = 1024"
definition MAX_KEYS :: int where "MAX_KEYS = 16"
definition MAX_WEIGHT :: int where "MAX_WEIGHT = 1000000"
definition KNOWN_VERSION :: int where "KNOWN_VERSION = 1"
definition S8_BOUND :: int where "S8_BOUND = 10 ^ 640"
definition LOG10_2_FLOOR :: int where "LOG10_2_FLOOR = 30102"

section \<open>Compact JSON text\<close>

definition hex_digit :: "int \<Rightarrow> int" where
  "hex_digit d = (if d < 10 then 48 + d else 87 + d)"

definition hex4 :: "int \<Rightarrow> pystr" where
  "hex4 c = map hex_digit [c div 4096 mod 16, c div 256 mod 16, c div 16 mod 16, c mod 16]"

definition json_escape :: "int \<Rightarrow> pystr" where
  "json_escape c =
     (if c = 34 then [92, 34] else if c = 92 then [92, 92]
      else if c = 10 then [92, 110] else if c = 13 then [92, 114] else if c = 9 then [92, 116]
      else if c = 12 then [92, 102] else if c = 8 then [92, 98]
      else if 32 \<le> c \<and> c \<le> 126 then [c]
      else if c < 65536 then [92, 117] @ hex4 c
      else let v = c - 65536 in
        [92, 117] @ hex4 (55296 + v div 1024 mod 1024) @ [92, 117] @ hex4 (56320 + v mod 1024))"

definition json_string :: "pystr \<Rightarrow> pystr" where
  "json_string s = [34] @ concat (map json_escape s) @ [34]"

fun nat_text :: "nat \<Rightarrow> pystr" where
  "nat_text n = (if n < 10 then [48 + int n] else nat_text (n div 10) @ [48 + int (n mod 10)])"

definition int_text :: "int \<Rightarrow> pystr" where
  "int_text n = (if n < 0 then [45] else []) @ nat_text (nat \<bar>n\<bar>)"

fun join_comma :: "pystr list \<Rightarrow> pystr" where
  "join_comma [] = []"
| "join_comma [x] = x"
| "join_comma (x # xs) = x @ [44] @ join_comma xs"

fun json_text :: "json \<Rightarrow> pystr" where
  "json_text JNull = py_lit ''null''"
| "json_text (JBool b) = (if b then py_lit ''true'' else py_lit ''false'')"
| "json_text (JInt n) = int_text n"
| "json_text (JFloat x) = fl_repr x"
| "json_text (JStr s) = json_string s"
| "json_text (JList xs) = [91] @ join_comma (map json_text xs) @ [93]"
| "json_text (JDict es) = [123] @ join_comma (map (\<lambda>(k, v). json_string k @ [58] @ json_text v) es) @ [125]"

section \<open>The read\<close>

definition charge :: "int \<Rightarrow> int \<Rightarrow> int result" where
  "charge acc amount = (if acc + amount > MAX_BYTES then Inl InvalidAttributesError else Inr (acc + amount))"

definition list_minimum :: "int \<Rightarrow> int" where
  "list_minimum n = (if n = 0 then 2 else 2 * n + 1)"

definition dict_minimum :: "int \<Rightarrow> int" where
  "dict_minimum n = (if n = 0 then 2 else 5 * n + 1)"

definition has_surrogate :: "pystr \<Rightarrow> bool" where
  "has_surrogate s = list_ex (\<lambda>c. 55296 \<le> c \<and> c \<le> 57343) s"

definition int_charge :: "int \<Rightarrow> int" where
  "int_charge n = max (py_bit_length n - 1) 0 * LOG10_2_FLOOR div 100000"

definition read_key :: "int \<Rightarrow> raw_key \<Rightarrow> (pystr \<times> int) result" where
  "read_key acc k = (case k of
      KOther \<Rightarrow> Inl InvalidAttributesError
    | KStr s \<Rightarrow> bindE (charge acc (int (length s))) (\<lambda>acc'.
        if has_surrogate s then Inl InvalidAttributesError else Inr (s, acc')))"

fun read_value :: "int \<Rightarrow> raw \<Rightarrow> (json \<times> int) result"
  and read_items :: "int \<Rightarrow> raw list \<Rightarrow> (json list \<times> int) result"
  and read_entries :: "int \<Rightarrow> pystr list \<Rightarrow> (raw_key \<times> raw) list \<Rightarrow> ((pystr \<times> json) list \<times> int) result" where
  "read_value acc RNull = bindE (charge acc 3) (\<lambda>a. Inr (JNull, a))"
| "read_value acc (RBool b) = bindE (charge acc (if b then 3 else 4)) (\<lambda>a. Inr (JBool b, a))"
| "read_value acc (RStr s) =
     bindE (charge acc (int (length s) + 1)) (\<lambda>a.
       if has_surrogate s then Inl InvalidAttributesError else Inr (JStr s, a))"
| "read_value acc (RInt n) =
     bindE (charge acc (int_charge n)) (\<lambda>a.
     bindE (if n < 0 then charge a 1 else Inr a) (\<lambda>a.
       if \<not> (- S8_BOUND < n \<and> n < S8_BOUND) then Inl InvalidAttributesError else Inr (JInt n, a)))"
| "read_value acc (RFloat x) =
     (if \<not> fl_finite x then Inl InvalidAttributesError
      else bindE (charge acc (int (length (fl_repr x)) - 1)) (\<lambda>a. Inr (JFloat x, a)))"
| "read_value acc (RList xs) =
     bindE (charge acc (list_minimum (int (length xs)) - 1)) (\<lambda>a.
     bindE (read_items a xs) (\<lambda>(ys, a). Inr (JList ys, a)))"
| "read_value acc (RDict es) =
     bindE (charge acc (dict_minimum (int (length es)) - 1)) (\<lambda>a.
     bindE (read_entries a [] es) (\<lambda>(ys, a). Inr (JDict ys, a)))"
| "read_value acc ROther = Inl InvalidAttributesError"
| "read_items acc [] = Inr ([], acc)"
| "read_items acc (x # xs) =
     bindE (read_value acc x) (\<lambda>(y, a). bindE (read_items a xs) (\<lambda>(ys, a). Inr (y # ys, a)))"
| "read_entries acc seen [] = Inr ([], acc)"
| "read_entries acc seen ((k, x) # es) =
     bindE (read_key acc k) (\<lambda>(key, a).
       if key \<in> set seen then Inl InvalidAttributesError
       else bindE (read_value a x) (\<lambda>(y, a).
            bindE (read_entries a (key # seen) es) (\<lambda>(ys, a). Inr ((key, y) # ys, a))))"

definition read_document :: "raw \<Rightarrow> (pystr \<times> json) list result" where
  "read_document d = (case d of
      RDict es \<Rightarrow>
        if int (length es) > MAX_KEYS then Inl InvalidAttributesError
        else bindE (charge 0 (dict_minimum (int (length es)))) (\<lambda>a.
             bindE (read_entries a [] es) (\<lambda>(ys, a). Inr ys))
    | _ \<Rightarrow> Inl InvalidAttributesError)"

section \<open>Version and registry\<close>

definition json_integer :: "json \<Rightarrow> int option" where
  "json_integer j = (case j of
      JInt n \<Rightarrow> Some n
    | JFloat x \<Rightarrow> if fl_finite x then fl_integer x else None
    | _ \<Rightarrow> None)"

definition experimental_key :: "pystr \<Rightarrow> bool" where
  "experimental_key k \<longleftrightarrow> take 2 k = py_lit ''x_'' \<and> 1 \<le> length (drop 2 k) \<and> length (drop 2 k) \<le> 48 \<and>
     list_all (\<lambda>c. 97 \<le> c \<and> c \<le> 122 \<or> 48 \<le> c \<and> c \<le> 57 \<or> c = 95) (drop 2 k)"

definition check_version_and_registry :: "(pystr \<times> json) list \<Rightarrow> unit result" where
  "check_version_and_registry doc =
     (case map_of doc (py_lit ''attributes_version'') of
        None \<Rightarrow> Inl InvalidAttributesError
      | Some version \<Rightarrow>
     (case json_integer version of
        None \<Rightarrow> Inl InvalidAttributesError
      | Some n \<Rightarrow>
          if n < 1 then Inl InvalidAttributesError
          else if n > KNOWN_VERSION then Inr ()
          else if \<not> list_all (\<lambda>(k, _). k = py_lit ''attributes_version'' \<or> k = py_lit ''weight'' \<or> experimental_key k) doc
          then Inl InvalidAttributesError
          else (case map_of doc (py_lit ''weight'') of
                  None \<Rightarrow> Inr ()
                | Some w \<Rightarrow>
                    (case json_integer w of
                       None \<Rightarrow> Inl InvalidAttributesError
                     | Some n \<Rightarrow> guardE (0 \<le> n \<and> n \<le> MAX_WEIGHT) InvalidAttributesError))))"

definition canonicalize_ip_attributes :: "raw \<Rightarrow> ((pystr \<times> json) list \<times> pystr) result" where
  "canonicalize_ip_attributes d =
     bindE (read_document d) (\<lambda>copy.
     bindE (check_version_and_registry copy) (\<lambda>_.
       let text = json_text (JDict copy) in
       if int (length text) > MAX_BYTES then Inl InvalidAttributesError else Inr (copy, text)))"

definition validate_ip_attributes :: "raw \<Rightarrow> int result" where
  "validate_ip_attributes d = bindE (canonicalize_ip_attributes d) (\<lambda>(copy, text). Inr (int (length text)))"

section \<open>The copy without the running bound\<close>

text \<open>What the read copies when no size is charged, and the lower bound on the serialized size that
  the charges of a document add up to.\<close>

fun copy_value :: "raw \<Rightarrow> json option"
  and copy_items :: "raw list \<Rightarrow> json list option"
  and copy_entries :: "pystr list \<Rightarrow> (raw_key \<times> raw) list \<Rightarrow> (pystr \<times> json) list option" where
  "copy_value RNull = Some JNull"
| "copy_value (RBool b) = Some (JBool b)"
| "copy_value (RStr s) = (if has_surrogate s then None else Some (JStr s))"
| "copy_value (RInt n) = (if \<bar>n\<bar> < S8_BOUND then Some (JInt n) else None)"
| "copy_value (RFloat x) = (if fl_finite x then Some (JFloat x) else None)"
| "copy_value (RList xs) = map_option JList (copy_items xs)"
| "copy_value (RDict es) = map_option JDict (copy_entries [] es)"
| "copy_value ROther = None"
| "copy_items [] = Some []"
| "copy_items (x # xs) = Option.bind (copy_value x) (\<lambda>y. map_option ((#) y) (copy_items xs))"
| "copy_entries seen [] = Some []"
| "copy_entries seen ((k, x) # es) = (case k of
      KOther \<Rightarrow> None
    | KStr s \<Rightarrow> if has_surrogate s \<or> s \<in> set seen then None
               else Option.bind (copy_value x) (\<lambda>y. map_option ((#) (s, y)) (copy_entries (s # seen) es)))"

fun json_bound :: "json \<Rightarrow> int" where
  "json_bound JNull = 4"
| "json_bound (JBool b) = (if b then 4 else 5)"
| "json_bound (JInt n) = int_charge n + (if n < 0 then 2 else 1)"
| "json_bound (JFloat x) = int (length (fl_repr x))"
| "json_bound (JStr s) = int (length s) + 2"
| "json_bound (JList xs) = list_minimum (int (length xs)) + sum_list (map (\<lambda>x. json_bound x - 1) xs)"
| "json_bound (JDict es) =
     dict_minimum (int (length es)) + sum_list (map (\<lambda>(k, x). int (length k) + json_bound x - 1) es)"

text \<open>\<open>float.__repr__\<close> never returns the empty string.\<close>

fun raw_ok :: "raw \<Rightarrow> bool" where
  "raw_ok (RFloat x) = (fl_repr x \<noteq> [])"
| "raw_ok (RList xs) = list_all raw_ok xs"
| "raw_ok (RDict es) = list_all (\<lambda>(k, x). raw_ok x) es"
| "raw_ok _ = True"

fun json_ok :: "json \<Rightarrow> bool" where
  "json_ok (JFloat x) = (fl_repr x \<noteq> [])"
| "json_ok (JList xs) = list_all json_ok xs"
| "json_ok (JDict es) = list_all (\<lambda>(k, x). json_ok x) es"
| "json_ok _ = True"

lemma int_charge_nonneg [simp]: "0 \<le> int_charge n"
  by (simp add: int_charge_def LOG10_2_FLOOR_def div_int_pos_iff)

lemma minimum_ge: "0 \<le> n \<Longrightarrow> 2 \<le> list_minimum n" "0 \<le> n \<Longrightarrow> 2 \<le> dict_minimum n"
  by (auto simp: list_minimum_def dict_minimum_def)

lemma json_bound_pos: "json_ok j \<Longrightarrow> 1 \<le> json_bound j"
proof (induction j)
  case (JList xs)
  then have "0 \<le> sum_list (map (\<lambda>x. json_bound x - 1) xs)"
    by (intro sum_list_nonneg) (fastforce simp: list_all_iff)
  then show ?case using minimum_ge(1)[of "int (length xs)"] by simp
next
  case (JDict es)
  have "0 \<le> sum_list (map (\<lambda>(k, x). int (length k) + json_bound x - 1) es)"
    using JDict by (intro sum_list_nonneg) (fastforce simp: list_all_iff)
  then show ?case using minimum_ge(2)[of "int (length es)"] by simp
next
  case (JFloat x)
  then show ?case by (cases "fl_repr x") simp_all
qed (use int_charge_nonneg in \<open>auto simp: add_increasing\<close>)

lemma copy_ok:
  "raw_ok r \<Longrightarrow> copy_value r = Some j \<Longrightarrow> json_ok j"
  "list_all raw_ok rs \<Longrightarrow> copy_items rs = Some js \<Longrightarrow> list_all json_ok js \<and> length js = length rs"
  "list_all (\<lambda>(k, x). raw_ok x) es \<Longrightarrow> copy_entries seen es = Some ds \<Longrightarrow>
     list_all (\<lambda>(k, x). json_ok x) ds \<and> length ds = length es"
  by (induction r and rs and seen es arbitrary: j and js and ds rule: copy_value_copy_items_copy_entries.induct)
     (auto split: if_splits raw_key.splits simp: bind_eq_Some_conv)

text \<open>The read is the copy, refused as soon as the bound of what was read passes the cap.\<close>

definition bounded :: "int \<Rightarrow> int \<Rightarrow> 'a option \<Rightarrow> ('a \<times> int) result" where
  "bounded acc cost c = (case c of
      None \<Rightarrow> Inl InvalidAttributesError
    | Some j \<Rightarrow> if acc + cost > MAX_BYTES then Inl InvalidAttributesError else Inr (j, acc + cost))"

definition items_cost :: "json list \<Rightarrow> int" where
  "items_cost xs = sum_list (map (\<lambda>x. json_bound x - 1) xs)"

definition entries_cost :: "(pystr \<times> json) list \<Rightarrow> int" where
  "entries_cost es = sum_list (map (\<lambda>(k, x). int (length k) + json_bound x - 1) es)"

lemma cost_simps [simp]:
  "items_cost [] = 0" "items_cost (x # xs) = json_bound x - 1 + items_cost xs"
  "entries_cost [] = 0" "entries_cost ((k, x) # es) = int (length k) + json_bound x - 1 + entries_cost es"
  by (simp_all add: items_cost_def entries_cost_def)

lemma cost_nonneg:
  "list_all json_ok xs \<Longrightarrow> 0 \<le> items_cost xs"
  "list_all (\<lambda>(k, x). json_ok x) es \<Longrightarrow> 0 \<le> entries_cost es"
  by (induction xs) (auto dest: json_bound_pos, induction es, auto dest!: json_bound_pos)

lemma entries_cost_key:
  assumes copied: "copy_entries seen ((KStr s, x) # es) = Some ds" and "raw_ok x" "list_all (\<lambda>(k, x). raw_ok x) es"
  shows "int (length s) \<le> entries_cost ds"
proof -
  obtain y ds' where ds: "copy_value x = Some y" "copy_entries (s # seen) es = Some ds'" "ds = (s, y) # ds'"
    using copied by (auto simp: bind_eq_Some_conv split: if_splits)
  then have "1 \<le> json_bound y" "0 \<le> entries_cost ds'"
    using assms copy_ok(1)[of x y] copy_ok(3)[of es "s # seen" ds']
    by (auto intro: json_bound_pos cost_nonneg)
  then show ?thesis using ds by simp
qed

lemma read_bounded:
  "acc \<le> MAX_BYTES \<Longrightarrow> raw_ok r \<Longrightarrow>
     read_value acc r = bounded acc (case copy_value r of Some j \<Rightarrow> json_bound j - 1 | None \<Rightarrow> 0) (copy_value r)"
  "acc \<le> MAX_BYTES \<Longrightarrow> list_all raw_ok rs \<Longrightarrow>
     read_items acc rs = bounded acc (case copy_items rs of Some js \<Rightarrow> items_cost js | None \<Rightarrow> 0) (copy_items rs)"
  "acc \<le> MAX_BYTES \<Longrightarrow> list_all (\<lambda>(k, x). raw_ok x) es \<Longrightarrow>
     read_entries acc seen es =
       bounded acc (case copy_entries seen es of Some ds \<Rightarrow> entries_cost ds | None \<Rightarrow> 0) (copy_entries seen es)"
proof (induction acc r and acc rs and acc seen es rule: read_value_read_items_read_entries.induct)
  case (4 acc n)
  then show ?case
    using int_charge_nonneg[of n]
    by (auto simp: bounded_def charge_def)
next
  case (5 acc x)
  then show ?case by (auto simp: bounded_def charge_def)
next
  case (6 acc xs)
  show ?case
  proof (cases "acc + (list_minimum (int (length xs)) - 1) > MAX_BYTES")
    case True
    with 6(3) cost_nonneg(1) copy_ok(2)[of xs] show ?thesis
      by (fastforce simp: charge_def bounded_def items_cost_def split: option.splits)
  next
    case False
    with 6 copy_ok(2)[of xs] show ?thesis
      by (auto simp: charge_def bounded_def items_cost_def split: option.splits)
  qed
next
  case (7 acc es)
  show ?case
  proof (cases "acc + (dict_minimum (int (length es)) - 1) > MAX_BYTES")
    case True
    with 7(3) cost_nonneg(2) copy_ok(3)[of es] show ?thesis
      by (fastforce simp: charge_def bounded_def entries_cost_def split: option.splits)
  next
    case False
    with 7 copy_ok(3)[of es] show ?thesis
      by (auto simp: charge_def bounded_def entries_cost_def split: option.splits)
  qed
next
  case (10 acc x xs)
  show ?case
  proof (cases "copy_value x")
    case None
    with 10 show ?thesis by (simp add: bounded_def)
  next
    case (Some y)
    show ?thesis
    proof (cases "acc + (json_bound y - 1) > MAX_BYTES")
      case True
      with 10 Some cost_nonneg(1) copy_ok(2)[of xs] show ?thesis
        by (fastforce simp: bounded_def split: option.splits)
    next
      case False
      with 10 Some show ?thesis
        by (auto simp: bounded_def split: option.splits)
    qed
  qed
next
  case (12 acc seen k x es)
  show ?case
  proof (cases k)
    case KOther
    then show ?thesis by (simp add: bounded_def read_key_def)
  next
    case (KStr s)
    define bad where "bad \<longleftrightarrow> has_surrogate s \<or> s \<in> set seen \<or> copy_value x = None"
    show ?thesis
    proof (cases "acc + int (length s) > MAX_BYTES")
      case over: True
      have "MAX_BYTES < acc + entries_cost ds" if "copy_entries seen ((k, x) # es) = Some ds" for ds
        using entries_cost_key[of seen s x es ds] that 12(4) KStr over by auto
      then show ?thesis
        using over KStr by (auto simp: bounded_def read_key_def charge_def split: option.splits)
    next
      case within: False
      then have key: "read_key acc k = (if has_surrogate s then Inl InvalidAttributesError else Inr (s, acc + int (length s)))"
        by (simp add: KStr read_key_def charge_def)
      show ?thesis
      proof (cases bad)
        case True
        then show ?thesis using KStr key within 12 by (auto simp: bad_def bounded_def)
      next
        case False
        then obtain y where ok: "\<not> has_surrogate s" "s \<notin> set seen" "copy_value x = Some y"
          by (auto simp: bad_def)
        have ds': "0 \<le> entries_cost ds'" if "copy_entries (s # seen) es = Some ds'" for ds'
          using that 12(4) copy_ok(3)[of es "s # seen" ds'] by (auto intro: cost_nonneg)
        have v: "read_value (acc + int (length s)) x = bounded (acc + int (length s)) (json_bound y - 1) (Some y)"
          using 12(1)[of s "acc + int (length s)"] ok 12(4) within by simp
        show ?thesis
        proof (cases "acc + int (length s) + (json_bound y - 1) > MAX_BYTES")
          case True
          then show ?thesis using KStr key ok v ds'
            by (force simp: bounded_def split: option.splits)
        next
          case False
          then have "read_entries (acc + int (length s) + (json_bound y - 1)) (s # seen) es =
            bounded (acc + int (length s) + (json_bound y - 1))
              (case copy_entries (s # seen) es of Some ds \<Rightarrow> entries_cost ds | None \<Rightarrow> 0) (copy_entries (s # seen) es)"
            using 12(2) ok 12(4) key v by (auto simp: bounded_def)
          then show ?thesis using KStr key ok v False
            by (auto simp: bounded_def split: option.splits)
        qed
      qed
    qed
  qed
qed (auto simp: charge_def bounded_def)

section \<open>The bound is below the text\<close>

lemma pow10_le_pow2:
  assumes "100000 * q \<le> 30102 * b"
  shows "(10::nat) ^ q \<le> 2 ^ b"
proof -
  have le: "196 * q \<le> 59 * b" using assms by linarith
  have "((10::nat) ^ q) ^ Suc 58 = (10 ^ 59) ^ q"
    unfolding power_mult[symmetric] by (rule arg_cong[of _ _ "(^) 10"]) simp
  also have "\<dots> \<le> (2 ^ 196) ^ q" by (intro power_mono) simp_all
  also have "\<dots> = 2 ^ (196 * q)" by (simp only: power_mult)
  also have "\<dots> \<le> 2 ^ (59 * b)" by (rule power_increasing[OF le]) simp
  also have "\<dots> = (2 ^ b) ^ Suc 58"
    unfolding power_mult[symmetric] by (rule arg_cong[of _ _ "(^) 2"]) simp
  finally show ?thesis by (rule power_le_imp_le_base) simp
qed

declare nat_text.simps [simp del]

lemma nat_text_length: "10 ^ q \<le> n \<Longrightarrow> q < length (nat_text n)"
proof (induction n arbitrary: q rule: nat_text.induct)
  case (1 n)
  show ?case
  proof (cases q)
    case 0
    then show ?thesis by (subst nat_text.simps) simp
  next
    case (Suc p)
    with 1(2) have p: "10 ^ p \<le> n div 10" and "\<not> n < 10"
      by (auto simp: less_eq_div_iff_mult_less_eq) (smt (verit) one_le_numeral one_le_power mult_le_mono2 mult.right_neutral numeral_nat le_trans not_less)
    then show ?thesis using 1(1)[OF _ p] Suc by (subst nat_text.simps) simp
  qed
qed

lemma int_charge_text: "int_charge n + (if n < 0 then 2 else 1) \<le> int (length (int_text n))"
proof (cases "n = 0")
  case True
  then show ?thesis by (simp add: int_charge_def py_bit_length_def int_text_def nat_text.simps)
next
  case False
  define b where "b = nat (bitlen \<bar>n\<bar> - 1)"
  have b: "int b = bitlen \<bar>n\<bar> - 1" using False bitlen_nonneg[of "\<bar>n\<bar>"] by (auto simp: b_def bitlen_alt_def)
  have "2 ^ b \<le> nat \<bar>n\<bar>"
    using bitlen_bounds[of "\<bar>n\<bar>"] False by (simp add: b_def le_nat_iff)
  moreover have "10 ^ nat (int_charge n) \<le> (2::nat) ^ b"
    by (rule pow10_le_pow2) (use b in \<open>auto simp: int_charge_def py_bit_length_def LOG10_2_FLOOR_def\<close>)
  ultimately have "nat (int_charge n) < length (nat_text (nat \<bar>n\<bar>))"
    by (intro nat_text_length) linarith
  then show ?thesis using int_charge_nonneg[of n] by (auto simp: int_text_def)
qed

lemma json_string_length: "int (length s) + 2 \<le> int (length (json_string s))"
proof -
  have "length s \<le> length (concat (map json_escape s))"
    by (induction s) (auto simp: json_escape_def Let_def)
  then show ?thesis by (simp add: json_string_def)
qed

lemma join_comma_length:
  "xs \<noteq> [] \<Longrightarrow> int (length (join_comma xs)) = sum_list (map (\<lambda>x. int (length x)) xs) + int (length xs) - 1"
  by (induction xs rule: join_comma.induct) simp_all

lemma sum_list_diff_const: "sum_list (map (\<lambda>x. f x - c) xs) = sum_list (map f xs) - c * int (length xs)"
  by (induction xs) (simp_all add: algebra_simps)

lemma json_bound_text: "json_bound j \<le> int (length (json_text j))"
proof (induction j)
  case (JList xs)
  have "sum_list (map (\<lambda>x. json_bound x - 1) xs) \<le> sum_list (map (\<lambda>x. int (length (json_text x)) - 1) xs)"
    using JList by (intro sum_list_mono) fastforce
  then show ?case
    by (cases "xs = []") (simp_all add: list_minimum_def join_comma_length sum_list_diff_const o_def)
next
  case (JDict es)
  let ?entry = "\<lambda>e. json_string (fst e) @ [58] @ json_text (snd e)"
  have "int (length (fst e)) + json_bound (snd e) - 1 \<le> int (length (?entry e)) - 4" if "e \<in> set es" for e
    using JDict[of e "snd e"] that json_string_length[of "fst e"] by (cases e) simp
  then have "sum_list (map (\<lambda>e. int (length (fst e)) + json_bound (snd e) - 1) es) \<le>
      sum_list (map (\<lambda>e. int (length (?entry e)) - 4) es)"
    by (rule sum_list_mono)
  then have "json_bound (JDict es) - 1 + sum_list (map (\<lambda>e. 4) es) \<le> dict_minimum (int (length es)) - 1 +
      sum_list (map (\<lambda>e. int (length (?entry e))) es)"
    unfolding sum_list_diff_const by (simp add: case_prod_unfold sum_list_diff_const sum_list_triv)
  moreover have "int (length (json_text (JDict es))) =
      2 + (if es = [] then 0 else sum_list (map (\<lambda>e. int (length (?entry e))) es) + int (length es) - 1)"
    by (simp add: join_comma_length o_def case_prod_unfold)
  ultimately show ?case by (auto simp: dict_minimum_def sum_list_triv)
qed (use json_string_length int_charge_text in \<open>auto simp: py_lit_def\<close>)

section \<open>What is accepted\<close>

lemma S8_BOUND_big: "1000000 < S8_BOUND"
proof -
  have lt: "(10::int) ^ 6 < 10 ^ 640" by (rule power_strict_increasing) simp_all
  have six: "(10::int) ^ 6 = 1000000" by simp
  show ?thesis unfolding S8_BOUND_def by (rule lt[unfolded six])
qed

text \<open>The definitions a concrete document is evaluated with.\<close>

lemmas document_defs = charge_def MAX_KEYS_def MAX_BYTES_def MAX_WEIGHT_def KNOWN_VERSION_def LOG10_2_FLOOR_def
  list_minimum_def dict_minimum_def read_document_def read_key_def has_surrogate_def int_charge_def
  check_version_and_registry_def json_integer_def experimental_key_def json_string_def json_escape_def
  hex4_def hex_digit_def int_text_def nat_text.simps py_lit_def py_bit_length_def bitlen_def floorlog_def

definition spec_canonicalize :: "raw \<Rightarrow> ((pystr \<times> json) list \<times> pystr) option" where
  "spec_canonicalize d = (case copy_value d of
      Some (JDict copy) \<Rightarrow>
        if int (length copy) \<le> MAX_KEYS \<and> check_version_and_registry copy = Inr () \<and>
           int (length (json_text (JDict copy))) \<le> MAX_BYTES
        then Some (copy, json_text (JDict copy)) else None
    | _ \<Rightarrow> None)"

lemma check_version_result: "check_version_and_registry copy \<in> {Inr (), Inl InvalidAttributesError}"
  by (simp add: check_version_and_registry_def guardE_def split: option.split)

lemma read_document_eq:
  assumes "raw_ok (RDict es)"
  shows "read_document (RDict es) = (case copy_entries [] es of
      None \<Rightarrow> Inl InvalidAttributesError
    | Some copy \<Rightarrow> if int (length copy) > MAX_KEYS \<or> json_bound (JDict copy) > MAX_BYTES
        then Inl InvalidAttributesError else Inr copy)"
proof (cases "int (length es) > MAX_KEYS")
  case True
  then show ?thesis using assms copy_ok(3)[of es "[]"]
    by (auto simp: read_document_def split: option.split)
next
  case False
  then have fit: "dict_minimum (int (length es)) \<le> MAX_BYTES"
    by (simp add: MAX_KEYS_def MAX_BYTES_def dict_minimum_def)
  then have "charge 0 (dict_minimum (int (length es))) = Inr (dict_minimum (int (length es)))"
    by (simp add: charge_def)
  then show ?thesis using False assms copy_ok(3)[of es "[]"] read_bounded(3)[OF fit, of es "[]"]
    by (auto simp: read_document_def bounded_def entries_cost_def split: option.split)
qed

lemma canonicalize_spec:
  assumes "raw_ok d"
  shows "canonicalize_ip_attributes d = (case spec_canonicalize d of
      Some result \<Rightarrow> Inr result | None \<Rightarrow> Inl InvalidAttributesError)"
proof (cases d)
  case (RDict es)
  have below: "json_bound (JDict copy) \<le> int (length (json_text (JDict copy)))" for copy
    by (rule json_bound_text)
  show ?thesis
  proof (cases "copy_entries [] es")
    case None
    then show ?thesis using assms RDict
      by (simp add: canonicalize_ip_attributes_def spec_canonicalize_def read_document_eq)
  next
    case (Some copy)
    then show ?thesis using assms RDict check_version_result[of copy] below[of copy]
      by (auto simp: canonicalize_ip_attributes_def spec_canonicalize_def read_document_eq Let_def
          simp del: json_text.simps json_bound.simps)
  qed
qed (auto simp: canonicalize_ip_attributes_def spec_canonicalize_def read_document_def split: option.splits)

text \<open>C23: The canonicalizer accepts exactly the documents that copy to at most 16 entries, pass the
  version and registry rules and whose compact JSON text is at most 1024 bytes long, and returns that
  copy and text; everything else is \<open>InvalidAttributesError\<close>. In particular the running lower bound
  (its integer part computed from the bit length with \<open>30102 / 100000\<close> for \<open>log10 2\<close>) never refuses a
  document that fits.\<close>

theorem canonicalize_decides:
  assumes "raw_ok d"
  shows "canonicalize_ip_attributes d = (case spec_canonicalize d of
      Some result \<Rightarrow> Inr result | None \<Rightarrow> Inl InvalidAttributesError)"
  using assms by (rule canonicalize_spec)

theorem canonicalize_decides_witness:
  "canonicalize_ip_attributes (RDict [(KStr (py_lit ''attributes_version''), RInt 1)]) =
     Inr ([(py_lit ''attributes_version'', JInt 1)], [123, 34] @ py_lit ''attributes_version'' @ [34, 58, 49, 125]) \<and>
   canonicalize_ip_attributes (RDict [(KStr (py_lit ''attributes_version''), RBool True)]) =
     Inl InvalidAttributesError"
proof -
  let ?d = "\<lambda>v. RDict [(KStr (py_lit ''attributes_version''), v)]"
  have "spec_canonicalize (?d (RInt 1)) =
     Some ([(py_lit ''attributes_version'', JInt 1)], [123, 34] @ py_lit ''attributes_version'' @ [34, 58, 49, 125])"
    "spec_canonicalize (?d (RBool True)) = None"
    using S8_BOUND_big by (simp_all add: spec_canonicalize_def document_defs)
  then show ?thesis
    using canonicalize_decides[of "?d (RInt 1)"] canonicalize_decides[of "?d (RBool True)"] by simp
qed

end
