(* ===== verification/Ip_Attributes.thy ===== *)
theory Ip_Attributes
  imports Trie_Checks Attribute_Document "HOL-Library.AList"
begin

text \<open>
  The per-IP attribute records beside a trie, \<open>hammertime.trie.metadata.ip_attributes\<close>: the record
  map with its running byte total, and the two steps that move the trie and the records together.
  The map is a Python \<open>dict\<close>, kept as an association list in insertion order; a record is the
  canonical text and the request count. Reading a record back decodes the stored text with
  \<open>json.loads\<close>, which is not modelled. The results: the byte total is the sum of the stored lengths,
  a step that raises changes neither side, and the keys of the records are the HOT set at all times.
\<close>

section \<open>The record map\<close>

record ip_attribute_records =
  ia_family :: family
  ia_records :: "(address \<times> (pystr \<times> int)) list"
  ia_bytes :: int

text \<open>An argument typed \<open>object\<close>: an exact \<open>int\<close>, or a value of another type.\<close>

datatype py_count = ExactInt int | OtherCount

definition DEFAULT_ATTRIBUTES :: raw where
  "DEFAULT_ATTRIBUTES = RDict [(KStr (py_lit ''attributes_version''), RInt 1)]"

definition DEFAULT_TEXT :: pystr where
  "DEFAULT_TEXT = [123, 34] @ py_lit ''attributes_version'' @ [34, 58, 49, 125]"

definition ia_new :: "family \<Rightarrow> ip_attribute_records" where
  "ia_new f = \<lparr>ia_family = f, ia_records = [], ia_bytes = 0\<rparr>"

definition ia_serialized_bytes :: "ip_attribute_records \<Rightarrow> int" where
  "ia_serialized_bytes m = ia_bytes m"

definition ia_check_family :: "ip_attribute_records \<Rightarrow> family \<Rightarrow> unit result" where
  "ia_check_family m f = guardE (f = ia_family m) ValueError"

definition check_request_count :: "py_count \<Rightarrow> int result" where
  "check_request_count c = (case c of
      OtherCount \<Rightarrow> Inl TypeError
    | ExactInt n \<Rightarrow> if n < 0 then Inl ValueError else Inr n)"

text \<open>\<open>None\<close> is the absent document.\<close>

definition prepare :: "raw option \<Rightarrow> pystr result" where
  "prepare attributes = (case attributes of
      None \<Rightarrow> Inr DEFAULT_TEXT
    | Some d \<Rightarrow> bindE (canonicalize_ip_attributes d) (\<lambda>(copy, text). Inr text))"

definition ia_commit :: "ip_attribute_records \<Rightarrow> address \<Rightarrow> pystr \<Rightarrow> int \<Rightarrow> ip_attribute_records" where
  "ia_commit m a text n =
     (let previous = map_of (ia_records m) a in
      m\<lparr>ia_records := AList.update a (text, n) (ia_records m),
        ia_bytes := ia_bytes m + (int (length text) - (case previous of None \<Rightarrow> 0 | Some p \<Rightarrow> int (length (fst p))))\<rparr>)"

definition ia_record ::
    "ip_attribute_records \<Rightarrow> address \<Rightarrow> raw option \<Rightarrow> py_count \<Rightarrow> unit result \<times> ip_attribute_records" where
  "ia_record m a attributes count =
     (case bindE (ia_check_family m (addr_family a)) (\<lambda>_.
           bindE (check_request_count count) (\<lambda>n.
           bindE (prepare attributes) (\<lambda>text. Inr (n, text)))) of
        Inl e \<Rightarrow> (Inl e, m)
      | Inr (n, text) \<Rightarrow> (Inr (), ia_commit m a text n))"

definition ia_discard :: "ip_attribute_records \<Rightarrow> address \<Rightarrow> bool result \<times> ip_attribute_records" where
  "ia_discard m a =
     (case ia_check_family m (addr_family a) of
        Inl e \<Rightarrow> (Inl e, m)
      | Inr _ \<Rightarrow>
          (case map_of (ia_records m) a of
             None \<Rightarrow> (Inr False, m)
           | Some removed \<Rightarrow>
               (Inr True, m\<lparr>ia_records := AList.delete a (ia_records m),
                            ia_bytes := ia_bytes m - int (length (fst removed))\<rparr>)))"

definition ia_clear :: "ip_attribute_records \<Rightarrow> ip_attribute_records" where
  "ia_clear m = m\<lparr>ia_records := [], ia_bytes := 0\<rparr>"

text \<open>\<open>a in records\<close> for an \<open>Address\<close>; any other key is simply absent.\<close>

definition ia_contains :: "ip_attribute_records \<Rightarrow> address option \<Rightarrow> bool result" where
  "ia_contains m key = (case key of
      None \<Rightarrow> Inr False
    | Some a \<Rightarrow> bindE (ia_check_family m (addr_family a)) (\<lambda>_. Inr (map_of (ia_records m) a \<noteq> None)))"

definition ia_iter :: "ip_attribute_records \<Rightarrow> address list" where
  "ia_iter m = map fst (ia_records m)"

definition ia_len :: "ip_attribute_records \<Rightarrow> int" where
  "ia_len m = int (length (ia_records m))"

section \<open>The coupled steps\<close>

definition check_families :: "'t hot_trie \<Rightarrow> 't \<Rightarrow> ip_attribute_records \<Rightarrow> address \<Rightarrow> unit result" where
  "check_families ops t m a = guardE (ht_family ops t = ia_family m \<and> ia_family m = addr_family a) ValueError"

definition apply_hot_ip_added ::
    "'t hot_trie \<Rightarrow> 't \<Rightarrow> ip_attribute_records \<Rightarrow> address \<Rightarrow> raw option \<Rightarrow> py_count \<Rightarrow>
     (bool result \<times> 't \<times> ip_attribute_records) option" where
  "apply_hot_ip_added ops t m a attributes count =
     (case bindE (check_families ops t m a) (\<lambda>_.
           bindE (check_request_count count) (\<lambda>n.
           bindE (prepare attributes) (\<lambda>text. Inr (n, text)))) of
        Inl e \<Rightarrow> Some (Inl e, t, m)
      | Inr (n, text) \<Rightarrow>
          (case ht_add_hot_ip ops t a of
             None \<Rightarrow> None
           | Some (Inl e, t') \<Rightarrow> Some (Inl e, t', m)
           | Some (Inr changed, t') \<Rightarrow> Some (Inr changed, t', ia_commit m a text n)))"

definition apply_hot_ip_removed ::
    "'t hot_trie \<Rightarrow> 't \<Rightarrow> ip_attribute_records \<Rightarrow> address \<Rightarrow>
     (bool result \<times> 't \<times> ip_attribute_records) option" where
  "apply_hot_ip_removed ops t m a =
     (case check_families ops t m a of
        Inl e \<Rightarrow> Some (Inl e, t, m)
      | Inr _ \<Rightarrow>
          (case ht_remove_hot_ip ops t a of
             None \<Rightarrow> None
           | Some (Inl e, t') \<Rightarrow> Some (Inl e, t', m)
           | Some (Inr changed, t') \<Rightarrow>
               (case ia_discard m a of
                  (Inl e, m') \<Rightarrow> Some (Inl e, t', m')
                | (Inr _, m') \<Rightarrow> Some (Inr changed, t', m'))))"

section \<open>The byte total\<close>

definition text_bytes :: "(address \<times> (pystr \<times> int)) list \<Rightarrow> int" where
  "text_bytes rs = sum_list (map (\<lambda>(a, text, n). int (length text)) rs)"

definition ia_ok :: "ip_attribute_records \<Rightarrow> bool" where
  "ia_ok m \<longleftrightarrow> distinct (map fst (ia_records m)) \<and> ia_bytes m = text_bytes (ia_records m) \<and>
     (\<forall>(a, text, n) \<in> set (ia_records m). addr_family a = ia_family m \<and> int (length text) \<le> MAX_BYTES \<and> 0 \<le> n)"

lemma text_bytes_simps [simp]:
  "text_bytes [] = 0" "text_bytes ((a, text, n) # rs) = int (length text) + text_bytes rs"
  by (simp_all add: text_bytes_def)

lemma text_bytes_update:
  "text_bytes (AList.update a (text, n) rs) =
     text_bytes rs + (int (length text) - (case map_of rs a of None \<Rightarrow> 0 | Some p \<Rightarrow> int (length (fst p))))"
  by (induction rs) auto

lemma text_bytes_delete:
  "distinct (map fst rs) \<Longrightarrow> map_of rs a = Some p \<Longrightarrow>
     text_bytes (AList.delete a rs) = text_bytes rs - int (length (fst p))"
  by (induction rs) (auto simp: delete_id)

lemma default_canonical: "canonicalize_ip_attributes DEFAULT_ATTRIBUTES =
    Inr ([(py_lit ''attributes_version'', JInt 1)], DEFAULT_TEXT)"
  using S8_BOUND_big
  by (simp add: DEFAULT_ATTRIBUTES_def DEFAULT_TEXT_def canonicalize_ip_attributes_def document_defs)

lemma prepare_fits: "prepare attributes = Inr text \<Longrightarrow> int (length text) \<le> MAX_BYTES"
  by (auto simp: prepare_def canonicalize_ip_attributes_def bindE_eq_Inr Let_def DEFAULT_TEXT_def py_lit_def
      MAX_BYTES_def split: option.splits if_splits)

lemma ia_new_ok [simp]: "ia_ok (ia_new f)"
  by (simp add: ia_ok_def ia_new_def)

lemma set_alist_update: "x \<in> set (AList.update k v al) \<Longrightarrow> x = (k, v) \<or> x \<in> set al"
  by (induction al) (auto split: if_splits)

lemma ia_commit_ok:
  assumes "ia_ok m" "addr_family a = ia_family m" "int (length text) \<le> MAX_BYTES" "0 \<le> n"
  shows "ia_ok (ia_commit m a text n)"
  using assms
  by (auto simp: ia_ok_def ia_commit_def Let_def distinct_update text_bytes_update dest!: set_alist_update split: option.splits)

lemma ia_commit_keys [simp]:
  "set (ia_iter (ia_commit m a text n)) = insert a (set (ia_iter m))" "ia_family (ia_commit m a text n) = ia_family m"
  by (simp_all add: ia_iter_def ia_commit_def Let_def dom_update)

lemma ia_discard_ok:
  assumes "ia_ok m" "addr_family a = ia_family m"
  shows "\<exists>m'. ia_discard m a = (Inr (a \<in> set (ia_iter m)), m') \<and> ia_ok m' \<and> ia_family m' = ia_family m \<and>
    set (ia_iter m') = set (ia_iter m) - {a}"
proof (cases "map_of (ia_records m) a")
  case None
  then have "a \<notin> set (ia_iter m)" by (simp add: ia_iter_def map_of_eq_None_iff)
  with None show ?thesis using assms by (auto simp: ia_discard_def ia_check_family_def)
next
  case (Some removed)
  let ?m = "m\<lparr>ia_records := AList.delete a (ia_records m), ia_bytes := ia_bytes m - int (length (fst removed))\<rparr>"
  have "ia_discard m a = (Inr True, ?m)"
    using Some assms by (simp add: ia_discard_def ia_check_family_def)
  moreover have "x \<in> set (AList.delete a (ia_records m)) \<Longrightarrow> x \<in> set (ia_records m)" for x
    by (simp add: AList.delete_eq)
  then have "ia_ok ?m"
    using Some assms by (fastforce simp: ia_ok_def text_bytes_delete distinct_delete)
  moreover have "a \<in> set (ia_iter m)"
    using Some by (force simp: ia_iter_def dest: map_of_SomeD)
  moreover have "set (ia_iter ?m) = set (ia_iter m) - {a}"
    by (force simp: ia_iter_def AList.delete_eq image_iff)
  ultimately show ?thesis by auto
qed

section \<open>Trie and records move together\<close>

definition hot_addresses :: "family \<Rightarrow> int set \<Rightarrow> address set" where
  "hot_addresses f H = (\<lambda>v. \<lparr>addr_family = f, addr_value = v\<rparr>) ` H"

lemma hot_addresses_insert: "addr_family a = f \<Longrightarrow> hot_addresses f (insert (addr_value a) H) = insert a (hot_addresses f H)"
  by (auto simp: hot_addresses_def)

lemma hot_addresses_remove: "addr_family a = f \<Longrightarrow> hot_addresses f (H - {addr_value a}) = hot_addresses f H - {a}"
  by (cases a) (auto simp: hot_addresses_def)

datatype record_op = RecAdded address "raw option" py_count | RecRemoved address

definition record_op_address :: "record_op \<Rightarrow> address" where
  "record_op_address c = (case c of RecAdded a d n \<Rightarrow> a | RecRemoved a \<Rightarrow> a)"

definition record_step :: "'t hot_trie \<Rightarrow> record_op \<Rightarrow> 't \<times> ip_attribute_records \<Rightarrow>
    (bool result \<times> 't \<times> ip_attribute_records) option" where
  "record_step ops c s = (case c of
      RecAdded a d n \<Rightarrow> apply_hot_ip_added ops (fst s) (snd s) a d n
    | RecRemoved a \<Rightarrow> apply_hot_ip_removed ops (fst s) (snd s) a)"

text \<open>A run of steps whose caller handles each exception and goes on.\<close>

fun record_run :: "'t hot_trie \<Rightarrow> record_op list \<Rightarrow> 't \<times> ip_attribute_records \<Rightarrow>
    ('t \<times> ip_attribute_records) option" where
  "record_run ops [] s = Some s"
| "record_run ops (c # cs) s = (case record_step ops c s of None \<Rightarrow> None | Some (r, s') \<Rightarrow> record_run ops cs s')"

context hot_trie_impl
begin

definition coupled :: "'t \<times> ip_attribute_records \<Rightarrow> bool" where
  "coupled s \<longleftrightarrow> invar (fst s) \<and> ia_ok (snd s) \<and> ia_family (snd s) = ht_family ops (fst s) \<and>
     set (ia_iter (snd s)) = hot_addresses (ht_family ops (fst s)) (hot_set (fst s))"

lemma added_step:
  assumes "coupled (t, m)" "valid_address a"
  shows "(\<exists>e. apply_hot_ip_added ops t m a d n = Some (Inl e, t, m)) \<or>
    (\<exists>t' m'. apply_hot_ip_added ops t m a d n = Some (Inr (a \<notin> set (ia_iter m)), t', m') \<and> coupled (t', m') \<and>
       set (ia_iter m') = insert a (set (ia_iter m)))"
proof (cases "bindE (check_families ops t m a) (\<lambda>_. bindE (check_request_count n) (\<lambda>n.
    bindE (prepare d) (\<lambda>text. Inr (n, text))))")
  case (Inl e)
  then show ?thesis by (simp add: apply_hot_ip_added_def)
next
  case (Inr nt)
  obtain k doc where nt: "nt = (k, doc)" by (cases nt)
  have fam: "addr_family a = ht_family ops t" "ia_family m = ht_family ops t" "0 \<le> k" "int (length doc) \<le> MAX_BYTES"
    using Inr nt by (auto simp: bindE_eq_Inr check_families_def check_request_count_def prepare_fits split: py_count.splits if_splits)
  obtain t' where t': "ht_add_hot_ip ops t a = Some (Inr (addr_value a \<notin> hot_set t), t')" "invar t'"
    "hot_set t' = insert (addr_value a) (hot_set t)" "ht_family ops t' = ht_family ops t"
    using add[of t a] assms fam by (auto simp: coupled_def)
  have "a \<in> set (ia_iter m) \<longleftrightarrow> addr_value a \<in> hot_set t"
    using assms fam by (cases a) (auto simp: coupled_def hot_addresses_def)
  moreover have "coupled (t', ia_commit m a doc k)"
    using assms t' fam by (auto simp: coupled_def hot_addresses_insert intro!: ia_commit_ok)
  ultimately show ?thesis using Inr nt t' by (simp add: apply_hot_ip_added_def)
qed

lemma removed_step:
  assumes "coupled (t, m)" "valid_address a"
  shows "(addr_family a \<noteq> ht_family ops t \<and> apply_hot_ip_removed ops t m a = Some (Inl ValueError, t, m)) \<or>
    (\<exists>t' m'. apply_hot_ip_removed ops t m a = Some (Inr (a \<in> set (ia_iter m)), t', m') \<and> coupled (t', m') \<and>
       set (ia_iter m') = set (ia_iter m) - {a})"
proof (cases "addr_family a = ht_family ops t")
  case False
  then show ?thesis using assms by (auto simp: apply_hot_ip_removed_def check_families_def coupled_def)
next
  case True
  obtain t' where t': "ht_remove_hot_ip ops t a = Some (Inr (addr_value a \<in> hot_set t), t')" "invar t'"
    "hot_set t' = hot_set t - {addr_value a}" "ht_family ops t' = ht_family ops t"
    using remove[of t a] assms True by (auto simp: coupled_def)
  obtain m' b where m': "ia_discard m a = (Inr b, m')" "ia_ok m'" "ia_family m' = ia_family m"
    "set (ia_iter m') = set (ia_iter m) - {a}"
    using ia_discard_ok[of m a] assms True by (auto simp: coupled_def)
  have "a \<in> set (ia_iter m) \<longleftrightarrow> addr_value a \<in> hot_set t"
    using assms True by (cases a) (auto simp: coupled_def hot_addresses_def)
  moreover have "coupled (t', m')"
    using assms t' m' True by (auto simp: coupled_def hot_addresses_remove)
  ultimately show ?thesis using True assms t' m'
    by (simp add: apply_hot_ip_removed_def check_families_def coupled_def)
qed

lemma coupled_step:
  assumes "coupled s" "valid_address (record_op_address c)"
  shows "\<exists>r s'. record_step ops c s = Some (r, s') \<and> coupled s' \<and> (\<forall>e. r = Inl e \<longrightarrow> s' = s)"
proof (cases c)
  case (RecAdded a d n)
  then show ?thesis using added_step[of "fst s" "snd s" a d n] assms
    by (cases s) (auto simp: record_step_def record_op_address_def)
next
  case (RecRemoved a)
  then show ?thesis using removed_step[of "fst s" "snd s" a] assms
    by (cases s) (auto simp: record_step_def record_op_address_def)
qed

lemma coupled_run:
  "coupled s \<Longrightarrow> \<forall>c \<in> set cs. valid_address (record_op_address c) \<Longrightarrow>
     \<exists>s'. record_run ops cs s = Some s' \<and> coupled s'"
proof (induction cs arbitrary: s)
  case (Cons c cs)
  then obtain r s1 where "record_step ops c s = Some (r, s1)" "coupled s1"
    using coupled_step[of s c] by auto
  with Cons show ?case by simp
qed simp

lemma coupled_new: "invar t \<Longrightarrow> hot_set t = {} \<Longrightarrow> coupled (t, ia_new (ht_family ops t))"
  by (simp add: coupled_def ia_iter_def hot_addresses_def) (simp add: ia_new_def)

lemma coupled_records_pass: "coupled (t, m) \<Longrightarrow> check_attribute_records ops t (ia_iter m) = Some (Inr ())"
  using attribute_records_decided[of t "ia_iter m"]
  by (simp add: coupled_def ia_ok_def ia_iter_def hot_addresses_def)

end

end
