(* ===== verification/Metadata_Combine.thy ===== *)
theory Metadata_Combine
  imports Hot_Trie "HOL-Library.AList"
begin

text \<open>
  The metadata algebra of \<open>hammertime.trie.metadata.combine\<close>: values that carry their own combine
  rule, documents combined key by key along a lookup path, and the upward view of counts. A Python
  \<open>dict\<close> is an association list in insertion order with distinct keys; two documents are the same
  document when they map the same keys to the same values. Python's dynamic type checks hold by
  typing here and have no branch.
\<close>

section \<open>Values\<close>

datatype override_value = OvStr string | OvInt int | OvBool bool

datatype metadata_value = Tags "string set" | Bitmask int | Override override_value

datatype md_kind = KTags | KBitmask | KOverride

fun value_kind :: "metadata_value \<Rightarrow> md_kind" where
  "value_kind (Tags s) = KTags"
| "value_kind (Bitmask b) = KBitmask"
| "value_kind (Override v) = KOverride"

definition mk_bitmask :: "int \<Rightarrow> metadata_value result" where
  "mk_bitmask b = (if b < 0 then Inl ValueError else Inr (Bitmask b))"

definition combine_checked :: "metadata_value \<Rightarrow> metadata_value \<Rightarrow> metadata_value result" where
  "combine_checked lo hi =
     (if value_kind lo \<noteq> value_kind hi then Inl ValueError
      else case (lo, hi) of
        (Tags s, Tags t) \<Rightarrow> Inr (Tags (s \<union> t))
      | (Bitmask b, Bitmask c) \<Rightarrow> mk_bitmask (b OR c)
      | _ \<Rightarrow> Inr hi)"

definition combine_values :: "metadata_value \<Rightarrow> metadata_value \<Rightarrow> metadata_value result" where
  "combine_values lo hi = combine_checked lo hi"

section \<open>Documents\<close>

type_synonym metadata = "(string \<times> metadata_value) list"

definition EMPTY_METADATA :: metadata where
  "EMPTY_METADATA = []"

fun combine_items :: "metadata \<Rightarrow> (string \<times> metadata_value) list \<Rightarrow> metadata result" where
  "combine_items result [] = Inr result"
| "combine_items result ((key, v) # rest) =
     (case map_of result key of
        None \<Rightarrow> combine_items (AList.update key v result) rest
      | Some present \<Rightarrow> bindE (combine_checked present v) (\<lambda>x. combine_items (AList.update key x result) rest))"

definition combine :: "metadata \<Rightarrow> metadata \<Rightarrow> metadata result" where
  "combine lo hi = combine_items lo hi"

fun combine_fold :: "metadata \<Rightarrow> metadata list \<Rightarrow> metadata result" where
  "combine_fold acc [] = Inr acc"
| "combine_fold acc (d # ds) = bindE (combine acc d) (\<lambda>r. combine_fold r ds)"

definition combine_path :: "metadata list \<Rightarrow> metadata result" where
  "combine_path ds = combine_fold EMPTY_METADATA ds"

section \<open>The algebra\<close>

fun value_ok :: "metadata_value \<Rightarrow> bool" where
  "value_ok (Bitmask b) \<longleftrightarrow> 0 \<le> b"
| "value_ok _ \<longleftrightarrow> True"

fun value_join :: "metadata_value \<Rightarrow> metadata_value \<Rightarrow> metadata_value" where
  "value_join (Tags s) (Tags t) = Tags (s \<union> t)"
| "value_join (Bitmask b) (Bitmask c) = Bitmask (b OR c)"
| "value_join _ v = v"

definition doc_ok :: "metadata \<Rightarrow> bool" where
  "doc_ok d \<longleftrightarrow> distinct (map fst d) \<and> (\<forall>v \<in> snd ` set d. value_ok v)"

text \<open>Documents as maps: the join of two, and when every shared key has one kind.\<close>

definition doc_join :: "(string \<rightharpoonup> metadata_value) \<Rightarrow> (string \<rightharpoonup> metadata_value) \<Rightarrow> (string \<rightharpoonup> metadata_value)" where
  "doc_join f g k = (case (f k, g k) of
      (None, y) \<Rightarrow> y | (x, None) \<Rightarrow> x | (Some a, Some b) \<Rightarrow> Some (value_join a b))"

definition kinds_agree :: "(string \<rightharpoonup> metadata_value) \<Rightarrow> (string \<rightharpoonup> metadata_value) \<Rightarrow> bool" where
  "kinds_agree f g \<longleftrightarrow> (\<forall>k a b. f k = Some a \<longrightarrow> g k = Some b \<longrightarrow> value_kind a = value_kind b)"

lemma combine_checked_eq:
  "value_ok a \<Longrightarrow> value_ok b \<Longrightarrow>
   combine_checked a b = (if value_kind a = value_kind b then Inr (value_join a b) else Inl ValueError)"
  by (cases a; cases b) (auto simp: combine_checked_def mk_bitmask_def)

lemma value_join_ok: "value_ok a \<Longrightarrow> value_ok b \<Longrightarrow> value_ok (value_join a b)"
  by (cases a; cases b) auto

lemma value_join_kind [simp]: "value_kind a = value_kind b \<Longrightarrow> value_kind (value_join a b) = value_kind b"
  by (cases a; cases b) auto

lemma value_join_assoc:
  "value_kind a = value_kind b \<Longrightarrow> value_kind b = value_kind c \<Longrightarrow>
   value_join (value_join a b) c = value_join a (value_join b c)"
  by (cases a; cases b; cases c) (auto simp: or.assoc)

lemma value_join_idem [simp]: "value_join a a = a"
  by (cases a) auto

lemma doc_ok_values: "doc_ok d \<Longrightarrow> map_of d k = Some v \<Longrightarrow> value_ok v"
  by (force simp: doc_ok_def dest: map_of_SomeD)

lemma doc_ok_update: "doc_ok d \<Longrightarrow> value_ok v \<Longrightarrow> doc_ok (AList.update k v d)"
proof -
  assume a: "doc_ok d" "value_ok v"
  have "value_ok w" if w: "w \<in> snd ` set (AList.update k v d)" for w
  proof -
    obtain j where "(j, w) \<in> set (AList.update k v d)" using w by auto
    moreover have "distinct (map fst (AList.update k v d))" using a by (simp add: doc_ok_def distinct_update)
    ultimately have "map_of (AList.update k v d) j = Some w" by simp
    then show ?thesis using a doc_ok_values[of d j w] by (auto simp: update_conv' split: if_splits)
  qed
  with a show ?thesis by (simp add: doc_ok_def distinct_update)
qed

lemma combine_items_ok:
  "doc_ok result \<Longrightarrow> doc_ok items \<Longrightarrow>
   (if kinds_agree (map_of result) (map_of items)
    then \<exists>r. combine_items result items = Inr r \<and> doc_ok r \<and> map_of r = doc_join (map_of result) (map_of items)
    else combine_items result items = Inl ValueError)"
proof (induction result items rule: combine_items.induct)
  case (1 result)
  then show ?case by (auto simp: kinds_agree_def doc_join_def fun_eq_iff split: option.splits)
next
  case (2 result key v rest)
  have ok: "doc_ok rest" "value_ok v" "map_of rest key = None"
    using "2.prems"(2) by (auto simp: doc_ok_def map_of_eq_None_iff)
  have step: "if kinds_agree (map_of (AList.update key x result)) (map_of rest)
      then \<exists>r. combine_items (AList.update key x result) rest = Inr r \<and> doc_ok r \<and>
        map_of r = doc_join (map_of (AList.update key x result)) (map_of rest)
      else combine_items (AList.update key x result) rest = Inl ValueError"
    if "value_ok x" "map_of result key = None \<and> x = v \<or>
      (\<exists>p. map_of result key = Some p \<and> combine_checked p v = Inr x)" for x
    using that(2)
  proof (elim disjE exE conjE)
    assume "map_of result key = None" "x = v"
    then show ?thesis using "2.IH"(1) doc_ok_update[OF "2.prems"(1) that(1)] ok(1) by simp
  next
    fix p assume "map_of result key = Some p" "combine_checked p v = Inr x"
    then show ?thesis using "2.IH"(2) doc_ok_update[OF "2.prems"(1) that(1)] ok(1) by simp
  qed
  have upd: "map_of (AList.update key x result) = (map_of result)(key \<mapsto> x)" for x by (simp add: update_conv')
  show ?case
  proof (cases "map_of result key")
    case None
    have k: "kinds_agree ((map_of result)(key \<mapsto> v)) (map_of rest) = kinds_agree (map_of result) (map_of ((key, v) # rest))"
      using None ok(3) by (auto simp: kinds_agree_def split: if_splits)
    have j: "doc_join ((map_of result)(key \<mapsto> v)) (map_of rest) = doc_join (map_of result) (map_of ((key, v) # rest))"
      using None ok(3) by (auto simp: doc_join_def fun_eq_iff split: option.splits)
    have ci: "combine_items (AList.update key v result) rest = combine_items result ((key, v) # rest)"
      using None by simp
    show ?thesis using step[of v, unfolded upd k j ci] None ok(2) by blast
  next
    case (Some p)
    have p: "value_ok p" using doc_ok_values[OF "2.prems"(1) Some] .
    show ?thesis
    proof (cases "value_kind p = value_kind v")
      case True
      let ?x = "value_join p v"
      have cc: "combine_checked p v = Inr ?x" using True p ok(2) by (simp add: combine_checked_eq)
      have k: "kinds_agree ((map_of result)(key \<mapsto> ?x)) (map_of rest) = kinds_agree (map_of result) (map_of ((key, v) # rest))"
        using Some ok(3) True by (auto simp: kinds_agree_def split: if_splits)
      have j: "doc_join ((map_of result)(key \<mapsto> ?x)) (map_of rest) = doc_join (map_of result) (map_of ((key, v) # rest))"
        using Some ok(3) by (auto simp: doc_join_def fun_eq_iff split: option.splits)
      have ci: "combine_items (AList.update key ?x result) rest = combine_items result ((key, v) # rest)"
        using Some cc by simp
      show ?thesis using step[of ?x, unfolded upd k j ci] Some cc value_join_ok[OF p ok(2)] by blast
    next
      case False
      then have nk: "\<not> kinds_agree (map_of result) (map_of ((key, v) # rest))"
        using Some by (force simp: kinds_agree_def)
      show ?thesis unfolding if_not_P[OF nk] using False Some p ok(2) by (simp add: combine_checked_eq)
    qed
  qed
qed

lemma combine_ok:
  assumes "doc_ok a" "doc_ok b"
  shows "(\<exists>r. combine a b = Inr r \<and> doc_ok r \<and> map_of r = doc_join (map_of a) (map_of b) \<and> kinds_agree (map_of a) (map_of b)) \<or>
    combine a b = Inl ValueError \<and> \<not> kinds_agree (map_of a) (map_of b)"
  using combine_items_ok[OF assms] by (auto simp: combine_def split: if_splits)

lemma doc_join_assoc:
  assumes "kinds_agree f g" "kinds_agree g h" "kinds_agree f h"
  shows "doc_join (doc_join f g) h = doc_join f (doc_join g h)"
proof
  fix k
  show "doc_join (doc_join f g) h k = doc_join f (doc_join g h) k"
    using assms by (cases "f k"; cases "g k"; cases "h k")
      (auto simp: doc_join_def kinds_agree_def intro!: value_join_assoc)
qed

lemma kinds_agree_join:
  assumes "kinds_agree f g"
  shows "kinds_agree (doc_join f g) h \<longleftrightarrow> kinds_agree f h \<and> kinds_agree g h"
proof -
  have "(\<forall>a b. doc_join f g k = Some a \<longrightarrow> h k = Some b \<longrightarrow> value_kind a = value_kind b) \<longleftrightarrow>
      (\<forall>a b. f k = Some a \<longrightarrow> h k = Some b \<longrightarrow> value_kind a = value_kind b) \<and>
      (\<forall>a b. g k = Some a \<longrightarrow> h k = Some b \<longrightarrow> value_kind a = value_kind b)" for k
    using assms by (cases "f k"; cases "g k"; cases "h k") (auto simp: doc_join_def kinds_agree_def)
  then show ?thesis unfolding kinds_agree_def by blast
qed

lemma kinds_agree_sym: "kinds_agree f g \<longleftrightarrow> kinds_agree g f"
  unfolding kinds_agree_def by metis

text \<open>The same outcome: the same exception, or documents with the same entries.\<close>

definition same_doc :: "metadata result \<Rightarrow> metadata result \<Rightarrow> bool" where
  "same_doc x y \<longleftrightarrow> (case (x, y) of (Inl e, Inl e') \<Rightarrow> e = e' | (Inr a, Inr b) \<Rightarrow> map_of a = map_of b | _ \<Rightarrow> False)"

text \<open>\<open>combine\<close> is associative: grouping a path's documents differently gives the same
  document, or the same \<open>ValueError\<close> for a key with two kinds.\<close>

theorem combine_associative:
  assumes "doc_ok a" "doc_ok b" "doc_ok c"
  shows "same_doc (bindE (combine a b) (\<lambda>ab. combine ab c)) (bindE (combine b c) (\<lambda>bc. combine a bc))"
proof -
  let ?K = "kinds_agree (map_of a) (map_of b) \<and> kinds_agree (map_of b) (map_of c) \<and> kinds_agree (map_of a) (map_of c)"
  have "if ?K then \<exists>r. bindE (combine a b) (\<lambda>ab. combine ab c) = Inr r \<and>
          map_of r = doc_join (doc_join (map_of a) (map_of b)) (map_of c)
        else bindE (combine a b) (\<lambda>ab. combine ab c) = Inl ValueError"
    using combine_ok[OF assms(1,2)]
  proof (elim disjE exE conjE)
    fix ab assume ab: "combine a b = Inr ab" "doc_ok ab" "map_of ab = doc_join (map_of a) (map_of b)"
      "kinds_agree (map_of a) (map_of b)"
    then show ?thesis using combine_ok[OF ab(2) assms(3)] kinds_agree_join[OF ab(4), of "map_of c"] by auto
  qed auto
  moreover have "if ?K then \<exists>r. bindE (combine b c) (\<lambda>bc. combine a bc) = Inr r \<and>
          map_of r = doc_join (map_of a) (doc_join (map_of b) (map_of c))
        else bindE (combine b c) (\<lambda>bc. combine a bc) = Inl ValueError"
    using combine_ok[OF assms(2,3)]
  proof (elim disjE exE conjE)
    fix bc assume bc: "combine b c = Inr bc" "doc_ok bc" "map_of bc = doc_join (map_of b) (map_of c)"
      "kinds_agree (map_of b) (map_of c)"
    then show ?thesis
      using combine_ok[OF assms(1) bc(2)] kinds_agree_join[OF bc(4), of "map_of a"]
        kinds_agree_sym[of "map_of a"] by auto
  qed auto
  ultimately show ?thesis using doc_join_assoc by (auto simp: same_doc_def split: if_splits)
qed

theorem combine_associative_witness:
  "same_doc (bindE (combine [(''acl'', Tags {''a''})] [(''acl'', Tags {''b''})]) (\<lambda>ab. combine ab [(''acl'', Bitmask 1)]))
     (bindE (combine [(''acl'', Tags {''b''})] [(''acl'', Bitmask 1)]) (\<lambda>bc. combine [(''acl'', Tags {''a''})] bc))"
  by (rule combine_associative) (simp_all add: doc_ok_def)

section \<open>Paths\<close>

text \<open>Documents whose kinds agree pairwise fold without an exception.\<close>

definition path_join :: "(string \<rightharpoonup> metadata_value) \<Rightarrow> metadata list \<Rightarrow> (string \<rightharpoonup> metadata_value)" where
  "path_join m ds = fold (\<lambda>d acc. doc_join acc (map_of d)) ds m"

lemma combine_fold_ok:
  "doc_ok acc \<Longrightarrow> (\<forall>d \<in> set ds. doc_ok d \<and> kinds_agree (map_of acc) (map_of d)) \<Longrightarrow>
   sorted_wrt (\<lambda>d e. kinds_agree (map_of d) (map_of e)) ds \<Longrightarrow>
   \<exists>r. combine_fold acc ds = Inr r \<and> doc_ok r \<and> map_of r = path_join (map_of acc) ds"
proof (induction ds arbitrary: acc)
  case Nil
  then show ?case by (simp add: path_join_def)
next
  case (Cons d ds)
  obtain r where r: "combine acc d = Inr r" "doc_ok r" "map_of r = doc_join (map_of acc) (map_of d)"
    using combine_ok[of acc d] Cons.prems by auto
  have "\<forall>e \<in> set ds. doc_ok e \<and> kinds_agree (map_of r) (map_of e)"
    using Cons.prems kinds_agree_join[of "map_of acc" "map_of d"] by (auto simp: r(3))
  then show ?case using Cons.IH[OF r(2)] Cons.prems(3) r by (auto simp: path_join_def)
qed

lemma combine_path_ok:
  assumes "\<forall>d \<in> set ds. doc_ok d" "sorted_wrt (\<lambda>d e. kinds_agree (map_of d) (map_of e)) ds"
  shows "\<exists>r. combine_path ds = Inr r \<and> doc_ok r \<and> map_of r = path_join Map.empty ds"
  using combine_fold_ok[of "[]" ds] assms
  by (simp add: combine_path_def EMPTY_METADATA_def doc_ok_def kinds_agree_def)

lemma combine_fold_append:
  "combine_fold acc (ds @ es) = bindE (combine_fold acc ds) (\<lambda>r. combine_fold r es)"
proof (induction ds arbitrary: acc)
  case (Cons d ds)
  then show ?case by (cases "combine acc d") auto
qed simp

section \<open>The upward view\<close>

record prefix_stats =
  ps_prefix :: prefix
  ps_hot_count :: int

definition mk_prefix_stats :: "prefix \<Rightarrow> int \<Rightarrow> prefix_stats result" where
  "mk_prefix_stats p n = (if n < 0 then Inl ValueError else Inr \<lparr>ps_prefix = p, ps_hot_count = n\<rparr>)"

definition ps_capacity :: "prefix_stats \<Rightarrow> int" where
  "ps_capacity s = prefix_capacity (ps_prefix s)"

definition prefix_within :: "prefix \<Rightarrow> prefix \<Rightarrow> bool result" where
  "prefix_within inner outer =
     (if pfx_family inner \<noteq> pfx_family outer \<or> pfx_length inner < pfx_length outer then Inr False
      else bindE (mk_address (pfx_family inner) (pfx_network inner)) (\<lambda>a. Inr (prefix_contains outer a)))"

fun aggregate_loop :: "prefix \<Rightarrow> int \<Rightarrow> prefix_stats list \<Rightarrow> int result" where
  "aggregate_loop parent acc [] = Inr acc"
| "aggregate_loop parent acc (part # parts) =
     bindE (prefix_within (ps_prefix part) parent) (\<lambda>w.
       if \<not> w then Inl ValueError else aggregate_loop parent (acc + ps_hot_count part) parts)"

definition aggregate :: "prefix \<Rightarrow> prefix_stats list \<Rightarrow> prefix_stats result" where
  "aggregate parent parts = bindE (aggregate_loop parent 0 parts) (\<lambda>acc. mk_prefix_stats parent acc)"

definition prefix_stats_of :: "'t hot_trie \<Rightarrow> 't \<Rightarrow> prefix \<Rightarrow> prefix_stats result option" where
  "prefix_stats_of ops t p = bindO (ht_hot_count ops t p) (\<lambda>n. Some (mk_prefix_stats p n))"

definition ancestor_stats :: "'t hot_trie \<Rightarrow> 't \<Rightarrow> address \<Rightarrow> int \<Rightarrow> prefix_stats list result option" where
  "ancestor_stats ops t a m =
     bindO (ht_ancestor_counts ops t a m) (\<lambda>es. Some (mapE (\<lambda>e. mk_prefix_stats (pc_prefix e) (pc_hot_count e)) es))"

lemma aggregate_loop_ok:
  "(\<forall>p \<in> set parts. prefix_within (ps_prefix p) parent = Inr True) \<Longrightarrow>
   aggregate_loop parent acc parts = Inr (acc + sum_list (map ps_hot_count parts))"
  by (induction parts arbitrary: acc) (auto simp: add.assoc)

lemma prefix_at_valid: "0 \<le> l \<Longrightarrow> l \<le> bit_length f \<Longrightarrow> valid_prefix (prefix_at f v l)"
  by (simp add: valid_prefix_def prefix_at_def)

lemma prefix_within_at:
  assumes "0 \<le> l" "l \<le> k" "k \<le> bit_length f" "v \<in> value_range f" "u \<in> value_range f" "agree (bit_length f) l u v"
  shows "prefix_within (prefix_at f u k) (prefix_at f v l) = Inr True"
proof -
  let ?B = "bit_length f"
  have rng: "0 \<le> net_of ?B j w \<and> net_of ?B j w < 2 ^ nat ?B" if "w \<in> value_range f" for w j
    using net_of_le[of w ?B j] that by (auto simp: value_range_iff)
  have u: "mk_address f (net_of ?B k u) = Inr \<lparr>addr_family = f, addr_value = net_of ?B k u\<rparr>"
    using rng[OF assms(5), of k] by simp
  have "agree ?B l (net_of ?B k u) u" using assms(2,3) by simp
  moreover have "agree ?B l v (net_of ?B l v)" using assms(2,3) by simp
  ultimately have "agree ?B l (net_of ?B k u) (net_of ?B l v)" using assms(6) by (blast intro: agree_trans)
  then have "prefix_contains (prefix_at f v l) \<lparr>addr_family = f, addr_value = net_of ?B k u\<rparr>"
    using prefix_contains_agree[of "prefix_at f v l" "\<lparr>addr_family = f, addr_value = net_of ?B k u\<rparr>"]
      prefix_at_valid[of l f v] assms rng[OF assms(4), of l] rng[OF assms(5), of k]
    by (simp add: prefix_at_def valid_address_iff)
  then show ?thesis using u assms(2) by (simp add: prefix_within_def prefix_at_def)
qed

text \<open>Prefix statistics over any trie that meets the contract.\<close>

locale hot_trie_stats = hot_trie_impl
begin

lemma stats_of:
  assumes "invar t" "0 \<le> l" "l \<le> bit_length (ht_family ops t)"
  shows "prefix_stats_of ops t (prefix_at (ht_family ops t) v l) =
    Some (Inr \<lparr>ps_prefix = prefix_at (ht_family ops t) v l,
      ps_hot_count = hot_below (bit_length (ht_family ops t)) (hot_set t) l v\<rparr>)"
  using hot_count[OF assms(1) prefix_at_valid[OF assms(2,3)], of v] assms(3)
    hot_below_cong[of "bit_length (ht_family ops t)" l "net_of (bit_length (ht_family ops t)) l v" v "hot_set t"]
  by (simp add: prefix_stats_of_def mk_prefix_stats_def prefix_at_def not_less)

text \<open>Sections 10 to 12: a prefix's statistics are the aggregate of its two halves'.\<close>

lemma aggregate_halves:
  assumes "invar t" "0 \<le> l" "l < bit_length (ht_family ops t)"
    and "n \<in> value_range (ht_family ops t)" "n0 \<in> value_range (ht_family ops t)" "n1 \<in> value_range (ht_family ops t)"
    and "agree (bit_length (ht_family ops t)) l n0 n" "agree (bit_length (ht_family ops t)) l n1 n"
    and "\<not> msb (bit_length (ht_family ops t)) l n0" "msb (bit_length (ht_family ops t)) l n1"
  shows "\<exists>s s0 s1. prefix_stats_of ops t (prefix_at (ht_family ops t) n l) = Some (Inr s) \<and>
    prefix_stats_of ops t (prefix_at (ht_family ops t) n0 (l + 1)) = Some (Inr s0) \<and>
    prefix_stats_of ops t (prefix_at (ht_family ops t) n1 (l + 1)) = Some (Inr s1) \<and>
    aggregate (prefix_at (ht_family ops t) n l) [s0, s1] = Inr s"
proof -
  let ?f = "ht_family ops t" and ?B = "bit_length (ht_family ops t)"
  have "prefix_within (prefix_at ?f n0 (l + 1)) (prefix_at ?f n l) = Inr True"
    "prefix_within (prefix_at ?f n1 (l + 1)) (prefix_at ?f n l) = Inr True"
    using assms by (auto intro!: prefix_within_at)
  moreover have "hot_below ?B (hot_set t) l n = hot_below ?B (hot_set t) (l + 1) n0 + hot_below ?B (hot_set t) (l + 1) n1"
    using finite_hot[OF assms(1)] assms by (intro hot_below_split) auto
  moreover have "0 \<le> hot_below ?B (hot_set t) l n" by simp
  ultimately show ?thesis
    using stats_of[OF assms(1), of l n] stats_of[OF assms(1), of "l + 1" n0] stats_of[OF assms(1), of "l + 1" n1] assms(2,3)
    by (simp add: aggregate_def mk_prefix_stats_def not_less)
qed

end

end
