(* ===== verification/Metadata_Store.thy ===== *)
theory Metadata_Store
  imports Metadata_Combine
begin

text \<open>
  Declared metadata, \<open>hammertime.trie.metadata.local\<close>: one document per declared prefix, folded along
  the path at lookup time. The invariant \<open>pm_ok\<close> says that no key has two kinds on one path; every
  mutator keeps it, and under it no read ever raises.
\<close>

section \<open>State and operations\<close>

record pm_store =
  pm_family :: family
  pm_declarations :: "(prefix \<times> metadata) list"

definition pm_new :: "family \<Rightarrow> pm_store" where
  "pm_new f = \<lparr>pm_family = f, pm_declarations = []\<rparr>"

definition pm_check_family :: "pm_store \<Rightarrow> family \<Rightarrow> unit result" where
  "pm_check_family st f = guardE (f = pm_family st) ValueError"

definition prefix_covers :: "prefix \<Rightarrow> prefix \<Rightarrow> bool result" where
  "prefix_covers outer inner =
     (if pfx_length outer > pfx_length inner then Inr False
      else let shift = bit_length (pfx_family outer) - pfx_length outer in
        bindE (py_shr (pfx_network outer) shift) (\<lambda>x.
        bindE (py_shr (pfx_network inner) shift) (\<lambda>y. Inr (x = y))))"

text \<open>The inner loop of \<open>_check_path\<close>: one other declaration against the document's keys.\<close>

fun check_kinds :: "metadata \<Rightarrow> (string \<times> metadata_value) list \<Rightarrow> unit result" where
  "check_kinds declared [] = Inr ()"
| "check_kinds declared ((key, v) # rest) =
     (case map_of declared key of
        None \<Rightarrow> check_kinds declared rest
      | Some present \<Rightarrow>
          if value_kind present = value_kind v then check_kinds declared rest else Inl ValueError)"

fun pm_check_path :: "prefix \<Rightarrow> metadata \<Rightarrow> (prefix \<times> metadata) list \<Rightarrow> unit result" where
  "pm_check_path p document [] = Inr ()"
| "pm_check_path p document ((other, declared) # rest) =
     (if other = p then pm_check_path p document rest
      else bindE (prefix_covers other p) (\<lambda>above.
           bindE (if above then Inr True else prefix_covers p other) (\<lambda>related.
             if \<not> related then pm_check_path p document rest
             else bindE (check_kinds declared document) (\<lambda>_. pm_check_path p document rest))))"

definition pm_declare :: "pm_store \<Rightarrow> prefix \<Rightarrow> metadata \<Rightarrow> unit result \<times> pm_store" where
  "pm_declare st p document =
     (case bindE (pm_check_family st (pfx_family p)) (\<lambda>_. pm_check_path p document (pm_declarations st)) of
        Inl e \<Rightarrow> (Inl e, st)
      | Inr _ \<Rightarrow> (Inr (), st\<lparr>pm_declarations := AList.update p document (pm_declarations st)\<rparr>))"

definition pm_revoke :: "pm_store \<Rightarrow> prefix \<Rightarrow> bool result \<times> pm_store" where
  "pm_revoke st p =
     (case pm_check_family st (pfx_family p) of
        Inl e \<Rightarrow> (Inl e, st)
      | Inr _ \<Rightarrow> (Inr (map_of (pm_declarations st) p \<noteq> None),
                  st\<lparr>pm_declarations := AList.delete p (pm_declarations st)\<rparr>))"

definition pm_clear :: "pm_store \<Rightarrow> pm_store" where
  "pm_clear st = st\<lparr>pm_declarations := []\<rparr>"

definition pm_local :: "pm_store \<Rightarrow> prefix \<Rightarrow> metadata result" where
  "pm_local st p =
     bindE (pm_check_family st (pfx_family p)) (\<lambda>_.
       Inr (case map_of (pm_declarations st) p of None \<Rightarrow> EMPTY_METADATA | Some d \<Rightarrow> d))"

definition pm_ancestor :: "pm_store \<Rightarrow> prefix \<Rightarrow> int \<Rightarrow> prefix result" where
  "pm_ancestor st p l =
     (let host_bits = bit_length (pm_family st) - l in
      bindE (py_shr (pfx_network p) host_bits) (\<lambda>x. bindE (py_shl x host_bits) (\<lambda>n.
        mk_prefix (pm_family st) n l)))"

definition pm_fold :: "pm_store \<Rightarrow> prefix \<Rightarrow> int \<Rightarrow> metadata result" where
  "pm_fold st p through =
     (if pm_declarations st = [] then Inr EMPTY_METADATA
      else bindE (mapE (\<lambda>l. bindE (pm_ancestor st p l) (\<lambda>anc.
                   Inr (case map_of (pm_declarations st) anc of None \<Rightarrow> [] | Some d \<Rightarrow> [d]))) [0 .. through])
             (\<lambda>path. combine_path (concat path)))"

definition pm_inherited :: "pm_store \<Rightarrow> prefix \<Rightarrow> metadata result" where
  "pm_inherited st p = bindE (pm_check_family st (pfx_family p)) (\<lambda>_. pm_fold st p (pfx_length p - 1))"

definition pm_effective_for_prefix :: "pm_store \<Rightarrow> prefix \<Rightarrow> metadata result" where
  "pm_effective_for_prefix st p = bindE (pm_check_family st (pfx_family p)) (\<lambda>_. pm_fold st p (pfx_length p))"

definition pm_effective :: "pm_store \<Rightarrow> address \<Rightarrow> metadata result" where
  "pm_effective st a =
     bindE (pm_check_family st (addr_family a)) (\<lambda>_.
     bindE (mk_prefix (addr_family a) (addr_value a) (bit_length (addr_family a))) (\<lambda>host_route.
       pm_fold st host_route (pfx_length host_route)))"

definition pm_all_declarations :: "pm_store \<Rightarrow> (prefix \<times> metadata) list" where
  "pm_all_declarations st = sort_key (\<lambda>(p, d). (pfx_length p, pfx_network p)) (pm_declarations st)"

definition pm_len :: "pm_store \<Rightarrow> int" where
  "pm_len st = int (length (pm_declarations st))"

definition pm_contains :: "pm_store \<Rightarrow> prefix \<Rightarrow> bool result" where
  "pm_contains st p =
     bindE (pm_check_family st (pfx_family p)) (\<lambda>_. Inr (map_of (pm_declarations st) p \<noteq> None))"

section \<open>The invariant\<close>

text \<open>Two declared prefixes lie on one path when they agree on the shorter one's bits.\<close>

definition on_path :: "prefix \<Rightarrow> prefix \<Rightarrow> bool" where
  "on_path p q \<longleftrightarrow> drop_bit (nat (bit_length (pfx_family p) - min (pfx_length p) (pfx_length q))) (pfx_network p) =
     drop_bit (nat (bit_length (pfx_family p) - min (pfx_length p) (pfx_length q))) (pfx_network q)"

definition pm_ok :: "pm_store \<Rightarrow> bool" where
  "pm_ok st \<longleftrightarrow> distinct (map fst (pm_declarations st)) \<and>
     (\<forall>(p, d) \<in> set (pm_declarations st). valid_prefix p \<and> pfx_family p = pm_family st \<and> doc_ok d) \<and>
     (\<forall>(p, d) \<in> set (pm_declarations st). \<forall>(q, e) \<in> set (pm_declarations st).
        on_path p q \<longrightarrow> kinds_agree (map_of d) (map_of e))"

lemma check_kinds_eq:
  "distinct (map fst document) \<Longrightarrow>
   check_kinds declared document = guardE (kinds_agree (map_of declared) (map_of document)) ValueError"
proof (induction declared document rule: check_kinds.induct)
  case (2 declared key v rest)
  have none: "map_of rest key = None" using "2.prems" by (auto simp: map_of_eq_None_iff)
  have k: "kinds_agree (map_of declared) (map_of ((key, v) # rest)) \<longleftrightarrow>
      (\<forall>p. map_of declared key = Some p \<longrightarrow> value_kind p = value_kind v) \<and> kinds_agree (map_of declared) (map_of rest)"
    (is "?L \<longleftrightarrow> ?R")
  proof
    assume ?L
    show ?R
    proof
      show "\<forall>p. map_of declared key = Some p \<longrightarrow> value_kind p = value_kind v"
        using \<open>?L\<close> by (auto simp: kinds_agree_def)
      show "kinds_agree (map_of declared) (map_of rest)"
        unfolding kinds_agree_def
      proof (intro allI impI)
        fix k a b assume ab: "map_of declared k = Some a" "map_of rest k = Some b"
        then have "k \<noteq> key" using none by auto
        then have "map_of ((key, v) # rest) k = Some b" using ab(2) by simp
        then show "value_kind a = value_kind b" using \<open>?L\<close> ab(1) unfolding kinds_agree_def by blast
      qed
    qed
  qed (auto simp: kinds_agree_def split: if_splits)
  show ?case unfolding k using 2 by (cases "map_of declared key") (auto simp: guardE_def)
qed (simp add: kinds_agree_def)

lemma prefix_covers_ok:
  assumes "valid_prefix p" "valid_prefix q" "pfx_family p = pfx_family q"
  shows "prefix_covers p q = Inr (pfx_length p \<le> pfx_length q \<and> on_path p q)"
  using assms by (auto simp: prefix_covers_def on_path_def valid_prefix_iff Let_def min_def)

lemma on_path_sym: "pfx_family p = pfx_family q \<Longrightarrow> on_path p q = on_path q p"
  by (auto simp: on_path_def min.commute)

lemma pm_check_path_eq:
  assumes "valid_prefix p" "distinct (map fst document)"
  shows "\<forall>(q, d) \<in> set decls. valid_prefix q \<and> pfx_family q = pfx_family p \<Longrightarrow>
    pm_check_path p document decls =
      guardE (\<forall>(q, d) \<in> set decls. q \<noteq> p \<and> on_path q p \<longrightarrow> kinds_agree (map_of d) (map_of document)) ValueError"
proof (induction decls)
  case (Cons qd decls)
  obtain q d where qd: "qd = (q, d)" by (cases qd)
  have q: "valid_prefix q" "pfx_family q = pfx_family p" using Cons.prems qd by auto
  have ih: "pm_check_path p document decls =
      guardE (\<forall>(q, d) \<in> set decls. q \<noteq> p \<and> on_path q p \<longrightarrow> kinds_agree (map_of d) (map_of document)) ValueError"
    using Cons by simp
  have "prefix_covers q p = Inr (pfx_length q \<le> pfx_length p \<and> on_path q p)"
    "prefix_covers p q = Inr (pfx_length p \<le> pfx_length q \<and> on_path q p)"
    using prefix_covers_ok[OF q(1) assms(1)] prefix_covers_ok[OF assms(1) q(1)] q(2) on_path_sym[of p q] by auto
  then show ?case
    using qd ih check_kinds_eq[OF assms(2), of d] by (auto simp: guardE_def)
qed simp

lemma pm_ok_sub:
  assumes "pm_ok st" "set decls \<subseteq> set (pm_declarations st)" "distinct (map fst decls)"
  shows "pm_ok (st\<lparr>pm_declarations := decls\<rparr>)"
proof -
  have "\<forall>(p, d) \<in> set decls. valid_prefix p \<and> pfx_family p = pm_family st \<and> doc_ok d"
    using assms(1,2) unfolding pm_ok_def by blast
  moreover have "\<forall>(p, d) \<in> set decls. \<forall>(q, e) \<in> set decls. on_path p q \<longrightarrow> kinds_agree (map_of d) (map_of e)"
    using assms(1,2) unfolding pm_ok_def by blast
  ultimately show ?thesis using assms(3) by (simp add: pm_ok_def)
qed

lemma pm_declare_ok:
  assumes "pm_ok st" "valid_prefix p" "doc_ok document"
  shows "pm_ok (snd (pm_declare st p document))"
proof (cases "pm_check_family st (pfx_family p)")
  case (Inl e)
  then show ?thesis using assms(1) by (simp add: pm_declare_def)
next
  case (Inr u)
  then have fam: "pfx_family p = pm_family st" by (simp add: pm_check_family_def)
  let ?ds = "pm_declarations st"
  let ?C = "\<forall>(q, d) \<in> set ?ds. q \<noteq> p \<and> on_path q p \<longrightarrow> kinds_agree (map_of d) (map_of document)"
  have chk: "pm_check_path p document ?ds = guardE ?C ValueError"
    using assms fam by (intro pm_check_path_eq) (auto simp: doc_ok_def pm_ok_def)
  show ?thesis
  proof (cases ?C)
    case False
    then have "pm_check_path p document ?ds = Inl ValueError" unfolding chk guardE_def by (rule if_not_P)
    then show ?thesis using assms(1) Inr by (simp add: pm_declare_def)
  next
    case True
    let ?new = "AList.update p document ?ds"
    have "pm_check_path p document ?ds = Inr ()" unfolding chk guardE_def by (rule if_P[OF True])
    then have res: "snd (pm_declare st p document) = st\<lparr>pm_declarations := ?new\<rparr>"
      using Inr by (simp add: pm_declare_def)
    have dist: "distinct (map fst ?new)" using assms(1) by (simp add: pm_ok_def distinct_update)
    have mem: "(q, d) \<in> set ?new \<longleftrightarrow> (q = p \<and> d = document) \<or> (q \<noteq> p \<and> (q, d) \<in> set ?ds)" for q d
    proof -
      have "(q, d) \<in> set ?new \<longleftrightarrow> map_of ?new q = Some d" using dist by simp
      moreover have "(q, d) \<in> set ?ds \<longleftrightarrow> map_of ?ds q = Some d" using assms(1) by (simp add: pm_ok_def)
      ultimately show ?thesis by (auto simp: update_conv')
    qed
    have old: "on_path q r \<Longrightarrow> kinds_agree (map_of d) (map_of e)"
      if "(q, d) \<in> set ?ds" "(r, e) \<in> set ?ds" for q d r e
      using assms(1) that by (auto simp: pm_ok_def)
    have fams: "(q, d) \<in> set ?ds \<Longrightarrow> pfx_family q = pfx_family p \<and> valid_prefix q \<and> doc_ok d" for q d
      using assms(1) fam by (auto simp: pm_ok_def)
    have agree: "kinds_agree (map_of d) (map_of e)"
      if "(q, d) \<in> set ?new" "(r, e) \<in> set ?new" "on_path q r" for q d r e
    proof -
      have self: "kinds_agree m m" for m by (simp add: kinds_agree_def)
      have new: "kinds_agree (map_of d) (map_of document)" if "(q, d) \<in> set ?ds" "q \<noteq> p" "on_path q p" for q d
        using True that by blast
      show ?thesis
      proof (cases "r = p")
        case True
        then have e: "e = document" using that(2) mem[of r e] by auto
        show ?thesis
        proof (cases "q = p")
          case True
          then show ?thesis using that(1) mem[of q d] e self by auto
        next
          case False
          then show ?thesis using that(1,3) mem[of q d] e \<open>r = p\<close> new[of q d] by auto
        qed
      next
        case False
        then have r: "(r, e) \<in> set ?ds" using that(2) mem[of r e] by auto
        show ?thesis
        proof (cases "q = p")
          case True
          then have "on_path r p" using that(3) on_path_sym[of r p] fams[OF r] by simp
          then show ?thesis using new[OF r False] that(1) mem[of q d] True kinds_agree_sym by auto
        next
          case False
          then show ?thesis using that(1,3) mem[of q d] old[OF _ r] by auto
        qed
      qed
    qed
    show ?thesis
      unfolding res pm_ok_def using dist mem fams agree assms(2,3) fam by auto
  qed
qed

lemma pm_revoke_ok: "pm_ok st \<Longrightarrow> pm_ok (snd (pm_revoke st p))"
proof -
  assume a: "pm_ok st"
  have "distinct (map fst (AList.delete p (pm_declarations st)))"
    using a by (simp add: pm_ok_def distinct_delete)
  then show ?thesis
    using a pm_ok_sub[OF a, of "AList.delete p (pm_declarations st)"]
    by (auto simp: pm_revoke_def AList.delete_eq split: sum.splits)
qed

section \<open>Reads\<close>

definition pm_path :: "pm_store \<Rightarrow> prefix \<Rightarrow> int \<Rightarrow> metadata list" where
  "pm_path st p through =
     concat (map (\<lambda>l. case map_of (pm_declarations st) (prefix_at (pm_family st) (pfx_network p) l) of
                        None \<Rightarrow> [] | Some d \<Rightarrow> [d]) [0 .. through])"

lemma on_path_ancestors:
  assumes "0 \<le> k" "k \<le> l" "l \<le> bit_length f"
  shows "on_path (prefix_at f v k) (prefix_at f v l)"
proof -
  have "nat (bit_length f - l) \<le> nat (bit_length f - k)" using assms by simp
  then show ?thesis
    using assms by (simp add: on_path_def prefix_at_def net_of_def min_def drop_bit_push_bit)
qed

lemma pm_path_docs:
  assumes "pm_ok st" "d \<in> set (pm_path st p through)"
  shows "doc_ok d"
  using assms by (auto simp: pm_path_def pm_ok_def split: option.splits dest!: map_of_SomeD)

lemma pm_path_agree:
  assumes "pm_ok st" "through \<le> bit_length (pm_family st)"
  shows "sorted_wrt (\<lambda>d e. kinds_agree (map_of d) (map_of e)) (pm_path st p through)"
proof -
  let ?f = "pm_family st" and ?v = "pfx_network p"
  let ?g = "\<lambda>l. case map_of (pm_declarations st) (prefix_at ?f ?v l) of None \<Rightarrow> [] | Some d \<Rightarrow> [d]"
  have pair: "kinds_agree (map_of d) (map_of e)"
    if "0 \<le> k" "k \<le> l" "l \<le> through" "d \<in> set (?g k)" "e \<in> set (?g l)" for k l d e
    using that assms on_path_ancestors[of k l ?f ?v]
    by (auto simp: pm_ok_def split: option.splits dest!: map_of_SomeD)
  have "sorted_wrt (\<lambda>d e. kinds_agree (map_of d) (map_of e)) (concat (map ?g ls))"
    if "sorted ls" "set ls \<subseteq> {0 .. through}" for ls
    using that
  proof (induction ls)
    case (Cons k ls)
    have "sorted_wrt (\<lambda>d e. kinds_agree (map_of d) (map_of e)) (?g k)" by (simp split: option.splits)
    moreover have "kinds_agree (map_of d) (map_of e)" if de: "d \<in> set (?g k)" "e \<in> set (concat (map ?g ls))" for d e
    proof -
      obtain l where "l \<in> set ls" "e \<in> set (?g l)" using de(2) by auto
      then show ?thesis using pair[of k l d e] de(1) Cons.prems by auto
    qed
    ultimately show ?case using Cons by (auto simp: sorted_wrt_append)
  qed simp
  then show ?thesis unfolding pm_path_def by simp
qed

lemma pm_fold_ok:
  assumes "pm_ok st" "through \<le> bit_length (pm_family st)"
  shows "\<exists>r. pm_fold st p through = Inr r \<and> doc_ok r \<and> map_of r = path_join Map.empty (pm_path st p through)"
proof (cases "pm_declarations st = []")
  case True
  then have "pm_path st p through = []" by (simp add: pm_path_def)
  with True show ?thesis by (simp add: pm_fold_def EMPTY_METADATA_def doc_ok_def path_join_def)
next
  case False
  have "mapE (\<lambda>l. bindE (pm_ancestor st p l) (\<lambda>anc.
          Inr (case map_of (pm_declarations st) anc of None \<Rightarrow> [] | Some d \<Rightarrow> [d]))) [0 .. through] =
      Inr (map (\<lambda>l. case map_of (pm_declarations st) (prefix_at (pm_family st) (pfx_network p) l) of
                      None \<Rightarrow> [] | Some d \<Rightarrow> [d]) [0 .. through])"
  proof (rule mapE_all_Inr)
    fix l assume "l \<in> set [0 .. through]"
    then have "pm_ancestor st p l = Inr (prefix_at (pm_family st) (pfx_network p) l)"
      using assms(2) mk_prefix_valid[of l "pm_family st" "pfx_network p"]
      by (simp add: pm_ancestor_def prefix_at_def net_of_def Let_def)
    then show "bindE (pm_ancestor st p l) (\<lambda>anc.
          Inr (case map_of (pm_declarations st) anc of None \<Rightarrow> [] | Some d \<Rightarrow> [d])) =
        Inr (case map_of (pm_declarations st) (prefix_at (pm_family st) (pfx_network p) l) of None \<Rightarrow> [] | Some d \<Rightarrow> [d])"
      by simp
  qed
  moreover obtain r where "combine_path (pm_path st p through) = Inr r" "doc_ok r"
    "map_of r = path_join Map.empty (pm_path st p through)"
    using combine_path_ok[of "pm_path st p through"] pm_path_docs[OF assms(1)] pm_path_agree[OF assms] by blast
  ultimately show ?thesis using False by (simp add: pm_fold_def pm_path_def)
qed

section \<open>Sequences of declarations\<close>

datatype pm_op = Declare prefix metadata | Revoke prefix | ClearAll

definition pm_op_ok :: "pm_op \<Rightarrow> bool" where
  "pm_op_ok op = (case op of Declare p d \<Rightarrow> valid_prefix p \<and> doc_ok d | _ \<Rightarrow> True)"

definition pm_apply :: "pm_op \<Rightarrow> pm_store \<Rightarrow> pm_store" where
  "pm_apply op st = (case op of
      Declare p d \<Rightarrow> snd (pm_declare st p d)
    | Revoke p \<Rightarrow> snd (pm_revoke st p)
    | ClearAll \<Rightarrow> pm_clear st)"

lemma pm_apply_ok: "pm_ok st \<Longrightarrow> pm_op_ok op \<Longrightarrow> pm_ok (pm_apply op st)"
  using pm_declare_ok pm_revoke_ok pm_ok_sub[of st "[]"]
  by (cases op) (auto simp: pm_apply_def pm_op_ok_def pm_clear_def)

lemma pm_apply_family [simp]: "pm_family (pm_apply op st) = pm_family st"
  by (auto simp: pm_apply_def pm_declare_def pm_revoke_def pm_clear_def split: pm_op.splits sum.splits)

lemma pm_run_ok:
  "pm_ok st \<Longrightarrow> \<forall>op \<in> set ops. pm_op_ok op \<Longrightarrow>
   pm_ok (fold pm_apply ops st) \<and> pm_family (fold pm_apply ops st) = pm_family st"
  by (induction ops arbitrary: st) (auto simp: pm_apply_ok)

lemma pm_new_ok [simp]: "pm_ok (pm_new f)"
  by (simp add: pm_ok_def pm_new_def)

text \<open>C25: After any sequence of declarations (accepted or refused), revocations and clears, the
  effective metadata of every address of the family is defined: no lookup meets a key with two
  kinds, and the result is the fold of the documents declared on the address's path, from /0 to the
  host route.\<close>

theorem effective_never_raises:
  assumes "\<forall>op \<in> set ops. pm_op_ok op" "valid_address a" "addr_family a = f"
  shows "\<exists>r. pm_effective (fold pm_apply ops (pm_new f)) a = Inr r \<and>
    map_of r = path_join Map.empty
      (pm_path (fold pm_apply ops (pm_new f)) (prefix_at f (addr_value a) (bit_length f)) (bit_length f))"
proof -
  let ?st = "fold pm_apply ops (pm_new f)"
  have st: "pm_ok ?st" "pm_family ?st = f" using pm_run_ok[OF pm_new_ok assms(1)] by (simp_all add: pm_new_def)
  have host: "mk_prefix f (addr_value a) (bit_length f) = Inr (prefix_at f (addr_value a) (bit_length f))"
    by (simp add: prefix_at_def)
  obtain r where "pm_fold ?st (prefix_at f (addr_value a) (bit_length f)) (bit_length f) = Inr r"
    "map_of r = path_join Map.empty (pm_path ?st (prefix_at f (addr_value a) (bit_length f)) (bit_length f))"
    using pm_fold_ok[OF st(1), of "bit_length f"] st(2) by auto
  then show ?thesis
    using st(2) assms(3) host by (simp add: pm_effective_def pm_check_family_def prefix_at_def)
qed

theorem effective_never_raises_witness:
  "\<exists>r. pm_effective (fold pm_apply [Declare \<lparr>pfx_family = IPV4, pfx_network = 0, pfx_length = 0\<rparr> [(''k'', Bitmask 1)],
        Declare \<lparr>pfx_family = IPV4, pfx_network = 0, pfx_length = 1\<rparr> [(''k'', Tags {})]] (pm_new IPV4))
      \<lparr>addr_family = IPV4, addr_value = 5\<rparr> = Inr r"
  using effective_never_raises[of "[Declare \<lparr>pfx_family = IPV4, pfx_network = 0, pfx_length = 0\<rparr> [(''k'', Bitmask 1)],
        Declare \<lparr>pfx_family = IPV4, pfx_network = 0, pfx_length = 1\<rparr> [(''k'', Tags {})]]"
      "\<lparr>addr_family = IPV4, addr_value = 5\<rparr>" IPV4]
  by (auto simp: pm_op_ok_def valid_prefix_def mk_prefix_def bit_length_def doc_ok_def valid_address_def)

text \<open>The effective metadata of a prefix is its inherited metadata combined with its own
  declaration, which is the more specific of the two.\<close>

theorem effective_is_inherited_then_local:
  assumes "valid_prefix p" "pfx_family p = pm_family st"
  shows "pm_effective_for_prefix st p = bindE (pm_inherited st p) (\<lambda>above. bindE (pm_local st p) (\<lambda>own. combine above own))"
proof (cases "pm_declarations st = []")
  case True
  then show ?thesis
    using assms by (simp add: pm_effective_for_prefix_def pm_inherited_def pm_local_def pm_fold_def
        pm_check_family_def EMPTY_METADATA_def combine_def)
next
  case False
  let ?l = "pfx_length p"
  let ?g = "\<lambda>l. bindE (pm_ancestor st p l) (\<lambda>anc.
      Inr (case map_of (pm_declarations st) anc of None \<Rightarrow> [] | Some d \<Rightarrow> [d]))"
  have l: "0 \<le> ?l" "?l \<le> bit_length (pm_family st)" using assms by (auto simp: valid_prefix_iff)
  have own: "pm_ancestor st p ?l = Inr p"
    using assms mk_prefix_valid[of ?l "pm_family st" "pfx_network p"] l
    by (simp add: pm_ancestor_def Let_def valid_prefix_iff net_of_def)
  have "mapE ?g [0 .. ?l - 1] = Inr (map (\<lambda>l. case map_of (pm_declarations st) (prefix_at (pm_family st) (pfx_network p) l) of
      None \<Rightarrow> [] | Some d \<Rightarrow> [d]) [0 .. ?l - 1])"
    using l mk_prefix_valid[of _ "pm_family st" "pfx_network p"]
    by (intro mapE_all_Inr) (simp add: pm_ancestor_def prefix_at_def net_of_def Let_def)
  then obtain css where css: "mapE ?g [0 .. ?l - 1] = Inr css" by blast
  let ?own = "case map_of (pm_declarations st) p of None \<Rightarrow> [] | Some d \<Rightarrow> [d]"
  have "mapE ?g ([0 .. ?l - 1] @ [?l]) = Inr (css @ [?own])"
    using css own by (intro mapE_append) simp_all
  moreover have "[0 .. ?l] = [0 .. ?l - 1] @ [?l]" using l upto_rec2[of 0 ?l] by simp
  ultimately have full: "mapE ?g [0 .. ?l] = Inr (css @ [?own])" by simp
  have "combine_fold r ?own = combine r (case map_of (pm_declarations st) p of None \<Rightarrow> EMPTY_METADATA | Some d \<Rightarrow> d)" for r
    by (cases "map_of (pm_declarations st) p"; cases "combine r (the (map_of (pm_declarations st) p))")
      (auto simp: combine_def EMPTY_METADATA_def)
  then show ?thesis
    using False assms(2) css full
    by (simp add: pm_effective_for_prefix_def pm_inherited_def pm_local_def pm_fold_def pm_check_family_def
        combine_path_def combine_fold_append)
qed

theorem effective_is_inherited_then_local_witness:
  "pm_effective_for_prefix (snd (pm_declare (pm_new IPV4) \<lparr>pfx_family = IPV4, pfx_network = 0, pfx_length = 8\<rparr> [(''k'', Bitmask 1)]))
      \<lparr>pfx_family = IPV4, pfx_network = 0, pfx_length = 8\<rparr> =
   bindE (pm_inherited (snd (pm_declare (pm_new IPV4) \<lparr>pfx_family = IPV4, pfx_network = 0, pfx_length = 8\<rparr> [(''k'', Bitmask 1)]))
      \<lparr>pfx_family = IPV4, pfx_network = 0, pfx_length = 8\<rparr>) (\<lambda>above.
     bindE (pm_local (snd (pm_declare (pm_new IPV4) \<lparr>pfx_family = IPV4, pfx_network = 0, pfx_length = 8\<rparr> [(''k'', Bitmask 1)]))
      \<lparr>pfx_family = IPV4, pfx_network = 0, pfx_length = 8\<rparr>) (\<lambda>own. combine above own))"
  by (rule effective_is_inherited_then_local)
    (simp_all add: valid_prefix_def mk_prefix_def bit_length_def pm_declare_def pm_new_def pm_check_family_def)

end
