(* ===== verification/Trie_Theorems.thy ===== *)
theory Trie_Theorems
  imports Ip_Attributes Metadata_Store
begin

text \<open>
  What the trie component promises its callers, stated on the code's own operations: the two
  representations are interchangeable, both follow the set of HOT addresses, the queries answer from
  that set, the runtime checks accept what the operations build, and the per-IP records stay coupled
  to the trie. Each statement instantiates a law of the contract through the interpretations of
  \<open>hot_trie_impl\<close>, \<open>hot_trie_pair\<close> and \<open>hot_trie_nodes\<close>.
\<close>

section \<open>Runs from the empty trie\<close>

lemma bt_new_ok: "binary_invar (bt_new f)" "binary_set (bt_new f) = {}" "ht_family binary_ops (bt_new f) = f"
  by (simp_all add: bt_new_def binary_invar_def binary_set_def)

lemma pt_new_family: "ht_family patricia_ops (pt_new f) = f"
  by (simp add: pt_new_def)

lemma pt_run:
  assumes "\<forall>c \<in> set cs. op_address_ok f c"
  shows "\<exists>pt. trie_run patricia_ops (pt_new f) cs = Some (fst (spec_run {} cs), pt) \<and> patricia_invar pt \<and>
    patricia_set pt = snd (spec_run {} cs) \<and> pt_family pt = f"
  using pat.run_refines[of "pt_new f" cs] assms patricia_empty(1,2)[of f] pt_new_family[of f] by auto

abbreviation host4 :: "int \<Rightarrow> address" where
  "host4 v \<equiv> \<lparr>addr_family = IPV4, addr_value = v\<rparr>"

definition sample_ops :: "trie_op list" where
  "sample_ops = [AddHotIp (host4 1), AddHotIp (host4 3), AddHotIp (host4 1), RemoveHotIp (host4 3)]"

lemma sample_ops_ok: "\<forall>c \<in> set sample_ops. op_address_ok IPV4 c"
  by (simp add: sample_ops_def op_address_ok_def valid_address_def bit_length_def)

lemma sample_run: "spec_run {} sample_ops = ([True, True, False, True], {1})"
  by (auto simp: sample_ops_def spec_op_def)

interpretation pat_pat: hot_trie_pair patricia_ops patricia_invar patricia_set patricia_ops patricia_invar patricia_set
  by unfold_locales

section \<open>Equivalence and refinement\<close>

text \<open>C18: The Patricia trie and the binary trie are interchangeable. Any sequence of
  \<open>add_hot_ip\<close>, \<open>remove_hot_ip\<close> and \<open>clear\<close> on valid addresses of the family returns on both, with the same answers,
  and afterwards every query gives the same result on both, errors included.\<close>

theorem patricia_equals_binary:
  assumes "\<forall>c \<in> set cs. op_address_ok f c"
  shows "\<exists>bs pt bt. trie_run patricia_ops (pt_new f) cs = Some (bs, pt) \<and>
    trie_run binary_ops (bt_new f) cs = Some (bs, bt) \<and> same_queries patricia_ops binary_ops pt bt"
  using pat_bin.runs_equivalent[of "pt_new f" "bt_new f" cs] assms bt_new_ok[of f] patricia_empty(1,2)[of f] pt_new_family[of f]
  by auto

theorem patricia_equals_binary_witness:
  "\<exists>bs pt bt. trie_run patricia_ops (pt_new IPV4) sample_ops = Some (bs, pt) \<and>
    trie_run binary_ops (bt_new IPV4) sample_ops = Some (bs, bt) \<and> same_queries patricia_ops binary_ops pt bt"
  using patricia_equals_binary[OF sample_ops_ok] .

text \<open>C19: Every sequence of mutations on a new Patricia trie returns, answers what the set of HOT
  addresses answers (whether it changed), and leaves a well-formed trie of exactly that set.\<close>

theorem patricia_refines_hot_set:
  assumes "\<forall>c \<in> set cs. op_address_ok f c"
  shows "\<exists>pt. trie_run patricia_ops (pt_new f) cs = Some (fst (spec_run {} cs), pt) \<and> patricia_invar pt \<and>
    patricia_set pt = snd (spec_run {} cs) \<and>
    pt_node_count pt = max 0 (2 * int (card (snd (spec_run {} cs))) - 1)"
  using pt_run[OF assms] pt_node_count_correct by fastforce

theorem patricia_refines_hot_set_witness:
  "\<exists>pt. trie_run patricia_ops (pt_new IPV4) sample_ops = Some ([True, True, False, True], pt) \<and> patricia_invar pt \<and>
    patricia_set pt = {1} \<and> pt_node_count pt = 1"
  using patricia_refines_hot_set[OF sample_ops_ok] by (simp add: sample_run)

text \<open>Every sequence of mutations on a new binary trie returns, answers what the set of HOT
  addresses answers, and leaves a well-formed trie of exactly that set.\<close>

theorem binary_refines_hot_set:
  assumes "\<forall>c \<in> set cs. op_address_ok f c"
  shows "\<exists>bt. trie_run binary_ops (bt_new f) cs = Some (fst (spec_run {} cs), bt) \<and> binary_invar bt \<and>
    binary_set bt = snd (spec_run {} cs)"
  using bt.run_refines[of "bt_new f" cs] assms bt_new_ok[of f] by auto

theorem binary_refines_hot_set_witness:
  "\<exists>bt. trie_run binary_ops (bt_new IPV4) sample_ops = Some ([True, True, False, True], bt) \<and> binary_invar bt \<and>
    binary_set bt = {1}"
  using binary_refines_hot_set[OF sample_ops_ok] by (simp add: sample_run)

text \<open>C21: On a well-formed Patricia trie every query returns and is a function of the HOT set: membership,
  the count below any prefix, the counts along an address's path, the longest matching prefix, and the
  two iterations in address order.\<close>

theorem patricia_queries_from_hot_set:
  assumes "patricia_invar pt" "valid_address a" "addr_family a = pt_family pt" "valid_prefix p"
    "pfx_family p = pt_family pt" "0 \<le> m" "m \<le> bit_length (pt_family pt)"
  shows "pt_contains pt a = Some (Inr (addr_value a \<in> patricia_set pt)) \<and>
    pt_hot_count pt p =
      Some (Inr (hot_below (bit_length (pt_family pt)) (patricia_set pt) (pfx_length p) (pfx_network p))) \<and>
    pt_ancestor_counts pt a m =
      Some (Inr (spec_ancestor_counts (pt_family pt) (patricia_set pt) (addr_value a) m)) \<and>
    pt_longest_matching_prefix pt a =
      Some (Inr (spec_longest_match (pt_family pt) (patricia_set pt) (addr_value a))) \<and>
    pt_iter_prefix_counts pt m = Some (Inr (spec_prefix_counts (pt_family pt) (patricia_set pt) m)) \<and>
    pt_iter_hot_addresses pt = Some (Inr (spec_hot_addresses (pt_family pt) (patricia_set pt)))"
  using assms pat.contains[of pt a] pat.hot_count[of pt p] pat.ancestor_counts[of pt a m] pat.longest_match[of pt a]
    pat.iter_prefix_counts[of pt m] pat.iter_hot_addresses[of pt]
  by simp

theorem patricia_queries_from_hot_set_witness:
  "\<exists>pt. trie_run patricia_ops (pt_new IPV4) sample_ops = Some ([True, True, False, True], pt) \<and>
    pt_contains pt (host4 1) = Some (Inr True) \<and> pt_contains pt (host4 3) = Some (Inr False)"
proof -
  let ?p = "\<lparr>pfx_family = IPV4, pfx_network = 0, pfx_length = 0\<rparr>"
  obtain pt where pt: "trie_run patricia_ops (pt_new IPV4) sample_ops = Some ([True, True, False, True], pt)"
    "patricia_invar pt" "patricia_set pt = {1}" "pt_family pt = IPV4"
    using pt_run[OF sample_ops_ok] by (auto simp: sample_run)
  have "valid_address (host4 1)" "valid_address (host4 3)" "valid_prefix ?p"
    by (simp_all add: valid_address_def valid_prefix_iff bit_length_def net_of_def)
  then show ?thesis
    using patricia_queries_from_hot_set[of pt "host4 1" ?p 0] patricia_queries_from_hot_set[of pt "host4 3" ?p 0] pt
    by auto
qed

text \<open>Adding an address that is not HOT and removing it again is a round trip: both calls answer
  \<open>True\<close>, and every query answers as before.\<close>

theorem patricia_add_remove_roundtrip:
  assumes "patricia_invar pt" "valid_address a" "addr_family a = pt_family pt" "addr_value a \<notin> patricia_set pt"
  shows "\<exists>pt1 pt2. pt_add_hot_ip pt a = Some (Inr True, pt1) \<and> pt_remove_hot_ip pt1 a = Some (Inr True, pt2) \<and>
    same_queries patricia_ops patricia_ops pt pt2"
proof -
  obtain pt1 where pt1: "pt_add_hot_ip pt a = Some (Inr True, pt1)" "patricia_invar pt1"
    "patricia_set pt1 = insert (addr_value a) (patricia_set pt)" "pt_family pt1 = pt_family pt"
    using pat.add[of pt a] assms by auto
  obtain pt2 where "pt_remove_hot_ip pt1 a = Some (Inr True, pt2)" "patricia_invar pt2"
    "patricia_set pt2 = patricia_set pt" "pt_family pt2 = pt_family pt"
    using pat.remove[of pt1 a] pt1 assms by auto
  with pt1 show ?thesis using pat_pat.same_set_same_queries[of pt pt2] assms by auto
qed

theorem patricia_add_remove_roundtrip_witness:
  "\<exists>pt1 pt2. pt_add_hot_ip (pt_new IPV4) (host4 5) = Some (Inr True, pt1) \<and>
    pt_remove_hot_ip pt1 (host4 5) = Some (Inr True, pt2) \<and> same_queries patricia_ops patricia_ops (pt_new IPV4) pt2"
  using patricia_add_remove_roundtrip[of "pt_new IPV4" "host4 5"] patricia_empty(1,2)[of IPV4]
  by (simp add: valid_address_def bit_length_def pt_new_def)

section \<open>The runtime checks\<close>

text \<open>C20: \<open>check_patricia\<close> decides the representation invariant. It passes exactly on the arenas that hold one
  path-compressed tree with correct counts and an exact free list, whatever the arena's contents, and
  raises \<open>InvariantViolation\<close> (and no other exception) on every other one.\<close>

theorem check_patricia_exact: "check_patricia pt = guardE (patricia_invar pt) InvariantViolation"
  by (rule check_patricia_decides)

text \<open>C24: After any sequence of mutations the full check of either representation passes: the stored
  counts are the counts recomputed from the HOT addresses, and no node is orphaned.\<close>

theorem runtime_checks_pass:
  assumes "\<forall>c \<in> set cs. op_address_ok f c"
    and "trie_run patricia_ops (pt_new f) cs = Some (bs, pt)" "trie_run binary_ops (bt_new f) cs = Some (bs', bt)"
  shows "check_trie_patricia pt = Some (Inr ()) \<and> check_trie_binary bt = Some (Inr ())"
  using pt_run[OF assms(1)] bt.run_refines[of "bt_new f" cs] bt_new_ok[of f] assms
  by (auto intro: check_trie_patricia_pass check_trie_binary_pass)

theorem runtime_checks_pass_witness:
  "\<exists>bs pt bs' bt. trie_run patricia_ops (pt_new IPV4) sample_ops = Some (bs, pt) \<and>
    trie_run binary_ops (bt_new IPV4) sample_ops = Some (bs', bt) \<and>
    check_trie_patricia pt = Some (Inr ()) \<and> check_trie_binary bt = Some (Inr ())"
  using runtime_checks_pass[OF sample_ops_ok] pt_run[OF sample_ops_ok]
    bt.run_refines[of "bt_new IPV4" sample_ops] bt_new_ok[of IPV4] sample_ops_ok
  by fastforce

text \<open>An address or prefix of the other family is a \<open>ValueError\<close> from every operation of the
  Patricia trie, and a refused mutation leaves the trie as it was.\<close>

theorem patricia_wrong_family:
  assumes "addr_family a \<noteq> pt_family pt" "pfx_family p \<noteq> pt_family pt"
  shows "pt_add_hot_ip pt a = Some (Inl ValueError, pt) \<and> pt_remove_hot_ip pt a = Some (Inl ValueError, pt) \<and>
    pt_contains pt a = Some (Inl ValueError) \<and> pt_ancestor_counts pt a m = Some (Inl ValueError) \<and>
    pt_longest_matching_prefix pt a = Some (Inl ValueError) \<and> pt_hot_count pt p = Some (Inl ValueError)"
  using pat.wrong_family[of a pt m] pat.wrong_prefix_family[of p pt] assms by simp

theorem patricia_wrong_family_witness:
  "pt_add_hot_ip (pt_new IPV6) (host4 1) = Some (Inl ValueError, pt_new IPV6)"
  using patricia_wrong_family[of "host4 1" "pt_new IPV6" "\<lparr>pfx_family = IPV4, pfx_network = 0, pfx_length = 0\<rparr>" 0]
  by (simp add: pt_new_def)

section \<open>Prefix statistics\<close>

interpretation pat_stats: hot_trie_stats patricia_ops patricia_invar patricia_set
  by unfold_locales

interpretation bt_stats: hot_trie_stats binary_ops binary_invar binary_set
  by unfold_locales

text \<open>The statistics of a prefix are the aggregate of its two halves' statistics, for every prefix
  length below the host length.\<close>

theorem patricia_aggregate_halves:
  assumes "patricia_invar pt" "0 \<le> l" "l < bit_length (pt_family pt)"
    and "n \<in> value_range (pt_family pt)" "n0 \<in> value_range (pt_family pt)" "n1 \<in> value_range (pt_family pt)"
    and "agree (bit_length (pt_family pt)) l n0 n" "agree (bit_length (pt_family pt)) l n1 n"
    and "\<not> msb (bit_length (pt_family pt)) l n0" "msb (bit_length (pt_family pt)) l n1"
  shows "\<exists>s s0 s1. prefix_stats_of patricia_ops pt (prefix_at (pt_family pt) n l) = Some (Inr s) \<and>
    prefix_stats_of patricia_ops pt (prefix_at (pt_family pt) n0 (l + 1)) = Some (Inr s0) \<and>
    prefix_stats_of patricia_ops pt (prefix_at (pt_family pt) n1 (l + 1)) = Some (Inr s1) \<and>
    aggregate (prefix_at (pt_family pt) n l) [s0, s1] = Inr s"
  using pat_stats.aggregate_halves[of pt l n n0 n1] assms by simp

theorem patricia_aggregate_halves_witness:
  "\<exists>s s0 s1. prefix_stats_of patricia_ops (pt_new IPV4) (prefix_at IPV4 0 31) = Some (Inr s) \<and>
    prefix_stats_of patricia_ops (pt_new IPV4) (prefix_at IPV4 0 32) = Some (Inr s0) \<and>
    prefix_stats_of patricia_ops (pt_new IPV4) (prefix_at IPV4 1 32) = Some (Inr s1) \<and>
    aggregate (prefix_at IPV4 0 31) [s0, s1] = Inr s"
proof -
  have "pt_family (pt_new IPV4) = IPV4" by (simp add: pt_new_def)
  moreover have "agree 32 31 1 0" by (auto simp: agree_def msb_def bit_1_iff)
  moreover have "msb 32 31 1" "\<not> msb 32 31 0" by (simp_all add: msb_def)
  ultimately show ?thesis
    using patricia_aggregate_halves[of "pt_new IPV4" 31 0 0 1] patricia_empty(1)[of IPV4]
    by (simp add: bit_length_def value_range_iff)
qed

section \<open>Bits\<close>

text \<open>\<open>common_prefix_length\<close> is the greatest length up to \<open>bits\<close> at which the two values agree on their
  leading bits.\<close>

theorem common_prefix_length_greatest:
  assumes "0 \<le> bits"
  shows "\<exists>n. common_prefix_length a b bits = Inr n \<and> 0 \<le> n \<and> n \<le> bits \<and>
    (\<forall>l. 0 \<le> l \<and> l \<le> bits \<longrightarrow> agree bits l a b = (l \<le> n))"
  using common_prefix_length_eq[OF assms, of a b] cpl_ge_iff[of _ bits a b] cpl_bounds[OF assms, of a b] by simp

theorem common_prefix_length_greatest_witness:
  "\<exists>n. common_prefix_length 10 8 4 = Inr n \<and> 0 \<le> n \<and> n \<le> 4 \<and>
    (\<forall>l. 0 \<le> l \<and> l \<le> 4 \<longrightarrow> agree 4 l 10 8 = (l \<le> n))"
  using common_prefix_length_greatest[of 4 10 8] by simp

section \<open>Records beside the trie\<close>

lemma pt_record_run:
  assumes "\<forall>c \<in> set cs. valid_address (record_op_address c)"
  shows "\<exists>s. record_run patricia_ops cs (pt_new f, ia_new f) = Some s \<and> pat.coupled s"
  using pat.coupled_run[of "(pt_new f, ia_new f)" cs] pat.coupled_new[of "pt_new f"] assms
    patricia_empty(1,2)[of f] pt_new_family[of f] by auto

text \<open>C22: Whatever sequence of \<open>HotIpAdded\<close> and \<open>HotIpRemoved\<close> steps is applied, with any documents and
  counts and whichever of them raise, the keys of the record map are exactly the HOT addresses of the
  trie, the byte total is the sum of the stored texts' lengths, and the record check passes.\<close>

theorem records_follow_hot_set:
  assumes "\<forall>c \<in> set cs. valid_address (record_op_address c)"
  shows "\<exists>pt m. record_run patricia_ops cs (pt_new f, ia_new f) = Some (pt, m) \<and> patricia_invar pt \<and>
    set (ia_iter m) = hot_addresses (pt_family pt) (patricia_set pt) \<and> distinct (ia_iter m) \<and>
    ia_serialized_bytes m = text_bytes (ia_records m) \<and>
    check_attribute_records patricia_ops pt (ia_iter m) = Some (Inr ())"
proof -
  obtain pt m where "record_run patricia_ops cs (pt_new f, ia_new f) = Some (pt, m)" "pat.coupled (pt, m)"
    using pt_record_run[OF assms, of f] by auto
  with pat.coupled_records_pass[of pt m] show ?thesis
    by (auto simp: pat.coupled_def ia_ok_def ia_iter_def ia_serialized_bytes_def)
qed

theorem records_follow_hot_set_witness:
  "\<exists>pt m. record_run patricia_ops [RecAdded (host4 7) None (ExactInt 3), RecAdded (host4 8) None OtherCount,
      RecRemoved (host4 9)] (pt_new IPV4, ia_new IPV4) = Some (pt, m) \<and> patricia_invar pt \<and>
    set (ia_iter m) = hot_addresses (pt_family pt) (patricia_set pt) \<and> distinct (ia_iter m) \<and>
    ia_serialized_bytes m = text_bytes (ia_records m) \<and>
    check_attribute_records patricia_ops pt (ia_iter m) = Some (Inr ())"
  by (rule records_follow_hot_set) (simp add: record_op_address_def valid_address_def bit_length_def)

text \<open>A step that raises changes nothing: neither the trie nor the records, in any state the steps
  can reach; and every step returns.\<close>

theorem record_step_atomic:
  assumes "\<forall>c \<in> set (c # cs). valid_address (record_op_address c)"
    and "record_run patricia_ops cs (pt_new f, ia_new f) = Some s"
  shows "\<exists>r s'. record_step patricia_ops c s = Some (r, s') \<and> (\<forall>e. r = Inl e \<longrightarrow> s' = s)"
  using pt_record_run[of cs f] pat.coupled_step[of s c] assms by fastforce

theorem record_step_atomic_witness:
  "\<exists>r s'. record_step patricia_ops (RecAdded (host4 8) None OtherCount) (pt_new IPV4, ia_new IPV4) = Some (r, s') \<and>
    (\<forall>e. r = Inl e \<longrightarrow> s' = (pt_new IPV4, ia_new IPV4))"
  by (rule record_step_atomic[where cs = "[]" and f = IPV4])
     (simp_all add: record_op_address_def valid_address_def bit_length_def)

end
