(* ===== verification/Core_State.thy ===== *)
theory Core_State
  imports Hammertime_Prelude
begin

text \<open>
  The domain core of \<open>hammertime.core\<close>: detection configuration and its loading
  (\<open>config.models\<close>, \<open>config.loader\<close>), time buckets (\<open>time.buckets\<close>), the HOT/COLD state machine
  (\<open>state.enums\<close>, \<open>state.machine\<close>, \<open>state.transitions\<close>) and the weight of a transition
  (\<open>state.weight\<close>), with the aggregator's lateness policy (\<open>aggregator.lateness\<close>). Python's
  \<open>//\<close> and \<open>%\<close> on integers are HOL's \<open>div\<close> and \<open>mod\<close> (both floor) except that a zero divisor raises.
  The one float of the configuration, \<open>minimum_hot_ratio\<close>, is its exact rational value, or \<open>None\<close>
  for a value that is not finite; it only meets the range check.
\<close>

section \<open>Time buckets\<close>

definition bucket_start :: "int \<Rightarrow> int \<Rightarrow> int" where
  "bucket_start event_epoch_seconds bucket_seconds = event_epoch_seconds div bucket_seconds * bucket_seconds"

definition bucket_index :: "int \<Rightarrow> int \<Rightarrow> int \<Rightarrow> int" where
  "bucket_index event_epoch_seconds bucket_seconds bucket_count =
     event_epoch_seconds div bucket_seconds mod bucket_count"

definition is_within_lateness :: "int \<Rightarrow> int \<Rightarrow> int \<Rightarrow> int \<Rightarrow> bool" where
  "is_within_lateness event_epoch now_epoch window_seconds allowed_lateness =
     (let age = now_epoch - event_epoch in
      if age < 0 then False else age \<le> window_seconds + allowed_lateness)"

lemma bucket_start_bounds:
  "0 < B \<Longrightarrow> bucket_start t B \<le> t \<and> t < bucket_start t B + B"
  using div_mult_mod_eq[of t B] pos_mod_bound[of B t] pos_mod_sign[of B t] unfolding bucket_start_def by linarith

lemma bucket_start_dvd [simp]: "B dvd bucket_start t B"
  by (simp add: bucket_start_def)

lemma bucket_start_mono: "0 < B \<Longrightarrow> s \<le> t \<Longrightarrow> bucket_start s B \<le> bucket_start t B"
  by (simp add: bucket_start_def zdiv_mono1)

lemma bucket_start_aligned [simp]: "B dvd s \<Longrightarrow> bucket_start s B = s"
  by (simp add: bucket_start_def)

lemma bucket_start_lt_iff: "0 < B \<Longrightarrow> B dvd s \<Longrightarrow> bucket_start t B < s \<longleftrightarrow> t < s"
  using bucket_start_bounds[of B t] bucket_start_mono[of B s t] by fastforce

section \<open>Detection configuration\<close>

record detection_config =
  config_version :: int
  window_seconds :: int
  bucket_seconds :: int
  hot_threshold :: int
  cold_threshold :: int
  minimum_hot_ips :: int
  minimum_hot_ratio :: "rat option"
  allowed_lateness_seconds :: int
  state_retention_seconds :: int
  weight_function :: string
  weight_max :: int

definition WEIGHT_FUNCTIONS :: "string list" where
  "WEIGHT_FUNCTIONS = [''threshold_ratio'']"

text \<open>\<open>__post_init__\<close>, check by check; a zero \<open>bucket_seconds\<close> makes the modulo raise.\<close>

definition mk_detection_config :: "detection_config \<Rightarrow> detection_config result" where
  "mk_detection_config c =
     (if config_version c < 1 then Inl ConfigurationError
      else if cold_threshold c \<ge> hot_threshold c then Inl ConfigurationError
      else if bucket_seconds c = 0 then Inl ZeroDivisionError
      else if window_seconds c mod bucket_seconds c \<noteq> 0 then Inl ConfigurationError
      else if state_retention_seconds c < window_seconds c then Inl ConfigurationError
      else if \<not> (case minimum_hot_ratio c of None \<Rightarrow> False | Some r \<Rightarrow> 0 \<le> r \<and> r \<le> 1) then Inl ConfigurationError
      else if weight_function c \<notin> set WEIGHT_FUNCTIONS then Inl ConfigurationError
      else if \<not> (1000 \<le> weight_max c \<and> weight_max c \<le> 1000000) then Inl ConfigurationError
      else Inr c)"

definition bucket_count :: "detection_config \<Rightarrow> int" where
  "bucket_count c = window_seconds c div bucket_seconds c"

definition DEFAULT_CONFIG :: detection_config where
  "DEFAULT_CONFIG = \<lparr>config_version = 1, window_seconds = 300, bucket_seconds = 10, hot_threshold = 1000,
     cold_threshold = 800, minimum_hot_ips = 16, minimum_hot_ratio = Some (1 / 10),
     allowed_lateness_seconds = 30, state_retention_seconds = 600,
     weight_function = ''threshold_ratio'', weight_max = 1000000\<rparr>"

text \<open>A configuration the constructor accepts, and one that also respects the minimums that
  \<open>schemas/detection_config.v1.json\<close> states and the constructor does not test.\<close>

definition config_accepted :: "detection_config \<Rightarrow> bool" where
  "config_accepted c \<longleftrightarrow> mk_detection_config c = Inr c"

definition config_ok :: "detection_config \<Rightarrow> bool" where
  "config_ok c \<longleftrightarrow> config_accepted c \<and> 1 \<le> window_seconds c \<and> 1 \<le> bucket_seconds c \<and> 1 \<le> hot_threshold c \<and>
     0 \<le> cold_threshold c \<and> 0 \<le> allowed_lateness_seconds c"

lemma DEFAULT_CONFIG_ok [simp]: "config_ok DEFAULT_CONFIG"
  by (simp add: config_ok_def config_accepted_def mk_detection_config_def DEFAULT_CONFIG_def WEIGHT_FUNCTIONS_def)

lemma config_ok_facts:
  assumes "config_ok c"
  shows "0 < bucket_seconds c" "0 < bucket_count c" "bucket_seconds c * bucket_count c = window_seconds c"
    "bucket_seconds c dvd window_seconds c" "0 < hot_threshold c" "cold_threshold c < hot_threshold c"
    "window_seconds c \<le> state_retention_seconds c" "weight_function c = ''threshold_ratio''"
    "1000 \<le> weight_max c" "weight_max c \<le> 1000000" "0 < window_seconds c" "0 \<le> allowed_lateness_seconds c"
proof -
  have "window_seconds c mod bucket_seconds c = 0" and pos: "0 < bucket_seconds c" "0 < window_seconds c"
    using assms by (auto simp: config_ok_def config_accepted_def mk_detection_config_def split: if_splits)
  then show dvd: "bucket_seconds c dvd window_seconds c" by auto
  then show eq: "bucket_seconds c * bucket_count c = window_seconds c" by (simp add: bucket_count_def)
  show "0 < bucket_count c" using eq pos by (metis zero_less_mult_pos)
qed (use assms in \<open>auto simp: config_ok_def config_accepted_def mk_detection_config_def WEIGHT_FUNCTIONS_def split: if_splits\<close>)

section \<open>Loading a configuration document\<close>

text \<open>What \<open>json.loads\<close> returned, as far as the loader tells values apart: a number with a fractional
  part or exponent is its rational value, \<open>None\<close> for \<open>NaN\<close> and the infinities.\<close>

datatype cfg_value = CvInt int | CvBool bool | CvFloat "rat option" | CvStr string | CvOther

datatype cfg_document = CdObject "(string \<times> cfg_value) list" | CdOther

definition REQUIRED_KEYS :: "string list" where
  "REQUIRED_KEYS = [''config_version'', ''window_seconds'', ''bucket_seconds'', ''hot_threshold'',
     ''cold_threshold'', ''minimum_hot_ips'', ''minimum_hot_ratio'']"

definition KNOWN_KEYS :: "string list" where
  "KNOWN_KEYS = REQUIRED_KEYS @ [''allowed_lateness_seconds'', ''state_retention_seconds'',
     ''weight_function'', ''weight_max'']"

definition INTEGER_KEYS :: "string list" where
  "INTEGER_KEYS = filter (\<lambda>k. k \<noteq> ''minimum_hot_ratio'' \<and> k \<noteq> ''weight_function'') KNOWN_KEYS"

definition is_cv_int :: "cfg_value \<Rightarrow> bool" where
  "is_cv_int v = (case v of CvInt n \<Rightarrow> True | _ \<Rightarrow> False)"

definition validate_document :: "cfg_document \<Rightarrow> (string \<times> cfg_value) list result" where
  "validate_document d = (case d of
      CdOther \<Rightarrow> Inl ConfigurationError
    | CdObject data \<Rightarrow>
        if \<not> list_all (\<lambda>k. map_of data k \<noteq> None) REQUIRED_KEYS then Inl ConfigurationError
        else if \<not> list_all (\<lambda>(k, v). k \<in> set KNOWN_KEYS) data then Inl ConfigurationError
        else if \<not> list_all (\<lambda>k. case map_of data k of None \<Rightarrow> True | Some v \<Rightarrow> is_cv_int v) INTEGER_KEYS
        then Inl ConfigurationError
        else (case map_of data ''weight_function'' of
                None \<Rightarrow> Inr data
              | Some (CvStr w) \<Rightarrow> if w \<in> set WEIGHT_FUNCTIONS then Inr data else Inl ConfigurationError
              | Some _ \<Rightarrow> Inl ConfigurationError))"

definition cfg_int :: "(string \<times> cfg_value) list \<Rightarrow> string \<Rightarrow> int \<Rightarrow> int" where
  "cfg_int data k dflt = (case map_of data k of Some (CvInt n) \<Rightarrow> n | _ \<Rightarrow> dflt)"

text \<open>\<open>0.0 <= value <= 1.0\<close> is a \<open>TypeError\<close> for a string or a container, which \<open>load\<close> turns into a
  \<open>ConfigurationError\<close>; a \<open>bool\<close> compares as 0 or 1.\<close>

definition cfg_ratio :: "cfg_value \<Rightarrow> rat option result" where
  "cfg_ratio v = (case v of
      CvInt n \<Rightarrow> Inr (Some (of_int n))
    | CvBool b \<Rightarrow> Inr (Some (of_bool b))
    | CvFloat r \<Rightarrow> Inr r
    | _ \<Rightarrow> Inl TypeError)"

definition build_config :: "(string \<times> cfg_value) list \<Rightarrow> rat option \<Rightarrow> detection_config" where
  "build_config data ratio =
     \<lparr>config_version = cfg_int data ''config_version'' 1, window_seconds = cfg_int data ''window_seconds'' 300,
      bucket_seconds = cfg_int data ''bucket_seconds'' 10, hot_threshold = cfg_int data ''hot_threshold'' 1000,
      cold_threshold = cfg_int data ''cold_threshold'' 800, minimum_hot_ips = cfg_int data ''minimum_hot_ips'' 16,
      minimum_hot_ratio = ratio,
      allowed_lateness_seconds = cfg_int data ''allowed_lateness_seconds'' 30,
      state_retention_seconds = cfg_int data ''state_retention_seconds'' 600,
      weight_function = ''threshold_ratio'', weight_max = cfg_int data ''weight_max'' 1000000\<rparr>"

text \<open>\<open>load\<close> after the file is read; \<open>None\<close> is a file that cannot be read or is not JSON. The checks
  before the ratio's comparison run first, so a \<open>TypeError\<close> only arises when they passed.\<close>

definition load_config :: "cfg_document option \<Rightarrow> detection_config result" where
  "load_config raw = (case raw of
      None \<Rightarrow> Inl ConfigurationError
    | Some d \<Rightarrow> bindE (validate_document d) (\<lambda>data.
        (case map_of data ''minimum_hot_ratio'' of
           None \<Rightarrow> Inl ConfigurationError
         | Some v \<Rightarrow>
             (case cfg_ratio v of
                Inr r \<Rightarrow> mk_detection_config (build_config data r)
              | Inl _ \<Rightarrow>
                  (case mk_detection_config (build_config data (Some 0)) of
                     Inl ZeroDivisionError \<Rightarrow> Inl ZeroDivisionError
                   | _ \<Rightarrow> Inl ConfigurationError)))))"

section \<open>The state machine\<close>

datatype ip_state = COLD | HOT

datatype prefix_state = NORMAL | HOT_PREFIX | BOT_NETWORK

definition evaluate_ip_state :: "ip_state \<Rightarrow> int \<Rightarrow> detection_config \<Rightarrow> ip_state" where
  "evaluate_ip_state previous count config =
     (if previous = COLD then if count \<ge> hot_threshold config then HOT else COLD
      else if count < cold_threshold config then COLD
      else HOT)"

record state_transition =
  st_previous :: ip_state
  st_current :: ip_state

definition became_hot :: "state_transition \<Rightarrow> bool" where
  "became_hot t \<longleftrightarrow> st_previous t = COLD \<and> st_current t = HOT"

definition became_cold :: "state_transition \<Rightarrow> bool" where
  "became_cold t \<longleftrightarrow> st_previous t = HOT \<and> st_current t = COLD"

section \<open>Weight\<close>

definition ATTRIBUTES_VERSION :: int where "ATTRIBUTES_VERSION = 1"

definition threshold_ratio :: "int \<Rightarrow> detection_config \<Rightarrow> int result" where
  "threshold_ratio count config =
     (if hot_threshold config = 0 then Inl ZeroDivisionError
      else let ratio = (1000 * count + hot_threshold config div 2) div hot_threshold config
           in Inr (min (max ratio 0) (weight_max config)))"

definition compute_weight :: "int \<Rightarrow> detection_config \<Rightarrow> int result" where
  "compute_weight count config =
     (if weight_function config = ''threshold_ratio'' then threshold_ratio count config
      else Inl ConfigurationError)"

section \<open>Lateness\<close>

datatype observation_outcome =
  APPLIED | LATE | FUTURE | EXPIRED_BUCKET | WINDOW_TOO_LONG | MALFORMED | UNCLAIMED | REDELIVERED

definition classify_observation :: "int \<Rightarrow> int \<Rightarrow> int \<Rightarrow> detection_config \<Rightarrow> observation_outcome" where
  "classify_observation window_start window_secs now config =
     (if window_secs > window_seconds config then WINDOW_TOO_LONG
      else if window_start > now then FUTURE
      else if now - window_start > window_seconds config + allowed_lateness_seconds config then LATE
      else let B = bucket_seconds config;
               bucket_age = bucket_start now B - bucket_start window_start B
           in if bucket_age \<ge> window_seconds config then EXPIRED_BUCKET else APPLIED)"

section \<open>Results\<close>

text \<open>The state after a sequence of window counts.\<close>

definition run_counts :: "detection_config \<Rightarrow> ip_state \<Rightarrow> int list \<Rightarrow> ip_state" where
  "run_counts c s counts = fold (\<lambda>n s. evaluate_ip_state s n c) counts s"

lemma run_counts_simps [simp]:
  "run_counts c s [] = s" "run_counts c s (counts @ [n]) = evaluate_ip_state (run_counts c s counts) n c"
  by (simp_all add: run_counts_def)

text \<open>C39: Hysteresis, for every sequence of counts: an IP is HOT exactly when its count last reached
  \<open>hot_threshold\<close> (or it began HOT) and has not dropped below \<open>cold_threshold\<close> since.\<close>

theorem hysteresis_exact:
  assumes "config_accepted c"
  shows "run_counts c s counts = HOT \<longleftrightarrow>
    (s = HOT \<and> (\<forall>n \<in> set counts. cold_threshold c \<le> n)) \<or>
    (\<exists>before n after. counts = before @ n # after \<and> hot_threshold c \<le> n \<and>
       (\<forall>m \<in> set after. cold_threshold c \<le> m))"
proof (induction counts rule: rev_induct)
  case Nil
  then show ?case by simp
next
  case (snoc k counts)
  have lt: "cold_threshold c < hot_threshold c"
    using assms by (auto simp: config_accepted_def mk_detection_config_def split: if_splits)
  have split: "(\<exists>before n after. counts @ [k] = before @ n # after \<and> hot_threshold c \<le> n \<and> (\<forall>m \<in> set after. cold_threshold c \<le> m)) \<longleftrightarrow>
      hot_threshold c \<le> k \<or> (cold_threshold c \<le> k \<and>
        (\<exists>before n after. counts = before @ n # after \<and> hot_threshold c \<le> n \<and> (\<forall>m \<in> set after. cold_threshold c \<le> m)))"
    (is "?L \<longleftrightarrow> _ \<or> (_ \<and> ?R)")
  proof
    assume ?L
    then obtain b n a where ban: "counts @ [k] = b @ n # a" "hot_threshold c \<le> n" "\<forall>m \<in> set a. cold_threshold c \<le> m" by blast
    show "hot_threshold c \<le> k \<or> (cold_threshold c \<le> k \<and> ?R)"
    proof (cases a rule: rev_cases)
      case Nil
      with ban show ?thesis by simp
    next
      case (snoc a' x)
      with ban have "counts = b @ n # a'" "k = x" by auto
      with ban snoc show ?thesis by auto
    qed
  next
    assume R: "hot_threshold c \<le> k \<or> (cold_threshold c \<le> k \<and> ?R)"
    show ?L
    proof (cases "hot_threshold c \<le> k")
      case True
      then show ?thesis by (intro exI[of _ counts] exI[of _ k] exI[of _ "[]"]) simp
    next
      case False
      with R obtain b n a where "counts = b @ n # a" "hot_threshold c \<le> n" "\<forall>m \<in> set a. cold_threshold c \<le> m" "cold_threshold c \<le> k" by blast
      then show ?thesis by (intro exI[of _ b] exI[of _ n] exI[of _ "a @ [k]"]) auto
    qed
  qed
  show ?case
    unfolding split using snoc lt by (cases "run_counts c s counts") (auto simp: evaluate_ip_state_def)
qed

theorem hysteresis_exact_witness:
  "run_counts DEFAULT_CONFIG COLD [999, 1000, 900, 800] = HOT \<and> run_counts DEFAULT_CONFIG COLD [1000, 799, 999] = COLD"
proof -
  have ok: "config_accepted DEFAULT_CONFIG" using DEFAULT_CONFIG_ok by (simp add: config_ok_def)
  have "run_counts DEFAULT_CONFIG COLD [999, 1000, 900, 800] = HOT"
    unfolding hysteresis_exact[OF ok]
    by (intro disjI2 exI[of _ "[999]"] exI[of _ 1000] exI[of _ "[900, 800]"]) (simp add: DEFAULT_CONFIG_def)
  then show ?thesis by (simp add: run_counts_def evaluate_ip_state_def DEFAULT_CONFIG_def)
qed

lemma half_up_round:
  assumes "0 < (h::int)"
  shows "2 * \<bar>(n + h div 2) div h * h - n\<bar> \<le> h"
proof -
  let ?w = "(n + h div 2) div h"
  have "?w * h \<le> n + h div 2" "n + h div 2 < ?w * h + h"
    using assms div_mult_mod_eq[of "n + h div 2" h] pos_mod_bound[of h "n + h div 2"] pos_mod_sign[of h "n + h div 2"]
    by linarith+
  moreover have "2 * (h div 2) \<le> h" "h \<le> 2 * (h div 2) + 1" by presburger+
  moreover have "2 * \<bar>x - n\<bar> \<le> h" if "x \<le> n + k" "n + k < x + h" "2 * k \<le> h" "h \<le> 2 * k + 1" for x k
    using that by (cases "n \<le> x") auto
  ultimately show ?thesis by blast
qed

lemma compute_weight_ok:
  assumes "config_ok c" "0 \<le> count"
  shows "\<exists>w. compute_weight count c = Inr w \<and> 0 \<le> w \<and> w \<le> weight_max c \<and>
    (hot_threshold c \<le> count \<longrightarrow> 1000 \<le> w) \<and>
    (w < weight_max c \<longrightarrow> 2 * \<bar>w * hot_threshold c - 1000 * count\<bar> \<le> hot_threshold c)"
proof -
  let ?h = "hot_threshold c" and ?r = "(1000 * count + hot_threshold c div 2) div hot_threshold c"
  note facts = config_ok_facts[OF assms(1)]
  have "compute_weight count c = Inr (min (max ?r 0) (weight_max c))"
    using facts by (simp add: compute_weight_def threshold_ratio_def)
  moreover have nn: "0 \<le> ?r" using facts assms(2) by (simp add: pos_imp_zdiv_nonneg_iff)
  moreover have "1000 \<le> ?r" if "?h \<le> count"
  proof -
    have "1000 * ?h \<le> 1000 * count + ?h div 2" using that facts by auto
    then have "1000 * ?h div ?h \<le> ?r" using facts by (intro zdiv_mono1) auto
    then show ?thesis using facts by simp
  qed
  ultimately show ?thesis using facts half_up_round[OF facts(5), of "1000 * count"] by auto
qed

text \<open>The weight of a transition is always computed, lies in \<open>[0, weight_max]\<close>, is at least 1000 from
  \<open>hot_threshold\<close> on, and, unless it is clamped, is the count in thousandths of the threshold rounded
  to the nearest integer.\<close>

theorem weight_bounds:
  assumes "config_ok c" "0 \<le> count"
  shows "\<exists>w. compute_weight count c = Inr w \<and> 0 \<le> w \<and> w \<le> weight_max c \<and>
    (hot_threshold c \<le> count \<longrightarrow> 1000 \<le> w) \<and>
    (w < weight_max c \<longrightarrow> 2 * \<bar>w * hot_threshold c - 1000 * count\<bar> \<le> hot_threshold c)"
  using compute_weight_ok[OF assms] .

theorem weight_bounds_witness:
  "\<exists>w. compute_weight 1234 DEFAULT_CONFIG = Inr w \<and> 1000 \<le> w \<and> w \<le> 1000000"
  using weight_bounds[OF DEFAULT_CONFIG_ok, of 1234] by (auto simp: DEFAULT_CONFIG_def)

definition cfg_doc :: "int \<Rightarrow> int \<Rightarrow> int \<Rightarrow> cfg_document" where
  "cfg_doc bucket hot cold = CdObject [(''config_version'', CvInt 1), (''window_seconds'', CvInt 300),
     (''bucket_seconds'', CvInt bucket), (''hot_threshold'', CvInt hot), (''cold_threshold'', CvInt cold),
     (''minimum_hot_ips'', CvInt 16), (''minimum_hot_ratio'', CvFloat (Some (1 / 10)))]"

lemmas load_defs = load_config_def validate_document_def cfg_doc_def REQUIRED_KEYS_def KNOWN_KEYS_def INTEGER_KEYS_def
  is_cv_int_def cfg_ratio_def build_config_def cfg_int_def mk_detection_config_def WEIGHT_FUNCTIONS_def

text \<open>\<open>load\<close> does not enforce the minimums of \<open>schemas/detection_config.v1.json\<close>: a document with
  \<open>bucket_seconds\<close> 0 escapes as \<open>ZeroDivisionError\<close> instead of \<open>ConfigurationError\<close>, and one with
  \<open>hot_threshold\<close> 0 is accepted, after which every weight computation raises \<open>ZeroDivisionError\<close>.\<close>

theorem load_skips_schema_minimums:
  "load_config (Some (cfg_doc 0 1000 800)) = Inl ZeroDivisionError \<and>
   (\<exists>c. load_config (Some (cfg_doc 10 0 (- 1))) = Inr c \<and> (\<forall>count. compute_weight count c = Inl ZeroDivisionError))"
proof
  show "load_config (Some (cfg_doc 0 1000 800)) = Inl ZeroDivisionError" by (simp add: load_defs)
  let ?c = "DEFAULT_CONFIG\<lparr>hot_threshold := 0, cold_threshold := - 1\<rparr>"
  have "load_config (Some (cfg_doc 10 0 (- 1))) = Inr ?c" by (simp add: load_defs DEFAULT_CONFIG_def)
  moreover have "compute_weight count ?c = Inl ZeroDivisionError" for count
    by (simp add: compute_weight_def threshold_ratio_def DEFAULT_CONFIG_def)
  ultimately show "\<exists>c. load_config (Some (cfg_doc 10 0 (- 1))) = Inr c \<and> (\<forall>count. compute_weight count c = Inl ZeroDivisionError)"
    by blast
qed


section \<open>Lateness and the ring\<close>

lemma classify_applied_iff:
  assumes "config_ok c"
  shows "classify_observation ws secs now c = APPLIED \<longleftrightarrow>
    secs \<le> window_seconds c \<and> ws \<le> now \<and>
    0 \<le> bucket_start now (bucket_seconds c) - bucket_start ws (bucket_seconds c) \<and>
    bucket_start now (bucket_seconds c) - bucket_start ws (bucket_seconds c) < window_seconds c"
proof -
  let ?B = "bucket_seconds c" and ?W = "window_seconds c"
  note facts = config_ok_facts[OF assms]
  have late: "now - ws \<le> ?W + allowed_lateness_seconds c" if lt: "bucket_start now ?B - bucket_start ws ?B < ?W"
  proof -
    have "?B dvd bucket_start now ?B - bucket_start ws ?B" by (simp add: dvd_diff)
    moreover have "?B dvd ?W" by (rule facts)
    ultimately have "bucket_start now ?B - bucket_start ws ?B \<le> ?W - ?B"
      using lt facts(1) zdvd_not_zless[of "?W - (bucket_start now ?B - bucket_start ws ?B)" ?B] by (force simp: dvd_diff)
    then show ?thesis
      using bucket_start_bounds[OF facts(1), of now] bucket_start_bounds[OF facts(1), of ws] facts(12) by linarith
  qed
  have "ws \<le> now \<Longrightarrow> bucket_start ws ?B \<le> bucket_start now ?B"
    using facts(1) by (rule bucket_start_mono)
  then show ?thesis using late by (auto simp: classify_observation_def Let_def)
qed

end
