(* ===== verification/Ip_Counter.thy ===== *)
theory Ip_Counter
  imports Core_State "HOL-Library.Product_Lexorder"
begin

text \<open>
  The per-IP ring of buckets with its running total, \<open>hammertime.aggregator.window.counter\<close>. The
  specification is the history of applied deltas: at any time the ring's total, after the expired
  buckets are swept, is the sum of the applied deltas whose bucket is inside the window, whatever the
  order in which they arrived.
\<close>

section \<open>The ring\<close>

record ip_counter =
  ic_bucket_seconds :: int
  ic_bucket_count :: int
  ic_starts :: "int option list"
  ic_counts :: "int list"
  ic_total :: int

definition mk_ip_counter :: "int \<Rightarrow> int \<Rightarrow> ip_counter result" where
  "mk_ip_counter bs n =
     (if bs \<le> 0 then Inl ValueError
      else if n \<le> 0 then Inl ValueError
      else Inr \<lparr>ic_bucket_seconds = bs, ic_bucket_count = n, ic_starts = replicate (nat n) None,
                ic_counts = replicate (nat n) 0, ic_total = 0\<rparr>)"

definition ic_window_seconds :: "ip_counter \<Rightarrow> int" where
  "ic_window_seconds c = ic_bucket_seconds c * ic_bucket_count c"

definition ic_is_live :: "ip_counter \<Rightarrow> int \<Rightarrow> int \<Rightarrow> bool" where
  "ic_is_live c start now =
     (let age = bucket_start now (ic_bucket_seconds c) - start in 0 \<le> age \<and> age < ic_window_seconds c)"

definition ic_observe :: "ip_counter \<Rightarrow> int \<Rightarrow> int \<Rightarrow> int \<Rightarrow> bool result \<times> ip_counter" where
  "ic_observe c start delta now =
     (if start mod ic_bucket_seconds c \<noteq> 0 then (Inl ValueError, c)
      else if delta < 0 then (Inl ValueError, c)
      else if \<not> ic_is_live c start now then (Inr False, c)
      else let slot = nat (bucket_index start (ic_bucket_seconds c) (ic_bucket_count c));
               c1 = (if ic_starts c ! slot \<noteq> Some start
                     then c\<lparr>ic_total := ic_total c - ic_counts c ! slot,
                            ic_starts := (ic_starts c)[slot := Some start],
                            ic_counts := (ic_counts c)[slot := 0]\<rparr>
                     else c)
           in (Inr True, c1\<lparr>ic_counts := (ic_counts c1)[slot := ic_counts c1 ! slot + delta],
                            ic_total := ic_total c1 + delta\<rparr>))"

text \<open>The loop of \<open>expire\<close> over the slots; the running total is adjusted once, after it.\<close>

fun ic_expire_loop :: "ip_counter \<Rightarrow> int \<Rightarrow> nat list \<Rightarrow> int \<Rightarrow> ip_counter \<times> int" where
  "ic_expire_loop c now [] removed = (c, removed)"
| "ic_expire_loop c now (slot # slots) removed =
     (case ic_starts c ! slot of
        None \<Rightarrow> ic_expire_loop c now slots removed
      | Some start \<Rightarrow>
          if ic_is_live c start now then ic_expire_loop c now slots removed
          else ic_expire_loop (c\<lparr>ic_starts := (ic_starts c)[slot := None], ic_counts := (ic_counts c)[slot := 0]\<rparr>)
                 now slots (removed + ic_counts c ! slot))"

definition ic_expire :: "ip_counter \<Rightarrow> int \<Rightarrow> int \<times> ip_counter" where
  "ic_expire c now =
     (let (c', removed) = ic_expire_loop c now [0 ..< nat (ic_bucket_count c)] 0
      in (removed, c'\<lparr>ic_total := ic_total c' - removed\<rparr>))"

definition occupied_slot :: "int option \<times> int \<Rightarrow> (int \<times> int) option" where
  "occupied_slot p = (case fst p of None \<Rightarrow> None | Some start \<Rightarrow> if 0 < snd p then Some (start, snd p) else None)"

definition ic_occupied :: "ip_counter \<Rightarrow> (int \<times> int) list" where
  "ic_occupied c = List.map_filter occupied_slot (zip (ic_starts c) (ic_counts c))"

definition ic_next_expiry :: "ip_counter \<Rightarrow> int option" where
  "ic_next_expiry c =
     (let starts = map fst (ic_occupied c) in
      if starts = [] then None else Some (Min (set starts) + ic_window_seconds c))"

definition ic_live_buckets :: "ip_counter \<Rightarrow> int \<Rightarrow> (int \<times> int) list" where
  "ic_live_buckets c now = sort (filter (\<lambda>(start, n). ic_is_live c start now) (ic_occupied c))"

section \<open>The invariant\<close>

text \<open>The count the ring holds for a bucket.\<close>

definition ic_slot :: "ip_counter \<Rightarrow> int \<Rightarrow> nat" where
  "ic_slot c start = nat (bucket_index start (ic_bucket_seconds c) (ic_bucket_count c))"

definition ic_at :: "ip_counter \<Rightarrow> int \<Rightarrow> int" where
  "ic_at c start = (if ic_starts c ! ic_slot c start = Some start then ic_counts c ! ic_slot c start else 0)"

definition ic_ok :: "ip_counter \<Rightarrow> bool" where
  "ic_ok c \<longleftrightarrow> 0 < ic_bucket_seconds c \<and> 0 < ic_bucket_count c \<and>
     length (ic_starts c) = nat (ic_bucket_count c) \<and> length (ic_counts c) = nat (ic_bucket_count c) \<and>
     (\<forall>i < nat (ic_bucket_count c). 0 \<le> ic_counts c ! i \<and>
        (case ic_starts c ! i of
           None \<Rightarrow> ic_counts c ! i = 0
         | Some s \<Rightarrow> ic_bucket_seconds c dvd s \<and> ic_slot c s = i)) \<and>
     ic_total c = sum_list (ic_counts c)"

definition ic_geometry :: "ip_counter \<Rightarrow> int \<times> int" where
  "ic_geometry c = (ic_bucket_seconds c, ic_bucket_count c)"

lemma mk_ip_counter_ok:
  assumes "0 < bs" "0 < n"
  shows "\<exists>c. mk_ip_counter bs n = Inr c \<and> ic_ok c \<and> ic_geometry c = (bs, n) \<and> ic_total c = 0 \<and> (\<forall>s. ic_at c s = 0) \<and>
    ic_occupied c = []"
proof -
  let ?c = "\<lparr>ic_bucket_seconds = bs, ic_bucket_count = n, ic_starts = replicate (nat n) None,
                ic_counts = replicate (nat n) 0, ic_total = 0\<rparr>"
  have "ic_slot ?c s < nat n" for s using assms(2) by (simp add: ic_slot_def bucket_index_def nat_less_iff)
  then have "ic_at ?c s = 0" for s by (simp add: ic_at_def)
  moreover have "ic_occupied ?c = []"
    by (simp add: ic_occupied_def zip_replicate map_filter_def occupied_slot_def)
  ultimately show ?thesis using assms by (simp add: mk_ip_counter_def ic_ok_def ic_geometry_def sum_list_replicate)
qed

lemma ic_slot_lt: "ic_ok c \<Longrightarrow> ic_slot c s < nat (ic_bucket_count c)"
  by (simp add: ic_ok_def ic_slot_def bucket_index_def nat_less_iff)

lemma ic_is_live_geometry: "ic_geometry c = ic_geometry c' \<Longrightarrow> ic_is_live c = ic_is_live c'"
  by (simp add: ic_geometry_def ic_is_live_def ic_window_seconds_def fun_eq_iff)

text \<open>Two aligned buckets in one slot are a whole number of windows apart.\<close>

lemma ic_same_slot:
  assumes "ic_ok c" "ic_bucket_seconds c dvd s" "ic_bucket_seconds c dvd s'" "ic_slot c s = ic_slot c s'"
  shows "ic_window_seconds c dvd s - s'"
proof -
  let ?B = "ic_bucket_seconds c" and ?N = "ic_bucket_count c"
  obtain k k' where k: "s = ?B * k" "s' = ?B * k'" using assms(2,3) by (auto elim!: dvdE)
  have pos: "0 < ?B" "0 < ?N" using assms(1) by (simp_all add: ic_ok_def)
  then have "k mod ?N = k' mod ?N"
    using assms(4) k by (simp add: ic_slot_def bucket_index_def nat_eq_iff)
  then have "?N dvd k - k'" by (simp add: mod_eq_dvd_iff)
  then show ?thesis using k by (simp add: ic_window_seconds_def right_diff_distrib[symmetric])
qed

lemma ic_other_expired:
  assumes "ic_ok c" "ic_is_live c s now" "ic_bucket_seconds c dvd s" "ic_bucket_seconds c dvd s'"
    "ic_slot c s = ic_slot c s'" "s \<noteq> s'" "s' \<le> bucket_start now (ic_bucket_seconds c)"
  shows "ic_window_seconds c \<le> bucket_start now (ic_bucket_seconds c) - s'"
proof -
  let ?W = "ic_window_seconds c"
  have "?W dvd s - s'" using ic_same_slot assms by blast
  then obtain m where m: "s - s' = ?W * m" by (auto elim!: dvdE)
  have W: "0 < ?W" using assms(1) by (simp add: ic_ok_def ic_window_seconds_def)
  have live: "s \<le> bucket_start now (ic_bucket_seconds c)" "bucket_start now (ic_bucket_seconds c) - s < ?W"
    using assms(2) by (simp_all add: ic_is_live_def Let_def)
  have "0 < m"
  proof (rule ccontr)
    assume "\<not> 0 < m"
    then have "m \<le> - 1" using m assms(6) by (cases "m = 0") auto
    then have "?W * m \<le> ?W * (- 1)" using W by (intro mult_left_mono) auto
    then show False using m live assms(7) by linarith
  qed
  then have "?W \<le> ?W * m" using W by (metis mult_less_cancel_left_pos mult.right_neutral zless_imp_add1_zle mult_left_mono less_imp_le add_0)
  then show ?thesis using m live by linarith
qed

section \<open>The operations\<close>

definition ic_past :: "ip_counter \<Rightarrow> int \<Rightarrow> bool" where
  "ic_past c now \<longleftrightarrow> (\<forall>s. Some s \<in> set (ic_starts c) \<longrightarrow> s \<le> bucket_start now (ic_bucket_seconds c))"

lemma ic_past_mono: "ic_ok c \<Longrightarrow> ic_past c t \<Longrightarrow> t \<le> t' \<Longrightarrow> ic_past c t'"
  using bucket_start_mono[of "ic_bucket_seconds c" t t'] by (force simp: ic_past_def ic_ok_def)

lemma sum_list_nth_update: "i < length xs \<Longrightarrow> sum_list (xs[i := (v::int)]) = sum_list xs - xs ! i + v"
proof (induction xs arbitrary: i)
  case (Cons x xs)
  then show ?case by (cases i) simp_all
qed simp

lemma ic_slot_start: "ic_ok c \<Longrightarrow> i < nat (ic_bucket_count c) \<Longrightarrow> ic_starts c ! i = Some s \<Longrightarrow>
    ic_bucket_seconds c dvd s \<and> ic_slot c s = i"
  by (fastforce simp: ic_ok_def)

text \<open>What a write into one slot leaves.\<close>

lemma ic_write_ok:
  assumes "ic_ok c" "ic_bucket_seconds c dvd s" "0 \<le> v"
    and c': "c' = c\<lparr>ic_starts := (ic_starts c)[ic_slot c s := Some s], ic_counts := (ic_counts c)[ic_slot c s := v],
      ic_total := ic_total c - ic_counts c ! ic_slot c s + v\<rparr>"
  shows "ic_ok c'" "ic_geometry c' = ic_geometry c" "ic_at c' s = v"
    "ic_slot c s' \<noteq> ic_slot c s \<Longrightarrow> ic_at c' s' = ic_at c s'"
    "ic_past c now \<Longrightarrow> s \<le> bucket_start now (ic_bucket_seconds c) \<Longrightarrow> ic_past c' now"
proof -
  have lt: "ic_slot c s < nat (ic_bucket_count c)" using ic_slot_lt[OF assms(1)] .
  have slot: "ic_slot c' = ic_slot c" by (simp add: c' ic_slot_def fun_eq_iff)
  show "ic_ok c'"
    using assms(1,2,3) lt unfolding ic_ok_def slot
    by (auto simp: c' nth_list_update sum_list_nth_update split: option.split)
  show "ic_geometry c' = ic_geometry c" by (simp add: c' ic_geometry_def)
  show "ic_at c' s = v" "ic_slot c s' \<noteq> ic_slot c s \<Longrightarrow> ic_at c' s' = ic_at c s'"
    using assms(1) lt by (auto simp: ic_at_def slot) (auto simp: c' ic_ok_def)
  show "ic_past c now \<Longrightarrow> s \<le> bucket_start now (ic_bucket_seconds c) \<Longrightarrow> ic_past c' now"
    by (auto simp: ic_past_def c' dest!: set_mp[OF set_update_subset_insert])
qed

text \<open>A delta into a live bucket is applied, and touches no other bucket that has not expired.\<close>

lemma ic_observe_live:
  assumes "ic_ok c" "ic_past c now" "ic_bucket_seconds c dvd s" "0 \<le> d" "ic_is_live c s now"
  shows "\<exists>c'. ic_observe c s d now = (Inr True, c') \<and> ic_ok c' \<and> ic_past c' now \<and> ic_geometry c' = ic_geometry c \<and>
    (\<forall>s'. ic_bucket_seconds c dvd s' \<and> bucket_start now (ic_bucket_seconds c) - s' < ic_window_seconds c \<longrightarrow>
       ic_at c' s' = ic_at c s' + (if s' = s then d else 0))"
proof -
  let ?i = "ic_slot c s"
  define c' where "c' = c\<lparr>ic_starts := (ic_starts c)[?i := Some s], ic_counts := (ic_counts c)[?i := ic_at c s + d],
      ic_total := ic_total c - ic_counts c ! ?i + (ic_at c s + d)\<rparr>"
  have lt: "?i < nat (ic_bucket_count c)" "length (ic_starts c) = nat (ic_bucket_count c)"
    "length (ic_counts c) = nat (ic_bucket_count c)"
    using ic_slot_lt[OF assms(1)] assms(1) by (simp_all add: ic_ok_def)
  have same: "(ic_starts c)[?i := Some s] = ic_starts c" if "ic_starts c ! ?i = Some s"
    using that by (metis list_update_id)
  have "ic_observe c s d now = (Inr True, c')"
    using assms lt same
    by (auto simp: ic_observe_def Let_def ic_slot_def[symmetric] c'_def ic_at_def intro!: ip_counter.equality)
  have nn: "0 \<le> ic_at c s" using assms(1) lt by (auto simp: ic_at_def ic_ok_def)
  have le: "s \<le> bucket_start now (ic_bucket_seconds c)" using assms(5) by (simp add: ic_is_live_def Let_def)
  note w = ic_write_ok[OF assms(1,3) add_nonneg_nonneg[OF nn assms(4)] c'_def]
  have "ic_at c' s' = ic_at c s'" if s': "ic_bucket_seconds c dvd s'"
      "bucket_start now (ic_bucket_seconds c) - s' < ic_window_seconds c" "s' \<noteq> s" for s'
  proof (cases "ic_slot c s' = ?i")
    case True
    have "s' \<notin> {x. Some x \<in> set (ic_starts c)}" if "s' \<le> bucket_start now (ic_bucket_seconds c)"
      using ic_other_expired[OF assms(1,5,3) s'(1)] True s' that by auto
    then have "ic_starts c ! ?i \<noteq> Some s'"
      using assms(2) lt by (metis ic_past_def mem_Collect_eq nth_mem)
    moreover have "ic_starts c' ! ?i = Some s" using lt by (simp add: c'_def)
    moreover have "ic_slot c' s' = ?i" using True by (simp add: c'_def ic_slot_def)
    ultimately show ?thesis using True s'(3) by (simp add: ic_at_def)
  qed (rule w(4))
  then show ?thesis
    using \<open>ic_observe c s d now = (Inr True, c')\<close> w(1,2,3) w(5)[OF assms(2) le] by auto
qed

text \<open>The sweep empties exactly the slots whose bucket is not live.\<close>

lemma ic_expire_loop_ok:
  assumes "ic_expire_loop c now slots removed = (c', r)" "distinct slots"
    "\<forall>i \<in> set slots. i < length (ic_counts c)" "length (ic_starts c) = length (ic_counts c)"
  shows "ic_geometry c' = ic_geometry c \<and> ic_total c' = ic_total c \<and>
    length (ic_starts c') = length (ic_starts c) \<and> length (ic_counts c') = length (ic_counts c) \<and>
    (\<forall>i < length (ic_counts c).
      (if i \<in> set slots \<and> (\<exists>s. ic_starts c ! i = Some s \<and> \<not> ic_is_live c s now)
       then ic_starts c' ! i = None \<and> ic_counts c' ! i = 0
       else ic_starts c' ! i = ic_starts c ! i \<and> ic_counts c' ! i = ic_counts c ! i)) \<and>
    r = removed + sum_list (ic_counts c) - sum_list (ic_counts c')"
  using assms
proof (induction slots arbitrary: c removed)
  case Nil
  then show ?case by simp
next
  case (Cons slot slots)
  have lt: "slot < length (ic_counts c)" "slot < length (ic_starts c)" "slot \<notin> set slots" "distinct slots"
    "\<forall>i \<in> set slots. i < length (ic_counts c)"
    using Cons.prems by auto
  show ?case
  proof (cases "\<exists>s. ic_starts c ! slot = Some s \<and> \<not> ic_is_live c s now")
    case False
    then have "ic_expire_loop c now slots removed = (c', r)"
      using Cons.prems(1) by (cases "ic_starts c ! slot") auto
    with Cons.IH[of c removed] Cons.prems(4) lt False show ?thesis by auto
  next
    case True
    then obtain s where s: "ic_starts c ! slot = Some s" "\<not> ic_is_live c s now" by blast
    let ?c = "c\<lparr>ic_starts := (ic_starts c)[slot := None], ic_counts := (ic_counts c)[slot := 0]\<rparr>"
    have live: "ic_is_live ?c = ic_is_live c" by (rule ic_is_live_geometry) (simp add: ic_geometry_def)
    have run: "ic_expire_loop ?c now slots (removed + ic_counts c ! slot) = (c', r)" using Cons.prems(1) s by simp
    have "sum_list ((ic_counts c)[slot := 0]) = sum_list (ic_counts c) - ic_counts c ! slot"
      using lt by (simp add: sum_list_nth_update)
    moreover have "ic_geometry ?c = ic_geometry c" by (simp add: ic_geometry_def)
    ultimately show ?thesis
      using Cons.IH[OF run] Cons.prems(4) lt s unfolding live
      by (auto simp: nth_list_update)
  qed
qed

lemma ic_expire_ok:
  assumes "ic_ok c" "ic_expire c now = (r, c')"
  shows "ic_ok c'" "ic_geometry c' = ic_geometry c" "ic_at c' s = (if ic_is_live c s now then ic_at c s else 0)"
    "\<And>s. Some s \<in> set (ic_starts c') \<Longrightarrow> ic_is_live c s now \<and> Some s \<in> set (ic_starts c)" "r = ic_total c - ic_total c'"
    "\<And>i. i < nat (ic_bucket_count c) \<Longrightarrow>
       ic_counts c' ! i = (if \<exists>s. ic_starts c ! i = Some s \<and> \<not> ic_is_live c s now then 0 else ic_counts c ! i)"
proof -
  obtain c1 where c1: "ic_expire_loop c now [0 ..< nat (ic_bucket_count c)] 0 = (c1, r)" "c' = c1\<lparr>ic_total := ic_total c1 - r\<rparr>"
    using assms(2) by (auto simp: ic_expire_def split: prod.splits)
  have len: "length (ic_starts c) = nat (ic_bucket_count c)" "length (ic_counts c) = nat (ic_bucket_count c)"
    "ic_total c = sum_list (ic_counts c)"
    using assms(1) by (simp_all add: ic_ok_def)
  have "ic_geometry c1 = ic_geometry c \<and> ic_total c1 = ic_total c \<and>
    length (ic_starts c1) = length (ic_starts c) \<and> length (ic_counts c1) = length (ic_counts c) \<and>
    (\<forall>i < length (ic_counts c).
      (if i \<in> set [0 ..< nat (ic_bucket_count c)] \<and> (\<exists>s. ic_starts c ! i = Some s \<and> \<not> ic_is_live c s now)
       then ic_starts c1 ! i = None \<and> ic_counts c1 ! i = 0
       else ic_starts c1 ! i = ic_starts c ! i \<and> ic_counts c1 ! i = ic_counts c ! i)) \<and>
    r = 0 + sum_list (ic_counts c) - sum_list (ic_counts c1)"
    using len by (intro ic_expire_loop_ok[OF c1(1)]) auto
  then have e: "ic_geometry c1 = ic_geometry c" "ic_total c1 = ic_total c" "length (ic_starts c1) = nat (ic_bucket_count c)"
    "length (ic_counts c1) = nat (ic_bucket_count c)" "r = sum_list (ic_counts c) - sum_list (ic_counts c1)"
    and slots: "\<And>i. i < nat (ic_bucket_count c) \<Longrightarrow>
      (if \<exists>s. ic_starts c ! i = Some s \<and> \<not> ic_is_live c s now
       then ic_starts c1 ! i = None \<and> ic_counts c1 ! i = 0
       else ic_starts c1 ! i = ic_starts c ! i \<and> ic_counts c1 ! i = ic_counts c ! i)"
    using len by auto
  show geo: "ic_geometry c' = ic_geometry c" using e c1 by (simp add: ic_geometry_def)
  then have slot: "ic_slot c' = ic_slot c" by (simp add: ic_geometry_def ic_slot_def fun_eq_iff)
  have "(0 \<le> ic_counts c1 ! i \<and> (case ic_starts c1 ! i of None \<Rightarrow> ic_counts c1 ! i = 0
         | Some s \<Rightarrow> ic_bucket_seconds c dvd s \<and> ic_slot c s = i))" if "i < nat (ic_bucket_count c)" for i
    using slots[OF that] that assms(1) by (auto simp: ic_ok_def split: if_splits option.splits)
  moreover have flds: "ic_starts c' = ic_starts c1" "ic_counts c' = ic_counts c1" "ic_bucket_seconds c' = ic_bucket_seconds c"
    "ic_bucket_count c' = ic_bucket_count c" "ic_total c' = ic_total c - r"
    using geo e(2) by (simp_all add: c1(2) ic_geometry_def)
  ultimately show "ic_ok c'"
    using assms(1) e len unfolding ic_ok_def slot flds by simp
  show "ic_at c' s = (if ic_is_live c s now then ic_at c s else 0)"
    using slots[OF ic_slot_lt[OF assms(1), of s]] unfolding ic_at_def slot flds by (auto split: if_splits)
  show "r = ic_total c - ic_total c'" using e c1 len by simp
  show "\<And>i. i < nat (ic_bucket_count c) \<Longrightarrow>
       ic_counts c' ! i = (if \<exists>s. ic_starts c ! i = Some s \<and> \<not> ic_is_live c s now then 0 else ic_counts c ! i)"
    using slots unfolding flds by (auto split: if_splits)
  fix x assume "Some x \<in> set (ic_starts c')"
  then obtain i where "i < nat (ic_bucket_count c)" "ic_starts c1 ! i = Some x"
    using e by (auto simp: c1(2) in_set_conv_nth)
  with slots[of i] len show "ic_is_live c x now \<and> Some x \<in> set (ic_starts c)"
    by (auto split: if_splits simp: in_set_conv_nth)
qed

lemma ic_expire_past: "ic_ok c \<Longrightarrow> ic_past (snd (ic_expire c now)) now"
proof -
  assume ok: "ic_ok c"
  obtain r c' where c': "ic_expire c now = (r, c')" by (cases "ic_expire c now")
  from ic_expire_ok[OF ok c'] show ?thesis
    by (auto simp: c' ic_past_def ic_is_live_def Let_def ic_geometry_def)
qed

section \<open>The next expiry\<close>

lemma set_ic_occupied:
  assumes "ic_ok c"
  shows "set (ic_occupied c) = {(s, n). \<exists>i < nat (ic_bucket_count c). ic_starts c ! i = Some s \<and> ic_counts c ! i = n \<and> 0 < n}"
proof -
  have len: "length (ic_starts c) = nat (ic_bucket_count c)" "length (ic_counts c) = nat (ic_bucket_count c)"
    using assms by (simp_all add: ic_ok_def)
  have f: "occupied_slot p = Some (s, n) \<longleftrightarrow> p = (Some s, n) \<and> 0 < n" for p s n
    by (cases p) (auto simp: occupied_slot_def split: option.splits if_splits)
  have "set (List.map_filter g ps) = {y. \<exists>p \<in> set ps. g p = Some y}" for g :: "int option \<times> int \<Rightarrow> (int \<times> int) option" and ps
    by (induction ps) (auto simp: List.map_filter_simps split: option.splits)
  then have "set (ic_occupied c) = {y. \<exists>p \<in> set (zip (ic_starts c) (ic_counts c)). occupied_slot p = Some y}"
    by (simp add: ic_occupied_def)
  also have "\<dots> = {(s, n). (Some s, n) \<in> set (zip (ic_starts c) (ic_counts c)) \<and> 0 < n}"
    by (auto simp: f)
  also have "\<dots> = {(s, n). \<exists>i < nat (ic_bucket_count c). ic_starts c ! i = Some s \<and> ic_counts c ! i = n \<and> 0 < n}"
    by (auto simp: in_set_zip len)
  finally show ?thesis .
qed

lemma ic_next_expiry_SomeD:
  assumes "ic_ok c" "ic_next_expiry c = Some x"
  shows "\<exists>i s. i < nat (ic_bucket_count c) \<and> ic_starts c ! i = Some s \<and> 0 < ic_counts c ! i \<and> x = s + ic_window_seconds c"
proof -
  have "set (map fst (ic_occupied c)) \<noteq> {}" "x = Min (set (map fst (ic_occupied c))) + ic_window_seconds c"
    using assms(2) by (auto simp: ic_next_expiry_def Let_def split: if_splits)
  moreover from this have "Min (set (map fst (ic_occupied c))) \<in> set (map fst (ic_occupied c))"
    by (intro Min_in) auto
  ultimately show ?thesis using set_ic_occupied[OF assms(1)] by fastforce
qed

lemma ic_next_expiry_le:
  assumes "ic_ok c" "i < nat (ic_bucket_count c)" "ic_starts c ! i = Some s" "0 < ic_counts c ! i"
  shows "\<exists>x. ic_next_expiry c = Some x \<and> x \<le> s + ic_window_seconds c"
proof -
  have "(s, ic_counts c ! i) \<in> set (ic_occupied c)" using assms set_ic_occupied[OF assms(1)] by auto
  then have "s \<in> set (map fst (ic_occupied c))" by force
  then show ?thesis by (auto simp: ic_next_expiry_def Let_def)
qed

text \<open>Nothing to sweep before the next expiry.\<close>

lemma ic_expire_none_due:
  assumes "ic_ok c" "ic_past c now" "\<And>x. ic_next_expiry c = Some x \<Longrightarrow> now < x"
  shows "ic_total (snd (ic_expire c now)) = ic_total c"
proof -
  obtain r c' where c': "ic_expire c now = (r, c')" by (cases "ic_expire c now")
  note ex = ic_expire_ok[OF assms(1) c']
  have len: "length (ic_starts c) = nat (ic_bucket_count c)" "length (ic_counts c) = nat (ic_bucket_count c)"
    "length (ic_counts c') = nat (ic_bucket_count c)" "0 < ic_bucket_seconds c"
    using assms(1) ex(1,2) by (simp_all add: ic_ok_def ic_geometry_def)
  have "ic_counts c' ! i = ic_counts c ! i" if i: "i < nat (ic_bucket_count c)" for i
  proof (cases "\<exists>s. ic_starts c ! i = Some s \<and> \<not> ic_is_live c s now")
    case True
    then obtain s where s: "ic_starts c ! i = Some s" "\<not> ic_is_live c s now" by blast
    have "s \<le> bucket_start now (ic_bucket_seconds c)"
      using assms(2) s(1) i len by (metis ic_past_def nth_mem)
    then have "s + ic_window_seconds c \<le> now"
      using s(2) bucket_start_bounds[OF len(4), of now] by (auto simp: ic_is_live_def Let_def)
    then have "\<not> 0 < ic_counts c ! i" using ic_next_expiry_le[OF assms(1) i s(1)] assms(3) by force
    moreover have "0 \<le> ic_counts c ! i" using assms(1) i by (simp add: ic_ok_def)
    ultimately show ?thesis using ex(6)[OF i] by auto
  next
    case False
    then show ?thesis unfolding ex(6)[OF i] by (rule if_not_P)
  qed
  then have "ic_counts c' = ic_counts c" using len by (intro nth_equalityI) auto
  then show ?thesis using ex(1) assms(1) c' by (simp add: ic_ok_def)
qed

lemma ic_expired_next:
  assumes "ic_ok c" "ic_next_expiry (snd (ic_expire c now)) = Some x"
  shows "now < x"
proof -
  obtain r c' where c': "ic_expire c now = (r, c')" by (cases "ic_expire c now")
  note ex = ic_expire_ok[OF assms(1) c']
  obtain i s where s: "i < nat (ic_bucket_count c')" "ic_starts c' ! i = Some s" "x = s + ic_window_seconds c'"
    using ic_next_expiry_SomeD[OF ex(1)] assms(2) c' by auto
  have "ic_is_live c s now" using ex(4)[of s] s ex(1) by (metis ic_ok_def nth_mem)
  moreover have g: "ic_window_seconds c' = ic_window_seconds c" "0 < ic_bucket_seconds c"
    using ex(2) assms(1) by (simp_all add: ic_geometry_def ic_window_seconds_def ic_ok_def)
  moreover have "ic_bucket_seconds c dvd s + ic_window_seconds c"
    using ic_slot_start[OF ex(1) s(1,2)] ex(2) by (simp add: ic_geometry_def ic_window_seconds_def)
  ultimately show ?thesis
    using bucket_start_lt_iff[of "ic_bucket_seconds c" "s + ic_window_seconds c" now] s(3)
    by (simp add: ic_is_live_def Let_def)
qed

lemma ic_expire_idem:
  assumes "ic_ok c"
  shows "ic_total (snd (ic_expire (snd (ic_expire c now)) now)) = ic_total (snd (ic_expire c now))"
proof (rule ic_expire_none_due)
  show "ic_ok (snd (ic_expire c now))"
    using ic_expire_ok(1)[OF assms, of now] by (cases "ic_expire c now") simp
qed (use assms ic_expire_past ic_expired_next in auto)

section \<open>The total is the window's content\<close>

text \<open>The buckets inside the window at \<open>now\<close>.\<close>

definition ic_window :: "ip_counter \<Rightarrow> int \<Rightarrow> int set" where
  "ic_window c now = {s. ic_bucket_seconds c dvd s \<and> ic_is_live c s now}"

lemma finite_ic_window [simp]: "finite (ic_window c now)"
  by (rule finite_subset[of _ "{bucket_start now (ic_bucket_seconds c) - ic_window_seconds c .. bucket_start now (ic_bucket_seconds c)}"])
     (auto simp: ic_window_def ic_is_live_def Let_def)

lemma ic_total_window:
  assumes "ic_ok c" "\<And>s. Some s \<in> set (ic_starts c) \<Longrightarrow> ic_is_live c s now"
  shows "ic_total c = (\<Sum>s \<in> ic_window c now. ic_at c s)"
proof -
  let ?n = "nat (ic_bucket_count c)"
  let ?held = "{s \<in> ic_window c now. ic_starts c ! ic_slot c s = Some s}"
  have len: "length (ic_starts c) = ?n" "length (ic_counts c) = ?n" using assms(1) by (simp_all add: ic_ok_def)
  have "ic_total c = (\<Sum>i < ?n. ic_counts c ! i)"
    using assms(1) len by (simp add: ic_ok_def sum_list_sum_nth atLeast0LessThan)
  also have "\<dots> = (\<Sum>i \<in> ic_slot c ` ?held. ic_counts c ! i)"
  proof (rule sum.mono_neutral_right)
    show "ic_slot c ` ?held \<subseteq> {..< ?n}" using ic_slot_lt[OF assms(1)] by auto
    show "\<forall>i \<in> {..< ?n} - ic_slot c ` ?held. ic_counts c ! i = 0"
    proof
      fix i assume i: "i \<in> {..< ?n} - ic_slot c ` ?held"
      show "ic_counts c ! i = 0"
      proof (cases "ic_starts c ! i")
        case None
        then show ?thesis using i assms(1) by (force simp: ic_ok_def)
      next
        case (Some s)
        with i ic_slot_start[OF assms(1), of i s] have "ic_bucket_seconds c dvd s" "ic_slot c s = i" by auto
        moreover have "ic_is_live c s now" using assms(2)[of s] Some i len by (auto simp: in_set_conv_nth)
        ultimately have "s \<in> ?held" using Some by (simp add: ic_window_def)
        with i \<open>ic_slot c s = i\<close> show ?thesis by auto
      qed
    qed
  qed simp
  also have "\<dots> = (\<Sum>s \<in> ?held. ic_counts c ! ic_slot c s)"
  proof (rule sum.reindex[unfolded comp_def], rule inj_onI)
    fix x y assume xy: "x \<in> ?held" "y \<in> ?held" "ic_slot c x = ic_slot c y"
    then have "Some x = ic_starts c ! ic_slot c x" by simp
    also have "\<dots> = Some y" unfolding xy(3) using xy(2) by blast
    finally show "x = y" by simp
  qed
  also have "\<dots> = (\<Sum>s \<in> ic_window c now. ic_at c s)"
    unfolding ic_at_def by (rule sum.inter_filter) simp
  finally show ?thesis .
qed

text \<open>The ring's history: the calls made on it, in the order of their clock.\<close>

datatype ring_event = RingObserve int int int | RingExpire int

fun ring_time :: "ring_event \<Rightarrow> int" where
  "ring_time (RingObserve s d now) = now"
| "ring_time (RingExpire now) = now"

fun ring_step :: "ring_event \<Rightarrow> ip_counter \<Rightarrow> ip_counter" where
  "ring_step (RingObserve s d now) c = snd (ic_observe c s d now)"
| "ring_step (RingExpire now) c = snd (ic_expire c now)"

text \<open>The delta an event contributes to a bucket: refused calls contribute nothing.\<close>

fun ring_delta :: "int \<Rightarrow> int \<Rightarrow> ring_event \<Rightarrow> int \<Rightarrow> int" where
  "ring_delta B N (RingObserve s d now) s' =
     (if s = s' \<and> B dvd s \<and> 0 \<le> d \<and> 0 \<le> bucket_start now B - s \<and> bucket_start now B - s < B * N then d else 0)"
| "ring_delta B N (RingExpire now) s' = 0"

definition ring_sum :: "int \<Rightarrow> int \<Rightarrow> ring_event list \<Rightarrow> int \<Rightarrow> int" where
  "ring_sum B N es s = sum_list (map (\<lambda>e. ring_delta B N e s) es)"

lemma ring_sum_simps [simp]:
  "ring_sum B N [] s = 0" "ring_sum B N (es @ [e]) s = ring_sum B N es s + ring_delta B N e s"
  by (simp_all add: ring_sum_def)

definition ring_tracks :: "int \<Rightarrow> int \<Rightarrow> ring_event list \<Rightarrow> ip_counter \<Rightarrow> int \<Rightarrow> bool" where
  "ring_tracks B N es c now \<longleftrightarrow> ic_ok c \<and> ic_geometry c = (B, N) \<and> ic_past c now \<and>
     (\<forall>s. B dvd s \<and> bucket_start now B - s < B * N \<longrightarrow> ic_at c s = ring_sum B N es s)"

lemma ring_tracks_mono: "ring_tracks B N es c t \<Longrightarrow> t \<le> t' \<Longrightarrow> ring_tracks B N es c t'"
proof -
  assume t: "ring_tracks B N es c t" "t \<le> t'"
  then have "ic_past c t'" using ic_past_mono by (auto simp: ring_tracks_def)
  moreover have "bucket_start t B \<le> bucket_start t' B"
    using t by (intro bucket_start_mono) (auto simp: ring_tracks_def ic_ok_def ic_geometry_def)
  ultimately show ?thesis using t(1) by (auto simp: ring_tracks_def)
qed

lemma ring_tracks_step:
  assumes "ring_tracks B N es c (ring_time e)"
  shows "ring_tracks B N (es @ [e]) (ring_step e c) (ring_time e)"
proof (cases e)
  case (RingObserve s d now)
  note tr = assms[unfolded RingObserve ring_time.simps]
  have g: "ic_bucket_seconds c = B" "ic_bucket_count c = N" "ic_window_seconds c = B * N"
    using tr by (auto simp: ring_tracks_def ic_geometry_def ic_window_seconds_def)
  show ?thesis
  proof (cases "B dvd s \<and> 0 \<le> d \<and> ic_is_live c s now")
    case True
    then obtain c' where c': "ic_observe c s d now = (Inr True, c')" "ic_ok c'" "ic_past c' now" "ic_geometry c' = ic_geometry c"
      "\<And>s'. B dvd s' \<Longrightarrow> bucket_start now B - s' < B * N \<Longrightarrow> ic_at c' s' = ic_at c s' + (if s' = s then d else 0)"
      using ic_observe_live[of c now s d] tr g by (auto simp: ring_tracks_def)
    moreover have "0 \<le> bucket_start now B - s \<and> bucket_start now B - s < B * N"
      using True g by (simp add: ic_is_live_def Let_def)
    ultimately show ?thesis using tr True RingObserve by (auto simp: ring_tracks_def)
  next
    case False
    then have "snd (ic_observe c s d now) = c" using g by (auto simp: ic_observe_def mod_eq_0_iff_dvd)
    moreover have "\<not> (B dvd s \<and> 0 \<le> d \<and> 0 \<le> bucket_start now B - s \<and> bucket_start now B - s < B * N)"
      using False g by (auto simp: ic_is_live_def Let_def)
    then have "ring_delta B N e s' = 0" for s' using RingObserve by auto
    ultimately show ?thesis using tr RingObserve by (auto simp: ring_tracks_def)
  qed
next
  case (RingExpire now)
  obtain r c' where c': "ic_expire c now = (r, c')" by (cases "ic_expire c now")
  have ok: "ic_ok c" using assms by (simp add: ring_tracks_def)
  note ex = ic_expire_ok[OF ok c']
  have "ic_past c' now"
    using ex(2,4) by (auto simp: ic_past_def ic_is_live_def Let_def ic_geometry_def)
  moreover have "ic_at c' s = ring_sum B N es s" if "B dvd s" "bucket_start now B - s < B * N" for s
  proof (cases "ic_is_live c s now")
    case True
    then show ?thesis using ex(3)[of s] assms that RingExpire by (simp add: ring_tracks_def)
  next
    case False
    then have fut: "bucket_start now B < s"
      using that assms by (auto simp: ic_is_live_def Let_def ring_tracks_def ic_geometry_def ic_window_seconds_def)
    have "ic_starts c ! ic_slot c s \<noteq> Some s"
    proof
      assume "ic_starts c ! ic_slot c s = Some s"
      then have "Some s \<in> set (ic_starts c)" using ic_slot_lt[OF ok, of s] ok by (metis ic_ok_def nth_mem)
      then show False using fut assms RingExpire by (auto simp: ring_tracks_def ic_past_def ic_geometry_def)
    qed
    then have "ic_at c s = 0" by (simp add: ic_at_def)
    then show ?thesis using ex(3)[of s] assms that RingExpire False by (simp add: ring_tracks_def)
  qed
  ultimately show ?thesis using assms ex RingExpire c' by (simp add: ring_tracks_def)
qed

lemma ring_tracks_run:
  assumes "ring_tracks B N es0 c t0" "sorted (t0 # map ring_time es)" "\<forall>e \<in> set es. ring_time e \<le> now" "t0 \<le> now"
  shows "ring_tracks B N (es0 @ es) (fold ring_step es c) now"
  using assms
proof (induction es arbitrary: es0 c t0)
  case Nil
  then show ?case using ring_tracks_mono by auto
next
  case (Cons e es)
  have "ring_tracks B N (es0 @ [e]) (ring_step e c) (ring_time e)"
    using Cons.prems ring_tracks_mono[of B N es0 c t0 "ring_time e"] by (intro ring_tracks_step) auto
  from Cons.IH[OF this] Cons.prems show ?case by auto
qed

text \<open>C28: The window total is exact. Take any sequence of \<open>observe\<close> and \<open>expire\<close> calls on a new ring, in
  clock order, with deltas for buckets in any order. After a sweep at \<open>now\<close>, \<open>total\<close> is the sum over
  the buckets inside the window of the deltas applied to them; a delta that was refused (unaligned,
  negative, or for a bucket not live at its time) counts for nothing.\<close>

theorem ring_total_exact:
  assumes "0 < B" "0 < N" "mk_ip_counter B N = Inr c" "sorted (map ring_time es)" "\<forall>e \<in> set es. ring_time e \<le> now"
  shows "ic_total (snd (ic_expire (fold ring_step es c) now)) =
    (\<Sum>s \<in> {s. B dvd s \<and> 0 \<le> bucket_start now B - s \<and> bucket_start now B - s < B * N}. ring_sum B N es s)"
proof -
  let ?c = "fold ring_step es c"
  have new: "ic_ok c" "ic_geometry c = (B, N)" "\<forall>s. ic_at c s = 0"
    using mk_ip_counter_ok[OF assms(1,2)] assms(3) by auto
  have "ic_starts c = replicate (nat N) None" using assms(1,2,3) by (auto simp: mk_ip_counter_def split: if_splits)
  then have past: "ic_past c t" for t by (simp add: ic_past_def)
  define t0 where "t0 = (case es of [] \<Rightarrow> now | e # _ \<Rightarrow> ring_time e)"
  have "ring_tracks B N [] c t0" using new past by (simp add: ring_tracks_def)
  moreover have "sorted (t0 # map ring_time es)" "t0 \<le> now"
    using assms(4,5) by (auto simp: t0_def split: list.splits)
  ultimately have tr: "ring_tracks B N es ?c now" using ring_tracks_run[of B N "[]" c t0 es now] assms(5) by simp
  obtain r c' where c': "ic_expire ?c now = (r, c')" by (cases "ic_expire ?c now")
  have ok: "ic_ok ?c" using tr by (simp add: ring_tracks_def)
  note ex = ic_expire_ok[OF ok c']
  have g: "ic_bucket_seconds c' = B" "ic_bucket_count c' = N" "ic_bucket_seconds ?c = B" "ic_bucket_count ?c = N"
    using tr ex(2) by (simp_all add: ring_tracks_def ic_geometry_def)
  have win: "ic_window c' now = {s. B dvd s \<and> 0 \<le> bucket_start now B - s \<and> bucket_start now B - s < B * N}"
    using g by (auto simp: ic_window_def ic_is_live_def Let_def ic_window_seconds_def)
  have live: "ic_is_live c' = ic_is_live ?c" using ex(2) by (rule ic_is_live_geometry)
  have "ic_total c' = (\<Sum>s \<in> ic_window c' now. ic_at c' s)"
    using ic_total_window[OF ex(1), of now] ex(4) live by auto
  also have "\<dots> = (\<Sum>s \<in> ic_window c' now. ring_sum B N es s)"
    using ex(3) tr live win by (intro sum.cong) (auto simp: ring_tracks_def ic_window_def)
  finally show ?thesis using c' win by simp
qed

definition sample_ring :: "ring_event list" where
  "sample_ring = [RingObserve 90 5 100, RingObserve 70 2 101, RingObserve 75 9 101, RingExpire 102, RingObserve 110 4 112]"

theorem ring_total_exact_witness:
  "\<exists>c. mk_ip_counter 10 3 = Inr c \<and> ic_total (snd (ic_expire (fold ring_step sample_ring c) 119)) =
    (\<Sum>s \<in> {s. 10 dvd s \<and> 0 \<le> bucket_start 119 10 - s \<and> bucket_start 119 10 - s < 10 * 3}. ring_sum 10 3 sample_ring s)"
proof -
  obtain c where c: "mk_ip_counter 10 3 = Inr c" using mk_ip_counter_ok[of 10 3] by auto
  moreover have "sorted (map ring_time sample_ring)" "\<forall>e \<in> set sample_ring. ring_time e \<le> 119"
    by (simp_all add: sample_ring_def)
  ultimately show ?thesis using ring_total_exact[of 10 3 c sample_ring 119] by auto
qed

text \<open>The lateness policy and the ring agree: an observation is classified \<open>APPLIED\<close> exactly when its
  window is not too long, it is not from the future, and a ring of the configured geometry accepts the
  delta for its floored bucket.\<close>

theorem applied_iff_ring_accepts:
  assumes "config_ok cfg" "ic_ok c" "ic_geometry c = (bucket_seconds cfg, bucket_count cfg)" "0 \<le> d"
  shows "classify_observation ws secs now cfg = APPLIED \<longleftrightarrow>
    secs \<le> window_seconds cfg \<and> ws \<le> now \<and>
    fst (ic_observe c (bucket_start ws (bucket_seconds cfg)) d now) = Inr True"
proof -
  have g: "ic_bucket_seconds c = bucket_seconds cfg" "ic_window_seconds c = window_seconds cfg"
    using assms(3) config_ok_facts(3)[OF assms(1)] by (simp_all add: ic_geometry_def ic_window_seconds_def)
  have "fst (ic_observe c (bucket_start ws (bucket_seconds cfg)) d now) = Inr True \<longleftrightarrow>
      ic_is_live c (bucket_start ws (bucket_seconds cfg)) now"
    using assms(4) g by (simp add: ic_observe_def Let_def mod_eq_0_iff_dvd)
  then show ?thesis unfolding classify_applied_iff[OF assms(1)] using g by (auto simp: ic_is_live_def Let_def)
qed

theorem applied_iff_ring_accepts_witness:
  "\<exists>c. mk_ip_counter 10 30 = Inr c \<and>
    (classify_observation 705 60 1000 DEFAULT_CONFIG = APPLIED \<longleftrightarrow>
      (60::int) \<le> 300 \<and> (705::int) \<le> 1000 \<and> fst (ic_observe c 700 1 1000) = Inr True)"
proof -
  obtain c where c: "mk_ip_counter 10 30 = Inr c" "ic_ok c" "ic_geometry c = (10, 30)"
    using mk_ip_counter_ok[of 10 30] by auto
  then show ?thesis
    using applied_iff_ring_accepts[OF DEFAULT_CONFIG_ok, of c 1 705 60 1000]
    by (simp add: DEFAULT_CONFIG_def bucket_count_def bucket_start_def)
qed

end
