(* ===== verification/Shard_Window.thy ===== *)
theory Shard_Window
  imports Ip_Counter Addressing "HOL-Library.AList" "HOL-Library.Multiset"
begin

text \<open>
  The counters of one shard, \<open>hammertime.aggregator.window.store\<close>: per tracked IP a ring, the HOT/COLD
  state, the time of the newest applied bucket and the \<open>inherited\<close> flag, with the two lazy schedules
  (expiry, and retention or capacity) that keep the sweeps from scanning the store. A Python \<open>dict\<close> is
  an association list in insertion order. \<open>heapq\<close> is used only through its smallest element, and the
  entries differ in (key, tie-breaker), so a heap is kept as the list sorted by those two. The clock is
  the argument \<open>now\<close>. The logging of an over-full store is left out.
\<close>

section \<open>Heaps\<close>

type_synonym heap_item = "int \<times> int \<times> address"

definition heap_key :: "heap_item \<Rightarrow> int \<times> int" where
  "heap_key x = (fst x, fst (snd x))"

abbreviation heap_ip :: "heap_item \<Rightarrow> address" where
  "heap_ip x \<equiv> snd (snd x)"

definition heappush :: "heap_item \<Rightarrow> heap_item list \<Rightarrow> heap_item list" where
  "heappush x h = insort_key heap_key x h"

lemma set_heappush [simp]: "set (heappush x h) = insert x (set h)"
  by (simp add: heappush_def set_insort_key)

lemma length_heappush [simp]: "length (heappush x h) = Suc (length h)"
  by (simp add: heappush_def)

lemma mset_heappush [simp]: "mset (heappush x h) = add_mset x (mset h)"
  by (simp add: heappush_def)

definition heap_ok :: "heap_item list \<Rightarrow> bool" where
  "heap_ok h \<longleftrightarrow> sorted (map heap_key h)"

lemma heap_ok_push [simp]: "heap_ok h \<Longrightarrow> heap_ok (heappush x h)"
  by (simp add: heap_ok_def heappush_def sorted_insort_key)

lemma heap_ok_tl: "heap_ok (x # h) \<Longrightarrow> heap_ok h"
  by (simp add: heap_ok_def)

lemma heap_min: "heap_ok (x # h) \<Longrightarrow> y \<in> set h \<Longrightarrow> fst x \<le> fst y"
  by (auto simp: heap_ok_def heap_key_def less_eq_prod_def)

section \<open>State\<close>

record window_change =
  wc_ip :: address
  wc_state :: ip_state
  wc_total_before :: int
  wc_total_after :: int

record window_entry =
  en_counter :: ip_counter
  en_state :: ip_state
  en_last_seen :: int
  en_inherited :: bool

record shard_window =
  sw_shard :: int
  sw_next_sequence :: int
  sw_capacity_evictions :: int
  sw_retention_evictions :: int
  sw_config :: detection_config
  sw_max_tracked_ips :: int
  sw_entries :: "(address \<times> window_entry) list"
  sw_tie_break :: int
  sw_expiry_heap :: "heap_item list"
  sw_expiry_scheduled :: "(address \<times> int) list"
  sw_last_seen_heap :: "heap_item list"
  sw_last_seen_scheduled :: "(address \<times> int) list"
  sw_warm_until :: "int option"

abbreviation sw_entry :: "shard_window \<Rightarrow> address \<Rightarrow> window_entry option" where
  "sw_entry w \<equiv> map_of (sw_entries w)"

definition sw_put :: "shard_window \<Rightarrow> address \<Rightarrow> window_entry \<Rightarrow> shard_window" where
  "sw_put w ip e = w\<lparr>sw_entries := AList.update ip e (sw_entries w)\<rparr>"

section \<open>Internals\<close>

definition sw_new_counter :: "shard_window \<Rightarrow> ip_counter result" where
  "sw_new_counter w =
     (if bucket_seconds (sw_config w) = 0 then Inl ZeroDivisionError
      else mk_ip_counter (bucket_seconds (sw_config w)) (bucket_count (sw_config w)))"

definition sw_schedule_last_seen :: "shard_window \<Rightarrow> address \<Rightarrow> window_entry \<Rightarrow> shard_window" where
  "sw_schedule_last_seen w ip e =
     (if map_of (sw_last_seen_scheduled w) ip \<noteq> None then w
      else w\<lparr>sw_last_seen_scheduled := AList.update ip (en_last_seen e) (sw_last_seen_scheduled w),
             sw_last_seen_heap := heappush (en_last_seen e, sw_tie_break w, ip) (sw_last_seen_heap w),
             sw_tie_break := sw_tie_break w + 1\<rparr>)"

definition sw_schedule_expiry :: "shard_window \<Rightarrow> address \<Rightarrow> window_entry \<Rightarrow> shard_window" where
  "sw_schedule_expiry w ip e =
     (case ic_next_expiry (en_counter e) of
        None \<Rightarrow> w
      | Some expires_at \<Rightarrow>
          if (case map_of (sw_expiry_scheduled w) ip of None \<Rightarrow> False | Some scheduled \<Rightarrow> scheduled \<le> expires_at) then w
          else w\<lparr>sw_expiry_scheduled := AList.update ip expires_at (sw_expiry_scheduled w),
                 sw_expiry_heap := heappush (expires_at, sw_tie_break w, ip) (sw_expiry_heap w),
                 sw_tie_break := sw_tie_break w + 1\<rparr>)"

definition sw_track :: "shard_window \<Rightarrow> address \<Rightarrow> window_entry \<Rightarrow> shard_window" where
  "sw_track w ip e = sw_schedule_last_seen (sw_put w ip e) ip e"

definition sw_drop :: "shard_window \<Rightarrow> address \<Rightarrow> shard_window" where
  "sw_drop w ip = w\<lparr>sw_entries := AList.delete ip (sw_entries w),
     sw_expiry_scheduled := AList.delete ip (sw_expiry_scheduled w),
     sw_last_seen_scheduled := AList.delete ip (sw_last_seen_scheduled w)\<rparr>"

text \<open>How many heap entries carry an outdated key of a tracked IP: the re-push of the sweepers ends
  because each one is corrected once.\<close>

definition stale_key :: "shard_window \<Rightarrow> heap_item \<Rightarrow> bool" where
  "stale_key w x = (case sw_entry w (heap_ip x) of None \<Rightarrow> False | Some e \<Rightarrow> fst x \<noteq> en_last_seen e)"

definition sweep_measure :: "shard_window \<Rightarrow> nat" where
  "sweep_measure w = length (sw_last_seen_heap w) + length (filter (stale_key w) (sw_last_seen_heap w))"

lemma stale_key_updates [simp]:
  "stale_key (w\<lparr>sw_last_seen_heap := h\<rparr>) = stale_key w"
  "stale_key (w\<lparr>sw_last_seen_scheduled := m\<rparr>) = stale_key w"
  "stale_key (w\<lparr>sw_retention_evictions := n\<rparr>) = stale_key w"
  "stale_key (w\<lparr>sw_capacity_evictions := n\<rparr>) = stale_key w"
  by (simp_all add: stale_key_def fun_eq_iff)

lemma stale_key_eq:
  "sw_entry w ip = Some e \<Longrightarrow> stale_key w (k, t, ip) \<longleftrightarrow> k \<noteq> en_last_seen e"
  "sw_entry w ip = None \<Longrightarrow> \<not> stale_key w (k, t, ip)"
  by (simp_all add: stale_key_def)

lemma map_of_delete_some: "map_of (AList.delete k al) x = Some v \<Longrightarrow> map_of al x = Some v"
  by (cases "k = x") (simp_all add: delete_conv')

lemma filter_mono_length: "(\<And>x. P x \<Longrightarrow> Q x) \<Longrightarrow> length (filter P xs) \<le> length (filter Q xs)"
  by (induction xs) (auto intro: le_SucI)

lemma length_filter_heappush: "length (filter P (heappush x h)) = length (filter P h) + of_bool (P x)"
proof -
  have "length (filter P (heappush x h)) = size (filter_mset P (mset (heappush x h)))"
    by (metis mset_filter size_mset)
  also have "\<dots> = length (filter P h) + of_bool (P x)"
    by (simp flip: mset_filter)
  finally show ?thesis .
qed

text \<open>The loop of \<open>_evict_for_capacity\<close>: it returns the set-aside HOT entries and the victim.\<close>

function sw_capacity_loop :: "shard_window \<Rightarrow> heap_item list \<Rightarrow> heap_item list \<times> address option \<times> shard_window" where
  "sw_capacity_loop w deferred =
     (case sw_last_seen_heap w of
        [] \<Rightarrow> (deferred, None, w)
      | (last_seen, tie, ip) # rest \<Rightarrow>
          let w1 = w\<lparr>sw_last_seen_heap := rest\<rparr> in
          (case sw_entry w ip of
             None \<Rightarrow> sw_capacity_loop
               (w1\<lparr>sw_last_seen_scheduled := AList.delete ip (sw_last_seen_scheduled w1)\<rparr>) deferred
           | Some e \<Rightarrow>
               if last_seen \<noteq> en_last_seen e then
                 sw_capacity_loop
                   (w1\<lparr>sw_last_seen_heap := heappush (en_last_seen e, tie, ip) (sw_last_seen_heap w1),
                       sw_last_seen_scheduled := AList.update ip (en_last_seen e) (sw_last_seen_scheduled w1)\<rparr>) deferred
               else if en_state e = HOT then sw_capacity_loop w1 (deferred @ [(last_seen, tie, ip)])
               else (deferred, Some ip, w1)))"
  by pat_completeness auto
termination
proof (relation "measure (\<lambda>(w, d). sweep_measure w)", goal_cases)
  case (2 w d x21 x22 xa y xb ya z)
  then show ?case by (auto simp: sweep_measure_def stale_key_eq)
next
  case (3 w d x21 x22 xa y xb ya z x2)
  then show ?case by (auto simp: sweep_measure_def stale_key_eq length_filter_heappush)
next
  case (4 w d x21 x22 xa y xb ya z x2)
  then show ?case by (auto simp: sweep_measure_def stale_key_eq)
qed simp

definition sw_evict_for_capacity :: "shard_window \<Rightarrow> shard_window" where
  "sw_evict_for_capacity w =
     (if int (length (sw_entries w)) < sw_max_tracked_ips w then w
      else let (deferred, victim, w1) = sw_capacity_loop w [];
               w2 = w1\<lparr>sw_last_seen_heap := fold heappush deferred (sw_last_seen_heap w1)\<rparr>
           in case victim of
                None \<Rightarrow> w2
              | Some ip \<Rightarrow> (sw_drop w2 ip)\<lparr>sw_capacity_evictions := sw_capacity_evictions w2 + 1\<rparr>)"

section \<open>Construction and warm-up\<close>

fun sw_track_inherited :: "shard_window \<Rightarrow> int \<Rightarrow> address list \<Rightarrow> shard_window result" where
  "sw_track_inherited w now [] = Inr w"
| "sw_track_inherited w now (ip # ips) =
     bindE (sw_new_counter w) (\<lambda>c.
       sw_track_inherited (sw_track w ip \<lparr>en_counter = c, en_state = HOT, en_last_seen = now, en_inherited = True\<rparr>) now ips)"

text \<open>\<open>inherited_hot\<close> is a set in the code; here it is any list of its elements.\<close>

definition mk_shard_window :: "int \<Rightarrow> detection_config \<Rightarrow> int \<Rightarrow> address list \<Rightarrow> int \<Rightarrow> int \<Rightarrow> shard_window result" where
  "mk_shard_window shard config now inherited_hot next_sequence max_tracked =
     (if max_tracked \<le> 0 then Inl ValueError
      else bindE (sw_track_inherited
             \<lparr>sw_shard = shard, sw_next_sequence = next_sequence, sw_capacity_evictions = 0, sw_retention_evictions = 0,
              sw_config = config, sw_max_tracked_ips = max_tracked, sw_entries = [], sw_tie_break = 0,
              sw_expiry_heap = [], sw_expiry_scheduled = [], sw_last_seen_heap = [], sw_last_seen_scheduled = [],
              sw_warm_until = None\<rparr> now (remdups inherited_hot)) (\<lambda>w.
             Inr (w\<lparr>sw_warm_until := if sw_entries w \<noteq> [] then Some (now + window_seconds config) else None\<rparr>)))"

definition sw_in_warmup :: "shard_window \<Rightarrow> int \<Rightarrow> bool" where
  "sw_in_warmup w now = (case sw_warm_until w of None \<Rightarrow> False | Some t \<Rightarrow> now < t)"

definition sw_finish_warmup_if_due :: "shard_window \<Rightarrow> int \<Rightarrow> address list option \<times> shard_window" where
  "sw_finish_warmup_if_due w now =
     (case sw_warm_until w of
        None \<Rightarrow> (None, w)
      | Some t \<Rightarrow>
          if now < t then (None, w)
          else (Some (map fst (filter (\<lambda>(ip, e). en_inherited e \<and> en_state e = HOT) (sw_entries w))),
                w\<lparr>sw_entries := map (\<lambda>(ip, e). (ip, e\<lparr>en_inherited := False\<rparr>)) (sw_entries w), sw_warm_until := None\<rparr>))"

section \<open>Reads\<close>

definition sw_total :: "shard_window \<Rightarrow> address \<Rightarrow> int" where
  "sw_total w ip = (case sw_entry w ip of None \<Rightarrow> 0 | Some e \<Rightarrow> ic_total (en_counter e))"

definition sw_state :: "shard_window \<Rightarrow> address \<Rightarrow> ip_state" where
  "sw_state w ip = (case sw_entry w ip of None \<Rightarrow> COLD | Some e \<Rightarrow> en_state e)"

definition sw_is_tracked :: "shard_window \<Rightarrow> address \<Rightarrow> bool" where
  "sw_is_tracked w ip = (sw_entry w ip \<noteq> None)"

definition sw_is_inherited :: "shard_window \<Rightarrow> address \<Rightarrow> bool" where
  "sw_is_inherited w ip = (case sw_entry w ip of None \<Rightarrow> False | Some e \<Rightarrow> en_inherited e)"

definition sw_hot_ips :: "shard_window \<Rightarrow> address set" where
  "sw_hot_ips w = fst ` set (filter (\<lambda>(ip, e). en_state e = HOT) (sw_entries w))"

definition sw_tracked_ips :: "shard_window \<Rightarrow> address list" where
  "sw_tracked_ips w = map fst (sw_entries w)"

definition sw_tracked_count :: "shard_window \<Rightarrow> int" where
  "sw_tracked_count w = int (length (sw_entries w))"

definition sw_active_count :: "shard_window \<Rightarrow> int" where
  "sw_active_count w = int (length (filter (\<lambda>(ip, e). 0 < ic_total (en_counter e)) (sw_entries w)))"

definition sw_hot_count :: "shard_window \<Rightarrow> int" where
  "sw_hot_count w = int (length (filter (\<lambda>(ip, e). en_state e = HOT) (sw_entries w)))"

section \<open>Writes\<close>

definition sw_observe :: "shard_window \<Rightarrow> address \<Rightarrow> int \<Rightarrow> int \<Rightarrow> int \<Rightarrow> window_change option result \<times> shard_window" where
  "sw_observe w ip start delta now =
     (case (case sw_entry w ip of None \<Rightarrow> sw_new_counter w | Some e \<Rightarrow> Inr (en_counter e)) of
        Inl err \<Rightarrow> (Inl err, w)
      | Inr counter \<Rightarrow>
          (case ic_observe counter start delta now of
             (Inl err, _) \<Rightarrow> (Inl err, w)
           | (Inr applied, counter') \<Rightarrow>
               if \<not> applied then (Inr None, w)
               else let (e, w1) = (case sw_entry w ip of
                       None \<Rightarrow>
                         let e = \<lparr>en_counter = counter', en_state = COLD, en_last_seen = start, en_inherited = False\<rparr>
                         in (e, sw_track (sw_evict_for_capacity w) ip e)
                     | Some e0 \<Rightarrow>
                         let e = e0\<lparr>en_counter := counter', en_last_seen := max (en_last_seen e0) start\<rparr>
                         in (e, sw_put w ip e));
                     w2 = sw_schedule_expiry w1 ip e
                 in (Inr (Some \<lparr>wc_ip = ip, wc_state = en_state e, wc_total_before = ic_total counter,
                                wc_total_after = ic_total counter'\<rparr>), w2)))"

definition sw_set_state :: "shard_window \<Rightarrow> address \<Rightarrow> ip_state \<Rightarrow> unit result \<times> shard_window" where
  "sw_set_state w ip st =
     (case sw_entry w ip of
        None \<Rightarrow> (Inl KeyError, w)
      | Some e \<Rightarrow>
          if st = COLD then
            let e' = e\<lparr>en_state := st, en_inherited := False\<rparr> in (Inr (), sw_schedule_last_seen (sw_put w ip e') ip e')
          else (Inr (), sw_put w ip (e\<lparr>en_state := st\<rparr>)))"

text \<open>The sweep re-schedules an IP it expired, so that it ends is a result (below), not the model's.\<close>

partial_function (option) sw_expire_loop :: "shard_window \<Rightarrow> int \<Rightarrow> window_change list \<Rightarrow> (window_change list \<times> shard_window) option" where
  "sw_expire_loop w now changes =
     (case sw_expiry_heap w of
        [] \<Rightarrow> Some (changes, w)
      | (expires_at, tie, ip) # rest \<Rightarrow>
          if \<not> expires_at \<le> now then Some (changes, w)
          else let w1 = w\<lparr>sw_expiry_heap := rest\<rparr> in
            if map_of (sw_expiry_scheduled w1) ip \<noteq> Some expires_at then sw_expire_loop w1 now changes
            else let w2 = w1\<lparr>sw_expiry_scheduled := AList.delete ip (sw_expiry_scheduled w1)\<rparr> in
              (case sw_entry w2 ip of
                 None \<Rightarrow> sw_expire_loop w2 now changes
               | Some e \<Rightarrow>
                   let (removed, c') = ic_expire (en_counter e) now;
                       e' = e\<lparr>en_counter := c'\<rparr>;
                       w3 = sw_schedule_expiry (sw_put w2 ip e') ip e'
                   in sw_expire_loop w3 now
                        (if removed \<noteq> 0
                         then changes @ [\<lparr>wc_ip = ip, wc_state = en_state e, wc_total_before = ic_total (en_counter e),
                                         wc_total_after = ic_total c'\<rparr>]
                         else changes)))"

definition sw_expire_due :: "shard_window \<Rightarrow> int \<Rightarrow> (window_change list \<times> shard_window) option" where
  "sw_expire_due w now = sw_expire_loop w now []"

function sw_evict_loop :: "shard_window \<Rightarrow> int \<Rightarrow> heap_item list \<Rightarrow> int \<Rightarrow> heap_item list \<times> int \<times> shard_window" where
  "sw_evict_loop w deadline deferred removed =
     (case sw_last_seen_heap w of
        [] \<Rightarrow> (deferred, removed, w)
      | (last_seen, tie, ip) # rest \<Rightarrow>
          let w1 = w\<lparr>sw_last_seen_heap := rest\<rparr> in
          (case sw_entry w ip of
             None \<Rightarrow> sw_evict_loop
               (w1\<lparr>sw_last_seen_scheduled := AList.delete ip (sw_last_seen_scheduled w1)\<rparr>) deadline deferred removed
           | Some e \<Rightarrow>
               if last_seen \<noteq> en_last_seen e then
                 sw_evict_loop
                   (w1\<lparr>sw_last_seen_heap := heappush (en_last_seen e, tie, ip) (sw_last_seen_heap w1),
                       sw_last_seen_scheduled := AList.update ip (en_last_seen e) (sw_last_seen_scheduled w1)\<rparr>)
                   deadline deferred removed
               else if last_seen > deadline then (deferred, removed, w)
               else if en_state e = HOT then sw_evict_loop w1 deadline (deferred @ [(last_seen, tie, ip)]) removed
               else sw_evict_loop ((sw_drop w1 ip)\<lparr>sw_retention_evictions := sw_retention_evictions w1 + 1\<rparr>)
                      deadline deferred (removed + 1)))"
  by pat_completeness auto
termination
proof (relation "measure (\<lambda>(w, dl, d, r). sweep_measure w)", goal_cases)
  case (2 w dl d r x21 x22 xa y xb ya z)
  then show ?case by (auto simp: sweep_measure_def stale_key_eq)
next
  case (3 w dl d r x21 x22 xa y xb ya z x2)
  then show ?case by (auto simp: sweep_measure_def stale_key_eq length_filter_heappush)
next
  case (4 w dl d r x21 x22 xa y xb ya z x2)
  then show ?case by (auto simp: sweep_measure_def stale_key_eq)
next
  case (5 w dl d r x21 x22 xa y xb ya z x2)
  have le: "length (filter (stale_key (sw_drop z ya)) x22) \<le> length (filter (stale_key z) x22)"
    by (rule filter_mono_length)
       (auto simp: stale_key_def sw_drop_def split: option.splits dest: map_of_delete_some)
  have "sw_last_seen_heap (sw_drop z ya) = sw_last_seen_heap z" by (simp add: sw_drop_def)
  with 5 le show ?case by (auto simp: sweep_measure_def stale_key_eq)
qed simp

definition sw_evict_due :: "shard_window \<Rightarrow> int \<Rightarrow> int \<times> shard_window" where
  "sw_evict_due w now =
     (let deadline = now - state_retention_seconds (sw_config w);
          (deferred, removed, w1) = sw_evict_loop w deadline [] 0
      in (removed, w1\<lparr>sw_last_seen_heap := fold heappush deferred (sw_last_seen_heap w1)\<rparr>))"

fun rebuild_counter :: "ip_counter \<Rightarrow> (int \<times> int) list \<Rightarrow> int \<Rightarrow> int \<Rightarrow> ip_counter result" where
  "rebuild_counter c [] B now = Inr c"
| "rebuild_counter c ((start, n) # rest) B now =
     (case ic_observe c (bucket_start start B) n now of
        (Inl err, _) \<Rightarrow> Inl err
      | (Inr _, c') \<Rightarrow> rebuild_counter c' rest B now)"

fun sw_rebuild :: "shard_window \<Rightarrow> int \<Rightarrow> address list \<Rightarrow> unit result \<times> shard_window" where
  "sw_rebuild w now [] = (Inr (), w)"
| "sw_rebuild w now (ip # ips) =
     (case sw_entry w ip of
        None \<Rightarrow> sw_rebuild w now ips
      | Some e \<Rightarrow>
          (case bindE (sw_new_counter w) (\<lambda>c.
                rebuild_counter c (ic_live_buckets (en_counter e) now) (bucket_seconds (sw_config w)) now) of
             Inl err \<Rightarrow> (Inl err, w)
           | Inr c \<Rightarrow>
               let e' = e\<lparr>en_counter := c\<rparr>;
                   w1 = sw_put w ip e';
                   w2 = w1\<lparr>sw_expiry_scheduled := AList.delete ip (sw_expiry_scheduled w1)\<rparr>
               in sw_rebuild (sw_schedule_expiry w2 ip e') now ips))"

definition sw_apply_config :: "shard_window \<Rightarrow> detection_config \<Rightarrow> int \<Rightarrow> unit result \<times> shard_window" where
  "sw_apply_config w config now =
     (let old = sw_config w;
          rebuild = (bucket_seconds config \<noteq> bucket_seconds old \<or> bucket_count config \<noteq> bucket_count old);
          w1 = w\<lparr>sw_config := config\<rparr>
      in if \<not> rebuild then (Inr (), w1) else sw_rebuild w1 now (map fst (sw_entries w1)))"

declare sw_capacity_loop.simps [simp del] sw_evict_loop.simps [simp del]

end
