(* ===== verification/Shard_Window_Correct.thy ===== *)
theory Shard_Window_Correct
  imports Shard_Window
begin

text \<open>
  The shard window keeps its schedules consistent with its entries, and the sweeps that rest on them
  are exact: \<open>expire_due\<close> ends and leaves every total at the window's content, \<open>evict_due\<close> drops
  exactly the COLD IPs past retention, and making room never drops a HOT IP.
\<close>

section \<open>The invariant\<close>

definition entry_ok :: "detection_config \<Rightarrow> int \<Rightarrow> window_entry \<Rightarrow> bool" where
  "entry_ok cfg now e \<longleftrightarrow> ic_ok (en_counter e) \<and> ic_past (en_counter e) now \<and>
     ic_geometry (en_counter e) = (bucket_seconds cfg, bucket_count cfg)"

text \<open>The expiry schedule: a scheduled key is on the heap, and an IP with something to expire is
  scheduled no later than that.\<close>

definition expiry_inv :: "shard_window \<Rightarrow> bool" where
  "expiry_inv w \<longleftrightarrow> heap_ok (sw_expiry_heap w) \<and>
     (\<forall>ip k. map_of (sw_expiry_scheduled w) ip = Some k \<longrightarrow> (\<exists>t. (k, t, ip) \<in> set (sw_expiry_heap w))) \<and>
     (\<forall>ip e x. sw_entry w ip = Some e \<and> ic_next_expiry (en_counter e) = Some x \<longrightarrow>
        (\<exists>k. map_of (sw_expiry_scheduled w) ip = Some k \<and> k \<le> x))"

text \<open>The retention schedule: every tracked IP is pending exactly once, under a key no later than its
  \<open>last_seen\<close>. \<open>L\<close> is the heap, with the entries a sweep has set aside.\<close>

definition seen_inv :: "shard_window \<Rightarrow> heap_item list \<Rightarrow> bool" where
  "seen_inv w L \<longleftrightarrow> distinct (map heap_ip L) \<and> heap_ip ` set L = dom (sw_entry w) \<and>
     dom (map_of (sw_last_seen_scheduled w)) = dom (sw_entry w) \<and>
     (\<forall>k t ip. (k, t, ip) \<in> set L \<longrightarrow> map_of (sw_last_seen_scheduled w) ip = Some k) \<and>
     (\<forall>k t ip e. (k, t, ip) \<in> set L \<and> sw_entry w ip = Some e \<longrightarrow> k \<le> en_last_seen e)"

lemma seen_invD:
  assumes "seen_inv w L"
  shows "distinct (map heap_ip L)" "heap_ip ` set L = dom (sw_entry w)"
    "dom (map_of (sw_last_seen_scheduled w)) = dom (sw_entry w)"
    "(k, t, ip) \<in> set L \<Longrightarrow> map_of (sw_last_seen_scheduled w) ip = Some k"
    "(k, t, ip) \<in> set L \<Longrightarrow> sw_entry w ip = Some e \<Longrightarrow> k \<le> en_last_seen e"
  using assms unfolding seen_inv_def by blast+

lemma seen_invI:
  assumes "distinct (map heap_ip L)" "heap_ip ` set L = dom (sw_entry w)"
    "dom (map_of (sw_last_seen_scheduled w)) = dom (sw_entry w)"
    "\<And>k t ip. (k, t, ip) \<in> set L \<Longrightarrow> map_of (sw_last_seen_scheduled w) ip = Some k"
    "\<And>k t ip e. (k, t, ip) \<in> set L \<Longrightarrow> sw_entry w ip = Some e \<Longrightarrow> k \<le> en_last_seen e"
  shows "seen_inv w L"
  using assms unfolding seen_inv_def by blast

definition sw_ok :: "shard_window \<Rightarrow> int \<Rightarrow> bool" where
  "sw_ok w now \<longleftrightarrow> config_ok (sw_config w) \<and> distinct (map fst (sw_entries w)) \<and> 0 < sw_max_tracked_ips w \<and>
     (\<forall>ip e. sw_entry w ip = Some e \<longrightarrow> entry_ok (sw_config w) now e) \<and>
     expiry_inv w \<and> heap_ok (sw_last_seen_heap w) \<and> seen_inv w (sw_last_seen_heap w)"

lemma sw_put_simps [simp]:
  "sw_entry (sw_put w ip e) = (sw_entry w)(ip \<mapsto> e)"
  "sw_config (sw_put w ip e) = sw_config w" "sw_max_tracked_ips (sw_put w ip e) = sw_max_tracked_ips w"
  "sw_expiry_heap (sw_put w ip e) = sw_expiry_heap w" "sw_expiry_scheduled (sw_put w ip e) = sw_expiry_scheduled w"
  "sw_last_seen_heap (sw_put w ip e) = sw_last_seen_heap w"
  "sw_last_seen_scheduled (sw_put w ip e) = sw_last_seen_scheduled w" "sw_tie_break (sw_put w ip e) = sw_tie_break w"
  by (simp_all add: sw_put_def update_conv')

lemma sw_put_distinct [simp]:
  "distinct (map fst (sw_entries w)) \<Longrightarrow> distinct (map fst (sw_entries (sw_put w ip e)))"
  by (simp add: sw_put_def distinct_update)

lemma sw_schedule_expiry_simps [simp]:
  "sw_entries (sw_schedule_expiry w ip e) = sw_entries w" "sw_config (sw_schedule_expiry w ip e) = sw_config w"
  "sw_max_tracked_ips (sw_schedule_expiry w ip e) = sw_max_tracked_ips w"
  "sw_last_seen_heap (sw_schedule_expiry w ip e) = sw_last_seen_heap w"
  "sw_last_seen_scheduled (sw_schedule_expiry w ip e) = sw_last_seen_scheduled w"
  by (simp_all add: sw_schedule_expiry_def split: option.split)

lemma sw_schedule_last_seen_simps [simp]:
  "sw_entries (sw_schedule_last_seen w ip e) = sw_entries w" "sw_config (sw_schedule_last_seen w ip e) = sw_config w"
  "sw_max_tracked_ips (sw_schedule_last_seen w ip e) = sw_max_tracked_ips w"
  "sw_expiry_heap (sw_schedule_last_seen w ip e) = sw_expiry_heap w"
  "sw_expiry_scheduled (sw_schedule_last_seen w ip e) = sw_expiry_scheduled w"
  by (simp_all add: sw_schedule_last_seen_def)

lemma sw_drop_simps [simp]:
  "sw_entry (sw_drop w ip) = (sw_entry w)(ip := None)" "sw_config (sw_drop w ip) = sw_config w"
  "sw_max_tracked_ips (sw_drop w ip) = sw_max_tracked_ips w" "sw_expiry_heap (sw_drop w ip) = sw_expiry_heap w"
  "map_of (sw_expiry_scheduled (sw_drop w ip)) = (map_of (sw_expiry_scheduled w))(ip := None)"
  "sw_last_seen_heap (sw_drop w ip) = sw_last_seen_heap w"
  "map_of (sw_last_seen_scheduled (sw_drop w ip)) = (map_of (sw_last_seen_scheduled w))(ip := None)"
  by (simp_all add: sw_drop_def delete_conv')

section \<open>Scheduling\<close>

text \<open>Re-planning one IP's expiry restores the expiry schedule after its counter changed.\<close>

lemma expiry_inv_schedule:
  assumes "heap_ok (sw_expiry_heap w)"
    and "\<forall>ip k. map_of (sw_expiry_scheduled w) ip = Some k \<longrightarrow> (\<exists>t. (k, t, ip) \<in> set (sw_expiry_heap w))"
    and "\<forall>ip' e' x. ip' \<noteq> ip \<and> sw_entry w ip' = Some e' \<and> ic_next_expiry (en_counter e') = Some x \<longrightarrow>
        (\<exists>k. map_of (sw_expiry_scheduled w) ip' = Some k \<and> k \<le> x)"
    and "sw_entry w ip = Some e"
  shows "expiry_inv (sw_schedule_expiry w ip e)"
proof -
  let ?x = "ic_next_expiry (en_counter e)"
  consider "?x = None" | x where "?x = Some x" "\<exists>k. map_of (sw_expiry_scheduled w) ip = Some k \<and> k \<le> x"
    | x where "?x = Some x" "\<not> (case map_of (sw_expiry_scheduled w) ip of None \<Rightarrow> False | Some scheduled \<Rightarrow> scheduled \<le> x)"
    by (cases ?x; cases "map_of (sw_expiry_scheduled w) ip") auto
  then show ?thesis
  proof cases
    case 1
    then have w: "sw_schedule_expiry w ip e = w" by (simp add: sw_schedule_expiry_def)
    have "\<exists>k. map_of (sw_expiry_scheduled w) ip' = Some k \<and> k \<le> x"
      if "sw_entry w ip' = Some e'" "ic_next_expiry (en_counter e') = Some x" for ip' e' x
      using that 1 assms(3,4) by (cases "ip' = ip") auto
    then show ?thesis unfolding w expiry_inv_def using assms(1,2) by blast
  next
    case (2 x)
    then have w: "sw_schedule_expiry w ip e = w" by (auto simp: sw_schedule_expiry_def)
    have "\<exists>k. map_of (sw_expiry_scheduled w) ip' = Some k \<and> k \<le> y"
      if "sw_entry w ip' = Some e'" "ic_next_expiry (en_counter e') = Some y" for ip' e' y
      using that 2 assms(3,4) by (cases "ip' = ip") auto
    then show ?thesis unfolding w expiry_inv_def using assms(1,2) by blast
  next
    case (3 x)
    let ?w = "w\<lparr>sw_expiry_scheduled := AList.update ip x (sw_expiry_scheduled w),
      sw_expiry_heap := heappush (x, sw_tie_break w, ip) (sw_expiry_heap w), sw_tie_break := sw_tie_break w + 1\<rparr>"
    have w: "sw_schedule_expiry w ip e = ?w" unfolding sw_schedule_expiry_def using 3 by simp
    have "\<exists>k. map_of (sw_expiry_scheduled ?w) ip' = Some k \<and> k \<le> y"
      if "sw_entry w ip' = Some e'" "ic_next_expiry (en_counter e') = Some y" for ip' e' y
      using that 3 assms(3,4) by (cases "ip' = ip") (auto simp: update_conv')
    moreover have "\<exists>t. (k, t, ip') \<in> set (sw_expiry_heap ?w)" if "map_of (sw_expiry_scheduled ?w) ip' = Some k" for ip' k
      using that assms(2) by (cases "ip' = ip") (auto simp: update_conv')
    ultimately show ?thesis unfolding w expiry_inv_def using assms(1) by simp
  qed
qed

lemma seen_inv_put:
  assumes "seen_inv w L" "sw_entry w ip = Some e0" "en_last_seen e0 \<le> en_last_seen e"
  shows "seen_inv (sw_put w ip e) L"
proof -
  have "k \<le> en_last_seen e'" if "(k, t, ip') \<in> set L" "sw_entry (sw_put w ip e) ip' = Some e'" for k t ip' e'
    using assms that by (cases "ip' = ip") (force simp: seen_inv_def)+
  then show ?thesis using assms(1,2) by (auto simp: seen_inv_def)
qed

lemma seen_inv_cong:
  "seen_inv w L \<Longrightarrow> sw_entry w' = sw_entry w \<Longrightarrow> map_of (sw_last_seen_scheduled w') = map_of (sw_last_seen_scheduled w) \<Longrightarrow>
   mset L' = mset L \<Longrightarrow> seen_inv w' L'"
proof -
  assume a: "seen_inv w L" "sw_entry w' = sw_entry w" "map_of (sw_last_seen_scheduled w') = map_of (sw_last_seen_scheduled w)" "mset L' = mset L"
  have "set L' = set L" using a(4) by (rule mset_eq_setD)
  moreover have "distinct (map heap_ip L') = distinct (map heap_ip L)"
    using a(4) by (metis mset_eq_imp_distinct_iff mset_map)
  ultimately show ?thesis using a(1-3) by (simp add: seen_inv_def)
qed

lemma seen_inv_track:
  assumes "seen_inv w (sw_last_seen_heap w)" "sw_entry w ip = None"
  shows "seen_inv (sw_track w ip e) (sw_last_seen_heap (sw_track w ip e))"
proof -
  have none: "map_of (sw_last_seen_scheduled w) ip = None"
    using assms by (metis domIff seen_inv_def)
  have fresh: "ip \<notin> heap_ip ` set (sw_last_seen_heap w)" using assms by (auto simp: seen_inv_def dom_def)
  let ?x = "(en_last_seen e, sw_tie_break w, ip)"
  have w': "sw_track w ip e = (sw_put w ip e)\<lparr>sw_last_seen_scheduled := AList.update ip (en_last_seen e) (sw_last_seen_scheduled w),
      sw_last_seen_heap := heappush ?x (sw_last_seen_heap w), sw_tie_break := sw_tie_break w + 1\<rparr>"
    using none by (simp add: sw_track_def sw_schedule_last_seen_def)
  have "seen_inv (sw_track w ip e) (?x # sw_last_seen_heap w)"
    using assms(1) fresh none unfolding seen_inv_def w' by (auto simp: update_conv')
  then show ?thesis by (rule seen_inv_cong) (simp_all add: w')
qed

section \<open>The expiry sweep\<close>

lemma entry_ok_expire:
  assumes "entry_ok cfg now e"
  shows "entry_ok cfg now (e\<lparr>en_counter := snd (ic_expire (en_counter e) now)\<rparr>)"
proof -
  obtain r c' where c': "ic_expire (en_counter e) now = (r, c')" by (cases "ic_expire (en_counter e) now")
  then show ?thesis
    using assms ic_expire_ok(1,2)[of "en_counter e" now r c'] ic_expire_past[of "en_counter e" now]
    by (simp add: entry_ok_def)
qed

lemma sw_ok_entry: "sw_ok w now \<Longrightarrow> sw_entry w ip = Some e \<Longrightarrow> entry_ok (sw_config w) now e"
  by (simp add: sw_ok_def)

lemma sw_ok_parts:
  "sw_ok w now \<Longrightarrow> expiry_inv w" "sw_ok w now \<Longrightarrow> seen_inv w (sw_last_seen_heap w)"
  by (simp_all add: sw_ok_def)

text \<open>A popped entry that is not the IP's current plan.\<close>

lemma sw_ok_pop_stale:
  assumes "sw_ok w now" "sw_expiry_heap w = (k, t, ip) # rest" "map_of (sw_expiry_scheduled w) ip \<noteq> Some k"
  shows "sw_ok (w\<lparr>sw_expiry_heap := rest\<rparr>) now"
proof -
  have inv: "expiry_inv w" using assms(1) by (rule sw_ok_parts)
  have "\<exists>t'. (k', t', ip') \<in> set rest" if "map_of (sw_expiry_scheduled w) ip' = Some k'" for ip' k'
    using inv that assms(2,3) unfolding expiry_inv_def by fastforce
  then have "expiry_inv (w\<lparr>sw_expiry_heap := rest\<rparr>)"
    using inv assms(2) heap_ok_tl[of "(k, t, ip)" rest] by (simp add: expiry_inv_def) blast
  then show ?thesis using assms(1) by (simp add: sw_ok_def seen_inv_def)
qed

text \<open>A popped plan of an IP that is no longer tracked.\<close>

lemma sw_ok_pop_gone:
  assumes "sw_ok w now" "sw_expiry_heap w = (k, t, ip) # rest" "sw_entry w ip = None"
  shows "sw_ok (w\<lparr>sw_expiry_heap := rest, sw_expiry_scheduled := AList.delete ip (sw_expiry_scheduled w)\<rparr>) now"
proof -
  let ?w = "w\<lparr>sw_expiry_heap := rest, sw_expiry_scheduled := AList.delete ip (sw_expiry_scheduled w)\<rparr>"
  have inv: "expiry_inv w" using assms(1) by (rule sw_ok_parts)
  have "\<exists>t'. (k', t', ip') \<in> set rest" if "map_of (sw_expiry_scheduled ?w) ip' = Some k'" for ip' k'
    using inv that assms(2) unfolding expiry_inv_def by (cases "ip' = ip") (fastforce simp: delete_conv')+
  moreover have "\<exists>j. map_of (sw_expiry_scheduled ?w) ip' = Some j \<and> j \<le> x"
    if "sw_entry w ip' = Some e" "ic_next_expiry (en_counter e) = Some x" for ip' e x
    using inv that assms(3) unfolding expiry_inv_def by (cases "ip' = ip") (auto simp: delete_conv')
  ultimately have "expiry_inv ?w"
    using inv assms(2) heap_ok_tl[of "(k, t, ip)" rest] by (simp add: expiry_inv_def)
  then show ?thesis using assms(1) by (simp add: sw_ok_def seen_inv_def)
qed

text \<open>An IP that is swept and planned again.\<close>

lemma sw_ok_pop_expire:
  assumes "sw_ok w now" "sw_expiry_heap w = (k, t, ip) # rest" "sw_entry w ip = Some e"
    and "e' = e\<lparr>en_counter := snd (ic_expire (en_counter e) now)\<rparr>"
  shows "sw_ok (sw_schedule_expiry (sw_put (w\<lparr>sw_expiry_heap := rest,
    sw_expiry_scheduled := AList.delete ip (sw_expiry_scheduled w)\<rparr>) ip e') ip e') now"
proof -
  let ?w = "sw_put (w\<lparr>sw_expiry_heap := rest, sw_expiry_scheduled := AList.delete ip (sw_expiry_scheduled w)\<rparr>) ip e'"
  have inv: "expiry_inv w" using assms(1) by (rule sw_ok_parts)
  have "expiry_inv (sw_schedule_expiry ?w ip e')"
  proof (rule expiry_inv_schedule)
    show "heap_ok (sw_expiry_heap ?w)"
      using inv assms(2) heap_ok_tl[of "(k, t, ip)" rest] by (simp add: expiry_inv_def)
    show "\<forall>ip' k'. map_of (sw_expiry_scheduled ?w) ip' = Some k' \<longrightarrow> (\<exists>t. (k', t, ip') \<in> set (sw_expiry_heap ?w))"
      using inv assms(2) unfolding expiry_inv_def by (fastforce simp: delete_conv' split: if_splits)
    show "\<forall>ip' e' x. ip' \<noteq> ip \<and> sw_entry ?w ip' = Some e' \<and> ic_next_expiry (en_counter e') = Some x \<longrightarrow>
        (\<exists>k. map_of (sw_expiry_scheduled ?w) ip' = Some k \<and> k \<le> x)"
      using inv unfolding expiry_inv_def by (auto simp: delete_conv')
  qed simp
  moreover have "seen_inv (sw_put w ip e') (sw_last_seen_heap w)"
    using assms by (intro seen_inv_put[OF sw_ok_parts(2)]) auto
  then have "seen_inv (sw_schedule_expiry ?w ip e') (sw_last_seen_heap w)"
    by (rule seen_inv_cong) simp_all
  moreover have "entry_ok (sw_config w) now e'"
    using assms entry_ok_expire[OF sw_ok_entry[OF assms(1,3)]] by simp
  ultimately show ?thesis
    using assms(1) by (auto simp: sw_ok_def)
qed

text \<open>How an entry moves during the sweep.\<close>

definition swept :: "int \<Rightarrow> window_entry \<Rightarrow> window_entry \<Rightarrow> bool" where
  "swept now e0 e \<longleftrightarrow> en_state e = en_state e0 \<and> en_last_seen e = en_last_seen e0 \<and> en_inherited e = en_inherited e0 \<and>
     ic_total (snd (ic_expire (en_counter e) now)) = ic_total (snd (ic_expire (en_counter e0) now)) \<and>
     (en_counter e = en_counter e0 \<or> ic_total (en_counter e) = ic_total (snd (ic_expire (en_counter e0) now)))"

definition change_of :: "int \<Rightarrow> address \<Rightarrow> window_entry \<Rightarrow> window_change" where
  "change_of now ip e = \<lparr>wc_ip = ip, wc_state = en_state e, wc_total_before = ic_total (en_counter e),
     wc_total_after = ic_total (snd (ic_expire (en_counter e) now))\<rparr>"

definition changed :: "int \<Rightarrow> window_entry \<Rightarrow> bool" where
  "changed now e \<longleftrightarrow> ic_total (snd (ic_expire (en_counter e) now)) \<noteq> ic_total (en_counter e)"

text \<open>The sweep, relative to the entries it began with: the IPs it has reported are those whose total
  it changed.\<close>

definition sweep_inv :: "shard_window \<Rightarrow> int \<Rightarrow> shard_window \<Rightarrow> window_change list \<Rightarrow> bool" where
  "sweep_inv w0 now w changes \<longleftrightarrow> sw_ok w now \<and> map fst (sw_entries w) = map fst (sw_entries w0) \<and>
     sw_config w = sw_config w0 \<and>
     (\<forall>ip e. sw_entry w ip = Some e \<longrightarrow> (\<exists>e0. sw_entry w0 ip = Some e0 \<and> swept now e0 e \<and>
        (changed now e0 \<longrightarrow> (change_of now ip e0 \<in> set changes \<longleftrightarrow> \<not> changed now e)))) \<and>
     (\<forall>ch \<in> set changes. \<exists>e0. sw_entry w0 (wc_ip ch) = Some e0 \<and> ch = change_of now (wc_ip ch) e0 \<and> changed now e0)"

lemma due_pushed:
  "length (filter (\<lambda>x. fst x \<le> now) (sw_expiry_heap (sw_schedule_expiry w ip e))) =
   length (filter (\<lambda>x. fst x \<le> now) (sw_expiry_heap w))"
  if "\<And>x. ic_next_expiry (en_counter e) = Some x \<Longrightarrow> now < x"
  using that by (auto simp: sw_schedule_expiry_def length_filter_heappush split: option.split)

lemma map_fst_put: "sw_entry w ip = Some e0 \<Longrightarrow> map fst (sw_entries (sw_put w ip e)) = map fst (sw_entries w)"
  by (simp add: sw_put_def) (metis domI dom_map_of_conv_image_fst update_keys list.set_map)

lemma sweep_inv_stop:
  assumes "sweep_inv w0 now w changes" "\<And>x. x \<in> set (sw_expiry_heap w) \<Longrightarrow> now < fst x" "sw_entry w ip = Some e"
  shows "\<not> changed now e"
proof -
  have ok: "sw_ok w now" using assms(1) by (simp add: sweep_inv_def)
  have "now < x" if nxt: "ic_next_expiry (en_counter e) = Some x" for x
  proof -
    obtain k t where "map_of (sw_expiry_scheduled w) ip = Some k" "k \<le> x" "(k, t, ip) \<in> set (sw_expiry_heap w)"
      using sw_ok_parts(1)[OF ok] assms(3) nxt unfolding expiry_inv_def by blast
    with assms(2)[of "(k, t, ip)"] show ?thesis by simp
  qed
  then show ?thesis
    using ic_expire_none_due[of "en_counter e" now] sw_ok_entry[OF ok assms(3)] by (simp add: changed_def entry_ok_def)
qed

lemma sw_expire_loop_ok:
  assumes "sweep_inv w0 now w changes"
  shows "\<exists>w' changes'. sw_expire_loop w now changes = Some (changes', w') \<and> sweep_inv w0 now w' changes' \<and>
    (\<forall>x \<in> set (sw_expiry_heap w'). now < fst x)"
  using assms
proof (induction "length (filter (\<lambda>x. fst x \<le> now) (sw_expiry_heap w))" arbitrary: w changes rule: less_induct)
  case less
  have ok: "sw_ok w now" using less.prems by (simp add: sweep_inv_def)
  show ?case
  proof (cases "sw_expiry_heap w")
    case Nil
    then show ?thesis using less.prems by (subst sw_expire_loop.simps) simp
  next
    case (Cons x rest)
    obtain k t ip where x: "x = (k, t, ip)" by (cases x) auto
    let ?w1 = "w\<lparr>sw_expiry_heap := rest\<rparr>"
    let ?w2 = "?w1\<lparr>sw_expiry_scheduled := AList.delete ip (sw_expiry_scheduled w)\<rparr>"
    consider "\<not> k \<le> now" | "k \<le> now" "map_of (sw_expiry_scheduled w) ip \<noteq> Some k"
      | "k \<le> now" "map_of (sw_expiry_scheduled w) ip = Some k" "sw_entry w ip = None"
      | e where "k \<le> now" "map_of (sw_expiry_scheduled w) ip = Some k" "sw_entry w ip = Some e"
      by fastforce
    then show ?thesis
    proof cases
      case 1
      then have "\<forall>y \<in> set (sw_expiry_heap w). now < fst y"
        using heap_min[of x rest] sw_ok_parts(1)[OF ok] Cons x by (fastforce simp: expiry_inv_def)
      then show ?thesis using less.prems 1 Cons x by (subst sw_expire_loop.simps) auto
    next
      case 2
      have "sw_expire_loop w now changes = sw_expire_loop ?w1 now changes"
        using 2 Cons x by (subst sw_expire_loop.simps) simp
      moreover have "sweep_inv w0 now ?w1 changes"
        using sw_ok_pop_stale[OF ok Cons[unfolded x] 2(2)] less.prems by (simp add: sweep_inv_def)
      ultimately show ?thesis using less.hyps[of ?w1 changes] Cons x 2 by simp
    next
      case 3
      have "sw_expire_loop w now changes = sw_expire_loop ?w2 now changes"
        using 3 Cons x by (subst sw_expire_loop.simps) simp
      moreover have "sweep_inv w0 now ?w2 changes"
        using sw_ok_pop_gone[OF ok Cons[unfolded x] 3(3)] less.prems by (simp add: sweep_inv_def)
      ultimately show ?thesis using less.hyps[of ?w2 changes] Cons x 3 by simp
    next
      case (4 e)
      let ?e' = "e\<lparr>en_counter := snd (ic_expire (en_counter e) now)\<rparr>"
      let ?w3 = "sw_schedule_expiry (sw_put ?w2 ip ?e') ip ?e'"
      let ?ch = "if changed now e then changes @ [change_of now ip e] else changes"
      have eok: "ic_ok (en_counter e)" using sw_ok_entry[OF ok 4(3)] by (simp add: entry_ok_def)
      have run: "sw_expire_loop w now changes = sw_expire_loop ?w3 now ?ch"
      proof -
        obtain r c' where c': "ic_expire (en_counter e) now = (r, c')" by (cases "ic_expire (en_counter e) now")
        then have "r = ic_total (en_counter e) - ic_total c'" using ic_expire_ok(5)[OF eok] by simp
        then show ?thesis using 4 Cons x c' by (subst sw_expire_loop.simps) (simp add: changed_def change_of_def Let_def)
      qed
      have "sweep_inv w0 now ?w3 ?ch"
      proof -
        obtain e0 where e0: "sw_entry w0 ip = Some e0" "swept now e0 e"
          "changed now e0 \<longrightarrow> (change_of now ip e0 \<in> set changes \<longleftrightarrow> \<not> changed now e)"
          using less.prems 4(3) unfolding sweep_inv_def by blast
        have same: "en_counter e = en_counter e0" "change_of now ip e = change_of now ip e0" "changed now e0" if "changed now e"
          using that e0(2) by (auto simp: swept_def changed_def change_of_def)
        have e': "swept now e0 ?e'" "\<not> changed now ?e'"
          using e0(2) ic_expire_idem[OF eok, of now] by (auto simp: swept_def changed_def)
        have "\<exists>e0. sw_entry w0 ip' = Some e0 \<and> swept now e0 e1 \<and>
            (changed now e0 \<longrightarrow> (change_of now ip' e0 \<in> set ?ch \<longleftrightarrow> \<not> changed now e1))"
          if at: "sw_entry ?w3 ip' = Some e1" for ip' e1
        proof (cases "ip' = ip")
          case True
          then show ?thesis using at e0 e' same by auto
        next
          case False
          then have "sw_entry w ip' = Some e1" using at by simp
          then obtain e2 where "sw_entry w0 ip' = Some e2" "swept now e2 e1"
            "changed now e2 \<longrightarrow> (change_of now ip' e2 \<in> set changes \<longleftrightarrow> \<not> changed now e1)"
            using less.prems unfolding sweep_inv_def by blast
          moreover have "change_of now ip' e2 \<noteq> change_of now ip e" using False by (simp add: change_of_def)
          ultimately show ?thesis by auto
        qed
        moreover have "\<exists>e0. sw_entry w0 (wc_ip ch) = Some e0 \<and> ch = change_of now (wc_ip ch) e0 \<and> changed now e0"
          if "ch \<in> set ?ch" for ch
          using that less.prems e0(1) same unfolding sweep_inv_def
          by (cases "ch \<in> set changes") (auto simp: change_of_def split: if_splits)
        moreover have "sw_ok ?w3 now" using sw_ok_pop_expire[OF ok Cons[unfolded x] 4(3) refl] by simp
        moreover have "map fst (sw_entries ?w3) = map fst (sw_entries w0)"
          using map_fst_put[of ?w2 ip e ?e'] 4(3) less.prems by (simp add: sweep_inv_def)
        ultimately show ?thesis using less.prems unfolding sweep_inv_def by auto
      qed
      moreover have "length (filter (\<lambda>x. fst x \<le> now) (sw_expiry_heap ?w3)) < length (filter (\<lambda>x. fst x \<le> now) (sw_expiry_heap w))"
        using due_pushed[of ?e' now "sw_put ?w2 ip ?e'" ip] ic_expired_next[OF eok] Cons x 4(1) by simp
      ultimately show ?thesis using less.hyps[of ?w3 ?ch] run by simp
    qed
  qed
qed

text \<open>The lazy expiry schedule misses nothing. On a consistent window \<open>expire_due\<close> ends; afterwards every
  tracked IP's total is what a direct sweep of its ring at \<open>now\<close> would leave, its other fields are as
  they were, no IP appears or disappears, and the returned changes are exactly the IPs whose total
  moved, each with its total before and after.\<close>

lemma sw_expire_due_ok:
  assumes "sw_ok w now"
  shows "\<exists>changes w'. sw_expire_due w now = Some (changes, w') \<and> sw_ok w' now \<and>
    map fst (sw_entries w') = map fst (sw_entries w) \<and>
    (\<forall>ip e. sw_entry w ip = Some e \<longrightarrow> (\<exists>e'. sw_entry w' ip = Some e' \<and> en_state e' = en_state e \<and>
       en_last_seen e' = en_last_seen e \<and> en_inherited e' = en_inherited e \<and>
       ic_total (en_counter e') = ic_total (snd (ic_expire (en_counter e) now)))) \<and>
    set changes = {change_of now ip e | ip e. sw_entry w ip = Some e \<and>
       ic_total (snd (ic_expire (en_counter e) now)) \<noteq> ic_total (en_counter e)}"
proof -
  have "sweep_inv w now w []" using assms by (auto simp: sweep_inv_def swept_def)
  then obtain w' changes where run: "sw_expire_loop w now [] = Some (changes, w')" "sweep_inv w now w' changes"
    "\<forall>x \<in> set (sw_expiry_heap w'). now < fst x"
    using sw_expire_loop_ok by blast
  have stop: "\<not> changed now e'" if "sw_entry w' ip = Some e'" for ip e'
    using sweep_inv_stop[OF run(2)] run(3) that by blast
  have keys: "map fst (sw_entries w') = map fst (sw_entries w)" using run(2) by (simp add: sweep_inv_def)
  have entry: "\<exists>e'. sw_entry w' ip = Some e' \<and> swept now e e' \<and> (changed now e \<longrightarrow> change_of now ip e \<in> set changes)"
    if e: "sw_entry w ip = Some e" for ip e
  proof -
    have "ip \<in> dom (sw_entry w')"
      using e keys by (metis domI dom_map_of_conv_image_fst list.set_map)
    then obtain e' where "sw_entry w' ip = Some e'" by auto
    with run(2) e stop show ?thesis unfolding sweep_inv_def by fastforce
  qed
  have "\<exists>e'. sw_entry w' ip = Some e' \<and> en_state e' = en_state e \<and> en_last_seen e' = en_last_seen e \<and>
      en_inherited e' = en_inherited e \<and> ic_total (en_counter e') = ic_total (snd (ic_expire (en_counter e) now))"
    if "sw_entry w ip = Some e" for ip e
    using entry[OF that] stop by (fastforce simp: swept_def changed_def)
  moreover have "set changes = {change_of now ip e | ip e. sw_entry w ip = Some e \<and> changed now e}"
    using run(2) entry unfolding sweep_inv_def by fastforce
  ultimately show ?thesis
    using run keys by (auto simp: sw_expire_due_def sweep_inv_def changed_def)
qed

section \<open>The retention and capacity sweeps\<close>

definition sweep_ok :: "shard_window \<Rightarrow> int \<Rightarrow> heap_item list \<Rightarrow> bool" where
  "sweep_ok w now d \<longleftrightarrow> config_ok (sw_config w) \<and> distinct (map fst (sw_entries w)) \<and> 0 < sw_max_tracked_ips w \<and>
     (\<forall>ip e. sw_entry w ip = Some e \<longrightarrow> entry_ok (sw_config w) now e) \<and>
     expiry_inv w \<and> heap_ok (sw_last_seen_heap w) \<and> seen_inv w (sw_last_seen_heap w @ d) \<and>
     (\<forall>k t ip e. (k, t, ip) \<in> set d \<and> sw_entry w ip = Some e \<longrightarrow> en_state e = HOT)"

lemma sweep_ok_Nil: "sweep_ok w now [] \<longleftrightarrow> sw_ok w now"
  by (simp add: sweep_ok_def sw_ok_def conj_ac)

lemma sweep_deferred_hot:
  "sweep_ok w now d \<Longrightarrow> y \<in> set d \<Longrightarrow> sw_entry w (heap_ip y) = Some e \<Longrightarrow> en_state e = HOT"
  unfolding sweep_ok_def by (metis prod.collapse)

text \<open>Every tracked IP is pending or set aside.\<close>

lemma sweep_pending:
  assumes "sweep_ok w now d" "sw_entry w ip = Some e"
  obtains y where "y \<in> set (sw_last_seen_heap w) \<union> set d" "heap_ip y = ip" "fst y \<le> en_last_seen e"
proof -
  have si: "seen_inv w (sw_last_seen_heap w @ d)" using assms(1) by (simp add: sweep_ok_def)
  have "ip \<in> heap_ip ` set (sw_last_seen_heap w @ d)" unfolding seen_invD(2)[OF si] using assms(2) by blast
  then obtain y where y: "y \<in> set (sw_last_seen_heap w @ d)" "heap_ip y = ip" by blast
  moreover have "fst y \<le> en_last_seen e"
    using seen_invD(5)[OF si, of "fst y" "fst (snd y)" ip e] y assms(2) by auto
  ultimately show thesis using that by auto
qed

lemma sweep_all_hot:
  assumes "sweep_ok w now d" "sw_last_seen_heap w = []" "sw_entry w ip = Some e"
  shows "en_state e = HOT"
proof -
  obtain y where y: "y \<in> set (sw_last_seen_heap w) \<union> set d" "heap_ip y = ip"
    using sweep_pending[OF assms(1,3)] by blast
  then have "y \<in> set d" using assms(2) by simp
  with sweep_deferred_hot[OF assms(1) this, of e] y(2) assms(3) show ?thesis by simp
qed

lemma fold_heappush:
  "set (fold heappush d h) = set d \<union> set h" "mset (fold heappush d h) = mset d + mset h"
  "heap_ok h \<Longrightarrow> heap_ok (fold heappush d h)"
  by (induction d arbitrary: h) auto

lemma sweep_ok_restore:
  "sweep_ok w now d \<Longrightarrow> sw_ok (w\<lparr>sw_last_seen_heap := fold heappush d (sw_last_seen_heap w)\<rparr>) now"
  using seen_inv_cong[of w "sw_last_seen_heap w @ d" "w\<lparr>sw_last_seen_heap := fold heappush d (sw_last_seen_heap w)\<rparr>"
      "fold heappush d (sw_last_seen_heap w)"]
  by (simp add: sweep_ok_def sw_ok_def fold_heappush expiry_inv_def)

lemma seen_inv_ne:
  assumes "seen_inv w ((k, t, ip) # L)" "(k', t', ip') \<in> set L"
  shows "ip' \<noteq> ip"
proof -
  have "ip \<notin> heap_ip ` set L" using assms(1) by (simp add: seen_inv_def)
  with imageI[OF assms(2), of heap_ip] show ?thesis by auto
qed

lemma seen_inv_rekey:
  assumes "seen_inv w ((k, t, ip) # L)" "sw_entry w ip = Some e"
  shows "seen_inv (w\<lparr>sw_last_seen_heap := h, sw_last_seen_scheduled := AList.update ip (en_last_seen e) (sw_last_seen_scheduled w)\<rparr>)
    ((en_last_seen e, t, ip) # L)"
proof -
  let ?w = "w\<lparr>sw_last_seen_heap := h, sw_last_seen_scheduled := AList.update ip (en_last_seen e) (sw_last_seen_scheduled w)\<rparr>"
  let ?L = "(en_last_seen e, t, ip) # L"
  note ne = seen_inv_ne[OF assms(1)]
  have "map_of (sw_last_seen_scheduled ?w) ip' = Some k'" if "(k', t', ip') \<in> set ?L" for k' t' ip'
    using assms(1) that ne by (auto simp: seen_inv_def update_conv')
  moreover have "k' \<le> en_last_seen e'" if "(k', t', ip') \<in> set ?L" "sw_entry w ip' = Some e'" for k' t' ip' e'
  proof (cases "(k', t', ip') \<in> set L")
    case True
    then show ?thesis using assms(1) that(2) unfolding seen_inv_def by (metis list.set_intros(2))
  next
    case False
    then show ?thesis using that assms(2) by simp
  qed
  moreover have "dom (map_of (sw_last_seen_scheduled ?w)) = dom (sw_entry w)"
    using seen_invD(3)[OF assms(1)] assms(2) by (auto simp: update_conv')
  moreover have "distinct (map heap_ip ?L)" "heap_ip ` set ?L = dom (sw_entry w)"
    using seen_invD(1,2)[OF assms(1)] by simp_all
  ultimately show ?thesis by (intro seen_invI) simp_all
qed

lemma seen_inv_drop:
  assumes "seen_inv w ((k, t, ip) # L)"
  shows "seen_inv (sw_drop w ip) L"
proof (rule seen_invI)
  show "distinct (map heap_ip L)" using seen_invD(1)[OF assms] by simp
  have "insert ip (heap_ip ` set L) = dom (sw_entry w)" "ip \<notin> heap_ip ` set L"
    using seen_invD(1,2)[OF assms] by simp_all
  then show "heap_ip ` set L = dom (sw_entry (sw_drop w ip))" by auto
  show "dom (map_of (sw_last_seen_scheduled (sw_drop w ip))) = dom (sw_entry (sw_drop w ip))"
    using seen_invD(3)[OF assms] by simp
  fix k' t' ip' assume L: "(k', t', ip') \<in> set L"
  note ne = seen_inv_ne[OF assms L]
  show "map_of (sw_last_seen_scheduled (sw_drop w ip)) ip' = Some k'"
    using seen_invD(4)[OF assms, of k' t' ip'] L ne by simp
  show "k' \<le> en_last_seen e'" if "sw_entry (sw_drop w ip) ip' = Some e'" for e'
    using seen_invD(5)[OF assms, of k' t' ip' e'] L ne that by simp
qed

lemma expiry_inv_drop: "expiry_inv w \<Longrightarrow> expiry_inv (sw_drop w ip)"
  unfolding expiry_inv_def by (auto split: if_splits)

lemma expiry_inv_cong:
  "expiry_inv w \<Longrightarrow> sw_entries w' = sw_entries w \<Longrightarrow> sw_expiry_heap w' = sw_expiry_heap w \<Longrightarrow>
   sw_expiry_scheduled w' = sw_expiry_scheduled w \<Longrightarrow> expiry_inv w'"
  unfolding expiry_inv_def by (simp only:) blast

text \<open>One entry taken off the retention heap: it is tracked, and it is corrected, set aside or dropped.\<close>

lemma sweep_pop:
  assumes "sweep_ok w now d" "sw_last_seen_heap w = (k, t, ip) # rest"
  shows "\<exists>e. sw_entry w ip = Some e"
    and "\<And>e. sw_entry w ip = Some e \<Longrightarrow>
      sweep_ok (w\<lparr>sw_last_seen_heap := heappush (en_last_seen e, t, ip) rest,
        sw_last_seen_scheduled := AList.update ip (en_last_seen e) (sw_last_seen_scheduled w)\<rparr>) now d"
    and "\<And>e. sw_entry w ip = Some e \<Longrightarrow> en_state e = HOT \<Longrightarrow>
      sweep_ok (w\<lparr>sw_last_seen_heap := rest\<rparr>) now (d @ [(k, t, ip)])"
    and "sweep_ok (sw_drop (w\<lparr>sw_last_seen_heap := rest\<rparr>) ip) now d"
proof -
  let ?w = "w\<lparr>sw_last_seen_heap := rest\<rparr>"
  have inv: "seen_inv w ((k, t, ip) # rest @ d)" "heap_ok rest" "expiry_inv w"
    using assms heap_ok_tl by (auto simp: sweep_ok_def)
  then have inv': "seen_inv ?w ((k, t, ip) # rest @ d)" by (simp add: seen_inv_def)
  show "\<exists>e. sw_entry w ip = Some e" using inv(1) by (auto simp: seen_inv_def dom_def)
  show "sweep_ok (w\<lparr>sw_last_seen_heap := heappush (en_last_seen e, t, ip) rest,
        sw_last_seen_scheduled := AList.update ip (en_last_seen e) (sw_last_seen_scheduled w)\<rparr>) now d"
    (is "sweep_ok ?v now d") if "sw_entry w ip = Some e" for e
  proof -
    have "seen_inv ?v (heappush (en_last_seen e, t, ip) rest @ d)"
      by (rule seen_inv_cong[OF seen_inv_rekey[OF inv(1) that, where h = "heappush (en_last_seen e, t, ip) rest"]]) simp_all
    moreover have "expiry_inv ?v" using inv(3) by (rule expiry_inv_cong) simp_all
    ultimately show ?thesis using assms(1) inv(2) by (simp add: sweep_ok_def)
  qed
  show "sweep_ok ?w now (d @ [(k, t, ip)])" if "sw_entry w ip = Some e" "en_state e = HOT" for e
  proof -
    have "seen_inv ?w (rest @ d @ [(k, t, ip)])" by (rule seen_inv_cong[OF inv']) simp_all
    moreover have "expiry_inv ?w" using inv(3) by (rule expiry_inv_cong) simp_all
    moreover have "en_state e' = HOT" if "(k', t', ip') \<in> set (d @ [(k, t, ip)])" "sw_entry w ip' = Some e'" for k' t' ip' e'
    proof (cases "(k', t', ip') \<in> set d")
      case True
      then show ?thesis using assms(1) that(2) unfolding sweep_ok_def by blast
    next
      case False
      then show ?thesis using that \<open>sw_entry w ip = Some e\<close> \<open>en_state e = HOT\<close> by simp
    qed
    ultimately show ?thesis using assms(1) inv(2) by (simp add: sweep_ok_def) blast
  qed
  have "seen_inv (sw_drop ?w ip) (rest @ d)" using inv' by (rule seen_inv_drop)
  moreover have "expiry_inv (sw_drop ?w ip)" using inv(3) by (intro expiry_inv_drop) (erule expiry_inv_cong, simp_all)
  moreover have "distinct (map fst (sw_entries (sw_drop ?w ip)))"
    using assms(1) by (simp add: sw_drop_def sweep_ok_def distinct_delete)
  ultimately show "sweep_ok (sw_drop ?w ip) now d"
    using assms(1) inv(2) unfolding sweep_ok_def by (auto split: if_splits)
qed

definition kept :: "int \<Rightarrow> window_entry \<Rightarrow> bool" where
  "kept deadline e \<longleftrightarrow> en_state e = HOT \<or> deadline < en_last_seen e"

lemma ip_state_cases: "st \<noteq> HOT \<longleftrightarrow> st = COLD"
  by (cases st) auto

lemma filter_delete:
  assumes "map_of al k = Some v" "distinct (map fst al)" "\<not> P v"
  shows "filter (\<lambda>(k, v). P v) (AList.delete k al) = filter (\<lambda>(k, v). P v) al"
    and "Suc (length (AList.delete k al)) = length al"
  using assms by (induction al) (auto split: if_splits simp: delete_id)

lemma sw_evict_loop_ok:
  assumes "sweep_ok w now d" "sw_evict_loop w deadline d r = (d', r', w')"
  shows "sweep_ok w' now d' \<and> sw_entries w' = filter (\<lambda>(ip, e). kept deadline e) (sw_entries w) \<and>
    r' + int (length (sw_entries w')) = r + int (length (sw_entries w))"
  using assms
proof (induction w deadline d r rule: sw_evict_loop.induct)
  case (1 w deadline d r)
  note run = 1(6)[unfolded sw_evict_loop.simps[of w]]
  show ?case
  proof (cases "sw_last_seen_heap w")
    case Nil
    have "kept deadline e" if entry: "(ip, e) \<in> set (sw_entries w)" for ip e
    proof -
      have e: "sw_entry w ip = Some e" using entry 1(5) by (simp add: sweep_ok_def)
      then show ?thesis using sweep_all_hot[OF 1(5) Nil e] by (simp add: kept_def)
    qed
    then have "filter (\<lambda>(ip, e). kept deadline e) (sw_entries w) = sw_entries w" by (auto intro!: filter_True)
    then show ?thesis using run Nil 1(5) by simp
  next
    case (Cons x rest)
    obtain k t ip where x: "x = (k, t, ip)" by (cases x) auto
    note pop = sweep_pop[OF 1(5) Cons[unfolded x]]
    obtain e where e: "sw_entry w ip = Some e" using pop(1) by blast
    consider "k \<noteq> en_last_seen e" | "k = en_last_seen e" "k > deadline"
      | "k = en_last_seen e" "\<not> k > deadline" "en_state e = HOT"
      | "k = en_last_seen e" "\<not> k > deadline" "en_state e \<noteq> HOT" by blast
    then show ?thesis
    proof cases
      case 1
      then show ?thesis using "1.IH"(2)[OF Cons x[symmetric] refl refl e] run Cons x e pop(2)[OF e] by auto
    next
      case 2
      have "kept deadline e'" if entry: "(ip', e') \<in> set (sw_entries w)" for ip' e'
      proof -
        have e': "sw_entry w ip' = Some e'" using entry 1(5) by (simp add: sweep_ok_def)
        obtain y where y: "y \<in> set (sw_last_seen_heap w) \<union> set d" "heap_ip y = ip'" "fst y \<le> en_last_seen e'"
          using sweep_pending[OF 1(5) e'] by blast
        show ?thesis
        proof (cases "y \<in> set d")
          case True
          then show ?thesis using sweep_deferred_hot[OF 1(5) True] y e' by (simp add: kept_def)
        next
          case False
          then have "k \<le> fst y" using y Cons x heap_min[of x rest y] 1(5) by (auto simp: sweep_ok_def)
          then show ?thesis using 2 y by (simp add: kept_def)
        qed
      qed
      then have "filter (\<lambda>(ip, e). kept deadline e) (sw_entries w) = sw_entries w" by (auto intro!: filter_True)
      then show ?thesis using run Cons x e 2 1(5) by simp
    next
      case 3
      then show ?thesis using "1.IH"(3)[OF Cons x[symmetric] refl refl e] run Cons x e pop(3)[OF e] by auto
    next
      case 4
      let ?w = "(sw_drop (w\<lparr>sw_last_seen_heap := rest\<rparr>) ip)\<lparr>sw_retention_evictions := sw_retention_evictions w + 1\<rparr>"
      have ok: "sweep_ok ?w now d"
        using pop(4) expiry_inv_cong[of "sw_drop (w\<lparr>sw_last_seen_heap := rest\<rparr>) ip" ?w]
        by (simp add: sweep_ok_def seen_inv_def)
      have run': "sw_evict_loop ?w deadline d (r + 1) = (d', r', w')" using run Cons x e 4 by simp
      have "\<not> kept deadline e" using 4 by (simp add: kept_def)
      then have del: "filter (\<lambda>(ip, e). kept deadline e) (AList.delete ip (sw_entries w)) =
          filter (\<lambda>(ip, e). kept deadline e) (sw_entries w)"
        "Suc (length (AList.delete ip (sw_entries w))) = length (sw_entries w)"
        using filter_delete[OF e, of "kept deadline"] 1(5) by (auto simp: sweep_ok_def)
      have ent: "sw_entries ?w = AList.delete ip (sw_entries w)" by (simp add: sw_drop_def)
      show ?thesis
        using "1.IH"(4)[OF Cons x[symmetric] refl refl e] 4 ok run' ent del by auto
    qed
  qed
qed

text \<open>Retention is exact. \<open>evict_due\<close> drops precisely the COLD IPs not seen for
  \<open>state_retention_seconds\<close>, keeps every other entry unchanged and in place, returns their number, and
  leaves the window consistent. A HOT IP is never dropped.\<close>

lemma sw_evict_due_ok:
  assumes "sw_ok w now"
  shows "\<exists>w'. sw_evict_due w now = (int (length (sw_entries w)) - int (length (sw_entries w')), w') \<and> sw_ok w' now \<and>
    sw_entries w' = filter (\<lambda>(ip, e). en_state e = HOT \<or> now - state_retention_seconds (sw_config w) < en_last_seen e)
      (sw_entries w)"
proof -
  let ?deadline = "now - state_retention_seconds (sw_config w)"
  obtain d r w1 where run: "sw_evict_loop w ?deadline [] 0 = (d, r, w1)"
    by (cases "sw_evict_loop w ?deadline [] 0") auto
  have "sweep_ok w now []" using assms by (simp add: sweep_ok_Nil)
  from sw_evict_loop_ok[OF this run]
  have res: "sweep_ok w1 now d" "sw_entries w1 = filter (\<lambda>(ip, e). kept ?deadline e) (sw_entries w)"
    "r = int (length (sw_entries w)) - int (length (sw_entries w1))" by auto
  from sweep_ok_restore[OF res(1)] show ?thesis
    using run res(2,3) by (simp add: sw_evict_due_def kept_def)
qed

text \<open>The victim is a COLD IP seen no later than any other; there is none only if all are HOT.\<close>

definition victim_ok :: "(address \<Rightarrow> window_entry option) \<Rightarrow> address option \<Rightarrow> bool" where
  "victim_ok entries victim \<longleftrightarrow> (case victim of
      None \<Rightarrow> \<forall>ip e. entries ip = Some e \<longrightarrow> en_state e = HOT
    | Some ip \<Rightarrow> \<exists>e. entries ip = Some e \<and> en_state e = COLD \<and>
        (\<forall>ip' e'. entries ip' = Some e' \<and> en_state e' = COLD \<longrightarrow> en_last_seen e \<le> en_last_seen e'))"

definition victim_drop :: "shard_window \<Rightarrow> address option \<Rightarrow> shard_window" where
  "victim_drop w victim = (case victim of None \<Rightarrow> w | Some ip \<Rightarrow> sw_drop w ip)"

lemma sw_capacity_loop_ok:
  assumes "sweep_ok w now d" "sw_capacity_loop w d = (d', victim, w')"
  shows "sw_entries w' = sw_entries w \<and> sw_config w' = sw_config w \<and> sw_max_tracked_ips w' = sw_max_tracked_ips w \<and>
    sweep_ok (victim_drop w' victim) now d' \<and> victim_ok (sw_entry w) victim"
  using assms
proof (induction w d rule: sw_capacity_loop.induct)
  case (1 w d)
  note run = 1(5)[unfolded sw_capacity_loop.simps[of w]]
  show ?case
  proof (cases "sw_last_seen_heap w")
    case Nil
    then show ?thesis using run 1(4) sweep_all_hot[OF 1(4) Nil] by (auto simp: victim_ok_def victim_drop_def)
  next
    case (Cons x rest)
    obtain k t ip where x: "x = (k, t, ip)" by (cases x) auto
    note pop = sweep_pop[OF 1(4) Cons[unfolded x]]
    obtain e where e: "sw_entry w ip = Some e" using pop(1) by blast
    consider "k \<noteq> en_last_seen e" | "k = en_last_seen e" "en_state e = HOT"
      | "k = en_last_seen e" "en_state e = COLD" by (cases "en_state e") auto
    then show ?thesis
    proof cases
      case 1
      then show ?thesis using "1.IH"(2)[OF Cons x[symmetric] refl refl e] run Cons x e pop(2)[OF e] by auto
    next
      case 2
      then show ?thesis using "1.IH"(3)[OF Cons x[symmetric] refl refl e] run Cons x e pop(3)[OF e] by auto
    next
      case 3
      have "k \<le> en_last_seen e'" if e': "sw_entry w ip' = Some e'" "en_state e' = COLD" for ip' e'
      proof -
        obtain y where y: "y \<in> set (sw_last_seen_heap w) \<union> set d" "heap_ip y = ip'" "fst y \<le> en_last_seen e'"
          using sweep_pending[OF 1(4) e'(1)] by blast
        have "y \<notin> set d" using sweep_deferred_hot[OF 1(4), of y e'] y e' by auto
        then have "k \<le> fst y" using y Cons x heap_min[of x rest y] 1(4) by (auto simp: sweep_ok_def)
        then show ?thesis using y by simp
      qed
      then have "victim_ok (sw_entry w) (Some ip)" using e 3 by (auto simp: victim_ok_def)
      then show ?thesis using run Cons x e 3 pop(4) by (auto simp: victim_drop_def)
    qed
  qed
qed

lemma sw_ok_counters:
  "sw_ok (w\<lparr>sw_capacity_evictions := n\<rparr>) now = sw_ok w now" "sw_ok (w\<lparr>sw_retention_evictions := n\<rparr>) now = sw_ok w now"
  "sw_ok (w\<lparr>sw_next_sequence := n\<rparr>) now = sw_ok w now" "sw_ok (w\<lparr>sw_warm_until := u\<rparr>) now = sw_ok w now"
  unfolding sw_ok_def expiry_inv_def seen_inv_def by simp_all

text \<open>Making room: nothing below the cap, else the least recently seen COLD IP, else nothing.\<close>

lemma sw_evict_for_capacity_ok:
  assumes "sw_ok w now"
  shows "sw_ok (sw_evict_for_capacity w) now \<and> sw_config (sw_evict_for_capacity w) = sw_config w \<and>
    sw_max_tracked_ips (sw_evict_for_capacity w) = sw_max_tracked_ips w \<and>
    (if int (length (sw_entries w)) < sw_max_tracked_ips w then sw_entries (sw_evict_for_capacity w) = sw_entries w
     else \<exists>victim. victim_ok (sw_entry w) victim \<and> sw_entries (sw_evict_for_capacity w) =
       (case victim of None \<Rightarrow> sw_entries w | Some ip \<Rightarrow> AList.delete ip (sw_entries w)))"
proof (cases "int (length (sw_entries w)) < sw_max_tracked_ips w")
  case True
  then show ?thesis using assms by (simp add: sw_evict_for_capacity_def)
next
  case False
  obtain d victim w1 where run: "sw_capacity_loop w [] = (d, victim, w1)"
    by (cases "sw_capacity_loop w []") auto
  have "sweep_ok w now []" using assms by (simp add: sweep_ok_Nil)
  note res = sw_capacity_loop_ok[OF this run]
  let ?w2 = "(victim_drop w1 victim)\<lparr>sw_last_seen_heap := fold heappush d (sw_last_seen_heap (victim_drop w1 victim))\<rparr>"
  have ok: "sw_ok ?w2 now" using res by (intro sweep_ok_restore) simp
  have w': "sw_evict_for_capacity w = (case victim of None \<Rightarrow> ?w2
      | Some ip \<Rightarrow> ?w2\<lparr>sw_capacity_evictions := sw_capacity_evictions w1 + 1\<rparr>)"
    using False run by (cases victim) (simp_all add: sw_evict_for_capacity_def sw_drop_def victim_drop_def)
  have "sw_ok (sw_evict_for_capacity w) now" unfolding w' using ok by (cases victim) (simp_all add: sw_ok_counters)
  moreover have "sw_entries (sw_evict_for_capacity w) =
      (case victim of None \<Rightarrow> sw_entries w | Some ip \<Rightarrow> AList.delete ip (sw_entries w))"
    unfolding w' using res by (simp add: victim_drop_def sw_drop_def split: option.split)
  moreover have "sw_config (sw_evict_for_capacity w) = sw_config w" "sw_max_tracked_ips (sw_evict_for_capacity w) = sw_max_tracked_ips w"
    unfolding w' using res by (simp_all add: victim_drop_def split: option.split)
  ultimately show ?thesis using res False by auto
qed

section \<open>Every operation keeps the invariant\<close>

lemma sw_ok_mono:
  assumes "sw_ok w now" "now \<le> now'"
  shows "sw_ok w now'"
  using assms ic_past_mono[OF _ _ assms(2)] unfolding sw_ok_def entry_ok_def by blast

lemma sw_new_counter_ok:
  assumes "config_ok (sw_config w)"
  shows "\<exists>c. sw_new_counter w = Inr c \<and> ic_ok c \<and> ic_geometry c = (bucket_seconds (sw_config w), bucket_count (sw_config w)) \<and>
    ic_starts c = replicate (nat (bucket_count (sw_config w))) None \<and> ic_total c = 0 \<and> ic_next_expiry c = None"
proof -
  note f = config_ok_facts[OF assms]
  obtain c where c: "mk_ip_counter (bucket_seconds (sw_config w)) (bucket_count (sw_config w)) = Inr c" "ic_ok c"
    "ic_geometry c = (bucket_seconds (sw_config w), bucket_count (sw_config w))" "ic_total c = 0" "ic_occupied c = []"
    using mk_ip_counter_ok[OF f(1,2)] by blast
  moreover have "ic_starts c = replicate (nat (bucket_count (sw_config w))) None"
    using c(1) by (auto simp: mk_ip_counter_def split: if_splits)
  ultimately show ?thesis using f(1) by (auto simp: sw_new_counter_def ic_next_expiry_def)
qed

lemma ic_past_new [simp]: "ic_starts c = replicate n None \<Longrightarrow> ic_past c now"
  by (simp add: ic_past_def)

lemma entry_ok_observe:
  assumes "entry_ok cfg now e" "ic_observe (en_counter e) s d now = (r, c')"
  shows "entry_ok cfg now (e\<lparr>en_counter := c', en_last_seen := t\<rparr>)"
proof (cases "r = Inr True")
  case True
  then have "ic_bucket_seconds (en_counter e) dvd s" "0 \<le> d" "ic_is_live (en_counter e) s now"
    using assms(2) by (auto simp: ic_observe_def mod_eq_0_iff_dvd split: if_splits)
  then show ?thesis using ic_observe_live[of "en_counter e" now s d] assms by (auto simp: entry_ok_def)
next
  case False
  then have "c' = en_counter e" using assms(2) by (auto simp: ic_observe_def Let_def split: if_splits)
  then show ?thesis using assms(1) by (simp add: entry_ok_def)
qed

text \<open>Putting back an entry with a new counter and planning its expiry.\<close>

lemma sw_ok_replan:
  assumes "sw_ok w now" "sw_entry w ip = Some e0" "entry_ok (sw_config w) now e" "en_last_seen e0 \<le> en_last_seen e"
  shows "sw_ok (sw_schedule_expiry (sw_put w ip e) ip e) now"
proof -
  have inv: "expiry_inv w" "seen_inv w (sw_last_seen_heap w)" using assms(1) by (rule sw_ok_parts)+
  have "expiry_inv (sw_schedule_expiry (sw_put w ip e) ip e)"
  proof (rule expiry_inv_schedule)
    show "\<forall>ip' e' x. ip' \<noteq> ip \<and> sw_entry (sw_put w ip e) ip' = Some e' \<and> ic_next_expiry (en_counter e') = Some x \<longrightarrow>
        (\<exists>k. map_of (sw_expiry_scheduled (sw_put w ip e)) ip' = Some k \<and> k \<le> x)"
      using inv(1) unfolding expiry_inv_def by auto
  qed (use inv(1) in \<open>auto simp: expiry_inv_def\<close>)
  moreover have "seen_inv (sw_schedule_expiry (sw_put w ip e) ip e) (sw_last_seen_heap w)"
    by (rule seen_inv_cong[OF seen_inv_put[OF inv(2) assms(2,4)]]) simp_all
  ultimately show ?thesis using assms(1,3) by (auto simp: sw_ok_def)
qed

lemma sw_track_simps [simp]:
  "sw_entries (sw_track w ip e) = AList.update ip e (sw_entries w)" "sw_config (sw_track w ip e) = sw_config w"
  "sw_max_tracked_ips (sw_track w ip e) = sw_max_tracked_ips w" "sw_expiry_heap (sw_track w ip e) = sw_expiry_heap w"
  "sw_expiry_scheduled (sw_track w ip e) = sw_expiry_scheduled w"
  by (simp_all add: sw_track_def) (simp add: sw_put_def)

lemma sw_ok_track:
  assumes "sw_ok w now" "sw_entry w ip = None" "entry_ok (sw_config w) now e"
  shows "sw_ok (sw_schedule_expiry (sw_track w ip e) ip e) now"
proof -
  have inv: "expiry_inv w" "seen_inv w (sw_last_seen_heap w)" using assms(1) by (rule sw_ok_parts)+
  have "expiry_inv (sw_schedule_expiry (sw_track w ip e) ip e)"
  proof (rule expiry_inv_schedule)
    show "\<forall>ip' e' x. ip' \<noteq> ip \<and> sw_entry (sw_track w ip e) ip' = Some e' \<and> ic_next_expiry (en_counter e') = Some x \<longrightarrow>
        (\<exists>k. map_of (sw_expiry_scheduled (sw_track w ip e)) ip' = Some k \<and> k \<le> x)"
      using inv(1) unfolding expiry_inv_def by (auto simp: update_conv')
  qed (use inv(1) in \<open>auto simp: expiry_inv_def update_conv'\<close>)
  moreover have "seen_inv (sw_schedule_expiry (sw_track w ip e) ip e) (sw_last_seen_heap (sw_track w ip e))"
    by (rule seen_inv_cong[OF seen_inv_track[OF inv(2) assms(2)]]) simp_all
  moreover have "heap_ok (sw_last_seen_heap (sw_track w ip e))"
    using assms(1) by (simp add: sw_ok_def sw_track_def sw_schedule_last_seen_def)
  ultimately show ?thesis using assms(1,3) by (auto simp: sw_ok_def update_conv' distinct_update)
qed

lemma victim_ok_keeps_hot:
  "victim_ok (map_of es) victim \<Longrightarrow> map_of es ip = Some e \<Longrightarrow> en_state e = HOT \<Longrightarrow>
   map_of (case victim of None \<Rightarrow> es | Some v \<Rightarrow> AList.delete v es) ip = Some e"
  by (auto simp: victim_ok_def delete_conv' split: option.splits)

lemma sw_observe_ok:
  assumes "sw_ok w now"
  shows "sw_ok (snd (sw_observe w ip s d now)) now"
proof (cases "sw_entry w ip")
  case (Some e)
  obtain r c' where obs: "ic_observe (en_counter e) s d now = (r, c')" by (cases "ic_observe (en_counter e) s d now")
  have "entry_ok (sw_config w) now (e\<lparr>en_counter := c', en_last_seen := max (en_last_seen e) s\<rparr>)"
    using entry_ok_observe[OF sw_ok_entry[OF assms Some] obs] .
  from sw_ok_replan[OF assms Some this] show ?thesis
    using assms Some obs by (auto simp: sw_observe_def Let_def split: sum.splits)
next
  case None
  have cfg: "config_ok (sw_config w)" using assms by (simp add: sw_ok_def)
  obtain c where c: "sw_new_counter w = Inr c" "ic_ok c" "ic_geometry c = (bucket_seconds (sw_config w), bucket_count (sw_config w))"
    "ic_starts c = replicate (nat (bucket_count (sw_config w))) None"
    using sw_new_counter_ok[OF cfg] by blast
  obtain r c' where obs: "ic_observe c s d now = (r, c')" by (cases "ic_observe c s d now")
  let ?e = "\<lparr>en_counter = c, en_state = COLD, en_last_seen = s, en_inherited = False\<rparr>"
  let ?e' = "\<lparr>en_counter = c', en_state = COLD, en_last_seen = s, en_inherited = False\<rparr>"
  have "entry_ok (sw_config w) now ?e" using c by (simp add: entry_ok_def)
  from entry_ok_observe[OF this, of s d r c' s] obs have e': "entry_ok (sw_config w) now ?e'" by simp
  let ?w = "sw_evict_for_capacity w"
  have w: "sw_ok ?w now" "sw_config ?w = sw_config w" "sw_entry ?w ip = None"
    using sw_evict_for_capacity_ok[OF assms] None by (auto simp: delete_conv' split: if_splits option.splits)
  from sw_ok_track[OF w(1,3), of ?e'] show ?thesis
    using assms None c(1) obs e' w(2) by (auto simp: sw_observe_def Let_def split: sum.splits)
qed

text \<open>Changing an entry's state or flag alone.\<close>

lemma sw_ok_put_same:
  assumes "sw_ok w now" "sw_entry w ip = Some e0" "en_counter e = en_counter e0" "en_last_seen e = en_last_seen e0"
  shows "sw_ok (sw_put w ip e) now"
proof -
  have inv: "expiry_inv w" "seen_inv w (sw_last_seen_heap w)" using assms(1) by (rule sw_ok_parts)+
  have "\<exists>k. map_of (sw_expiry_scheduled w) ip' = Some k \<and> k \<le> x"
    if "sw_entry (sw_put w ip e) ip' = Some e'" "ic_next_expiry (en_counter e') = Some x" for ip' e' x
    using inv(1) assms(2,3) that unfolding expiry_inv_def by (cases "ip' = ip") auto
  then have "expiry_inv (sw_put w ip e)" using inv(1) by (simp add: expiry_inv_def)
  moreover have "seen_inv (sw_put w ip e) (sw_last_seen_heap w)"
    using seen_inv_put[OF inv(2) assms(2)] assms(4) by simp
  ultimately show ?thesis
    using assms sw_ok_entry[OF assms(1,2)] by (auto simp: sw_ok_def entry_ok_def)
qed

lemma sw_schedule_last_seen_tracked:
  assumes "seen_inv w L" "sw_entry w ip = Some e"
  shows "sw_schedule_last_seen w ip e' = w"
proof -
  have "ip \<in> dom (map_of (sw_last_seen_scheduled w))" using seen_invD(3)[OF assms(1)] assms(2) by blast
  then show ?thesis by (auto simp: sw_schedule_last_seen_def)
qed

lemma sw_set_state_eq:
  assumes "sw_ok w now" "sw_entry w ip = Some e"
  shows "sw_set_state w ip st = (Inr (), sw_put w ip (e\<lparr>en_state := st, en_inherited := en_inherited e \<and> st = HOT\<rparr>))"
proof -
  let ?e = "e\<lparr>en_state := st, en_inherited := False\<rparr>"
  have "seen_inv (sw_put w ip ?e) (sw_last_seen_heap w)"
    using seen_inv_put[OF sw_ok_parts(2)[OF assms(1)] assms(2), of ?e] by simp
  then have "sw_schedule_last_seen (sw_put w ip ?e) ip ?e = sw_put w ip ?e"
    by (rule sw_schedule_last_seen_tracked) simp
  then show ?thesis using assms(2) by (cases st) (simp_all add: sw_set_state_def Let_def)
qed

lemma sw_set_state_ok:
  assumes "sw_ok w now"
  shows "sw_ok (snd (sw_set_state w ip st)) now"
proof (cases "sw_entry w ip")
  case None
  then show ?thesis using assms by (simp add: sw_set_state_def)
next
  case (Some e)
  then show ?thesis using assms sw_set_state_eq[OF assms Some] sw_ok_put_same[OF assms Some] by simp
qed

lemma map_of_map_entry: "map_of (map (\<lambda>(ip, e). (ip, f e)) es) ip = map_option f (map_of es ip)"
  by (induction es) auto

lemma sw_finish_warmup_ok:
  assumes "sw_ok w now"
  shows "sw_ok (snd (sw_finish_warmup_if_due w now)) now"
proof (cases "sw_finish_warmup_if_due w now = (None, w)")
  case False
  let ?f = "\<lambda>e. e\<lparr>en_inherited := False\<rparr>"
  let ?es = "map (\<lambda>(ip, e). (ip, ?f e)) (sw_entries w)"
  let ?w = "w\<lparr>sw_entries := ?es, sw_warm_until := None\<rparr>"
  have w: "snd (sw_finish_warmup_if_due w now) = ?w"
    using False by (auto simp: sw_finish_warmup_if_due_def split: option.splits if_splits)
  have entry: "sw_entry ?w ip = map_option ?f (sw_entry w ip)" for ip by (simp add: map_of_map_entry)
  have dom: "dom (sw_entry ?w) = dom (sw_entry w)" unfolding dom_def entry by auto
  have "expiry_inv ?w"
    using sw_ok_parts(1)[OF assms] unfolding expiry_inv_def entry by auto
  moreover have "seen_inv ?w (sw_last_seen_heap w)"
  proof (rule seen_invI)
    fix k t ip e assume "(k, t, ip) \<in> set (sw_last_seen_heap w)" "sw_entry ?w ip = Some e"
    then show "k \<le> en_last_seen e" using seen_invD(5)[OF sw_ok_parts(2)[OF assms]] unfolding entry by auto
  qed (use seen_invD(1,2,3,4)[OF sw_ok_parts(2)[OF assms]] in \<open>simp_all only: dom, auto\<close>)
  moreover have "distinct (map fst ?es)" using assms by (simp add: sw_ok_def o_def case_prod_beta)
  moreover have "entry_ok (sw_config w) now e" if "sw_entry ?w ip = Some e" for ip e
    using that sw_ok_entry[OF assms] unfolding entry by (auto simp: entry_ok_def)
  ultimately show ?thesis using assms unfolding w sw_ok_def by (simp del: map_map)
qed (use assms in simp)

lemma sw_track_inherited_ok:
  assumes "sw_ok w now" "distinct ips" "set ips \<inter> dom (sw_entry w) = {}"
  shows "\<exists>w'. sw_track_inherited w now ips = Inr w' \<and> sw_ok w' now \<and> sw_config w' = sw_config w \<and>
    map fst (sw_entries w') = map fst (sw_entries w) @ ips"
  using assms
proof (induction ips arbitrary: w)
  case (Cons ip ips)
  obtain c where c: "sw_new_counter w = Inr c" "ic_ok c" "ic_geometry c = (bucket_seconds (sw_config w), bucket_count (sw_config w))"
    "ic_starts c = replicate (nat (bucket_count (sw_config w))) None" "ic_next_expiry c = None"
    using sw_new_counter_ok[of w] Cons.prems(1) by (auto simp: sw_ok_def)
  let ?e = "\<lparr>en_counter = c, en_state = HOT, en_last_seen = now, en_inherited = True\<rparr>"
  let ?w = "sw_track w ip ?e"
  have none: "sw_entry w ip = None" using Cons.prems(3) by auto
  have "sw_schedule_expiry ?w ip ?e = ?w" using c(5) by (simp add: sw_schedule_expiry_def)
  moreover have "entry_ok (sw_config w) now ?e" using c by (simp add: entry_ok_def)
  ultimately have "sw_ok ?w now" using sw_ok_track[OF Cons.prems(1) none, of ?e] by simp
  moreover have "set ips \<inter> dom (sw_entry ?w) = {}" using Cons.prems(2,3) by (auto simp: update_conv')
  moreover have "map fst (sw_entries ?w) = map fst (sw_entries w) @ [ip]"
    using none by (auto simp: update_nonempty update_keys map_of_eq_None_iff)
  ultimately show ?case using Cons.IH[of ?w] Cons.prems(2) c(1) by auto
qed simp

lemma mk_shard_window_ok:
  assumes "config_ok cfg" "0 < m"
  shows "\<exists>w. mk_shard_window shard cfg now hot seq m = Inr w \<and> sw_ok w now \<and> sw_config w = cfg \<and>
    set (sw_tracked_ips w) = set hot"
proof -
  let ?w0 = "\<lparr>sw_shard = shard, sw_next_sequence = seq, sw_capacity_evictions = 0, sw_retention_evictions = 0,
    sw_config = cfg, sw_max_tracked_ips = m, sw_entries = [], sw_tie_break = 0, sw_expiry_heap = [],
    sw_expiry_scheduled = [], sw_last_seen_heap = [], sw_last_seen_scheduled = [], sw_warm_until = None\<rparr>"
  have "sw_ok ?w0 now" using assms by (simp add: sw_ok_def expiry_inv_def seen_inv_def heap_ok_def)
  then obtain w where w: "sw_track_inherited ?w0 now (remdups hot) = Inr w" "sw_ok w now" "sw_config w = cfg"
    "map fst (sw_entries w) = remdups hot"
    using sw_track_inherited_ok[of ?w0 now "remdups hot"] by auto
  have "fst ` set (sw_entries w) = set hot" using w(4) by (metis list.set_map set_remdups)
  then show ?thesis using w(1,2,3) assms(2) by (simp add: mk_shard_window_def sw_ok_counters sw_tracked_ips_def)
qed

section \<open>A change of geometry\<close>

definition all_live :: "ip_counter \<Rightarrow> int \<Rightarrow> bool" where
  "all_live c now \<longleftrightarrow> (\<forall>s. Some s \<in> set (ic_starts c) \<longrightarrow> ic_is_live c s now)"

lemma all_live_past: "all_live c now \<Longrightarrow> ic_past c now"
  by (auto simp: all_live_def ic_past_def ic_is_live_def Let_def)

text \<open>On a ring that holds live buckets only, an applied delta adds exactly itself to the total.\<close>

lemma ic_observe_all_live:
  assumes "ic_ok c" "all_live c now" "ic_bucket_seconds c dvd s" "0 \<le> d"
  shows "\<exists>c'. ic_observe c s d now = (Inr (ic_is_live c s now), c') \<and> ic_ok c' \<and> all_live c' now \<and>
    ic_geometry c' = ic_geometry c \<and> ic_total c' = ic_total c + (if ic_is_live c s now then d else 0)"
proof (cases "ic_is_live c s now")
  case False
  then show ?thesis using assms by (auto simp: ic_observe_def mod_eq_0_iff_dvd)
next
  case True
  obtain c' where c': "ic_observe c s d now = (Inr True, c')" "ic_ok c'" "ic_geometry c' = ic_geometry c"
    using ic_observe_live[OF assms(1) all_live_past[OF assms(2)] assms(3,4) True] by blast
  let ?i = "ic_slot c s"
  have lt: "?i < length (ic_starts c)" "?i < nat (ic_bucket_count c)" "length (ic_starts c) = nat (ic_bucket_count c)"
    using ic_slot_lt[OF assms(1)] assms(1) by (simp_all add: ic_ok_def)
  have occ: "ic_starts c ! ?i = None \<or> ic_starts c ! ?i = Some s"
  proof (rule ccontr)
    assume "\<not> ?thesis"
    then obtain s' where s': "ic_starts c ! ?i = Some s'" "s' \<noteq> s" by (cases "ic_starts c ! ?i") auto
    then have "ic_is_live c s' now" using assms(2) lt(1) by (metis all_live_def nth_mem)
    then show False
      using ic_other_expired[OF assms(1) True assms(3), of s'] ic_slot_start[OF assms(1) lt(2) s'(1)] s'(2)
      by (auto simp: ic_is_live_def Let_def)
  qed
  have zero: "ic_counts c ! ?i = 0" if "ic_starts c ! ?i = None"
    using assms(1) lt that by (force simp: ic_ok_def)
  have tot: "ic_total c' = ic_total c + d"
    using c'(1) occ zero True assms(3,4)
    by (auto simp: ic_observe_def Let_def mod_eq_0_iff_dvd ic_slot_def[symmetric] split: if_splits)
  have "set (ic_starts c') \<subseteq> insert (Some s) (set (ic_starts c))"
    using c'(1) set_update_subset_insert[of "ic_starts c" ?i "Some s"]
    by (auto simp: ic_observe_def Let_def ic_slot_def[symmetric] split: if_splits)
  then have "all_live c' now"
    using assms(2) True ic_is_live_geometry[OF c'(3)] unfolding all_live_def by auto
  with c' tot True show ?thesis by auto
qed

lemma rebuild_counter_ok:
  assumes "ic_ok c" "all_live c now" "ic_bucket_seconds c = B" "\<forall>(s, n) \<in> set bs. 0 \<le> n"
  shows "\<exists>c'. rebuild_counter c bs B now = Inr c' \<and> ic_ok c' \<and> all_live c' now \<and> ic_geometry c' = ic_geometry c \<and>
    ic_total c' = ic_total c + sum_list (map snd (filter (\<lambda>(s, n). ic_is_live c (bucket_start s B) now) bs))"
  using assms
proof (induction bs arbitrary: c)
  case (Cons b bs)
  obtain s n where b: "b = (s, n)" by (cases b)
  obtain c1 where c1: "ic_observe c (bucket_start s B) n now = (Inr (ic_is_live c (bucket_start s B) now), c1)"
    "ic_ok c1" "all_live c1 now" "ic_geometry c1 = ic_geometry c"
    "ic_total c1 = ic_total c + (if ic_is_live c (bucket_start s B) now then n else 0)"
    using ic_observe_all_live[OF Cons.prems(1,2), of "bucket_start s B" n] Cons.prems(3,4) b by auto
  have "ic_bucket_seconds c1 = B" using c1(4) Cons.prems(3) by (simp add: ic_geometry_def)
  from Cons.IH[OF c1(2,3) this] Cons.prems(4) show ?case
    using c1 b ic_is_live_geometry[OF c1(4)] by (auto simp: c1(1))
qed simp

text \<open>The rebuilt total of an entry: what its live buckets add up to under the new geometry.\<close>

definition rebuilt_total :: "detection_config \<Rightarrow> ip_counter \<Rightarrow> int \<Rightarrow> int" where
  "rebuilt_total cfg c now = sum_list (map snd (filter
     (\<lambda>(s, n). let age = bucket_start now (bucket_seconds cfg) - bucket_start s (bucket_seconds cfg)
               in 0 \<le> age \<and> age < window_seconds cfg) (ic_live_buckets c now)))"

lemma sw_rebuild_ok:
  assumes "config_ok (sw_config w)" "distinct ips" "distinct (map fst (sw_entries w))"
    "\<forall>ip \<in> set ips. \<exists>e. sw_entry w ip = Some e \<and> ic_ok (en_counter e)"
    "\<forall>ip e. sw_entry w ip = Some e \<and> ip \<notin> set ips \<longrightarrow> entry_ok (sw_config w) now e"
    "expiry_inv w" "heap_ok (sw_last_seen_heap w)" "seen_inv w (sw_last_seen_heap w)" "0 < sw_max_tracked_ips w"
  shows "\<exists>w'. sw_rebuild w now ips = (Inr (), w') \<and> sw_ok w' now \<and> sw_config w' = sw_config w \<and>
    (\<forall>ip e. sw_entry w ip = Some e \<longrightarrow> (\<exists>e'. sw_entry w' ip = Some e' \<and> en_state e' = en_state e \<and>
       en_last_seen e' = en_last_seen e \<and>
       ic_total (en_counter e') = (if ip \<in> set ips then rebuilt_total (sw_config w) (en_counter e) now
         else ic_total (en_counter e))))"
  using assms
proof (induction ips arbitrary: w)
  case Nil
  then have "sw_ok w now" by (simp add: sw_ok_def)
  then show ?case by auto
next
  case (Cons ip ips)
  note cfg = Cons.prems(1)
  obtain e where e: "sw_entry w ip = Some e" "ic_ok (en_counter e)" using Cons.prems(4) by auto
  obtain c where c: "sw_new_counter w = Inr c" "ic_ok c" "ic_geometry c = (bucket_seconds (sw_config w), bucket_count (sw_config w))"
    "ic_starts c = replicate (nat (bucket_count (sw_config w))) None" "ic_total c = 0"
    using sw_new_counter_ok[OF cfg] by blast
  let ?B = "bucket_seconds (sw_config w)" and ?bs = "ic_live_buckets (en_counter e) now"
  have pos: "\<forall>(s, n) \<in> set ?bs. 0 \<le> n"
    using set_ic_occupied[OF e(2)] by (auto simp: ic_live_buckets_def)
  have "all_live c now" using c(4) by (simp add: all_live_def)
  moreover have "ic_bucket_seconds c = ?B" "ic_window_seconds c = window_seconds (sw_config w)"
    using c(3) config_ok_facts(3)[OF cfg] by (simp_all add: ic_geometry_def ic_window_seconds_def)
  ultimately obtain c' where c': "rebuild_counter c ?bs ?B now = Inr c'" "ic_ok c'" "all_live c' now"
    "ic_geometry c' = ic_geometry c" "ic_total c' = rebuilt_total (sw_config w) (en_counter e) now"
    using rebuild_counter_ok[OF c(2) _ _ pos, of now ?B] c(5)
    by (auto simp: rebuilt_total_def ic_is_live_def)
  let ?e = "e\<lparr>en_counter := c'\<rparr>"
  let ?w1 = "(sw_put w ip ?e)\<lparr>sw_expiry_scheduled := AList.delete ip (sw_expiry_scheduled w)\<rparr>"
  let ?w2 = "sw_schedule_expiry ?w1 ip ?e"
  have run: "sw_rebuild w now (ip # ips) = sw_rebuild ?w2 now ips"
    using e(1) c(1) c'(1) by (simp add: Let_def)
  have eok: "entry_ok (sw_config w) now ?e" using c' c(3) all_live_past by (simp add: entry_ok_def)
  have cfg2: "sw_config ?w2 = sw_config w" by simp
  have "expiry_inv ?w2"
  proof (rule expiry_inv_schedule)
    show "\<forall>ip' e' x. ip' \<noteq> ip \<and> sw_entry ?w1 ip' = Some e' \<and> ic_next_expiry (en_counter e') = Some x \<longrightarrow>
        (\<exists>k. map_of (sw_expiry_scheduled ?w1) ip' = Some k \<and> k \<le> x)"
      using Cons.prems(6) unfolding expiry_inv_def by (auto simp: delete_conv')
    show "\<forall>ip' k. map_of (sw_expiry_scheduled ?w1) ip' = Some k \<longrightarrow> (\<exists>t. (k, t, ip') \<in> set (sw_expiry_heap ?w1))"
      using Cons.prems(6) unfolding expiry_inv_def by (auto simp: delete_conv')
    show "heap_ok (sw_expiry_heap ?w1)" using Cons.prems(6) by (simp add: expiry_inv_def)
  qed simp
  moreover have "seen_inv ?w2 (sw_last_seen_heap ?w2)"
    using seen_inv_cong[OF seen_inv_put[OF Cons.prems(8) e(1), of ?e]] by simp
  moreover have "\<forall>ip' \<in> set ips. \<exists>e. sw_entry ?w2 ip' = Some e \<and> ic_ok (en_counter e)"
    using Cons.prems(2,4) by auto
  moreover have "\<forall>ip' e. sw_entry ?w2 ip' = Some e \<and> ip' \<notin> set ips \<longrightarrow> entry_ok (sw_config ?w2) now e"
    using Cons.prems(5) eok by auto
  ultimately obtain w' where w': "sw_rebuild ?w2 now ips = (Inr (), w')" "sw_ok w' now" "sw_config w' = sw_config w"
    "\<forall>ip' e. sw_entry ?w2 ip' = Some e \<longrightarrow> (\<exists>e'. sw_entry w' ip' = Some e' \<and> en_state e' = en_state e \<and>
       en_last_seen e' = en_last_seen e \<and>
       ic_total (en_counter e') = (if ip' \<in> set ips then rebuilt_total (sw_config w) (en_counter e) now
         else ic_total (en_counter e)))"
    using Cons.IH[of ?w2, unfolded cfg2] Cons.prems(1,2,3,7,9) unfolding cfg2 by fastforce
  have "\<exists>e'. sw_entry w' ip' = Some e' \<and> en_state e' = en_state e0 \<and> en_last_seen e' = en_last_seen e0 \<and>
      ic_total (en_counter e') = (if ip' \<in> set (ip # ips) then rebuilt_total (sw_config w) (en_counter e0) now
        else ic_total (en_counter e0))" if e0: "sw_entry w ip' = Some e0" for ip' e0
  proof (cases "ip' = ip")
    case True
    then have "sw_entry ?w2 ip' = Some ?e" "e0 = e" using e(1) e0 by simp_all
    with w'(4) True c'(5) Cons.prems(2) show ?thesis by fastforce
  next
    case False
    then have "sw_entry ?w2 ip' = Some e0" using e0 by simp
    with w'(4) False show ?thesis by fastforce
  qed
  with run w' show ?case by auto
qed

end
