(* ===== verification/Shard_Window_Theorems.thy ===== *)
theory Shard_Window_Theorems
  imports Shard_Window_Correct
begin

text \<open>
  What the shard window promises its worker. The worker may interleave the operations in any order
  while the clock advances; every window it can reach that way is consistent, so the two lazy sweeps
  are exact on it, making room only ever costs a least recently seen COLD IP, and a change of geometry
  re-buckets what is still inside the window.
\<close>

section \<open>A change of configuration\<close>

lemma sw_apply_config_ok:
  assumes ok: "sw_ok w now" and cfg: "config_ok config"
  shows "\<exists>w'. sw_apply_config w config now = (Inr (), w') \<and> sw_ok w' now \<and> sw_config w' = config \<and>
    (\<forall>ip e. sw_entry w ip = Some e \<longrightarrow> (\<exists>e'. sw_entry w' ip = Some e' \<and> en_state e' = en_state e \<and>
       en_last_seen e' = en_last_seen e \<and>
       ic_total (en_counter e') =
         (if bucket_seconds config = bucket_seconds (sw_config w) \<and> bucket_count config = bucket_count (sw_config w)
          then ic_total (en_counter e) else rebuilt_total config (en_counter e) now)))"
proof (cases "bucket_seconds config = bucket_seconds (sw_config w) \<and> bucket_count config = bucket_count (sw_config w)")
  case True
  have "sw_ok (w\<lparr>sw_config := config\<rparr>) now"
    using ok cfg True expiry_inv_cong[of w "w\<lparr>sw_config := config\<rparr>"] seen_inv_cong[of w "sw_last_seen_heap w" "w\<lparr>sw_config := config\<rparr>"]
    by (auto simp: sw_ok_def entry_ok_def)
  then show ?thesis using True by (simp add: sw_apply_config_def)
next
  case False
  have eqs: "sw_config (w\<lparr>sw_config := config\<rparr>) = config" "sw_entries (w\<lparr>sw_config := config\<rparr>) = sw_entries w"
    "sw_max_tracked_ips (w\<lparr>sw_config := config\<rparr>) = sw_max_tracked_ips w"
    "sw_last_seen_heap (w\<lparr>sw_config := config\<rparr>) = sw_last_seen_heap w" by simp_all
  let ?w = "w\<lparr>sw_config := config\<rparr>" and ?ips = "map fst (sw_entries w)"
  have dist: "distinct ?ips" and m: "0 < sw_max_tracked_ips w" and h: "heap_ok (sw_last_seen_heap w)"
    using ok by (simp_all add: sw_ok_def)
  have dom: "ip \<in> set ?ips \<longleftrightarrow> (\<exists>e. sw_entry w ip = Some e)" for ip
    using weak_map_of_SomeI[of ip _ "sw_entries w"] map_of_SomeD[of "sw_entries w" ip] by force
  have tracked: "\<forall>ip \<in> set ?ips. \<exists>e. sw_entry ?w ip = Some e \<and> ic_ok (en_counter e)"
  proof
    fix ip assume "ip \<in> set ?ips"
    then obtain e where e: "sw_entry w ip = Some e" unfolding dom ..
    then show "\<exists>e. sw_entry ?w ip = Some e \<and> ic_ok (en_counter e)"
      using sw_ok_entry[OF ok e] by (simp add: entry_ok_def)
  qed
  have rest: "\<forall>ip e. sw_entry ?w ip = Some e \<and> ip \<notin> set ?ips \<longrightarrow> entry_ok (sw_config ?w) now e"
    using dom by auto
  have ei: "expiry_inv ?w" using sw_ok_parts(1)[OF ok] by (rule expiry_inv_cong) simp_all
  have si: "seen_inv ?w (sw_last_seen_heap ?w)"
    using sw_ok_parts(2)[OF ok] by (rule seen_inv_cong) simp_all
  obtain w' where "sw_rebuild ?w now ?ips = (Inr (), w')" "sw_ok w' now" "sw_config w' = config"
    "\<forall>ip e. sw_entry w ip = Some e \<longrightarrow> (\<exists>e'. sw_entry w' ip = Some e' \<and> en_state e' = en_state e \<and>
       en_last_seen e' = en_last_seen e \<and> ic_total (en_counter e') = (if ip \<in> set ?ips then rebuilt_total config (en_counter e) now
         else ic_total (en_counter e)))"
    using sw_rebuild_ok[of ?w ?ips now, unfolded eqs] cfg dist tracked[unfolded eqs] rest[unfolded eqs] ei si[unfolded eqs] m h
    by (elim meta_impE) blast+
  moreover have "sw_apply_config w config now = sw_rebuild ?w now ?ips"
    using False by (auto simp: sw_apply_config_def Let_def)
  moreover have "ip \<in> set ?ips" if "sw_entry w ip = Some e" for ip e using dom that by blast
  ultimately show ?thesis unfolding if_not_P[OF False] by fastforce
qed

section \<open>Every reachable window\<close>

text \<open>The operations the worker calls, at the clock \<open>now\<close>, which only advances.\<close>

inductive sw_reach :: "shard_window \<Rightarrow> int \<Rightarrow> bool" where
  reach_new: "config_ok config \<Longrightarrow> mk_shard_window shard config now hot seq m = Inr w \<Longrightarrow> sw_reach w now"
| reach_tick: "sw_reach w now \<Longrightarrow> now \<le> now' \<Longrightarrow> sw_reach w now'"
| reach_observe: "sw_reach w now \<Longrightarrow> sw_observe w ip start delta now = (r, w') \<Longrightarrow> sw_reach w' now"
| reach_set_state: "sw_reach w now \<Longrightarrow> sw_set_state w ip st = (r', w') \<Longrightarrow> sw_reach w' now"
| reach_expire: "sw_reach w now \<Longrightarrow> sw_expire_due w now = Some (changes, w') \<Longrightarrow> sw_reach w' now"
| reach_evict: "sw_reach w now \<Longrightarrow> sw_evict_due w now = (n, w') \<Longrightarrow> sw_reach w' now"
| reach_warmup: "sw_reach w now \<Longrightarrow> sw_finish_warmup_if_due w now = (ips, w') \<Longrightarrow> sw_reach w' now"
| reach_config: "sw_reach w now \<Longrightarrow> config_ok config \<Longrightarrow> sw_apply_config w config now = (r'', w') \<Longrightarrow> sw_reach w' now"
| reach_sequence: "sw_reach w now \<Longrightarrow> sw_reach (w\<lparr>sw_next_sequence := n\<rparr>) now"

lemma sw_reach_ok: "sw_reach w now \<Longrightarrow> sw_ok w now"
proof (induction rule: sw_reach.induct)
  case (reach_new config shard now hot seq m w)
  then have "0 < m" by (simp add: mk_shard_window_def split: if_splits)
  with reach_new mk_shard_window_ok[of config m shard now hot seq] show ?case by auto
next
  case (reach_observe w now ip start delta r w')
  then show ?case using sw_observe_ok[of w now ip start delta] by simp
next
  case (reach_set_state w now ip st r' w')
  then show ?case using sw_set_state_ok[of w now ip st] by simp
next
  case (reach_expire w now changes w')
  then show ?case using sw_expire_due_ok[of w now] by auto
next
  case (reach_evict w now n w')
  then show ?case using sw_evict_due_ok[of w now] by auto
next
  case (reach_warmup w now ips w')
  then show ?case using sw_finish_warmup_ok[of w now] by simp
next
  case (reach_config w now config r'' w')
  then show ?case using sw_apply_config_ok[of w now config] by auto
qed (auto simp: sw_ok_counters intro: sw_ok_mono)

section \<open>Observing\<close>

text \<open>What \<open>observe\<close> does to the window, on every branch.\<close>

lemma sw_observe_reject:
  assumes "config_ok (sw_config w)" "sw_ok w now"
    "\<not> bucket_seconds (sw_config w) dvd s \<or> d < 0 \<or> \<not> ic_is_live (en_counter e0) s now"
    "sw_entry w ip = Some e0 \<or> (sw_entry w ip = None \<and> sw_new_counter w = Inr (en_counter e0))"
  shows "sw_observe w ip s d now =
    (if bucket_seconds (sw_config w) dvd s \<and> 0 \<le> d then Inr None else Inl ValueError, w)"
proof -
  have "ic_bucket_seconds (en_counter e0) = bucket_seconds (sw_config w)"
    using assms(4) sw_ok_entry[OF assms(2)] sw_new_counter_ok[OF assms(1)]
    by (auto simp: entry_ok_def ic_geometry_def)
  then show ?thesis
    using assms(3,4) by (auto simp: sw_observe_def ic_observe_def mod_eq_0_iff_dvd)
qed

lemma sw_observe_live:
  assumes ok: "sw_ok w now" and s: "bucket_seconds (sw_config w) dvd s" "0 \<le> d"
    and live: "0 \<le> bucket_start now (bucket_seconds (sw_config w)) - s"
      "bucket_start now (bucket_seconds (sw_config w)) - s < window_seconds (sw_config w)"
  shows "\<exists>ch w' e'. sw_observe w ip s d now = (Inr (Some ch), w') \<and> sw_entry w' ip = Some e' \<and>
    wc_ip ch = ip \<and> wc_state ch = sw_state w ip \<and> wc_total_before ch = sw_total w ip \<and>
    wc_total_after ch = sw_total w' ip \<and> sw_state w' ip = sw_state w ip \<and>
    (\<forall>ip' e. ip' \<noteq> ip \<and> sw_entry w ip' = Some e \<and> en_state e = HOT \<longrightarrow> sw_entry w' ip' = Some e)"
proof -
  note cfg = config_ok_facts[OF ok[unfolded sw_ok_def, THEN conjunct1]]
  have acc: "\<exists>c'. ic_observe c s d now = (Inr True, c')"
    if g: "ic_geometry c = (bucket_seconds (sw_config w), bucket_count (sw_config w))" for c
  proof -
    have "ic_bucket_seconds c = bucket_seconds (sw_config w)" "ic_window_seconds c = window_seconds (sw_config w)"
      using g cfg(3) by (simp_all add: ic_geometry_def ic_window_seconds_def)
    then show ?thesis using s live by (simp add: ic_observe_def ic_is_live_def Let_def)
  qed
  show ?thesis
  proof (cases "sw_entry w ip")
    case None
    obtain c where c: "sw_new_counter w = Inr c" "ic_geometry c = (bucket_seconds (sw_config w), bucket_count (sw_config w))"
      "ic_total c = 0" using sw_new_counter_ok[of w] ok by (auto simp: sw_ok_def)
    obtain c' where c': "ic_observe c s d now = (Inr True, c')" using acc[OF c(2)] by blast
    have keep: "sw_entry (sw_evict_for_capacity w) ip' = Some e" if "sw_entry w ip' = Some e" "en_state e = HOT" for ip' e
      using sw_evict_for_capacity_ok[OF ok] that victim_ok_keeps_hot[of "sw_entries w" _ ip' e]
      by (auto split: if_splits)
    show ?thesis
      using None c c' keep
      by (auto simp: sw_observe_def Let_def sw_state_def sw_total_def update_conv')
  next
    case (Some e0)
    then have "ic_geometry (en_counter e0) = (bucket_seconds (sw_config w), bucket_count (sw_config w))"
      using sw_ok_entry[OF ok] by (simp add: entry_ok_def)
    then obtain c' where "ic_observe (en_counter e0) s d now = (Inr True, c')" using acc by blast
    with Some show ?thesis by (auto simp: sw_observe_def Let_def sw_state_def sw_total_def)
  qed
qed

lemma sw_observe_drops:
  assumes ok: "sw_ok w now" and run: "sw_observe w ip s d now = (r, w')"
    and gone: "sw_entry w v = Some e" "sw_entry w' v = None"
  shows "en_state e = COLD \<and> sw_entry w ip = None \<and> sw_max_tracked_ips w \<le> int (length (sw_entries w)) \<and>
    (\<forall>v' e'. sw_entry w v' = Some e' \<and> en_state e' = COLD \<longrightarrow> en_last_seen e \<le> en_last_seen e') \<and>
    (\<forall>v'. v' \<noteq> v \<and> v' \<noteq> ip \<longrightarrow> sw_entry w' v' = sw_entry w v')"
proof (cases "sw_entry w ip")
  case (Some e0)
  with run have "v = ip \<Longrightarrow> sw_entry w' v \<noteq> None" "v \<noteq> ip \<Longrightarrow> sw_entry w' v = sw_entry w v"
    by (auto simp: sw_observe_def Let_def split: sum.splits prod.splits if_splits)
  with gone show ?thesis by (cases "v = ip") auto
next
  case None
  let ?w = "sw_evict_for_capacity w"
  have "\<exists>e1. sw_entry w' = (sw_entry ?w)(ip \<mapsto> e1)"
    using run None gone by (auto simp: sw_observe_def Let_def update_conv' split: sum.splits prod.splits if_splits)
  then obtain e1 where w': "sw_entry w' = (sw_entry ?w)(ip \<mapsto> e1)" ..
  with gone have v: "v \<noteq> ip" "sw_entry ?w v = None" by (auto split: if_splits)
  with gone(1) obtain victim where victim: "sw_max_tracked_ips w \<le> int (length (sw_entries w))" "victim_ok (sw_entry w) victim"
    "sw_entries ?w = (case victim of None \<Rightarrow> sw_entries w | Some x \<Rightarrow> AList.delete x (sw_entries w))"
    using sw_evict_for_capacity_ok[OF ok] by (auto split: if_splits)
  with v gone(1) have "victim = Some v"
    by (cases victim) (auto simp: delete_conv' split: if_splits)
  with victim gone(1) None w' show ?thesis by (auto simp: victim_ok_def delete_conv')
qed

section \<open>A sample window\<close>

text \<open>A HOT IP inherited at 100 and a COLD one observed at 105, in a store for two.\<close>

definition sample_config :: detection_config where
  "sample_config = DEFAULT_CONFIG\<lparr>window_seconds := 20, state_retention_seconds := 40\<rparr>"

definition sample_window :: shard_window where
  "sample_window = (case mk_shard_window 3 sample_config 100 [\<lparr>addr_family = IPV4, addr_value = 1\<rparr>] 7 2 of
     Inr w \<Rightarrow> snd (sw_observe w \<lparr>addr_family = IPV4, addr_value = 2\<rparr> 100 5 105))"

lemma sample_config_ok: "config_ok sample_config"
  by (simp add: sample_config_def config_ok_def config_accepted_def mk_detection_config_def DEFAULT_CONFIG_def WEIGHT_FUNCTIONS_def)

lemma sample_window_reach: "sw_reach sample_window 105"
proof -
  obtain w where w: "mk_shard_window 3 sample_config 100 [\<lparr>addr_family = IPV4, addr_value = 1\<rparr>] 7 2 = Inr w"
    using mk_shard_window_ok[OF sample_config_ok, of 2 3 100 "[\<lparr>addr_family = IPV4, addr_value = 1\<rparr>]" 7] by auto
  then have "sw_reach w 100" by (rule reach_new[OF sample_config_ok])
  then have "sw_reach w 105" by (rule reach_tick) simp
  then show ?thesis by (rule reach_observe[of w 105 "\<lparr>addr_family = IPV4, addr_value = 2\<rparr>" 100 5
      "fst (sw_observe w \<lparr>addr_family = IPV4, addr_value = 2\<rparr> 100 5 105)"]) (simp add: sample_window_def w)
qed

lemma sample_window_later: "105 \<le> now \<Longrightarrow> sw_reach sample_window now"
  using sample_window_reach by (rule reach_tick)

lemma sample_window_size: "length (sw_entries sample_window) = 2"
  by code_simp

lemma sample_window_cold:
  "\<exists>e. sw_entry sample_window \<lparr>addr_family = IPV4, addr_value = 2\<rparr> = Some e \<and> ic_total (en_counter e) = 5 \<and>
     ic_total (snd (ic_expire (en_counter e) 125)) = 0 \<and> rebuilt_total DEFAULT_CONFIG (en_counter e) 105 = 5"
proof -
  let ?e = "the (sw_entry sample_window \<lparr>addr_family = IPV4, addr_value = 2\<rparr>)"
  have "sw_entry sample_window \<lparr>addr_family = IPV4, addr_value = 2\<rparr> \<noteq> None" by code_simp
  moreover have "ic_total (en_counter ?e) = 5" "ic_total (snd (ic_expire (en_counter ?e) 125)) = 0" by code_simp+
  moreover have "rebuilt_total DEFAULT_CONFIG (en_counter ?e) 105 = 5" by code_simp
  ultimately show ?thesis by (metis option.collapse)
qed

lemma sample_window_kept:
  "map fst (filter (\<lambda>(ip, e). en_state e = HOT \<or> 145 - state_retention_seconds (sw_config sample_window) < en_last_seen e)
     (sw_entries sample_window)) = [\<lparr>addr_family = IPV4, addr_value = 1\<rparr>]"
  by code_simp

lemma sample_window_kept_count:
  "length (filter (\<lambda>(ip, e). en_state e = HOT \<or> 145 - state_retention_seconds (sw_config sample_window) < en_last_seen e)
     (sw_entries sample_window)) = 1"
  by code_simp

section \<open>Properties\<close>

text \<open>C29: Whatever order the worker calls the window's operations in, as long as the clock does not go
  back, the window stays consistent: one entry per IP, every ring well formed with the configured
  geometry, every IP with something to expire scheduled no later than that, and every tracked IP
  pending for retention exactly once, no later than it was last seen.\<close>

theorem window_consistent:
  assumes "sw_reach w now"
  shows "sw_ok w now"
  using assms by (rule sw_reach_ok)

theorem window_consistent_witness:
  "sw_ok sample_window 105 \<and> length (sw_entries sample_window) = 2"
  using window_consistent[OF sample_window_reach] by (auto intro: sample_window_size)

text \<open>C30: The lazy expiry schedule misses nothing. On every reachable window \<open>expire_due\<close> ends; afterwards
  every tracked IP's total is what a direct sweep of its ring at \<open>now\<close> would leave, its other fields
  are as they were, no IP appears or disappears, and the returned changes are exactly the IPs whose
  total moved, each with its total before and after.\<close>

theorem expire_due_exact:
  assumes "sw_reach w now"
  shows "\<exists>changes w'. sw_expire_due w now = Some (changes, w') \<and>
    map fst (sw_entries w') = map fst (sw_entries w) \<and>
    (\<forall>ip e. sw_entry w ip = Some e \<longrightarrow> (\<exists>e'. sw_entry w' ip = Some e' \<and> en_state e' = en_state e \<and>
       en_last_seen e' = en_last_seen e \<and> en_inherited e' = en_inherited e \<and>
       ic_total (en_counter e') = ic_total (snd (ic_expire (en_counter e) now)))) \<and>
    set changes = {\<lparr>wc_ip = ip, wc_state = en_state e, wc_total_before = ic_total (en_counter e),
        wc_total_after = ic_total (snd (ic_expire (en_counter e) now))\<rparr> | ip e. sw_entry w ip = Some e \<and>
       ic_total (snd (ic_expire (en_counter e) now)) \<noteq> ic_total (en_counter e)}"
  using sw_expire_due_ok[OF sw_reach_ok[OF assms], unfolded change_of_def] by blast

theorem expire_due_exact_witness:
  "\<exists>changes w'. sw_expire_due sample_window 125 = Some (changes, w') \<and>
     sw_total sample_window \<lparr>addr_family = IPV4, addr_value = 2\<rparr> = 5 \<and>
     sw_total w' \<lparr>addr_family = IPV4, addr_value = 2\<rparr> = 0"
proof -
  obtain e where e: "sw_entry sample_window \<lparr>addr_family = IPV4, addr_value = 2\<rparr> = Some e" "ic_total (en_counter e) = 5"
    "ic_total (snd (ic_expire (en_counter e) 125)) = 0"
    using sample_window_cold by blast
  have "sw_reach sample_window 125" by (rule sample_window_later) simp
  from expire_due_exact[OF this] e show ?thesis by (fastforce simp: sw_total_def)
qed

text \<open>C31: Retention is exact. On every reachable window \<open>evict_due\<close> drops precisely the COLD IPs not seen
  for \<open>state_retention_seconds\<close>, keeps every other entry unchanged and in place, and returns how many it
  dropped. A HOT IP is never dropped.\<close>

theorem evict_due_exact:
  assumes "sw_reach w now"
  shows "\<exists>w'. sw_evict_due w now = (int (length (sw_entries w)) - int (length (sw_entries w')), w') \<and>
    sw_entries w' = filter (\<lambda>(ip, e). en_state e = HOT \<or> now - state_retention_seconds (sw_config w) < en_last_seen e)
      (sw_entries w)"
  using sw_evict_due_ok[OF sw_reach_ok[OF assms]] by blast

theorem evict_due_exact_witness:
  "\<exists>w'. sw_evict_due sample_window 145 = (1, w') \<and> sw_tracked_ips w' = [\<lparr>addr_family = IPV4, addr_value = 1\<rparr>]"
proof -
  have "sw_reach sample_window 145" by (rule sample_window_later) simp
  from evict_due_exact[OF this] show ?thesis
    by (auto simp: sw_tracked_ips_def sample_window_size sample_window_kept sample_window_kept_count)
qed



text \<open>C32: The capacity limit costs as little as it can. If an IP is gone after an observation, then it was
  COLD, the store was full, the observed IP was new, no COLD IP had been seen earlier, and every other
  entry is untouched.\<close>

theorem capacity_victim:
  assumes "sw_reach w now" "sw_observe w ip s d now = (r, w')" "sw_entry w v = Some e" "sw_entry w' v = None"
  shows "en_state e = COLD \<and> sw_entry w ip = None \<and> sw_max_tracked_ips w \<le> int (length (sw_entries w)) \<and>
    (\<forall>v' e'. sw_entry w v' = Some e' \<and> en_state e' = COLD \<longrightarrow> en_last_seen e \<le> en_last_seen e') \<and>
    (\<forall>v'. v' \<noteq> v \<and> v' \<noteq> ip \<longrightarrow> sw_entry w' v' = sw_entry w v')"
  using sw_observe_drops[OF sw_reach_ok[OF assms(1)] assms(2-4)] .

theorem capacity_victim_witness:
  "\<exists>r w' e. sw_observe sample_window \<lparr>addr_family = IPV4, addr_value = 3\<rparr> 100 1 105 = (r, w') \<and>
     sw_entry sample_window \<lparr>addr_family = IPV4, addr_value = 2\<rparr> = Some e \<and>
     sw_entry w' \<lparr>addr_family = IPV4, addr_value = 2\<rparr> = None \<and> en_state e = COLD \<and>
     sw_entry w' \<lparr>addr_family = IPV4, addr_value = 1\<rparr> = sw_entry sample_window \<lparr>addr_family = IPV4, addr_value = 1\<rparr>"
proof -
  obtain r w' where run: "sw_observe sample_window \<lparr>addr_family = IPV4, addr_value = 3\<rparr> 100 1 105 = (r, w')" by fastforce
  obtain e where e: "sw_entry sample_window \<lparr>addr_family = IPV4, addr_value = 2\<rparr> = Some e" using sample_window_cold by blast
  have "sw_entry (snd (sw_observe sample_window \<lparr>addr_family = IPV4, addr_value = 3\<rparr> 100 1 105))
      \<lparr>addr_family = IPV4, addr_value = 2\<rparr> = None" by code_simp
  with run have gone: "sw_entry w' \<lparr>addr_family = IPV4, addr_value = 2\<rparr> = None" by simp
  from capacity_victim[OF sample_window_reach run e gone] run e gone show ?thesis by fastforce
qed

text \<open>C34: Installing a configuration never fails on a reachable window and keeps every IP with its state.
  An unchanged geometry keeps every total; a changed one makes each total the sum of the live buckets
  that, floored to the new granularity, lie inside the new window.\<close>

theorem apply_config_rebuckets:
  assumes "sw_reach w now" "config_ok config"
  shows "\<exists>w'. sw_apply_config w config now = (Inr (), w') \<and> sw_config w' = config \<and>
    (\<forall>ip e. sw_entry w ip = Some e \<longrightarrow> (\<exists>e'. sw_entry w' ip = Some e' \<and> en_state e' = en_state e \<and>
       en_last_seen e' = en_last_seen e \<and>
       ic_total (en_counter e') =
         (if bucket_seconds config = bucket_seconds (sw_config w) \<and> bucket_count config = bucket_count (sw_config w)
          then ic_total (en_counter e) else rebuilt_total config (en_counter e) now)))"
  using sw_apply_config_ok[OF sw_reach_ok[OF assms(1)] assms(2)] by blast

theorem apply_config_rebuckets_witness:
  "\<exists>w'. sw_apply_config sample_window DEFAULT_CONFIG 105 = (Inr (), w') \<and>
     sw_total w' \<lparr>addr_family = IPV4, addr_value = 2\<rparr> = 5"
proof -
  obtain e where e: "sw_entry sample_window \<lparr>addr_family = IPV4, addr_value = 2\<rparr> = Some e"
    "rebuilt_total DEFAULT_CONFIG (en_counter e) 105 = 5"
    using sample_window_cold by blast
  have "bucket_count (sw_config sample_window) = 2" "bucket_count DEFAULT_CONFIG = 30" by code_simp+
  then show ?thesis
    using apply_config_rebuckets[OF sample_window_reach DEFAULT_CONFIG_ok] e
    by (fastforce simp: sw_total_def)
qed

end
