(* ===== verification/Dedup_Store.thy ===== *)
theory Dedup_Store
  imports Hammertime_Prelude "HOL-Library.AList" "HOL-Library.Product_Lexorder" "HOL-Library.List_Lexorder" "HOL-Library.Char_ord"
begin

text \<open>
  Deduplication of agent messages: the per-agent \<open>SequenceWindow\<close> (\<open>hammertime.store.dedup\<close>) and the
  reference store around it, \<open>MemoryDedupStore\<close> (\<open>hammertime.store.memory\<close>), with its sliding expiry
  and its least-recently-touched bound. A set of integers is a list of its elements, the
  \<open>OrderedDict\<close> of windows an association list with the least recently touched agent first, and the
  expiry heap the sorted list of its entries. The clock is the argument \<open>now\<close>. The coroutines contain
  no await between check and mark, so a call is one step.
\<close>

section \<open>Sequence windows\<close>

record sequence_window =
  high_water_mark :: int
  max_out_of_order :: int
  sq_ahead :: "int list"

definition DEFAULT_MAX_OUT_OF_ORDER :: int where "DEFAULT_MAX_OUT_OF_ORDER = 10000"

definition mk_sequence_window :: sequence_window where
  "mk_sequence_window = \<lparr>high_water_mark = - 1, max_out_of_order = DEFAULT_MAX_OUT_OF_ORDER, sq_ahead = []\<rparr>"

definition sq_contains :: "sequence_window \<Rightarrow> int \<Rightarrow> bool" where
  "sq_contains w s = (if s \<le> high_water_mark w then True else s \<in> set (sq_ahead w))"

text \<open>\<open>_fold_contiguous_run\<close>: the loop runs at most once per element held ahead.\<close>

function sq_fold_run :: "sequence_window \<Rightarrow> sequence_window" where
  "sq_fold_run w =
     (if high_water_mark w + 1 \<in> set (sq_ahead w)
      then sq_fold_run (w\<lparr>sq_ahead := removeAll (high_water_mark w + 1) (sq_ahead w),
                           high_water_mark := high_water_mark w + 1\<rparr>)
      else w)"
  by pat_completeness auto
termination
  by (relation "measure (\<lambda>w. length (sq_ahead w))") (auto intro: length_removeAll_less)

declare sq_fold_run.simps [simp del]

definition sq_bound :: "sequence_window \<Rightarrow> sequence_window" where
  "sq_bound w =
     (if int (length (sq_ahead w)) > max_out_of_order w
      then w\<lparr>sq_ahead := removeAll (Min (set (sq_ahead w))) (sq_ahead w)\<rparr> else w)"

definition sq_add :: "sequence_window \<Rightarrow> int \<Rightarrow> sequence_window" where
  "sq_add w s =
     (if sq_contains w s then w
      else if s = high_water_mark w + 1 then sq_fold_run (w\<lparr>high_water_mark := s\<rparr>)
      else sq_bound (w\<lparr>sq_ahead := sq_ahead w @ [s]\<rparr>))"

definition sq_out_of_order_count :: "sequence_window \<Rightarrow> int" where
  "sq_out_of_order_count w = int (length (sq_ahead w))"

text \<open>The sequences a window holds as seen, and its invariant.\<close>

definition sq_seen :: "sequence_window \<Rightarrow> int set" where
  "sq_seen w = {0 .. high_water_mark w} \<union> set (sq_ahead w)"

definition sq_ok :: "sequence_window \<Rightarrow> bool" where
  "sq_ok w \<longleftrightarrow> - 1 \<le> high_water_mark w \<and> distinct (sq_ahead w) \<and> (\<forall>s \<in> set (sq_ahead w). high_water_mark w + 1 < s) \<and>
     int (length (sq_ahead w)) \<le> max 0 (max_out_of_order w)"

lemma sq_contains_seen: "sq_ok w \<Longrightarrow> 0 \<le> s \<Longrightarrow> sq_contains w s \<longleftrightarrow> s \<in> sq_seen w"
  by (auto simp: sq_contains_def sq_seen_def)

lemma sq_new_ok: "sq_ok mk_sequence_window" "sq_seen mk_sequence_window = {}"
  by (simp_all add: sq_ok_def sq_seen_def mk_sequence_window_def DEFAULT_MAX_OUT_OF_ORDER_def)

lemma sq_fold_run_ok:
  assumes "- 1 \<le> high_water_mark w" "distinct (sq_ahead w)" "\<forall>s \<in> set (sq_ahead w). high_water_mark w < s"
    "int (length (sq_ahead w)) \<le> max 0 (max_out_of_order w)"
  shows "sq_ok (sq_fold_run w) \<and> sq_seen (sq_fold_run w) = sq_seen w \<and> max_out_of_order (sq_fold_run w) = max_out_of_order w"
  using assms
proof (induction w rule: sq_fold_run.induct)
  case (1 w)
  let ?n = "high_water_mark w + 1"
  let ?w = "w\<lparr>sq_ahead := removeAll ?n (sq_ahead w), high_water_mark := ?n\<rparr>"
  show ?case
  proof (cases "?n \<in> set (sq_ahead w)")
    case True
    have len: "int (length (removeAll ?n (sq_ahead w))) \<le> max 0 (max_out_of_order w)"
      using 1(5) length_removeAll_less_eq[of ?n "sq_ahead w"] by linarith
    have "sq_ok (sq_fold_run ?w) \<and> sq_seen (sq_fold_run ?w) = sq_seen ?w \<and> max_out_of_order (sq_fold_run ?w) = max_out_of_order ?w"
      using 1(2-5) len by (intro 1(1)[OF True]) (auto simp: distinct_removeAll less_le)
    moreover have "{0 .. ?n} = insert ?n {0 .. high_water_mark w}" using 1(2) by auto
    then have "sq_seen ?w = sq_seen w" using True by (auto simp: sq_seen_def)
    moreover have "sq_fold_run w = sq_fold_run ?w" using True by (simp add: sq_fold_run.simps[of w])
    ultimately show ?thesis by simp
  next
    case False
    then have "sq_fold_run w = w" by (simp add: sq_fold_run.simps[of w])
    moreover have "\<forall>s \<in> set (sq_ahead w). ?n < s" using False 1(4) by (metis add1_zle_eq order_le_less)
    ultimately show ?thesis using 1(2-5) by (simp add: sq_ok_def)
  qed
qed

text \<open>What recording a sequence does: it is recorded, nothing else becomes seen, and only an overflow of
  the out-of-order bound forgets one sequence.\<close>

lemma sq_add_ok:
  assumes ok: "sq_ok w" and s: "0 \<le> s"
  shows "sq_ok (sq_add w s) \<and> max_out_of_order (sq_add w s) = max_out_of_order w \<and>
    sq_seen (sq_add w s) \<subseteq> insert s (sq_seen w) \<and>
    (int (card (insert s (sq_seen w))) \<le> max_out_of_order w \<longrightarrow> sq_seen (sq_add w s) = insert s (sq_seen w))"
proof (cases "sq_contains w s")
  case True
  then show ?thesis using ok sq_contains_seen[OF ok s] by (simp add: sq_add_def insert_absorb)
next
  case False
  then have out: "high_water_mark w < s" "s \<notin> set (sq_ahead w)" by (auto simp: sq_contains_def split: if_splits)
  show ?thesis
  proof (cases "s = high_water_mark w + 1")
    case True
    let ?w = "w\<lparr>high_water_mark := s\<rparr>"
    have "sq_ok (sq_fold_run ?w) \<and> sq_seen (sq_fold_run ?w) = sq_seen ?w \<and> max_out_of_order (sq_fold_run ?w) = max_out_of_order ?w"
      using ok True s by (intro sq_fold_run_ok) (auto simp: sq_ok_def)
    moreover have "sq_seen ?w = insert s (sq_seen w)" using True s by (auto simp: sq_seen_def)
    ultimately show ?thesis using False True by (simp add: sq_add_def)
  next
    case gap: False
    let ?a = "sq_ahead w @ [s]"
    have add: "sq_add w s = sq_bound (w\<lparr>sq_ahead := ?a\<rparr>)" using False gap by (simp add: sq_add_def)
    have dist: "distinct ?a" and above: "\<forall>x \<in> set ?a. high_water_mark w + 1 < x"
      using ok out gap by (auto simp: sq_ok_def)
    show ?thesis
    proof (cases "int (length ?a) > max_out_of_order w")
      case True
      let ?m = "Min (set ?a)"
      have "?m \<in> set ?a" by (intro Min_in) auto
      then have "length (removeAll ?m ?a) = length ?a - 1"
        using dist by (metis distinct_remove1_removeAll length_remove1)
      then have "sq_ok (sq_add w s)"
        using ok above True dist unfolding add by (auto simp: sq_bound_def sq_ok_def distinct_removeAll)
      moreover have "sq_seen (sq_add w s) \<subseteq> insert s (sq_seen w)"
        using True unfolding add by (auto simp: sq_bound_def sq_seen_def)
      moreover have "card (set ?a) \<le> card (insert s (sq_seen w))"
        by (rule card_mono) (auto simp: sq_seen_def)
      then have "length ?a \<le> card (insert s (sq_seen w))" using distinct_card[OF dist] by simp
      then have "\<not> int (card (insert s (sq_seen w))) \<le> max_out_of_order w" using True by linarith
      ultimately show ?thesis using True unfolding add by (auto simp: sq_bound_def)
    next
      case False
      then have "sq_add w s = w\<lparr>sq_ahead := ?a\<rparr>" unfolding add by (simp add: sq_bound_def)
      then show ?thesis using ok dist above False by (auto simp: sq_ok_def sq_seen_def)
    qed
  qed
qed

section \<open>The in-memory store\<close>

record memory_dedup =
  md_max_agents :: int
  md_windows :: "(string \<times> sequence_window) list"
  md_expires_at :: "(string \<times> int) list"
  md_expiry_heap :: "(int \<times> string) list"

definition mk_memory_dedup :: "int \<Rightarrow> memory_dedup result" where
  "mk_memory_dedup max_agents =
     (if max_agents \<le> 0 then Inl ValueError
      else Inr \<lparr>md_max_agents = max_agents, md_windows = [], md_expires_at = [], md_expiry_heap = []\<rparr>)"

definition md_evict_if_full :: "memory_dedup \<Rightarrow> unit result \<times> memory_dedup" where
  "md_evict_if_full st =
     (if int (length (md_windows st)) < md_max_agents st then (Inr (), st)
      else case md_windows st of
             [] \<Rightarrow> (Inl KeyError, st)
           | (evicted, _) # rest \<Rightarrow>
               (Inr (), st\<lparr>md_windows := rest, md_expires_at := AList.delete evicted (md_expires_at st)\<rparr>))"

function md_sweep :: "memory_dedup \<Rightarrow> int \<Rightarrow> unit result \<times> memory_dedup" where
  "md_sweep st now =
     (case md_expiry_heap st of
        [] \<Rightarrow> (Inr (), st)
      | (expires_at, agent_id) # rest \<Rightarrow>
          if \<not> expires_at \<le> now then (Inr (), st)
          else let st1 = st\<lparr>md_expiry_heap := rest\<rparr> in
            if map_of (md_expires_at st1) agent_id = Some expires_at then
              if map_of (md_windows st1) agent_id = None then (Inl KeyError, st1)
              else md_sweep (st1\<lparr>md_windows := AList.delete agent_id (md_windows st1),
                                 md_expires_at := AList.delete agent_id (md_expires_at st1)\<rparr>) now
            else md_sweep st1 now)"
  by pat_completeness auto
termination
  by (relation "measure (\<lambda>(st, now). length (md_expiry_heap st))") auto

declare md_sweep.simps [simp del]

definition move_to_end :: "'k \<Rightarrow> 'v \<Rightarrow> ('k \<times> 'v) list \<Rightarrow> ('k \<times> 'v) list" where
  "move_to_end k v al = AList.delete k al @ [(k, v)]"

definition md_has_seen :: "memory_dedup \<Rightarrow> int \<Rightarrow> string \<Rightarrow> int \<Rightarrow> bool result \<times> memory_dedup" where
  "md_has_seen st now agent_id s =
     (case md_sweep st now of
        (Inl err, st1) \<Rightarrow> (Inl err, st1)
      | (Inr _, st1) \<Rightarrow>
          (case map_of (md_windows st1) agent_id of
             None \<Rightarrow> (Inr False, st1)
           | Some w \<Rightarrow> (Inr (sq_contains w s), st1\<lparr>md_windows := move_to_end agent_id w (md_windows st1)\<rparr>)))"

definition md_touch_expiry :: "memory_dedup \<Rightarrow> int \<Rightarrow> string \<Rightarrow> int \<Rightarrow> memory_dedup" where
  "md_touch_expiry st now agent_id ttl =
     (let expires_at = now + ttl in
      if (case map_of (md_expires_at st) agent_id of None \<Rightarrow> True | Some current \<Rightarrow> expires_at > current)
      then st\<lparr>md_expires_at := AList.update agent_id expires_at (md_expires_at st),
              md_expiry_heap := insort (expires_at, agent_id) (md_expiry_heap st)\<rparr>
      else st)"

definition md_mark_seen :: "memory_dedup \<Rightarrow> int \<Rightarrow> string \<Rightarrow> int \<Rightarrow> int \<Rightarrow> unit result \<times> memory_dedup" where
  "md_mark_seen st now agent_id s ttl =
     (case md_sweep st now of
        (Inl err, st1) \<Rightarrow> (Inl err, st1)
      | (Inr _, st1) \<Rightarrow>
          (case map_of (md_windows st1) agent_id of
             None \<Rightarrow>
               (case md_evict_if_full st1 of
                  (Inl err, st2) \<Rightarrow> (Inl err, st2)
                | (Inr _, st2) \<Rightarrow>
                    (Inr (), md_touch_expiry
                       (st2\<lparr>md_windows := md_windows st2 @ [(agent_id, sq_add mk_sequence_window s)]\<rparr>) now agent_id ttl))
           | Some w \<Rightarrow>
               (Inr (), md_touch_expiry
                  (st1\<lparr>md_windows := move_to_end agent_id (sq_add w s) (md_windows st1)\<rparr>) now agent_id ttl)))"

definition md_claim :: "memory_dedup \<Rightarrow> int \<Rightarrow> string \<Rightarrow> int \<Rightarrow> int \<Rightarrow> bool result \<times> memory_dedup" where
  "md_claim st now agent_id s ttl =
     (case md_has_seen st now agent_id s of
        (Inl err, st1) \<Rightarrow> (Inl err, st1)
      | (Inr True, st1) \<Rightarrow> (Inr False, st1)
      | (Inr False, st1) \<Rightarrow>
          (case md_mark_seen st1 now agent_id s ttl of
             (Inl err, st2) \<Rightarrow> (Inl err, st2)
           | (Inr _, st2) \<Rightarrow> (Inr True, st2)))"

end
