(* ===== verification/Dedup_Correct.thy ===== *)
theory Dedup_Correct
  imports Dedup_Store
begin

text \<open>
  The contract of the dedup store and that the in-memory store keeps it. The specification is the
  history of accepted claims with their deadlines: a claim is refused only for a pair claimed before,
  and refused for certain while an earlier claim of the pair is within its promised retention, as long
  as the store's two memory bounds (agents tracked, sequences held out of order) are not exceeded.
\<close>

section \<open>The contract\<close>

text \<open>An accepted claim: agent, sequence, and the time until which it must be remembered.\<close>

type_synonym claim_mark = "string \<times> int \<times> int"

type_synonym claim_request = "int \<times> string \<times> int \<times> int"

definition marked :: "claim_mark list \<Rightarrow> string \<Rightarrow> int set" where
  "marked h a = {s. \<exists>d. (a, s, d) \<in> set h}"

definition within_caps :: "int \<Rightarrow> claim_mark list \<Rightarrow> bool" where
  "within_caps m h \<longleftrightarrow> int (card (fst ` set h)) \<le> m \<and> (\<forall>a. int (card (marked h a)) \<le> DEFAULT_MAX_OUT_OF_ORDER)"

text \<open>The answers a store may give to a sequence of claims, after the history \<open>h\<close>.\<close>

fun claims_allowed :: "int \<Rightarrow> claim_mark list \<Rightarrow> claim_request list \<Rightarrow> bool list \<Rightarrow> bool" where
  "claims_allowed m h [] [] = True"
| "claims_allowed m h ((now, a, s, ttl) # reqs) (b # bs) =
     ((\<not> b \<longrightarrow> s \<in> marked h a) \<and>
      ((\<exists>d. (a, s, d) \<in> set h \<and> now < d) \<and> within_caps m (h @ [(a, s, now + ttl)]) \<longrightarrow> \<not> b) \<and>
      claims_allowed m (if b then h @ [(a, s, now + ttl)] else h) reqs bs)"
| "claims_allowed m h _ _ = False"

fun claim_run :: "('st \<Rightarrow> int \<Rightarrow> string \<Rightarrow> int \<Rightarrow> int \<Rightarrow> bool result \<times> 'st) \<Rightarrow> 'st \<Rightarrow> claim_request list \<Rightarrow> bool result list" where
  "claim_run claim st [] = []"
| "claim_run claim st ((now, a, s, ttl) # reqs) =
     (case claim st now a s ttl of (r, st') \<Rightarrow> r # claim_run claim st' reqs)"

locale dedup_store =
  fixes claim :: "'st \<Rightarrow> int \<Rightarrow> string \<Rightarrow> int \<Rightarrow> int \<Rightarrow> bool result \<times> 'st"
    and tracks :: "claim_mark list \<Rightarrow> 'st \<Rightarrow> int \<Rightarrow> bool"
    and cap :: int
  assumes claim_law: "tracks h st t \<Longrightarrow> t \<le> now \<Longrightarrow> 0 \<le> s \<Longrightarrow> \<exists>b st'. claim st now a s ttl = (Inr b, st') \<and>
      tracks (if b then h @ [(a, s, now + ttl)] else h) st' now \<and> (\<not> b \<longrightarrow> s \<in> marked h a) \<and>
      ((\<exists>d. (a, s, d) \<in> set h \<and> now < d) \<and> within_caps cap (h @ [(a, s, now + ttl)]) \<longrightarrow> \<not> b)"
begin

lemma claim_run_allowed:
  assumes "tracks h st t" "sorted (t # map fst reqs)" "\<forall>(now, a, s, ttl) \<in> set reqs. 0 \<le> s"
  shows "\<exists>bs. claim_run claim st reqs = map Inr bs \<and> claims_allowed cap h reqs bs"
  using assms
proof (induction reqs arbitrary: h st t)
  case Nil
  then show ?case by (intro exI[of _ "[]"]) simp
next
  case (Cons r reqs)
  obtain now a s ttl where r: "r = (now, a, s, ttl)" by (cases r)
  obtain b st' where b: "claim st now a s ttl = (Inr b, st')"
    "tracks (if b then h @ [(a, s, now + ttl)] else h) st' now" "\<not> b \<longrightarrow> s \<in> marked h a"
    "(\<exists>d. (a, s, d) \<in> set h \<and> now < d) \<and> within_caps cap (h @ [(a, s, now + ttl)]) \<longrightarrow> \<not> b"
    using claim_law[OF Cons.prems(1), of now s a ttl] Cons.prems(2,3) r by auto
  have "sorted (now # map fst reqs)" "\<forall>(now, a, s, ttl) \<in> set reqs. 0 \<le> s" using Cons.prems(2,3) r by auto
  from Cons.IH[OF b(2) this] obtain bs where "claim_run claim st' reqs = map Inr bs"
    "claims_allowed cap (if b then h @ [(a, s, now + ttl)] else h) reqs bs" by blast
  with b r show ?case by (intro exI[of _ "b # bs"]) auto
qed

end

section \<open>The in-memory store's invariant\<close>

definition md_ok :: "memory_dedup \<Rightarrow> bool" where
  "md_ok st \<longleftrightarrow> 0 < md_max_agents st \<and> distinct (map fst (md_windows st)) \<and>
     dom (map_of (md_windows st)) = dom (map_of (md_expires_at st)) \<and> sorted (md_expiry_heap st) \<and>
     (\<forall>a e. map_of (md_expires_at st) a = Some e \<longrightarrow> (e, a) \<in> set (md_expiry_heap st)) \<and>
     (\<forall>a w. map_of (md_windows st) a = Some w \<longrightarrow> sq_ok w \<and> max_out_of_order w = DEFAULT_MAX_OUT_OF_ORDER)"

definition md_live :: "memory_dedup \<Rightarrow> int \<Rightarrow> string set" where
  "md_live st now = {a. \<exists>e. map_of (md_expires_at st) a = Some e \<and> now < e}"

lemma md_sweep_ok:
  assumes "md_ok st"
  shows "\<exists>st'. md_sweep st now = (Inr (), st') \<and> md_ok st' \<and> md_max_agents st' = md_max_agents st \<and>
    map_of (md_windows st') = map_of (md_windows st) |` md_live st now \<and>
    map_of (md_expires_at st') = map_of (md_expires_at st) |` md_live st now"
  using assms
proof (induction st now rule: md_sweep.induct)
  case (1 st now)
  note ok = 1(3)
  have all_live: ?case if "\<And>a e. map_of (md_expires_at st) a = Some e \<Longrightarrow> now < e" "md_sweep st now = (Inr (), st)"
  proof -
    have "md_live st now = dom (map_of (md_expires_at st))" using that(1) by (auto simp: md_live_def)
    moreover have "dom (map_of (md_windows st)) = dom (map_of (md_expires_at st))" using ok by (simp add: md_ok_def)
    moreover have "m |` dom m = m" for m :: "string \<rightharpoonup> 'x" by (auto simp: restrict_map_def fun_eq_iff domIff)
    ultimately show ?thesis using that(2) ok by metis
  qed
  show ?case
  proof (cases "md_expiry_heap st")
    case Nil
    then show ?thesis using ok by (intro all_live) (auto simp: md_ok_def md_sweep.simps[of st])
  next
    case (Cons x rest)
    obtain e0 a0 where x: "x = (e0, a0)" by (cases x)
    show ?thesis
    proof (cases "e0 \<le> now")
      case False
      have "now < e" if "map_of (md_expires_at st) a = Some e" for a e
      proof -
        have "(e, a) \<in> set (md_expiry_heap st)" "sorted (md_expiry_heap st)" using ok that by (auto simp: md_ok_def)
        then have "e0 \<le> e" using Cons x by (auto simp: less_eq_prod_def)
        then show ?thesis using False by simp
      qed
      then show ?thesis using Cons x False by (intro all_live) (auto simp: md_sweep.simps[of st])
    next
      case due: True
      let ?st1 = "st\<lparr>md_expiry_heap := rest\<rparr>"
      let ?st2 = "?st1\<lparr>md_windows := AList.delete a0 (md_windows st), md_expires_at := AList.delete a0 (md_expires_at st)\<rparr>"
      show ?thesis
      proof (cases "map_of (md_expires_at st) a0 = Some e0")
        case True
        then have w: "map_of (md_windows st) a0 \<noteq> None" using ok unfolding md_ok_def by (metis domI domIff)
        have "md_ok ?st2"
          using ok Cons x by (auto simp: md_ok_def distinct_delete delete_conv' dom_if split: if_splits)
        then have "\<exists>st'. md_sweep ?st2 now = (Inr (), st') \<and> md_ok st' \<and> md_max_agents st' = md_max_agents ?st2 \<and>
            map_of (md_windows st') = map_of (md_windows ?st2) |` md_live ?st2 now \<and>
            map_of (md_expires_at st') = map_of (md_expires_at ?st2) |` md_live ?st2 now"
          using 1(1)[OF Cons x[symmetric] _ refl] due True w by simp
        moreover have "md_live st now = md_live ?st2 now"
          using True due by (auto simp: md_live_def delete_conv')
        moreover have "a0 \<notin> md_live st now" using True due by (simp add: md_live_def)
        ultimately show ?thesis
          using Cons x due True w by (auto simp: md_sweep.simps[of st] delete_conv')
      next
        case False
        have "md_ok ?st1" using ok Cons x False by (auto simp: md_ok_def)
        then have "\<exists>st'. md_sweep ?st1 now = (Inr (), st') \<and> md_ok st' \<and> md_max_agents st' = md_max_agents ?st1 \<and>
            map_of (md_windows st') = map_of (md_windows ?st1) |` md_live ?st1 now \<and>
            map_of (md_expires_at st') = map_of (md_expires_at ?st1) |` md_live ?st1 now"
          using 1(2)[OF Cons x[symmetric] _ refl] due False by simp
        then show ?thesis using Cons x due False by (auto simp: md_sweep.simps[of st] md_live_def)
      qed
    qed
  qed
qed

lemma map_of_move_to_end [simp]: "map_of (move_to_end k v al) = (map_of al)(k \<mapsto> v)"
  by (auto simp: move_to_end_def map_add_def delete_conv' fun_eq_iff split: option.split)

lemma distinct_move_to_end: "distinct (map fst al) \<Longrightarrow> distinct (map fst (move_to_end k v al))"
  by (auto simp: move_to_end_def distinct_delete delete_keys distinct_removeAll)

lemma md_touch_simps [simp]:
  "md_windows (md_touch_expiry st now a ttl) = md_windows st"
  "md_max_agents (md_touch_expiry st now a ttl) = md_max_agents st"
  "map_of (md_expires_at (md_touch_expiry st now a ttl)) =
    (map_of (md_expires_at st))(a \<mapsto> (case map_of (md_expires_at st) a of None \<Rightarrow> now + ttl | Some c \<Rightarrow> max (now + ttl) c))"
  by (auto simp: md_touch_expiry_def Let_def fun_eq_iff update_conv' split: option.splits)

lemma md_touch_ok:
  assumes "0 < md_max_agents st" "distinct (map fst (md_windows st))" "sorted (md_expiry_heap st)"
    "dom (map_of (md_windows st)) = insert a (dom (map_of (md_expires_at st)))"
    "\<forall>a e. map_of (md_expires_at st) a = Some e \<longrightarrow> (e, a) \<in> set (md_expiry_heap st)"
    "\<forall>a w. map_of (md_windows st) a = Some w \<longrightarrow> sq_ok w \<and> max_out_of_order w = DEFAULT_MAX_OUT_OF_ORDER"
  shows "md_ok (md_touch_expiry st now a ttl)"
proof -
  have "sorted (md_expiry_heap (md_touch_expiry st now a ttl))"
    using assms(3) by (simp add: md_touch_expiry_def Let_def sorted_insort)
  moreover have "(e, b) \<in> set (md_expiry_heap (md_touch_expiry st now a ttl))"
    if "map_of (md_expires_at (md_touch_expiry st now a ttl)) b = Some e" for b e
    using assms(5) that by (auto simp: md_touch_expiry_def Let_def set_insort_key update_conv' split: option.splits if_splits)
  ultimately show ?thesis using assms(1,2,4,6) unfolding md_ok_def by simp
qed

section \<open>The store tracks the accepted claims\<close>

definition md_tracks :: "int \<Rightarrow> claim_mark list \<Rightarrow> memory_dedup \<Rightarrow> int \<Rightarrow> bool" where
  "md_tracks m h st t \<longleftrightarrow> md_ok st \<and> md_max_agents st = m \<and> dom (map_of (md_windows st)) \<subseteq> fst ` set h \<and>
     (\<forall>a w. map_of (md_windows st) a = Some w \<longrightarrow> sq_seen w \<subseteq> marked h a) \<and>
     (within_caps m h \<longrightarrow> (\<forall>a s d. (a, s, d) \<in> set h \<and> t < d \<longrightarrow>
        (\<exists>w e. map_of (md_windows st) a = Some w \<and> s \<in> sq_seen w \<and> map_of (md_expires_at st) a = Some e \<and> d \<le> e)))"

lemma md_tracksD:
  assumes "md_tracks m h st t"
  shows "md_ok st" "md_max_agents st = m" "dom (map_of (md_windows st)) \<subseteq> fst ` set h"
    "map_of (md_windows st) a = Some w \<Longrightarrow> sq_seen w \<subseteq> marked h a"
    "map_of (md_windows st) a = Some w \<Longrightarrow> sq_ok w \<and> max_out_of_order w = DEFAULT_MAX_OUT_OF_ORDER"
    "within_caps m h \<Longrightarrow> (a, s, d) \<in> set h \<Longrightarrow> t < d \<Longrightarrow>
       \<exists>w e. map_of (md_windows st) a = Some w \<and> s \<in> sq_seen w \<and> map_of (md_expires_at st) a = Some e \<and> d \<le> e"
  using assms unfolding md_tracks_def md_ok_def by blast+

lemma finite_marked [simp]: "finite (marked h a)"
proof -
  have "marked h a \<subseteq> (\<lambda>(a, s, d). s) ` set h" by (force simp: marked_def)
  then show ?thesis by (rule finite_subset) simp
qed

lemma marked_snoc: "marked (h @ [(a, s, d)]) b = (if b = a then insert s (marked h a) else marked h b)"
  by (auto simp: marked_def)

lemma within_caps_prefix:
  assumes "within_caps m (h @ [x])"
  shows "within_caps m h"
proof -
  have "card (fst ` set h) \<le> card (fst ` set (h @ [x]))" by (rule card_mono) auto
  moreover have "card (marked h a) \<le> card (marked (h @ [x]) a)" for a
    by (rule card_mono[OF finite_marked]) (auto simp: marked_def)
  ultimately show ?thesis using assms unfolding within_caps_def by (meson of_nat_mono order_trans)
qed

lemma md_tracks_sweep:
  assumes tr: "md_tracks m h st t" and le: "t \<le> now"
  shows "\<exists>st'. md_sweep st now = (Inr (), st') \<and> md_tracks m h st' now"
proof -
  obtain st' where st': "md_sweep st now = (Inr (), st')" "md_ok st'" "md_max_agents st' = md_max_agents st"
    "map_of (md_windows st') = map_of (md_windows st) |` md_live st now"
    "map_of (md_expires_at st') = map_of (md_expires_at st) |` md_live st now"
    using md_sweep_ok[OF md_tracksD(1)[OF tr]] by blast
  have "\<exists>w e. map_of (md_windows st') a = Some w \<and> s \<in> sq_seen w \<and> map_of (md_expires_at st') a = Some e \<and> d \<le> e"
    if c: "within_caps m h" and x: "(a, s, d) \<in> set h" and d: "now < d" for a s d
  proof -
    have "t < d" using le d by simp
    from md_tracksD(6)[OF tr c x this] obtain w e where
      "map_of (md_windows st) a = Some w" "s \<in> sq_seen w" "map_of (md_expires_at st) a = Some e" "d \<le> e" by blast
    moreover from this d have "a \<in> md_live st now" by (auto simp: md_live_def)
    ultimately show ?thesis using st'(4,5) by simp
  qed
  moreover have "dom (map_of (md_windows st')) \<subseteq> fst ` set h" using md_tracksD(3)[OF tr] st'(4) by auto
  moreover have "sq_seen w \<subseteq> marked h a" if "map_of (md_windows st') a = Some w" for a w
  proof -
    have "map_of (md_windows st) a = Some w" using that st'(4) by (auto simp: restrict_map_def split: if_splits)
    then show ?thesis by (rule md_tracksD(4)[OF tr])
  qed
  ultimately show ?thesis using st' md_tracksD(2)[OF tr] unfolding md_tracks_def by auto
qed

lemma md_tracks_cong:
  assumes "md_tracks m h st t" "map_of (md_windows st') = map_of (md_windows st)" "distinct (map fst (md_windows st'))"
    "md_expires_at st' = md_expires_at st" "md_expiry_heap st' = md_expiry_heap st" "md_max_agents st' = md_max_agents st"
  shows "md_tracks m h st' t"
  using assms(1,3) unfolding md_tracks_def md_ok_def assms(2,4,5,6) by blast

lemma md_tracks_reorder:
  assumes "md_tracks m h st t" "map_of (md_windows st) a = Some w"
  shows "md_tracks m h (st\<lparr>md_windows := move_to_end a w (md_windows st)\<rparr>) t"
proof -
  have "distinct (map fst (md_windows st))" using md_tracksD(1)[OF assms(1)] by (simp add: md_ok_def)
  then show ?thesis
    using map_upd_triv[of "map_of (md_windows st)", OF assms(2)]
    by (intro md_tracks_cong[OF assms(1)]) (simp_all add: distinct_move_to_end)
qed

lemma md_has_seen_ok:
  assumes tr: "md_tracks m h st t" and le: "t \<le> now" and s: "0 \<le> s"
  shows "\<exists>b st'. md_has_seen st now a s = (Inr b, st') \<and> md_tracks m h st' now \<and> (b \<longrightarrow> s \<in> marked h a) \<and>
    ((\<exists>d. (a, s, d) \<in> set h \<and> now < d) \<and> within_caps m h \<longrightarrow> b)"
proof -
  obtain st1 where st1: "md_sweep st now = (Inr (), st1)" "md_tracks m h st1 now" using md_tracks_sweep[OF tr le] by blast
  show ?thesis
  proof (cases "map_of (md_windows st1) a")
    case None
    then have "md_has_seen st now a s = (Inr False, st1)" using st1(1) by (simp add: md_has_seen_def)
    moreover have False if "(a, s, d) \<in> set h" "now < d" "within_caps m h" for d
      using md_tracksD(6)[OF st1(2) that(3,1,2)] None by simp
    ultimately show ?thesis using st1(2) by blast
  next
    case (Some w)
    let ?st = "st1\<lparr>md_windows := move_to_end a w (md_windows st1)\<rparr>"
    have "sq_contains w s \<longleftrightarrow> s \<in> sq_seen w" using md_tracksD(5)[OF st1(2) Some] sq_contains_seen s by blast
    moreover have "md_has_seen st now a s = (Inr (sq_contains w s), ?st)" using st1(1) Some by (simp add: md_has_seen_def)
    moreover have "s \<in> sq_seen w" if "(a, s, d) \<in> set h" "now < d" "within_caps m h" for d
      using md_tracksD(6)[OF st1(2) that(3,1,2)] Some by simp
    ultimately show ?thesis
      using md_tracks_reorder[OF st1(2) Some] md_tracksD(4)[OF st1(2) Some] by blast
  qed
qed

text \<open>Recording a claim on a window \<open>w\<close> that is then put back, whatever was evicted to make room.\<close>

lemma md_tracks_mark:
  assumes tr: "md_tracks m h st now" and s: "0 \<le> s"
    and w: "map_of (md_windows st) a = Some w \<or> (map_of (md_windows st) a = None \<and> w = mk_sequence_window)"
    and ws: "distinct (map fst ws)" "map_of ws = (\<lambda>b. if b = a then Some (sq_add w s) else if b \<in> E then None else map_of (md_windows st) b)"
    and es: "map_of es = (\<lambda>b. if b \<noteq> a \<and> b \<in> E then None else map_of (md_expires_at st) b)"
    and E: "within_caps m (h @ [(a, s, now + ttl)]) \<Longrightarrow> E = {}"
  shows "md_tracks m (h @ [(a, s, now + ttl)]) (md_touch_expiry (st\<lparr>md_windows := ws, md_expires_at := es\<rparr>) now a ttl) now"
    (is "md_tracks m ?h (md_touch_expiry ?st now a ttl) now")
proof -
  have wok: "sq_ok w" "max_out_of_order w = DEFAULT_MAX_OUT_OF_ORDER"
    using w md_tracksD(5)[OF tr] sq_new_ok by (auto simp: mk_sequence_window_def)
  have sub: "sq_seen w \<subseteq> marked h a" using w md_tracksD(4)[OF tr] sq_new_ok by auto
  note add = sq_add_ok[OF wok(1) s]
  note ok = md_tracksD(1)[OF tr, unfolded md_ok_def]
  have "md_ok (md_touch_expiry ?st now a ttl)"
  proof (rule md_touch_ok)
    show "dom (map_of (md_windows ?st)) = insert a (dom (map_of (md_expires_at ?st)))"
    proof -
      have "(\<exists>y. map_of (md_windows st) b = Some y) \<longleftrightarrow> (\<exists>y. map_of (md_expires_at st) b = Some y)" for b
        using ok[THEN conjunct2, THEN conjunct2, THEN conjunct1] unfolding dom_def set_eq_iff by simp
      then show ?thesis using ws(2) es by (auto simp: dom_def)
    qed
    show "\<forall>b x. map_of (md_windows ?st) b = Some x \<longrightarrow> sq_ok x \<and> max_out_of_order x = DEFAULT_MAX_OUT_OF_ORDER"
      using ws(2) add wok md_tracksD(5)[OF tr] by simp
  qed (use ok ws es in simp_all)
  moreover have "dom (map_of ws) \<subseteq> insert a (dom (map_of (md_windows st)))" unfolding ws(2) by (auto split: if_splits)
  then have "dom (map_of ws) \<subseteq> fst ` set ?h" using md_tracksD(3)[OF tr] by fastforce
  moreover have "sq_seen x \<subseteq> marked ?h b" if "map_of ws b = Some x" for b x
  proof (cases "b = a")
    case True
    then have "x = sq_add w s" using that ws(2) by simp
    then have "sq_seen x \<subseteq> insert s (sq_seen w)" using add by simp
    also have "\<dots> \<subseteq> insert s (marked h a)" using sub by blast
    finally show ?thesis using True by (simp add: marked_snoc)
  next
    case False
    then have "map_of (md_windows st) b = Some x" using that ws(2) by (simp split: if_splits)
    then show ?thesis using md_tracksD(4)[OF tr] False by (simp add: marked_snoc)
  qed
  moreover have "\<exists>x e. map_of ws b = Some x \<and> r \<in> sq_seen x \<and>
      map_of (md_expires_at (md_touch_expiry ?st now a ttl)) b = Some e \<and> d \<le> e"
    if caps: "within_caps m ?h" and x: "(b, r, d) \<in> set ?h" "now < d" for b r d
  proof -
    have "card (insert s (sq_seen w)) \<le> card (marked ?h a)" using sub by (intro card_mono) (auto simp: marked_snoc)
    also have "int (card (marked ?h a)) \<le> max_out_of_order w" using caps wok(2) by (simp add: within_caps_def)
    finally have seen: "sq_seen (sq_add w s) = insert s (sq_seen w)" using add by simp
    have old: "\<exists>w' e. map_of (md_windows st) b = Some w' \<and> r \<in> sq_seen w' \<and> map_of (md_expires_at st) b = Some e \<and> d \<le> e"
      if "(b, r, d) \<in> set h" using md_tracksD(6)[OF tr within_caps_prefix[OF caps] that x(2)] .
    show ?thesis
    proof (cases "b = a")
      case True
      have "r \<in> insert s (sq_seen w)" using old x(1) w True by force
      moreover have "d \<le> (case map_of (md_expires_at st) a of None \<Rightarrow> now + ttl | Some c \<Rightarrow> max (now + ttl) c)"
        using old x(1) True by (cases "(b, r, d) \<in> set h") (force split: option.split)+
      ultimately show ?thesis using True ws(2) es seen by simp
    next
      case False
      then have "(b, r, d) \<in> set h" using x(1) by simp
      from old[OF this] show ?thesis using False E[OF caps] ws(2) es by simp
    qed
  qed
  ultimately show ?thesis using md_tracksD(2)[OF tr] unfolding md_tracks_def by simp
qed

lemma md_mark_seen_ok:
  assumes tr: "md_tracks m h st0 t" and le: "t \<le> now" and s: "0 \<le> s"
  shows "\<exists>st'. md_mark_seen st0 now a s ttl = (Inr (), st') \<and> md_tracks m (h @ [(a, s, now + ttl)]) st' now"
proof -
  obtain st where st: "md_sweep st0 now = (Inr (), st)" "md_tracks m h st now" using md_tracks_sweep[OF tr le] by blast
  note ok = md_tracksD(1)[OF st(2), unfolded md_ok_def]
  show ?thesis
  proof (cases "map_of (md_windows st) a")
    case (Some w)
    let ?ws = "move_to_end a (sq_add w s) (md_windows st)"
    have "md_tracks m (h @ [(a, s, now + ttl)]) (md_touch_expiry (st\<lparr>md_windows := ?ws, md_expires_at := md_expires_at st\<rparr>) now a ttl) now"
      by (rule md_tracks_mark[where w = w and E = "{}", OF st(2) s]) (use Some ok in \<open>auto simp: distinct_move_to_end\<close>)
    then show ?thesis using st(1) Some by (simp add: md_mark_seen_def)
  next
    case None
    let ?w = "sq_add mk_sequence_window s"
    have a: "a \<notin> fst ` set (md_windows st)" using None by (simp add: map_of_eq_None_iff)
    show ?thesis
    proof (cases "int (length (md_windows st)) < md_max_agents st")
      case True
      let ?ws = "md_windows st @ [(a, ?w)]"
      have "md_tracks m (h @ [(a, s, now + ttl)]) (md_touch_expiry (st\<lparr>md_windows := ?ws, md_expires_at := md_expires_at st\<rparr>) now a ttl) now"
        by (rule md_tracks_mark[where w = mk_sequence_window and E = "{}", OF st(2) s])
          (use None ok a in \<open>auto simp: map_add_def fun_eq_iff split: option.split\<close>)
      then show ?thesis using st(1) None True by (simp add: md_mark_seen_def md_evict_if_full_def)
    next
      case full: False
      then obtain v x rest where ws: "md_windows st = (v, x) # rest"
        using ok by (cases "md_windows st") auto
      let ?ws = "rest @ [(a, ?w)]" and ?es = "AList.delete v (md_expires_at st)"
      have v: "v \<noteq> a" "v \<notin> fst ` set rest" "map_of rest v = None" using a ok ws by (auto simp: map_of_eq_None_iff)
      have "md_tracks m (h @ [(a, s, now + ttl)]) (md_touch_expiry (st\<lparr>md_windows := ?ws, md_expires_at := ?es\<rparr>) now a ttl) now"
      proof (rule md_tracks_mark[where w = mk_sequence_window and E = "{v}", OF st(2) s])
        show "distinct (map fst ?ws)" using ok a ws by auto
        show "map_of ?ws = (\<lambda>b. if b = a then Some ?w else if b \<in> {v} then None else map_of (md_windows st) b)"
          using None v by (auto simp: ws map_add_def fun_eq_iff split: option.split if_splits)
        show "map_of ?es = (\<lambda>b. if b \<noteq> a \<and> b \<in> {v} then None else map_of (md_expires_at st) b)"
          using v by (auto simp: delete_conv' fun_eq_iff)
        assume "within_caps m (h @ [(a, s, now + ttl)])"
        then have "int (card (insert a (fst ` set h))) \<le> md_max_agents st" using md_tracksD(2)[OF st(2)] by (simp add: within_caps_def)
        moreover have "insert a (fst ` set (md_windows st)) \<subseteq> insert a (fst ` set h)"
          using md_tracksD(3)[OF st(2)] by (auto simp: dom_map_of_conv_image_fst)
        then have "card (insert a (fst ` set (md_windows st))) \<le> card (insert a (fst ` set h))" by (intro card_mono) auto
        moreover have "card (insert a (fst ` set (md_windows st))) = Suc (length (md_windows st))"
          using a ok distinct_card[of "map fst (md_windows st)"] by simp
        ultimately show "{v} = {}" using full by simp
      qed (use None in simp)
      moreover have "st\<lparr>md_windows := ?ws, md_expires_at := ?es\<rparr> = st\<lparr>md_expires_at := ?es, md_windows := ?ws\<rparr>" by simp
      ultimately show ?thesis using st(1) None full ws by (simp add: md_mark_seen_def md_evict_if_full_def)
    qed
  qed
qed

lemma md_claim_law:
  assumes tr: "md_tracks m h st t" and le: "t \<le> now" and s: "0 \<le> s"
  shows "\<exists>b st'. md_claim st now a s ttl = (Inr b, st') \<and>
      md_tracks m (if b then h @ [(a, s, now + ttl)] else h) st' now \<and> (\<not> b \<longrightarrow> s \<in> marked h a) \<and>
      ((\<exists>d. (a, s, d) \<in> set h \<and> now < d) \<and> within_caps m (h @ [(a, s, now + ttl)]) \<longrightarrow> \<not> b)"
proof -
  obtain seen st1 where st1: "md_has_seen st now a s = (Inr seen, st1)" "md_tracks m h st1 now" "seen \<longrightarrow> s \<in> marked h a"
    "(\<exists>d. (a, s, d) \<in> set h \<and> now < d) \<and> within_caps m h \<longrightarrow> seen"
    using md_has_seen_ok[OF tr le s] by blast
  show ?thesis
  proof (cases seen)
    case True
    then show ?thesis using st1 by (intro exI[of _ False] exI[of _ st1]) (simp add: md_claim_def)
  next
    case False
    obtain st2 where "md_mark_seen st1 now a s ttl = (Inr (), st2)" "md_tracks m (h @ [(a, s, now + ttl)]) st2 now"
      using md_mark_seen_ok[OF st1(2) order_refl s] by blast
    then show ?thesis
      using st1 False within_caps_prefix by (intro exI[of _ True] exI[of _ st2]) (auto simp: md_claim_def)
  qed
qed

interpretation md: dedup_store md_claim "md_tracks m" m for m
  by unfold_locales (rule md_claim_law)

lemma md_tracks_new: "mk_memory_dedup m = Inr st \<Longrightarrow> md_tracks m [] st t"
  by (auto simp: mk_memory_dedup_def md_tracks_def md_ok_def split: if_splits)

section \<open>Properties\<close>

text \<open>C35: The in-memory dedup store gives each pair of agent and sequence to at most one claimant while it
  must, and never turns away a pair it has not seen: for any time-ordered run of claims no call fails,
  a refused pair was accepted earlier, and a pair accepted earlier is refused again until its retention
  has passed, whenever the run so far stays within the bounds on agents and on sequences per agent.\<close>

theorem dedup_claims_allowed:
  assumes "mk_memory_dedup m = Inr st" "sorted (map fst reqs)" "\<forall>(now, a, s, ttl) \<in> set reqs. 0 \<le> s"
  shows "\<exists>bs. claim_run md_claim st reqs = map Inr bs \<and> claims_allowed m [] reqs bs"
proof (cases reqs)
  case Nil
  then show ?thesis by (intro exI[of _ "[]"]) simp
next
  case (Cons r rs)
  then have "sorted (fst r # map fst reqs)" using assms(2) by auto
  from md.claim_run_allowed[OF md_tracks_new[OF assms(1)] this assms(3)] show ?thesis .
qed

theorem dedup_claims_allowed_witness:
  "\<exists>bs. claim_run md_claim \<lparr>md_max_agents = 2, md_windows = [], md_expires_at = [], md_expiry_heap = []\<rparr>
      [(100, ''a'', 0, 60), (110, ''a'', 5, 60), (150, ''a'', 0, 60)] = map Inr bs \<and>
    claims_allowed 2 [] [(100, ''a'', 0, 60), (110, ''a'', 5, 60), (150, ''a'', 0, 60)] bs"
  using dedup_claims_allowed[of 2 "\<lparr>md_max_agents = 2, md_windows = [], md_expires_at = [], md_expiry_heap = []\<rparr>"
      "[(100, ''a'', 0, 60), (110, ''a'', 5, 60), (150, ''a'', 0, 60)]"]
  by (simp add: mk_memory_dedup_def)

text \<open>A sequence window never claims to have seen a sequence it was not given, holds at most
  \<open>max_out_of_order\<close> sequences ahead of a gap, and, as long as no more sequences than that were recorded,
  has seen exactly those recorded, in whatever order they came.\<close>

theorem sequence_window_exact:
  assumes "\<forall>s \<in> set ss. 0 \<le> s" "0 \<le> r"
  shows "(sq_contains (fold (\<lambda>s w. sq_add w s) ss mk_sequence_window) r \<longrightarrow> r \<in> set ss) \<and>
    sq_out_of_order_count (fold (\<lambda>s w. sq_add w s) ss mk_sequence_window) \<le> DEFAULT_MAX_OUT_OF_ORDER \<and>
    (int (card (set ss)) \<le> DEFAULT_MAX_OUT_OF_ORDER \<longrightarrow>
      (sq_contains (fold (\<lambda>s w. sq_add w s) ss mk_sequence_window) r \<longleftrightarrow> r \<in> set ss))"
proof -
  let ?w = "\<lambda>ss. fold (\<lambda>s w. sq_add w s) ss mk_sequence_window"
  have "sq_ok (?w ss) \<and> max_out_of_order (?w ss) = DEFAULT_MAX_OUT_OF_ORDER \<and> sq_seen (?w ss) \<subseteq> set ss \<and>
      (int (card (set ss)) \<le> DEFAULT_MAX_OUT_OF_ORDER \<longrightarrow> sq_seen (?w ss) = set ss)"
    using assms(1)
  proof (induction ss rule: rev_induct)
    case Nil
    then show ?case using sq_new_ok by (simp add: mk_sequence_window_def)
  next
    case (snoc s ss)
    then have IH: "sq_ok (?w ss)" "max_out_of_order (?w ss) = DEFAULT_MAX_OUT_OF_ORDER" "sq_seen (?w ss) \<subseteq> set ss"
      "int (card (set ss)) \<le> DEFAULT_MAX_OUT_OF_ORDER \<longrightarrow> sq_seen (?w ss) = set ss" and s: "0 \<le> s" by simp_all
    have "card (set ss) \<le> card (set (ss @ [s]))" by (rule card_mono) auto
    then show ?case using sq_add_ok[OF IH(1) s] IH(2-4) by auto
  qed
  then show ?thesis
    using sq_contains_seen[of "?w ss" r] assms(2) by (auto simp: sq_out_of_order_count_def sq_ok_def DEFAULT_MAX_OUT_OF_ORDER_def)
qed

theorem sequence_window_exact_witness:
  "sq_contains (fold (\<lambda>s w. sq_add w s) [3, 0, 1, 7] mk_sequence_window) 3 \<and>
   \<not> sq_contains (fold (\<lambda>s w. sq_add w s) [3, 0, 1, 7] mk_sequence_window) 2"
proof -
  have "int (card (set [3, 0, 1, 7 :: int])) \<le> DEFAULT_MAX_OUT_OF_ORDER" by (simp add: DEFAULT_MAX_OUT_OF_ORDER_def)
  then show ?thesis
    using sequence_window_exact[of "[3, 0, 1, 7]" 3] sequence_window_exact[of "[3, 0, 1, 7]" 2] by simp
qed

end
