(* ===== verification/Bus_Topics.thy ===== *)
theory Bus_Topics
  imports Hammertime_Prelude "HOL-Library.Word"
begin

text \<open>
  The topic registry of \<open>hammertime.bus.topics\<close>: which partition a key goes to, and the subject a
  partition is stored under. A key is the list of its UTF-8 bytes, written as characters; topic names
  and subjects are ASCII text. Retention, description and the key selectors' choice of field are
  static data or live with the events.
\<close>

section \<open>Decimal text\<close>

text \<open>Python's \<open>str\<close> and \<open>int\<close> on non-negative integers, digits only.\<close>

definition digit_char :: "nat \<Rightarrow> char" where
  "digit_char d = char_of (48 + d)"

definition char_digit :: "char \<Rightarrow> nat" where
  "char_digit c = of_char c - 48"

definition is_digit :: "char \<Rightarrow> bool" where
  "is_digit c \<longleftrightarrow> 48 \<le> (of_char c :: nat) \<and> (of_char c :: nat) \<le> 57"

fun decimal :: "nat \<Rightarrow> string" where
  "decimal n = (if n < 10 then [digit_char n] else decimal (n div 10) @ [digit_char (n mod 10)])"

declare decimal.simps [simp del]

definition undecimal :: "string \<Rightarrow> nat" where
  "undecimal s = foldl (\<lambda>n c. 10 * n + char_digit c) 0 s"

lemma digit_char_simps [simp]:
  "d < 10 \<Longrightarrow> char_digit (digit_char d) = d" "d < 10 \<Longrightarrow> is_digit (digit_char d)"
  by (simp_all add: digit_char_def char_digit_def is_digit_def of_char_of)

lemma undecimal_decimal [simp]: "undecimal (decimal n) = n"
proof (induction n rule: decimal.induct)
  case (1 n)
  show ?case
  proof (cases "n < 10")
    case True
    then show ?thesis by (simp add: decimal.simps[of n] undecimal_def)
  next
    case False
    with 1 have "undecimal (decimal (n div 10)) = n div 10" by blast
    then show ?thesis using False by (simp add: decimal.simps[of n] undecimal_def)
  qed
qed

lemma decimal_digits: "list_all is_digit (decimal n)" "decimal n \<noteq> []"
  by (induction n rule: decimal.induct; subst decimal.simps; simp)+

lemma dot_not_digit: "\<not> is_digit CHR ''.''"
  by (simp add: is_digit_def)

section \<open>The partition hash\<close>

definition FNV1A_32_OFFSET_BASIS :: int where "FNV1A_32_OFFSET_BASIS = 2166136261"
definition FNV1A_32_PRIME :: int where "FNV1A_32_PRIME = 16777619"
definition UINT32_MASK :: int where "UINT32_MASK = 4294967295"

definition fnv_step :: "int \<Rightarrow> char \<Rightarrow> int" where
  "fnv_step digest b = ((digest XOR of_char b) * FNV1A_32_PRIME) AND UINT32_MASK"

definition partition_for :: "string \<Rightarrow> int \<Rightarrow> int result" where
  "partition_for key partitions =
     (if partitions < 1 then Inl ValueError
      else Inr (foldl fnv_step FNV1A_32_OFFSET_BASIS key mod partitions))"

text \<open>The reference: FNV-1a on 32-bit words, which wrap around by themselves.\<close>

definition fnv1a_32 :: "string \<Rightarrow> 32 word" where
  "fnv1a_32 key = foldl (\<lambda>h b. (h XOR of_char b) * 16777619) 2166136261 key"

lemma uint_of_char: "uint (of_char b :: 32 word) = of_char b"
proof -
  have "(of_char b :: nat) < 256" by simp
  also have "(256 :: nat) < 2 ^ 32" by simp
  finally have "take_bit 32 (of_char b) = (of_char b :: nat)" by (rule take_bit_nat_eq_self)
  moreover have "(of_char b :: 32 word) = word_of_nat (of_char b)" "int (of_char b) = of_char b"
    by (simp_all only: of_nat_of_char)
  ultimately show ?thesis by (simp add: unsigned_of_nat)
qed

lemma fnv_step_word: "fnv_step (uint h) b = uint ((h XOR of_char b) * 16777619 :: 32 word)"
proof -
  have "UINT32_MASK = mask 32" by (simp add: UINT32_MASK_def mask_eq_exp_minus_1)
  then have "fnv_step (uint h) b = take_bit 32 ((uint h XOR of_char b) * 16777619)"
    unfolding fnv_step_def take_bit_eq_mask by (simp add: FNV1A_32_PRIME_def)
  then show ?thesis by (simp add: uint_word_ariths uint_xor uint_of_char take_bit_eq_mod)
qed

lemma fnv_fold_word:
  "foldl fnv_step (uint h) key = uint (foldl (\<lambda>h b. (h XOR of_char b) * 16777619) h key :: 32 word)"
  by (induction key arbitrary: h) (simp_all add: fnv_step_word)

section \<open>Topics\<close>

record topic_spec =
  ts_name :: string
  ts_partitions :: int
  ts_retention_seconds :: int

definition ONE_DAY_SECONDS :: int where "ONE_DAY_SECONDS = 24 * 60 * 60"

definition OBSERVATIONS :: topic_spec where
  "OBSERVATIONS = \<lparr>ts_name = ''hammertime.observations.v1'', ts_partitions = 128, ts_retention_seconds = ONE_DAY_SECONDS\<rparr>"

definition OBSERVATIONS_RECONCILIATION :: topic_spec where
  "OBSERVATIONS_RECONCILIATION = \<lparr>ts_name = ''hammertime.observations-reconciliation.v1'', ts_partitions = 8,
     ts_retention_seconds = 7 * ONE_DAY_SECONDS\<rparr>"

definition HOT_IP :: topic_spec where
  "HOT_IP = \<lparr>ts_name = ''hammertime.hot-ip.v1'', ts_partitions = 32, ts_retention_seconds = 30 * ONE_DAY_SECONDS\<rparr>"

definition PREFIX_STATS :: topic_spec where
  "PREFIX_STATS = \<lparr>ts_name = ''hammertime.prefix-stats.v1'', ts_partitions = 4, ts_retention_seconds = ONE_DAY_SECONDS\<rparr>"

definition all_topics :: "topic_spec list" where
  "all_topics = [OBSERVATIONS, OBSERVATIONS_RECONCILIATION, HOT_IP, PREFIX_STATS]"

definition TOPICS :: "string \<Rightarrow> topic_spec result" where
  "TOPICS name = (case map_of (map (\<lambda>t. (ts_name t, t)) all_topics) name of None \<Rightarrow> Inl KeyError | Some t \<Rightarrow> Inr t)"

definition stream_name :: "topic_spec \<Rightarrow> string" where
  "stream_name t = map (\<lambda>c. if c = CHR ''.'' then CHR ''-'' else c) (ts_name t)"

definition topic_subject :: "topic_spec \<Rightarrow> int \<Rightarrow> string result" where
  "topic_subject t p =
     (if p < 0 then Inl ValueError else Inr (ts_name t @ ''.'' @ decimal (nat p)))"

text \<open>\<open>str.rpartition\<close> at a separator: what is before the last one and what is after it.\<close>

definition rpartition :: "char \<Rightarrow> string \<Rightarrow> (string \<times> string) option" where
  "rpartition sep s =
     (if sep \<in> set s
      then Some (rev (tl (dropWhile (\<lambda>c. c \<noteq> sep) (rev s))), rev (takeWhile (\<lambda>c. c \<noteq> sep) (rev s)))
      else None)"

definition partition_of :: "topic_spec \<Rightarrow> string \<Rightarrow> int option" where
  "partition_of t subject =
     (case rpartition CHR ''.'' subject of
        None \<Rightarrow> None
      | Some (prefix, token) \<Rightarrow>
          if prefix \<noteq> ts_name t \<or> \<not> (token \<noteq> [] \<and> list_all is_digit token) then None
          else let p = int (undecimal token)
               in if topic_subject t p = Inr subject then Some p else None)"

definition subject_filter :: "topic_spec \<Rightarrow> string" where
  "subject_filter t = ts_name t @ ''.*''"

lemma rpartition_append:
  assumes "sep \<notin> set token"
  shows "rpartition sep (prefix @ sep # token) = Some (prefix, token)"
  using assms by (simp add: rpartition_def dropWhile_append takeWhile_append)

lemma rpartition_Some: "rpartition sep s = Some (prefix, token) \<Longrightarrow> s = prefix @ sep # token"
proof -
  assume a: "rpartition sep s = Some (prefix, token)"
  then have "sep \<in> set (rev s)" by (simp add: rpartition_def split: if_splits)
  then obtain xs ys where "rev s = xs @ sep # ys" "sep \<notin> set xs" by (metis split_list_first)
  then have "s = rev ys @ sep # rev xs" "sep \<notin> set (rev xs)" by (simp_all add: rev_swap)
  with a rpartition_append show ?thesis by fastforce
qed

section \<open>Properties\<close>

text \<open>C38: The partition of a key is the 32-bit FNV-1a hash of its bytes modulo the partition count, the
  masked Python integer never differing from 32-bit wrap-around, and it is always one of the topic's
  partitions; only a count below one is refused.\<close>

theorem partition_for_fnv1a:
  "partition_for key partitions =
     (if partitions < 1 then Inl ValueError else Inr (uint (fnv1a_32 key) mod partitions)) \<and>
   (\<forall>p. partition_for key partitions = Inr p \<longrightarrow> 0 \<le> p \<and> p < partitions)"
proof -
  have "FNV1A_32_OFFSET_BASIS = uint (2166136261 :: 32 word)" by (simp add: FNV1A_32_OFFSET_BASIS_def)
  then have "foldl fnv_step FNV1A_32_OFFSET_BASIS key = uint (fnv1a_32 key)"
    using fnv_fold_word[of 2166136261 key] unfolding fnv1a_32_def by presburger
  then show ?thesis by (auto simp: partition_for_def)
qed

text \<open>Its bounds at a concrete key.\<close>

theorem partition_for_fnv1a_witness:
  "\<exists>p. partition_for ''10.0.0.1'' (ts_partitions OBSERVATIONS) = Inr p \<and> 0 \<le> p \<and> p < 128"
  using partition_for_fnv1a[of "''10.0.0.1''" 128] by (simp add: OBSERVATIONS_def)

text \<open>A subject names its partition: \<open>partition_of\<close> undoes \<open>subject\<close> for every non-negative partition,
  and answers with a partition only for the exact text \<open>subject\<close> writes for it, so leading zeros,
  signs and other topics' subjects are refused.\<close>

theorem partition_of_subject:
  "partition_of t s = Some p \<longleftrightarrow> 0 \<le> p \<and> topic_subject t p = Inr s"
proof
  assume "partition_of t s = Some p"
  then show "0 \<le> p \<and> topic_subject t p = Inr s"
    by (auto simp: partition_of_def Let_def split: option.splits if_splits prod.splits)
next
  assume a: "0 \<le> p \<and> topic_subject t p = Inr s"
  then have s: "s = ts_name t @ CHR ''.'' # decimal (nat p)" by (auto simp: topic_subject_def split: if_splits)
  have "CHR ''.'' \<notin> set (decimal (nat p))" using decimal_digits(1)[of "nat p"] dot_not_digit by (auto simp: list_all_iff)
  then have "rpartition CHR ''.'' s = Some (ts_name t, decimal (nat p))" unfolding s by (rule rpartition_append)
  then show "partition_of t s = Some p" using a decimal_digits[of "nat p"] by (simp add: partition_of_def)
qed

end
