(* ===== verification/Memory_Bus.thy ===== *)
theory Memory_Bus
  imports Hammertime_Prelude
begin

text \<open>
  The in-process transport, \<open>hammertime.bus.memory\<close>: one append-only log per topic, deduplication by
  message id, acknowledged offsets per group, and consumers that walk the log. A \<open>defaultdict\<close> is a
  function, a set of offsets is a list. Blocking is not modelled: a read that would wait answers
  \<open>Waiting\<close>, and the caller may try again after the next publish. Keys and values are opaque.
\<close>

section \<open>The bus and its producer\<close>

record 'v log_record =
  lr_key :: "pystr option"
  lr_value :: 'v

record 'v memory_bus =
  mb_logs :: "string \<Rightarrow> 'v log_record list"
  mb_seen_ids :: "string \<Rightarrow> pystr list"
  mb_acked :: "string \<times> string \<Rightarrow> int list"

definition mb_new :: "'v memory_bus" where
  "mb_new = \<lparr>mb_logs = (\<lambda>_. []), mb_seen_ids = (\<lambda>_. []), mb_acked = (\<lambda>_. [])\<rparr>"

definition end_offset :: "'v memory_bus \<Rightarrow> string \<Rightarrow> int" where
  "end_offset b topic = int (length (mb_logs b topic))"

definition first_offset :: "'v memory_bus \<Rightarrow> string \<Rightarrow> int" where
  "first_offset b topic = 0"

definition last_value :: "'v memory_bus \<Rightarrow> string \<Rightarrow> 'v option" where
  "last_value b topic = (if mb_logs b topic = [] then None else Some (lr_value (last (mb_logs b topic))))"

definition mb_append :: "'v memory_bus \<Rightarrow> string \<Rightarrow> pystr option \<Rightarrow> 'v \<Rightarrow> pystr option \<Rightarrow> 'v memory_bus" where
  "mb_append b topic key v message_id =
     (let put = (\<lambda>b. b\<lparr>mb_logs := (mb_logs b)(topic := mb_logs b topic @ [\<lparr>lr_key = key, lr_value = v\<rparr>])\<rparr>) in
      case message_id of
        None \<Rightarrow> put b
      | Some i \<Rightarrow>
          if i \<in> set (mb_seen_ids b topic) then b
          else put (b\<lparr>mb_seen_ids := (mb_seen_ids b)(topic := i # mb_seen_ids b topic)\<rparr>))"

definition mp_publish :: "'v memory_bus \<Rightarrow> string \<Rightarrow> pystr \<Rightarrow> 'v \<Rightarrow> pystr option \<Rightarrow> 'v memory_bus" where
  "mp_publish b topic key v message_id = mb_append b topic (Some key) v message_id"

definition mb_is_acked :: "'v memory_bus \<Rightarrow> string \<Rightarrow> string \<Rightarrow> int \<Rightarrow> bool" where
  "mb_is_acked b topic grp off = (off \<in> set (mb_acked b (topic, grp)))"

definition mb_mark_acked :: "'v memory_bus \<Rightarrow> string \<Rightarrow> string \<Rightarrow> int list \<Rightarrow> 'v memory_bus" where
  "mb_mark_acked b topic grp offs =
     b\<lparr>mb_acked := (mb_acked b)((topic, grp) := List.union offs (mb_acked b (topic, grp)))\<rparr>"

section \<open>Consumers\<close>

record 'v consumed_message =
  cm_topic :: string
  cm_partition :: int
  cm_offset :: int
  cm_key :: "pystr option"
  cm_value :: 'v
  cm_delivery_count :: int

record memory_consumer =
  mc_group_id :: string
  mc_subscribed :: bool
  mc_closed :: bool
  mc_topic :: "string option"
  mc_positional :: bool
  mc_position :: int
  mc_unacked :: "int list"

definition mc_new :: "string \<Rightarrow> memory_consumer" where
  "mc_new group_id = \<lparr>mc_group_id = group_id, mc_subscribed = False, mc_closed = False, mc_topic = None,
     mc_positional = False, mc_position = 0, mc_unacked = []\<rparr>"

definition static_partitions :: "int list \<Rightarrow> int list result" where
  "static_partitions partitions = (if partitions = [] then Inl ValueError else Inr (remdups partitions))"

definition mc_assignment :: "string \<Rightarrow> int list option \<Rightarrow> (string \<times> int) list result" where
  "mc_assignment topic partitions =
     (case partitions of
        None \<Rightarrow> Inr [(topic, 0)]
      | Some ps \<Rightarrow> bindE (static_partitions ps) (\<lambda>requested.
          if set requested \<noteq> {0} then Inl ValueError else Inr [(topic, 0)]))"

text \<open>\<open>subscribe\<close>; \<open>on_assigned\<close> is the listener's callback on its own state.\<close>

definition mc_subscribe :: "memory_consumer \<Rightarrow> string \<Rightarrow> int list option \<Rightarrow> ((string \<times> int) list \<Rightarrow> 's \<Rightarrow> unit result \<times> 's) \<Rightarrow>
    int option \<Rightarrow> 's \<Rightarrow> unit result \<times> memory_consumer \<times> 's" where
  "mc_subscribe c topic partitions on_assigned start_offset s =
     (if mc_closed c then (Inl RuntimeError, c, s)
      else if mc_subscribed c then (Inl RuntimeError, c, s)
      else case mc_assignment topic partitions of
        Inl e \<Rightarrow> (Inl e, c, s)
      | Inr assignment \<Rightarrow>
          if (case start_offset of None \<Rightarrow> False | Some n \<Rightarrow> n < 0) then (Inl ValueError, c, s)
          else case on_assigned assignment s of
            (Inl e, s') \<Rightarrow> (Inl e, c, s')
          | (Inr _, s') \<Rightarrow>
              (Inr (), c\<lparr>mc_subscribed := True, mc_topic := Some topic, mc_positional := (start_offset \<noteq> None),
                         mc_position := (case start_offset of None \<Rightarrow> 0 | Some n \<Rightarrow> n)\<rparr>, s'))"

datatype 'v delivery = Delivered "'v consumed_message" | Waiting | Ended

text \<open>One step of the iterator \<open>_consume\<close>: it skips what the group has acknowledged.\<close>

function mc_next :: "'v memory_bus \<Rightarrow> memory_consumer \<Rightarrow> string \<Rightarrow> 'v delivery \<times> memory_consumer" where
  "mc_next b c topic =
     (if mc_closed c then (Ended, c)
      else if mc_position c \<ge> int (length (mb_logs b topic)) then (Waiting, c)
      else let off = mc_position c;
               c1 = c\<lparr>mc_position := off + 1\<rparr>
           in if \<not> mc_positional c \<and> mb_is_acked b topic (mc_group_id c) off then mc_next b c1 topic
              else let r = mb_logs b topic ! nat off;
                       c2 = (if mc_positional c then c1 else c1\<lparr>mc_unacked := List.insert off (mc_unacked c1)\<rparr>)
                   in (Delivered \<lparr>cm_topic = topic, cm_partition = 0, cm_offset = off, cm_key = lr_key r,
                                  cm_value = lr_value r, cm_delivery_count = 1\<rparr>, c2))"
  by pat_completeness auto
termination
  by (relation "measure (\<lambda>(b, c, topic). nat (int (length (mb_logs b topic)) - mc_position c))") auto

declare mc_next.simps [simp del]

definition mc_can_ack :: "memory_consumer \<Rightarrow> 'v consumed_message \<Rightarrow> bool" where
  "mc_can_ack c m \<longleftrightarrow> Some (cm_topic m) = mc_topic c \<and> cm_partition m = 0 \<and> cm_offset m \<in> set (mc_unacked c)"

definition mc_ack :: "'v memory_bus \<Rightarrow> memory_consumer \<Rightarrow> 'v consumed_message list \<Rightarrow> unit result \<times> 'v memory_bus \<times> memory_consumer" where
  "mc_ack b c messages =
     (if mc_closed c then (Inl ValueError, b, c)
      else if mc_positional c then (Inl ValueError, b, c)
      else if messages = [] then (Inr (), b, c)
      else if \<not> list_all (mc_can_ack c) messages then (Inl ValueError, b, c)
      else case mc_topic c of
             None \<Rightarrow> (Inl AssertionError, b, c)
           | Some topic \<Rightarrow>
               let offs = remdups (map cm_offset messages)
               in (Inr (), mb_mark_acked b topic (mc_group_id c) offs,
                   c\<lparr>mc_unacked := filter (\<lambda>n. n \<notin> set offs) (mc_unacked c)\<rparr>))"

definition mc_close :: "memory_consumer \<Rightarrow> memory_consumer" where
  "mc_close c = (if mc_closed c then c else c\<lparr>mc_closed := True, mc_unacked := []\<rparr>)"

section \<open>What a consumer is delivered\<close>

text \<open>The messages not acknowledged by the consumer's group from a position on.\<close>

definition pending :: "'v memory_bus \<Rightarrow> string \<Rightarrow> string \<Rightarrow> nat \<Rightarrow> nat list" where
  "pending b topic grp n = filter (\<lambda>i. \<not> mb_is_acked b topic grp (int i)) [n ..< length (mb_logs b topic)]"

definition message_at :: "'v memory_bus \<Rightarrow> string \<Rightarrow> nat \<Rightarrow> 'v consumed_message" where
  "message_at b topic i = \<lparr>cm_topic = topic, cm_partition = 0, cm_offset = int i, cm_key = lr_key (mb_logs b topic ! i),
     cm_value = lr_value (mb_logs b topic ! i), cm_delivery_count = 1\<rparr>"

lemma pending_step:
  "n < length (mb_logs b topic) \<Longrightarrow>
   pending b topic grp n = (if mb_is_acked b topic grp (int n) then [] else [n]) @ pending b topic grp (Suc n)"
  by (simp add: pending_def upt_conv_Cons)

text \<open>One read of a durable subscription: the first pending message, or none is left.\<close>

lemma mc_next_pending:
  assumes "\<not> mc_closed c" "\<not> mc_positional c" "mc_position c = int n"
  shows "case pending b topic (mc_group_id c) n of
      [] \<Rightarrow> fst (mc_next b c topic) = Waiting
    | i # is \<Rightarrow> \<exists>c'. mc_next b c topic = (Delivered (message_at b topic i), c') \<and> n \<le> i \<and> i < length (mb_logs b topic) \<and>
        mc_position c' = int (Suc i) \<and> \<not> mc_closed c' \<and> \<not> mc_positional c' \<and> mc_group_id c' = mc_group_id c \<and>
        mc_topic c' = mc_topic c \<and> set (mc_unacked c') = insert (int i) (set (mc_unacked c)) \<and>
        is = pending b topic (mc_group_id c) (Suc i)"
  using assms
proof (induction "length (mb_logs b topic) - n" arbitrary: n c)
  case 0
  then show ?case by (simp add: pending_def mc_next.simps)
next
  case (Suc k)
  then have lt: "n < length (mb_logs b topic)" by simp
  let ?c = "c\<lparr>mc_position := int n + 1\<rparr>"
  show ?case
  proof (cases "mb_is_acked b topic (mc_group_id c) (int n)")
    case True
    then have "mc_next b c topic = mc_next b ?c topic" using Suc.prems lt by (simp add: mc_next.simps[of b c])
    moreover have "pending b topic (mc_group_id c) n = pending b topic (mc_group_id c) (Suc n)" using pending_step[OF lt] True by simp
    moreover note Suc.hyps(1)[of "Suc n" ?c] Suc.hyps(2) Suc.prems
    ultimately show ?thesis by (fastforce split: list.splits)
  next
    case False
    then show ?thesis using Suc.prems lt pending_step[OF lt] by (simp add: mc_next.simps[of b c] message_at_def Let_def)
  qed
qed

text \<open>Reading at most \<open>k\<close> messages.\<close>

fun mc_read :: "nat \<Rightarrow> 'v memory_bus \<Rightarrow> memory_consumer \<Rightarrow> string \<Rightarrow> 'v consumed_message list \<times> memory_consumer" where
  "mc_read 0 b c topic = ([], c)"
| "mc_read (Suc k) b c topic =
     (case mc_next b c topic of
        (Delivered m, c') \<Rightarrow> (case mc_read k b c' topic of (ms, c'') \<Rightarrow> (m # ms, c''))
      | (_, c') \<Rightarrow> ([], c'))"

lemma mc_read_pending:
  assumes "\<not> mc_closed c" "\<not> mc_positional c" "mc_position c = int n"
  shows "fst (mc_read k b c topic) = map (message_at b topic) (take k (pending b topic (mc_group_id c) n))"
  using assms
proof (induction k arbitrary: c n)
  case (Suc k)
  note step = mc_next_pending[OF Suc.prems, of b topic]
  show ?case
  proof (cases "pending b topic (mc_group_id c) n")
    case Nil
    with step show ?thesis by (cases "mc_next b c topic") simp
  next
    case (Cons i "is")
    with step obtain c' where c': "mc_next b c topic = (Delivered (message_at b topic i), c')" "mc_position c' = int (Suc i)"
      "\<not> mc_closed c'" "\<not> mc_positional c'" "mc_group_id c' = mc_group_id c" "is = pending b topic (mc_group_id c) (Suc i)"
      by auto
    from Suc.IH[OF c'(3,4,2)] c' Cons show ?thesis by (cases "mc_read k b c' topic") simp
  qed
qed simp

lemma mc_ack_cases:
  assumes "\<not> mc_closed c" "\<not> mc_positional c" "mc_topic c = Some topic"
  shows "mc_ack b c ms = (if list_all (mc_can_ack c) ms
    then (Inr (), if ms = [] then b else mb_mark_acked b topic (mc_group_id c) (remdups (map cm_offset ms)),
      if ms = [] then c else c\<lparr>mc_unacked := filter (\<lambda>n. n \<notin> cm_offset ` set ms) (mc_unacked c)\<rparr>)
    else (Inl ValueError, b, c))"
  using assms by (auto simp: mc_ack_def Let_def)

definition sample_bus :: "int memory_bus" where
  "sample_bus = mp_publish (mp_publish (mp_publish mb_new ''t'' [1] 7 (Some [1])) ''t'' [1] 8 (Some [2])) ''t'' [1] 9 None"

definition sample_consumer :: memory_consumer where
  "sample_consumer = (mc_new ''g'')\<lparr>mc_subscribed := True, mc_topic := Some ''t'', mc_position := 2, mc_unacked := [0, 1]\<rparr>"

section \<open>Properties\<close>

text \<open>C37: At-least-once delivery, exactly: whatever a consumer acknowledged before it went away, a new
  consumer of the same group reads, in log order, the messages no acknowledgement of the group named
  and no others. An acknowledgement naming one message that was not delivered under the subscription
  is refused as a whole and changes nothing.\<close>

theorem redelivery_exact:
  assumes "\<not> mc_closed c" "\<not> mc_positional c" "mc_topic c = Some topic"
    and "mc_ack b c ms = (r, b', c')"
    and "mc_subscribe (mc_new (mc_group_id c)) topic None (\<lambda>_ s. (Inr (), s)) None () = (Inr (), d, ())"
  shows "fst (mc_read k b' d topic) = map (message_at b topic) (take k
      (filter (\<lambda>i. int i \<notin> set (mb_acked b (topic, mc_group_id c)) \<and> \<not> (r = Inr () \<and> int i \<in> cm_offset ` set ms))
        [0 ..< length (mb_logs b topic)])) \<and>
    (r \<noteq> Inr () \<longrightarrow> b' = b \<and> c' = c \<and> (\<exists>m \<in> set ms. cm_topic m \<noteq> topic \<or> cm_partition m \<noteq> 0 \<or> cm_offset m \<notin> set (mc_unacked c)))"
proof -
  have d: "\<not> mc_closed d" "\<not> mc_positional d" "mc_position d = int 0" "mc_group_id d = mc_group_id c"
    using assms(5) by (auto simp: mc_subscribe_def mc_new_def mc_assignment_def)
  note ack = mc_ack_cases[OF assms(1-3), of b ms]
  have logs: "mb_logs b' = mb_logs b" using assms(4) ack by (auto simp: mb_mark_acked_def split: if_splits)
  then have "message_at b' topic = message_at b topic" by (simp add: message_at_def fun_eq_iff)
  moreover have "mb_is_acked b' topic (mc_group_id c) n \<longleftrightarrow>
      n \<in> set (mb_acked b (topic, mc_group_id c)) \<or> (r = Inr () \<and> n \<in> cm_offset ` set ms)" for n
    using assms(4) ack by (auto simp: mb_is_acked_def mb_mark_acked_def split: if_splits)
  then have "pending b' topic (mc_group_id c) 0 = filter (\<lambda>i. int i \<notin> set (mb_acked b (topic, mc_group_id c)) \<and>
      \<not> (r = Inr () \<and> int i \<in> cm_offset ` set ms)) [0 ..< length (mb_logs b topic)]"
    by (simp add: pending_def logs)
  moreover have "r \<noteq> Inr () \<longrightarrow> b' = b \<and> c' = c \<and> (\<exists>m \<in> set ms. cm_topic m \<noteq> topic \<or> cm_partition m \<noteq> 0 \<or> cm_offset m \<notin> set (mc_unacked c))"
    using assms(3,4) ack by (auto simp: list_all_iff mc_can_ack_def split: if_splits)
  ultimately show ?thesis using mc_read_pending[OF d(1-3), of k b' topic] d(4) by simp
qed

theorem redelivery_exact_witness:
  "\<exists>r b' c' d. mc_ack sample_bus sample_consumer [message_at sample_bus ''t'' 1] = (r, b', c') \<and>
     mc_subscribe (mc_new ''g'') ''t'' None (\<lambda>_ s. (Inr (), s)) None () = (Inr (), d, ()) \<and>
     map cm_offset (fst (mc_read 5 b' d ''t'')) = [0, 2]"
proof -
  obtain r b' c' where ack: "mc_ack sample_bus sample_consumer [message_at sample_bus ''t'' 1] = (r, b', c')" by (metis prod_cases3)
  then have r: "r = Inr ()" by (auto simp: mc_ack_def sample_consumer_def mc_new_def mc_can_ack_def message_at_def Let_def)
  obtain d where d: "mc_subscribe (mc_new ''g'') ''t'' None (\<lambda>_ s. (Inr (), s)) None () = (Inr (), d, ())"
    by (simp add: mc_subscribe_def mc_new_def mc_assignment_def)
  have "length (mb_logs sample_bus ''t'') = 3" "mb_acked sample_bus = (\<lambda>_. [])"
    by (simp_all add: sample_bus_def mp_publish_def mb_append_def mb_new_def)
  moreover have "[0 ..< 3] = [0, 1, 2 :: nat]" by (simp add: upt_rec)
  ultimately show ?thesis
    using redelivery_exact[of sample_consumer "''t''", OF _ _ _ ack, of d 5] d r ack
    by (auto simp: sample_consumer_def mc_new_def message_at_def)
qed

text \<open>A message id is logged at most once per topic: publishing again under the same id changes nothing,
  whatever the key and value, and the first publish appends exactly one record at \<open>end_offset\<close>.\<close>

theorem publish_once:
  "mp_publish (mp_publish b topic k v (Some i)) topic k' v' (Some i) = mp_publish b topic k v (Some i) \<and>
   mb_logs (mp_publish b topic k v (Some i)) topic = mb_logs b topic @
     (if i \<in> set (mb_seen_ids b topic) then [] else [\<lparr>lr_key = Some k, lr_value = v\<rparr>])"
  by (simp add: mp_publish_def mb_append_def Let_def)

end
