(* ===== verification/Shard_State_Store.thy ===== *)
theory Shard_State_Store
  imports Core_State Addressing "HOL-Library.AList"
begin

text \<open>
  The durable state of a shard: the protocol \<open>ShardStateStore\<close> (\<open>hammertime.store.interface\<close>) as a
  record of operations with its contract as a locale, and the reference implementation
  \<open>MemoryShardStateStore\<close> (\<open>hammertime.store.memory\<close>), which is shown to keep the contract. A lease's
  time to live is a Python float; its exact value is a rational here. Time is the argument \<open>now\<close>.
\<close>

section \<open>The protocol\<close>

record shard_state =
  shs_hot_ips :: "address list"
  shs_next_sequence :: int

record 'st store_ops =
  so_load :: "'st \<Rightarrow> int \<Rightarrow> shard_state result \<times> 'st"
  so_record_transition :: "'st \<Rightarrow> int \<Rightarrow> address \<Rightarrow> ip_state \<Rightarrow> int \<Rightarrow> unit result \<times> 'st"
  so_acquire_lease :: "'st \<Rightarrow> int \<Rightarrow> int \<Rightarrow> string \<Rightarrow> rat \<Rightarrow> string option result \<times> 'st"
  so_release_lease :: "'st \<Rightarrow> int \<Rightarrow> int \<Rightarrow> string \<Rightarrow> unit result \<times> 'st"

text \<open>Recording a sequence of transitions of a shard.\<close>

fun record_all :: "'st store_ops \<Rightarrow> 'st \<Rightarrow> int \<Rightarrow> (address \<times> ip_state \<times> int) list \<Rightarrow> 'st" where
  "record_all ops st p [] = st"
| "record_all ops st p ((ip, s, n) # ts) = record_all ops (snd (so_record_transition ops st p ip s n)) p ts"

text \<open>The contract, over three observations of a store: a shard's HOT set, its next sequence number, and
  who holds its lease at a time. A store may fail: an operation that raises has either not happened or
  happened completely.\<close>

definition hot_after :: "(int \<Rightarrow> address set) \<Rightarrow> int \<Rightarrow> address \<Rightarrow> ip_state \<Rightarrow> int \<Rightarrow> address set" where
  "hot_after h p ip s = h(p := if s = HOT then insert ip (h p) else h p - {ip})"

definition seq_after :: "(int \<Rightarrow> int) \<Rightarrow> int \<Rightarrow> int \<Rightarrow> int \<Rightarrow> int" where
  "seq_after q p n = q(p := max (q p) (n + 1))"

definition lease_after :: "(int \<Rightarrow> int \<Rightarrow> string option) \<Rightarrow> int \<Rightarrow> int \<Rightarrow> string \<Rightarrow> rat \<Rightarrow> int \<Rightarrow> int \<Rightarrow> string option" where
  "lease_after h now p owner ttl t q =
     (if q = p then if of_int t < of_int now + ttl then Some owner else None else h t q)"

locale shard_state_store =
  fixes ops :: "'st store_ops"
    and hot :: "'st \<Rightarrow> int \<Rightarrow> address set"
    and seq :: "'st \<Rightarrow> int \<Rightarrow> int"
    and holder :: "'st \<Rightarrow> int \<Rightarrow> int \<Rightarrow> string option"
  assumes load_law: "so_load ops st p = (rl, st') \<Longrightarrow> st' = st \<and>
        (\<forall>s. rl = Inr s \<longrightarrow> set (shs_hot_ips s) = hot st p \<and> shs_next_sequence s = seq st p)"
    and record_error: "n < 0 \<Longrightarrow> so_record_transition ops st p ip s n = (Inl ValueError, st)"
    and record_law: "0 \<le> n \<Longrightarrow> so_record_transition ops st p ip s n = (r, st') \<Longrightarrow> holder st' = holder st \<and>
        ((hot st' = hot_after (hot st) p ip s \<and> seq st' = seq_after (seq st) p n) \<or> (r \<noteq> Inr () \<and> hot st' = hot st \<and> seq st' = seq st))"
    and holder_expires: "holder st t p = None \<Longrightarrow> t \<le> t' \<Longrightarrow> holder st t' p = None"
    and acquire_error: "ttl \<le> 0 \<Longrightarrow> so_acquire_lease ops st now p owner ttl = (Inl ValueError, st)"
    and acquire_law: "0 < ttl \<Longrightarrow> so_acquire_lease ops st now p owner ttl = (ra, st') \<Longrightarrow> hot st' = hot st \<and> seq st' = seq st \<and>
        (\<forall>h. holder st now p = Some h \<and> h \<noteq> owner \<longrightarrow> holder st' = holder st \<and> ra \<in> insert (Inr (Some h)) (range Inl)) \<and>
        (holder st now p = None \<or> holder st now p = Some owner \<longrightarrow>
           (ra = Inr None \<and> holder st' = lease_after (holder st) now p owner ttl) \<or>
           (ra \<in> range Inl \<and> (holder st' = holder st \<or> holder st' = lease_after (holder st) now p owner ttl)))"
    and release_law: "so_release_lease ops st now p owner = (r, st') \<Longrightarrow> hot st' = hot st \<and> seq st' = seq st \<and>
        ((\<forall>q t. now \<le> t \<longrightarrow> holder st' t q = (if q = p \<and> holder st now p = Some owner then None else holder st t q)) \<or>
         (r \<noteq> Inr () \<and> holder st' = holder st))"
begin

text \<open>Mutual exclusion: at no time do two owners hold a shard, and one that holds it keeps it against
  everyone else until its time to live has passed.\<close>

lemma lease_granted:
  assumes "so_acquire_lease ops st now p owner ttl = (Inr None, st')" "0 < ttl"
  shows "holder st' = lease_after (holder st) now p owner ttl"
proof -
  note law = acquire_law[OF assms(2,1)]
  have "holder st now p = None \<or> holder st now p = Some owner"
  proof (cases "holder st now p")
    case (Some h)
    with law show ?thesis by auto
  qed simp
  with law show ?thesis by auto
qed

lemma lease_exclusive:
  assumes "so_acquire_lease ops st now p owner ttl = (Inr None, st')" "0 < ttl" "of_int t < of_int now + ttl" "owner' \<noteq> owner" "0 < ttl'"
    and "so_acquire_lease ops st' t p owner' ttl' = (r, st'')"
  shows "holder st'' = holder st' \<and> r \<in> insert (Inr (Some owner)) (range Inl)"
proof -
  have "holder st' t p = Some owner" using lease_granted[OF assms(1,2)] assms(3) by (simp add: lease_after_def)
  with acquire_law[OF assms(5,6)] assms(4) show ?thesis by blast
qed

end

text \<open>A store that does not fail.\<close>

locale reliable_store = shard_state_store +
  assumes load_returns: "\<exists>s. so_load ops st p = (Inr s, st)"
    and record_returns: "0 \<le> n \<Longrightarrow> \<exists>st'. so_record_transition ops st p ip s n = (Inr (), st')"
    and acquire_returns: "0 < ttl \<Longrightarrow> \<exists>h st'. so_acquire_lease ops st now p owner ttl = (Inr h, st')"
    and release_returns: "\<exists>st'. so_release_lease ops st now p owner = (Inr (), st')"
begin

text \<open>What a sequence of recorded transitions leaves in the store: an IP is in the HOT set exactly if its
  last transition was to HOT, or it had none and was there before; the counter is beyond every
  sequence recorded.\<close>

lemma record_all_law:
  assumes "\<forall>(ip, s, n) \<in> set ts. 0 \<le> n"
  shows "(ip \<in> hot (record_all ops st p ts) p \<longleftrightarrow>
      (case filter (\<lambda>t. fst t = ip) ts of [] \<Rightarrow> ip \<in> hot st p | x # xs \<Rightarrow> fst (snd (last (x # xs))) = HOT)) \<and>
    seq (record_all ops st p ts) p = fold (\<lambda>(ip, s, n) m. max m (n + 1)) ts (seq st p) \<and>
    (\<forall>q. q \<noteq> p \<longrightarrow> hot (record_all ops st p ts) q = hot st q \<and> seq (record_all ops st p ts) q = seq st q) \<and>
    holder (record_all ops st p ts) = holder st"
  using assms
proof (induction ts arbitrary: st)
  case (Cons t ts)
  obtain a s n where t: "t = (a, s, n)" by (cases t)
  obtain st' where st': "so_record_transition ops st p a s n = (Inr (), st')"
    "hot st' = (hot st)(p := if s = HOT then insert a (hot st p) else hot st p - {a})"
    "seq st' = (seq st)(p := max (seq st p) (n + 1))" "holder st' = holder st"
    using record_returns[of n st p a s] record_law[of n st p a s] Cons.prems t by (fastforce simp: hot_after_def seq_after_def)
  have "\<forall>(ip, s, n) \<in> set ts. 0 \<le> n" using Cons.prems by simp
  note IH = Cons.IH[OF this, of st']
  show ?case
  proof (cases "filter (\<lambda>t. fst t = ip) ts")
    case Nil
    then show ?thesis using IH st' t by auto
  next
    case (Cons x xs)
    then show ?thesis using IH st' t by auto
  qed
qed simp

end

section \<open>The in-memory store\<close>

record memory_store =
  ms_hot_ips :: "(int \<times> address list) list"
  ms_next_sequence :: "(int \<times> int) list"
  ms_leases :: "(int \<times> string \<times> rat) list"

definition ms_new :: memory_store where
  "ms_new = \<lparr>ms_hot_ips = [], ms_next_sequence = [], ms_leases = []\<rparr>"

definition ms_load :: "memory_store \<Rightarrow> int \<Rightarrow> shard_state result \<times> memory_store" where
  "ms_load st shard =
     (Inr \<lparr>shs_hot_ips = (case map_of (ms_hot_ips st) shard of None \<Rightarrow> [] | Some ips \<Rightarrow> ips),
           shs_next_sequence = (case map_of (ms_next_sequence st) shard of None \<Rightarrow> 0 | Some n \<Rightarrow> n)\<rparr>, st)"

definition ms_record_transition :: "memory_store \<Rightarrow> int \<Rightarrow> address \<Rightarrow> ip_state \<Rightarrow> int \<Rightarrow> unit result \<times> memory_store" where
  "ms_record_transition st shard ip state n =
     (if n < 0 then (Inl ValueError, st)
      else let st1 = (if state = HOT
                      then st\<lparr>ms_hot_ips := AList.update shard (List.insert ip (case map_of (ms_hot_ips st) shard of None \<Rightarrow> [] | Some ips \<Rightarrow> ips)) (ms_hot_ips st)\<rparr>
                      else case map_of (ms_hot_ips st) shard of
                             None \<Rightarrow> st
                           | Some ips \<Rightarrow> st\<lparr>ms_hot_ips := AList.update shard (removeAll ip ips) (ms_hot_ips st)\<rparr>);
               current = (case map_of (ms_next_sequence st) shard of None \<Rightarrow> 0 | Some m \<Rightarrow> m)
           in (Inr (), st1\<lparr>ms_next_sequence := AList.update shard (max current (n + 1)) (ms_next_sequence st1)\<rparr>))"

definition ms_live_holder :: "memory_store \<Rightarrow> int \<Rightarrow> int \<Rightarrow> string option \<times> memory_store" where
  "ms_live_holder st shard now =
     (case map_of (ms_leases st) shard of
        None \<Rightarrow> (None, st)
      | Some (owner, expires_at) \<Rightarrow>
          if expires_at \<le> of_int now then (None, st\<lparr>ms_leases := AList.delete shard (ms_leases st)\<rparr>)
          else (Some owner, st))"

definition ms_acquire_lease :: "memory_store \<Rightarrow> int \<Rightarrow> int \<Rightarrow> string \<Rightarrow> rat \<Rightarrow> string option result \<times> memory_store" where
  "ms_acquire_lease st now shard owner ttl =
     (if ttl \<le> 0 then (Inl ValueError, st)
      else let (holder, st1) = ms_live_holder st shard now in
        if holder \<noteq> None \<and> holder \<noteq> Some owner then (Inr holder, st1)
        else (Inr None, st1\<lparr>ms_leases := AList.update shard (owner, of_int now + ttl) (ms_leases st1)\<rparr>))"

definition ms_release_lease :: "memory_store \<Rightarrow> int \<Rightarrow> int \<Rightarrow> string \<Rightarrow> unit result \<times> memory_store" where
  "ms_release_lease st now shard owner =
     (let (holder, st1) = ms_live_holder st shard now in
      if holder = Some owner then (Inr (), st1\<lparr>ms_leases := AList.delete shard (ms_leases st1)\<rparr>) else (Inr (), st1))"

definition memory_store_ops :: "memory_store store_ops" where
  "memory_store_ops = \<lparr>so_load = ms_load, so_record_transition = ms_record_transition,
     so_acquire_lease = ms_acquire_lease, so_release_lease = ms_release_lease\<rparr>"

text \<open>The observations of the contract.\<close>

definition ms_hot :: "memory_store \<Rightarrow> int \<Rightarrow> address set" where
  "ms_hot st p = set (case map_of (ms_hot_ips st) p of None \<Rightarrow> [] | Some ips \<Rightarrow> ips)"

definition ms_seq :: "memory_store \<Rightarrow> int \<Rightarrow> int" where
  "ms_seq st p = (case map_of (ms_next_sequence st) p of None \<Rightarrow> 0 | Some n \<Rightarrow> n)"

definition ms_holder :: "memory_store \<Rightarrow> int \<Rightarrow> int \<Rightarrow> string option" where
  "ms_holder st t p = (case map_of (ms_leases st) p of None \<Rightarrow> None
     | Some (owner, expires_at) \<Rightarrow> if expires_at \<le> of_int t then None else Some owner)"

lemma ms_acquire_refused:
  "0 < ttl \<Longrightarrow> ms_holder st now p = Some h \<Longrightarrow> h \<noteq> owner \<Longrightarrow> ms_acquire_lease st now p owner ttl = (Inr (Some h), st)"
  by (auto simp: ms_acquire_lease_def ms_live_holder_def ms_holder_def split: option.splits if_splits prod.splits)

lemma ms_acquire_granted:
  assumes "0 < ttl" "ms_holder st now p = None \<or> ms_holder st now p = Some owner"
  shows "\<exists>st'. ms_acquire_lease st now p owner ttl = (Inr None, st') \<and> ms_hot st' = ms_hot st \<and> ms_seq st' = ms_seq st \<and>
    ms_holder st' = lease_after (ms_holder st) now p owner ttl"
  using assms by (auto simp: ms_acquire_lease_def ms_live_holder_def ms_holder_def ms_hot_def ms_seq_def lease_after_def fun_eq_iff
      update_conv' delete_conv' split: option.splits if_splits prod.splits)

lemma ms_record:
  assumes "0 \<le> n"
  shows "ms_holder (snd (ms_record_transition st p ip s n)) = ms_holder st"
    and "ms_hot (snd (ms_record_transition st p ip s n)) = hot_after (ms_hot st) p ip s"
    and "ms_seq (snd (ms_record_transition st p ip s n)) = seq_after (ms_seq st) p n"
proof -
  show "ms_holder (snd (ms_record_transition st p ip s n)) = ms_holder st"
    using assms by (simp add: ms_record_transition_def Let_def ms_holder_def fun_eq_iff split: option.split)
  show "ms_seq (snd (ms_record_transition st p ip s n)) = seq_after (ms_seq st) p n"
    using assms by (simp add: ms_record_transition_def Let_def ms_seq_def seq_after_def fun_eq_iff update_conv' split: option.split)
  show "ms_hot (snd (ms_record_transition st p ip s n)) = hot_after (ms_hot st) p ip s"
    using assms by (cases "map_of (ms_hot_ips st) p"; cases s)
      (auto simp: ms_record_transition_def Let_def ms_hot_def hot_after_def fun_eq_iff update_conv')
qed

lemma ms_release:
  "fst (ms_release_lease st now p owner) = Inr () \<and>
   ms_hot (snd (ms_release_lease st now p owner)) = ms_hot st \<and> ms_seq (snd (ms_release_lease st now p owner)) = ms_seq st \<and>
   (\<forall>q t. now \<le> t \<longrightarrow> ms_holder (snd (ms_release_lease st now p owner)) t q =
      (if q = p \<and> ms_holder st now p = Some owner then None else ms_holder st t q))"
proof (cases "map_of (ms_leases st) p")
  case None
  then show ?thesis by (auto simp: ms_release_lease_def ms_live_holder_def ms_holder_def ms_hot_def ms_seq_def)
next
  case (Some l)
  obtain who e where l: "l = (who, e)" by (cases l)
  show ?thesis
  proof (cases "e \<le> of_int now")
    case True
    then have "e \<le> of_int t" if "now \<le> t" for t using that by (meson of_int_le_iff order_trans)
    with True Some l show ?thesis
      by (auto simp: ms_release_lease_def ms_live_holder_def ms_holder_def ms_hot_def ms_seq_def fun_eq_iff delete_conv')
  next
    case False
    with Some l show ?thesis
      by (auto simp: ms_release_lease_def ms_live_holder_def ms_holder_def ms_hot_def ms_seq_def fun_eq_iff delete_conv')
  qed
qed

interpretation ms: reliable_store memory_store_ops ms_hot ms_seq ms_holder
proof
  fix st p r st' assume "so_load memory_store_ops st p = (r, st')"
  then show "st' = st \<and> (\<forall>s. r = Inr s \<longrightarrow> set (shs_hot_ips s) = ms_hot st p \<and> shs_next_sequence s = ms_seq st p)"
    by (auto simp: memory_store_ops_def ms_load_def ms_hot_def ms_seq_def)
next
  fix n :: int and st p ip s r st'
  assume "0 \<le> n" "so_record_transition memory_store_ops st p ip s n = (r, st')"
  then show "ms_holder st' = ms_holder st \<and> ((ms_hot st' = hot_after (ms_hot st) p ip s \<and> ms_seq st' = seq_after (ms_seq st) p n) \<or>
      (r \<noteq> Inr () \<and> ms_hot st' = ms_hot st \<and> ms_seq st' = ms_seq st))"
    using ms_record[of n st p ip s] by (simp add: memory_store_ops_def)
next
  fix st t p and t' :: int
  assume none: "ms_holder st t p = None" and le: "t \<le> t'"
  have "e \<le> of_int t'" if "e \<le> of_int t" for e :: rat using that le by (meson of_int_le_iff order_trans)
  with none show "ms_holder st t' p = None" by (auto simp: ms_holder_def split: option.splits if_splits)
next
  fix ttl :: rat and st now p owner r st'
  assume pos: "0 < ttl" and run: "so_acquire_lease memory_store_ops st now p owner ttl = (r, st')"
  show "ms_hot st' = ms_hot st \<and> ms_seq st' = ms_seq st \<and>
        (\<forall>h. ms_holder st now p = Some h \<and> h \<noteq> owner \<longrightarrow> ms_holder st' = ms_holder st \<and> r \<in> insert (Inr (Some h)) (range Inl)) \<and>
        (ms_holder st now p = None \<or> ms_holder st now p = Some owner \<longrightarrow>
           (r = Inr None \<and> ms_holder st' = lease_after (ms_holder st) now p owner ttl) \<or>
           (r \<in> range Inl \<and> (ms_holder st' = ms_holder st \<or> ms_holder st' = lease_after (ms_holder st) now p owner ttl)))"
  proof (cases "\<exists>h. ms_holder st now p = Some h \<and> h \<noteq> owner")
    case True
    then show ?thesis using run ms_acquire_refused[OF pos] by (auto simp: memory_store_ops_def)
  next
    case False
    then have "ms_holder st now p = None \<or> ms_holder st now p = Some owner" by (cases "ms_holder st now p") auto
    with False run ms_acquire_granted[OF pos this] show ?thesis by (auto simp: memory_store_ops_def)
  qed
next
  fix st now p owner r st' assume "so_release_lease memory_store_ops st now p owner = (r, st')"
  then show "ms_hot st' = ms_hot st \<and> ms_seq st' = ms_seq st \<and>
        ((\<forall>q t. now \<le> t \<longrightarrow> ms_holder st' t q = (if q = p \<and> ms_holder st now p = Some owner then None else ms_holder st t q)) \<or>
         (r \<noteq> Inr () \<and> ms_holder st' = ms_holder st))"
    using ms_release[of st now p owner] by (simp add: memory_store_ops_def)
next
  fix st p show "\<exists>s. so_load memory_store_ops st p = (Inr s, st)" by (simp add: memory_store_ops_def ms_load_def)
next
  fix st now p owner show "\<exists>st'. so_release_lease memory_store_ops st now p owner = (Inr (), st')"
    using ms_release[of st now p owner] by (cases "ms_release_lease st now p owner") (simp add: memory_store_ops_def)
next
  fix ttl :: rat and st now p owner assume "0 < ttl"
  then show "\<exists>h st'. so_acquire_lease memory_store_ops st now p owner ttl = (Inr h, st')"
    by (simp add: memory_store_ops_def ms_acquire_lease_def Let_def split: prod.split)
qed (simp_all add: memory_store_ops_def ms_record_transition_def ms_acquire_lease_def Let_def)

section \<open>Properties\<close>

text \<open>C36: The in-memory lease excludes: once an owner is granted a shard, every other owner is refused with
  that owner's name, and changes nothing, until the lease's time to live has passed.\<close>

theorem lease_mutual_exclusion:
  assumes "ms_acquire_lease st now p owner ttl = (Inr None, st')" "0 < ttl" "now \<le> t" "of_int t < of_int now + ttl"
    "owner' \<noteq> owner" "0 < ttl'"
  shows "ms_acquire_lease st' t p owner' ttl' = (Inr (Some owner), st')"
proof -
  have "ms_holder st' t p = Some owner"
    using ms.lease_granted[of st now p owner ttl st'] assms by (simp add: memory_store_ops_def lease_after_def)
  then show ?thesis using assms(5,6) by (intro ms_acquire_refused) auto
qed

theorem lease_mutual_exclusion_witness:
  "ms_acquire_lease (snd (ms_acquire_lease ms_new 100 3 ''a/1'' 30)) 129 3 ''b/2'' 30 =
     (Inr (Some ''a/1''), snd (ms_acquire_lease ms_new 100 3 ''a/1'' 30))"
proof -
  have "ms_acquire_lease ms_new 100 3 ''a/1'' 30 = (Inr None, snd (ms_acquire_lease ms_new 100 3 ''a/1'' 30))"
    by (simp add: ms_acquire_lease_def ms_live_holder_def ms_new_def)
  from lease_mutual_exclusion[OF this, of 129 "''b/2''" 30] show ?thesis by simp
qed

text \<open>What the next owner of a shard inherits: after any sequence of recorded transitions the stored HOT
  set holds an IP exactly if its last transition was to HOT, or it had none and was already there; the
  stored counter is past every sequence recorded and never lower than before; other shards and the
  leases are untouched.\<close>

theorem recorded_state_exact:
  assumes "\<forall>(ip, s, n) \<in> set ts. 0 \<le> n"
  shows "(ip \<in> ms_hot (record_all memory_store_ops st p ts) p \<longleftrightarrow>
      (case filter (\<lambda>t. fst t = ip) ts of [] \<Rightarrow> ip \<in> ms_hot st p | x # xs \<Rightarrow> fst (snd (last (x # xs))) = HOT)) \<and>
    ms_seq (record_all memory_store_ops st p ts) p = fold (\<lambda>(ip, s, n) m. max m (n + 1)) ts (ms_seq st p) \<and>
    (\<forall>q. q \<noteq> p \<longrightarrow> ms_hot (record_all memory_store_ops st p ts) q = ms_hot st q \<and>
       ms_seq (record_all memory_store_ops st p ts) q = ms_seq st q) \<and>
    ms_holder (record_all memory_store_ops st p ts) = ms_holder st"
  using assms by (rule ms.record_all_law)

theorem recorded_state_exact_witness:
  "\<lparr>addr_family = IPV4, addr_value = 9\<rparr> \<notin> ms_hot (record_all memory_store_ops ms_new 2
      [(\<lparr>addr_family = IPV4, addr_value = 9\<rparr>, HOT, 4), (\<lparr>addr_family = IPV4, addr_value = 9\<rparr>, COLD, 5)]) 2"
  using recorded_state_exact[of "[(\<lparr>addr_family = IPV4, addr_value = 9\<rparr>, HOT, 4), (\<lparr>addr_family = IPV4, addr_value = 9\<rparr>, COLD, 5)]"
      "\<lparr>addr_family = IPV4, addr_value = 9\<rparr>" ms_new 2] by simp

end
