(* ===== verification/Event_Codec.thy ===== *)
theory Event_Codec
  imports Attribute_Document Addressing
begin

text \<open>
  Events and their wire form: \<open>hammertime.core.events.models\<close>, \<open>envelope\<close> and \<open>codec\<close>. The wire form is
  the JSON document: \<open>encode\<close> ends in the document it hands to \<open>json.dumps\<close>, \<open>decode\<close> starts from what
  \<open>json.loads\<close> returned (\<open>None\<close> where it raised). The functions of Python's library that the codec calls
  on text, dates and floats, and whose inner working is not the codec's, are the fields of the record
  \<open>py_library\<close>. Fields are of the type their dataclass declares, so the checks of \<open>_integer_field\<close> on an
  encoded payload's own type cannot fail; every other check of the code is a branch. A date is its
  wall-clock microsecond with its offset from UTC, if it has one.
\<close>

section \<open>Library functions\<close>

record py_datetime =
  dt_micros :: int
  dt_offset :: "int option"

record py_library =
  lib_isoformat_z :: "int \<Rightarrow> pystr"
  lib_fromisoformat :: "pystr \<Rightarrow> py_datetime option"
  lib_ip_text :: "address \<Rightarrow> pystr"
  lib_ip_parse :: "pystr \<Rightarrow> address option"
  lib_sha256_hex :: "pystr \<Rightarrow> pystr"
  lib_str :: "raw \<Rightarrow> pystr"
  lib_float_value :: "py_float \<Rightarrow> rat"
  lib_float_of_int :: "int \<Rightarrow> py_float"
  lib_min_micros :: int
  lib_max_micros :: int

text \<open>What the codec relies on: the text of an address or of a UTC date reads back as itself, \<open>str\<close> of a
  string is the string, and a float made from an integer has its value.\<close>

definition library_ok :: "py_library \<Rightarrow> bool" where
  "library_ok L \<longleftrightarrow>
     (\<forall>a. valid_address a \<longrightarrow> lib_ip_parse L (lib_ip_text L a) = Some a) \<and>
     (\<forall>t. lib_min_micros L \<le> t \<and> t \<le> lib_max_micros L \<longrightarrow>
        lib_fromisoformat L (lib_isoformat_z L t) = Some \<lparr>dt_micros = t, dt_offset = Some 0\<rparr>) \<and>
     (\<forall>s. lib_str L (RStr s) = s) \<and>
     (\<forall>n. fl_finite (lib_float_of_int L n) \<and> lib_float_value L (lib_float_of_int L n) = of_int n)"

section \<open>Events\<close>

record observation =
  ob_ip :: address
  ob_request_count :: int

record request_observation =
  ro_agent_id :: pystr
  ro_sequence :: int
  ro_window_start :: py_datetime
  ro_window_seconds :: int
  ro_observations :: "observation list"

record hot_ip_event =
  hi_ip :: address
  hi_timestamp :: py_datetime
  hi_sequence :: int
  hi_window_count :: int
  hi_config_version :: int
  hi_attributes :: "raw option"

datatype ratio_value = RatioInt int | RatioFloat py_float

record prefix_stats_changed =
  psc_prefix :: pystr
  psc_hot_count :: int
  psc_capacity :: int
  psc_sequence :: int
  psc_timestamp :: py_datetime
  psc_hot_ratio :: "ratio_value option"

datatype event_payload =
    RequestObservation request_observation
  | HotIpAdded hot_ip_event
  | HotIpRemoved hot_ip_event
  | PrefixStatsChanged prefix_stats_changed

record event_envelope =
  env_agent_id :: pystr
  env_sequence :: int
  env_event_type :: pystr
  env_config_version :: int
  env_timestamp :: py_datetime
  env_payload :: event_payload
  env_schema_version :: int
  env_subject :: "pystr option"

definition SCHEMA_VERSION :: int where "SCHEMA_VERSION = 1"

definition compute_event_id :: "py_library \<Rightarrow> pystr \<Rightarrow> int \<Rightarrow> pystr \<Rightarrow> pystr option \<Rightarrow> pystr" where
  "compute_event_id L agent_id n event_type subject =
     (let message = agent_id @ [31] @ int_text n @ [31] @ event_type;
          message = (case subject of None \<Rightarrow> message | Some s \<Rightarrow> message @ [31] @ s)
      in lib_sha256_hex L message)"

definition event_id :: "py_library \<Rightarrow> event_envelope \<Rightarrow> pystr" where
  "event_id L e = compute_event_id L (env_agent_id e) (env_sequence e) (env_event_type e) (env_subject e)"

section \<open>Field rules\<close>

definition T_OBSERVATION :: pystr where "T_OBSERVATION = py_lit ''RequestObservation''"
definition T_ADDED :: pystr where "T_ADDED = py_lit ''HotIpAdded''"
definition T_REMOVED :: pystr where "T_REMOVED = py_lit ''HotIpRemoved''"
definition T_PREFIX_STATS :: pystr where "T_PREFIX_STATS = py_lit ''PrefixStatsChanged''"

definition HOT_IP_EVENT_TYPES :: "pystr list" where "HOT_IP_EVENT_TYPES = [T_ADDED, T_REMOVED]"
definition KNOWN_EVENT_TYPES :: "pystr list" where
  "KNOWN_EVENT_TYPES = [T_OBSERVATION, T_PREFIX_STATS] @ HOT_IP_EVENT_TYPES"

definition MAX_OBSERVATIONS :: int where "MAX_OBSERVATIONS = 10000"
definition INT_STR_DIGITS :: nat where "INT_STR_DIGITS = 4300"

type_synonym int_range = "int \<times> int option"

definition OBSERVATION_SEQUENCE :: int_range where "OBSERVATION_SEQUENCE = (0, Some 9223372036854775807)"
definition OBSERVATION_WINDOW_SECONDS :: int_range where "OBSERVATION_WINDOW_SECONDS = (1, Some 3600)"
definition OBSERVATION_REQUEST_COUNT :: int_range where "OBSERVATION_REQUEST_COUNT = (0, Some 1000000000)"
definition HOT_IP_SEQUENCE :: int_range where "HOT_IP_SEQUENCE = (0, None)"
definition HOT_IP_WINDOW_COUNT :: int_range where "HOT_IP_WINDOW_COUNT = (0, None)"
definition HOT_IP_CONFIG_VERSION :: int_range where "HOT_IP_CONFIG_VERSION = (1, None)"
definition PREFIX_STATS_HOT_COUNT :: int_range where "PREFIX_STATS_HOT_COUNT = (0, None)"
definition PREFIX_STATS_SEQUENCE :: int_range where "PREFIX_STATS_SEQUENCE = (0, None)"

definition range_violation :: "int \<Rightarrow> int_range \<Rightarrow> bool" where
  "range_violation n bounds \<longleftrightarrow> n < fst bounds \<or> (case snd bounds of None \<Rightarrow> False | Some m \<Rightarrow> n > m)"

definition raw_integer :: "raw \<Rightarrow> int result" where
  "raw_integer v = (case v of
      RInt n \<Rightarrow> Inr n
    | RFloat x \<Rightarrow> if fl_finite x then (case fl_integer x of Some n \<Rightarrow> Inr n | None \<Rightarrow> Inl ValueError) else Inl ValueError
    | _ \<Rightarrow> Inl ValueError)"

definition bounded_json_integer :: "raw \<Rightarrow> int_range \<Rightarrow> int result" where
  "bounded_json_integer v bounds =
     bindE (raw_integer v) (\<lambda>n. if range_violation n bounds then Inl ValueError else Inr n)"

definition bounded_integer_field :: "int \<Rightarrow> int_range \<Rightarrow> int result" where
  "bounded_integer_field n bounds = (if range_violation n bounds then Inl CodecError else Inr n)"

definition ratio_violation :: "py_library \<Rightarrow> ratio_value \<Rightarrow> bool" where
  "ratio_violation L v = (case v of
      RatioInt n \<Rightarrow> n < 0 \<or> n > 1
    | RatioFloat x \<Rightarrow> \<not> fl_finite x \<or> lib_float_value L x < 0 \<or> lib_float_value L x > 1)"

definition ratio_float :: "py_library \<Rightarrow> ratio_value \<Rightarrow> py_float" where
  "ratio_float L v = (case v of RatioInt n \<Rightarrow> lib_float_of_int L n | RatioFloat x \<Rightarrow> x)"

definition bounded_json_ratio :: "py_library \<Rightarrow> raw \<Rightarrow> py_float result" where
  "bounded_json_ratio L v = (case v of
      RInt n \<Rightarrow> if ratio_violation L (RatioInt n) then Inl ValueError else Inr (ratio_float L (RatioInt n))
    | RFloat x \<Rightarrow> if ratio_violation L (RatioFloat x) then Inl ValueError else Inr (ratio_float L (RatioFloat x))
    | _ \<Rightarrow> Inl ValueError)"

definition bounded_ratio_field :: "py_library \<Rightarrow> ratio_value \<Rightarrow> py_float result" where
  "bounded_ratio_field L v = (if ratio_violation L v then Inl CodecError else Inr (ratio_float L v))"

text \<open>\<open>int()\<close> on ASCII digits, under the interpreter's limit on their number.\<close>

definition decimal_string :: "raw \<Rightarrow> int result" where
  "decimal_string v = (case v of
      RStr s \<Rightarrow> if s \<noteq> [] \<and> list_all (\<lambda>c. 48 \<le> c \<and> c \<le> 57) s \<and> length s \<le> INT_STR_DIGITS
               then Inr (foldl (\<lambda>n c. 10 * n + (c - 48)) 0 s) else Inl ValueError
    | _ \<Rightarrow> Inl ValueError)"

definition encode_capacity :: "int \<Rightarrow> pystr result" where
  "encode_capacity n = (if n < 0 then Inl CodecError
     else if length (nat_text (nat n)) > INT_STR_DIGITS then Inl CodecError else Inr (nat_text (nat n)))"

definition to_utc :: "py_library \<Rightarrow> py_datetime \<Rightarrow> int result" where
  "to_utc L d = (case dt_offset d of
      None \<Rightarrow> Inr (dt_micros d)
    | Some off \<Rightarrow>
        let t = dt_micros d - off in
        if t < lib_min_micros L \<or> t > lib_max_micros L then Inl CodecError else Inr t)"

definition utc :: "int \<Rightarrow> py_datetime" where
  "utc t = \<lparr>dt_micros = t, dt_offset = Some 0\<rparr>"

definition format_timestamp :: "py_library \<Rightarrow> py_datetime \<Rightarrow> json result" where
  "format_timestamp L d = bindE (to_utc L d) (\<lambda>t. Inr (JStr (lib_isoformat_z L t)))"

definition parse_timestamp :: "py_library \<Rightarrow> raw \<Rightarrow> py_datetime result" where
  "parse_timestamp L v = (case v of
      RStr s \<Rightarrow> (case lib_fromisoformat L s of
          None \<Rightarrow> Inl CodecError
        | Some d \<Rightarrow> bindE (to_utc L d) (\<lambda>t. Inr (utc t)))
    | _ \<Rightarrow> Inl CodecError)"

type_synonym raw_object = "(raw_key \<times> raw) list"

definition field :: "raw_object \<Rightarrow> string \<Rightarrow> raw option" where
  "field data k = map_of data (KStr (py_lit k))"

definition require :: "raw_object \<Rightarrow> string \<Rightarrow> raw result" where
  "require data k = (case field data k of None \<Rightarrow> Inl CodecError | Some v \<Rightarrow> Inr v)"

definition parse_address :: "py_library \<Rightarrow> pystr \<Rightarrow> address result" where
  "parse_address L s = (case lib_ip_parse L s of None \<Rightarrow> Inl InvalidAddressError | Some a \<Rightarrow> mk_address (addr_family a) (addr_value a))"

text \<open>The \<open>except\<close> clauses: the named exceptions become a \<open>CodecError\<close>, any other passes through.\<close>

definition catch :: "py_error list \<Rightarrow> 'a result \<Rightarrow> 'a result" where
  "catch es m = (case m of Inl e \<Rightarrow> if e \<in> set es then Inl CodecError else Inl e | Inr x \<Rightarrow> Inr x)"

section \<open>Encoding\<close>

fun map_result :: "('a \<Rightarrow> 'b result) \<Rightarrow> 'a list \<Rightarrow> 'b list result" where
  "map_result f [] = Inr []"
| "map_result f (x # xs) = bindE (f x) (\<lambda>y. bindE (map_result f xs) (\<lambda>ys. Inr (y # ys)))"

definition jkey :: "string \<Rightarrow> json \<Rightarrow> pystr \<times> json" where
  "jkey k v = (py_lit k, v)"

definition encode_observation :: "py_library \<Rightarrow> observation \<Rightarrow> json result" where
  "encode_observation L ob =
     bindE (bounded_integer_field (ob_request_count ob) OBSERVATION_REQUEST_COUNT) (\<lambda>n.
       Inr (JDict [jkey ''ip'' (JStr (lib_ip_text L (ob_ip ob))), jkey ''request_count'' (JInt n)]))"

definition encode_request_observation :: "py_library \<Rightarrow> request_observation \<Rightarrow> json result" where
  "encode_request_observation L p =
     bindE (bounded_integer_field (ro_sequence p) OBSERVATION_SEQUENCE) (\<lambda>n.
     bindE (format_timestamp L (ro_window_start p)) (\<lambda>start.
     bindE (bounded_integer_field (ro_window_seconds p) OBSERVATION_WINDOW_SECONDS) (\<lambda>secs.
     bindE (map_result (encode_observation L) (ro_observations p)) (\<lambda>obs.
       Inr (JDict [jkey ''agent_id'' (JStr (ro_agent_id p)), jkey ''sequence'' (JInt n), jkey ''window_start'' start,
                   jkey ''window_seconds'' (JInt secs), jkey ''observations'' (JList obs)])))))"

definition canonical_attributes :: "raw \<Rightarrow> (pystr \<times> json) list result" where
  "canonical_attributes a = (case canonicalize_ip_attributes a of
      Inr (copy, _) \<Rightarrow> Inr copy
    | Inl e \<Rightarrow> if e = InvalidAttributesError then Inl CodecError else Inl e)"

definition family_text :: "family \<Rightarrow> pystr" where
  "family_text f = (case f of IPV4 \<Rightarrow> py_lit ''ipv4'' | IPV6 \<Rightarrow> py_lit ''ipv6'')"

definition encode_hot_ip_event :: "py_library \<Rightarrow> pystr \<Rightarrow> hot_ip_event \<Rightarrow> json result" where
  "encode_hot_ip_event L event_type p =
     bindE (format_timestamp L (hi_timestamp p)) (\<lambda>ts.
     bindE (bounded_integer_field (hi_sequence p) HOT_IP_SEQUENCE) (\<lambda>n.
     bindE (bounded_integer_field (hi_window_count p) HOT_IP_WINDOW_COUNT) (\<lambda>count.
     bindE (bounded_integer_field (hi_config_version p) HOT_IP_CONFIG_VERSION) (\<lambda>version.
     bindE (case hi_attributes p of
              None \<Rightarrow> Inr []
            | Some a \<Rightarrow> bindE (canonical_attributes a) (\<lambda>copy. Inr [jkey ''attributes'' (JDict copy)])) (\<lambda>attrs.
       Inr (JDict ([jkey ''type'' (JStr event_type), jkey ''ip'' (JStr (lib_ip_text L (hi_ip p))),
                    jkey ''family'' (JStr (family_text (addr_family (hi_ip p)))), jkey ''timestamp'' ts,
                    jkey ''sequence'' (JInt n), jkey ''window_count'' (JInt count),
                    jkey ''config_version'' (JInt version)] @ attrs)))))))"

definition encode_prefix_stats_changed :: "py_library \<Rightarrow> prefix_stats_changed \<Rightarrow> json result" where
  "encode_prefix_stats_changed L p =
     bindE (bounded_integer_field (psc_hot_count p) PREFIX_STATS_HOT_COUNT) (\<lambda>hot.
     bindE (encode_capacity (psc_capacity p)) (\<lambda>cap.
     bindE (bounded_integer_field (psc_sequence p) PREFIX_STATS_SEQUENCE) (\<lambda>n.
     bindE (format_timestamp L (psc_timestamp p)) (\<lambda>ts.
     bindE (case psc_hot_ratio p of
              None \<Rightarrow> Inr []
            | Some r \<Rightarrow> bindE (bounded_ratio_field L r) (\<lambda>x. Inr [jkey ''hot_ratio'' (JFloat x)])) (\<lambda>ratio.
       Inr (JDict ([jkey ''prefix'' (JStr (psc_prefix p)), jkey ''hot_count'' (JInt hot), jkey ''capacity'' (JStr cap),
                    jkey ''sequence'' (JInt n), jkey ''timestamp'' ts] @ ratio)))))))"

definition encode_payload :: "py_library \<Rightarrow> pystr \<Rightarrow> event_payload \<Rightarrow> json result" where
  "encode_payload L event_type payload =
     (case payload of
        RequestObservation p \<Rightarrow> if event_type = T_OBSERVATION then encode_request_observation L p else Inl CodecError
      | HotIpAdded p \<Rightarrow> if event_type \<in> set HOT_IP_EVENT_TYPES then encode_hot_ip_event L event_type p else Inl CodecError
      | HotIpRemoved p \<Rightarrow> if event_type \<in> set HOT_IP_EVENT_TYPES then encode_hot_ip_event L event_type p else Inl CodecError
      | PrefixStatsChanged p \<Rightarrow> if event_type = T_PREFIX_STATS then encode_prefix_stats_changed L p else Inl CodecError)"

text \<open>What \<open>json.dumps\<close> with \<open>allow_nan=False\<close> can write: finite floats, and integers within the
  interpreter's digit limit.\<close>

fun dumps_ok :: "json \<Rightarrow> bool" where
  "dumps_ok (JInt n) = (length (nat_text (nat \<bar>n\<bar>)) \<le> INT_STR_DIGITS)"
| "dumps_ok (JFloat x) = fl_finite x"
| "dumps_ok (JList xs) = list_all dumps_ok xs"
| "dumps_ok (JDict es) = list_all (\<lambda>(k, x). dumps_ok x) es"
| "dumps_ok _ = True"

definition encode :: "py_library \<Rightarrow> event_envelope \<Rightarrow> json result" where
  "encode L e =
     (if env_event_type e \<notin> set KNOWN_EVENT_TYPES then Inl CodecError
      else if env_schema_version e \<noteq> SCHEMA_VERSION then Inl CodecError
      else bindE (format_timestamp L (env_timestamp e)) (\<lambda>ts.
           bindE (encode_payload L (env_event_type e) (env_payload e)) (\<lambda>payload.
             let document = JDict ([jkey ''schema_version'' (JInt (env_schema_version e)), jkey ''event_id'' (JStr (event_id L e)),
                   jkey ''agent_id'' (JStr (env_agent_id e)), jkey ''sequence'' (JInt (env_sequence e)),
                   jkey ''event_type'' (JStr (env_event_type e)), jkey ''config_version'' (JInt (env_config_version e)),
                   jkey ''timestamp'' ts, jkey ''payload'' payload] @
                   (case env_subject e of None \<Rightarrow> [] | Some s \<Rightarrow> [jkey ''subject'' (JStr s)]))
             in if dumps_ok document then Inr document else Inl CodecError)))"

section \<open>Decoding\<close>

definition decode_observation :: "py_library \<Rightarrow> raw \<Rightarrow> observation result" where
  "decode_observation L item = (case item of
      RDict d \<Rightarrow> catch [TypeError, ValueError, OverflowError, InvalidAddressError]
        (bindE (require d ''ip'') (\<lambda>ip.
         bindE (parse_address L (lib_str L ip)) (\<lambda>a.
         bindE (require d ''request_count'') (\<lambda>v.
         bindE (bounded_json_integer v OBSERVATION_REQUEST_COUNT) (\<lambda>n.
           Inr \<lparr>ob_ip = a, ob_request_count = n\<rparr>)))))
    | _ \<Rightarrow> Inl CodecError)"

definition decode_request_observation :: "py_library \<Rightarrow> raw_object \<Rightarrow> request_observation result" where
  "decode_request_observation L data =
     bindE (require data ''observations'') (\<lambda>raw_obs.
       case raw_obs of
         RList items \<Rightarrow>
           if int (length items) > MAX_OBSERVATIONS then Inl CodecError
           else bindE (map_result (decode_observation L) items) (\<lambda>obs.
             catch [TypeError, ValueError, OverflowError]
               (bindE (require data ''agent_id'') (\<lambda>agent.
                bindE (require data ''sequence'') (\<lambda>v.
                bindE (bounded_json_integer v OBSERVATION_SEQUENCE) (\<lambda>n.
                bindE (require data ''window_start'') (\<lambda>v.
                bindE (parse_timestamp L v) (\<lambda>start.
                bindE (require data ''window_seconds'') (\<lambda>v.
                bindE (bounded_json_integer v OBSERVATION_WINDOW_SECONDS) (\<lambda>secs.
                  Inr \<lparr>ro_agent_id = lib_str L agent, ro_sequence = n, ro_window_start = start,
                       ro_window_seconds = secs, ro_observations = obs\<rparr>)))))))))
       | _ \<Rightarrow> Inl CodecError)"

text \<open>What \<open>json.loads\<close> returns for a document \<open>json.dumps\<close> wrote.\<close>

fun raw_of_json :: "json \<Rightarrow> raw" where
  "raw_of_json JNull = RNull"
| "raw_of_json (JBool b) = RBool b"
| "raw_of_json (JInt n) = RInt n"
| "raw_of_json (JFloat x) = RFloat x"
| "raw_of_json (JStr s) = RStr s"
| "raw_of_json (JList xs) = RList (map raw_of_json xs)"
| "raw_of_json (JDict es) = RDict (map (\<lambda>(k, v). (KStr k, raw_of_json v)) es)"

definition decode_hot_ip_event :: "py_library \<Rightarrow> pystr \<Rightarrow> raw_object \<Rightarrow> event_payload result" where
  "decode_hot_ip_event L event_type data =
     bindE (catch [TypeError, ValueError, OverflowError, InvalidAddressError]
       (bindE (require data ''ip'') (\<lambda>ip.
        bindE (parse_address L (lib_str L ip)) (\<lambda>a.
        bindE (require data ''timestamp'') (\<lambda>v.
        bindE (parse_timestamp L v) (\<lambda>ts.
        bindE (require data ''sequence'') (\<lambda>v.
        bindE (bounded_json_integer v HOT_IP_SEQUENCE) (\<lambda>n.
        bindE (require data ''window_count'') (\<lambda>v.
        bindE (bounded_json_integer v HOT_IP_WINDOW_COUNT) (\<lambda>count.
        bindE (require data ''config_version'') (\<lambda>v.
        bindE (bounded_json_integer v HOT_IP_CONFIG_VERSION) (\<lambda>version.
          Inr (a, ts, n, count, version))))))))))))) (\<lambda>(a, ts, n, count, version).
     bindE (case field data ''attributes'' of
              None \<Rightarrow> Inr None
            | Some v \<Rightarrow> bindE (canonical_attributes v) (\<lambda>copy. Inr (Some (raw_of_json (JDict copy))))) (\<lambda>attrs.
       let p = \<lparr>hi_ip = a, hi_timestamp = ts, hi_sequence = n, hi_window_count = count, hi_config_version = version,
                hi_attributes = attrs\<rparr>
       in Inr (if event_type = T_ADDED then HotIpAdded p else HotIpRemoved p)))"

definition decode_prefix_stats_changed :: "py_library \<Rightarrow> raw_object \<Rightarrow> prefix_stats_changed result" where
  "decode_prefix_stats_changed L data =
     catch [TypeError, ValueError, OverflowError]
       (bindE (require data ''prefix'') (\<lambda>prefix.
        bindE (require data ''hot_count'') (\<lambda>v.
        bindE (bounded_json_integer v PREFIX_STATS_HOT_COUNT) (\<lambda>hot.
        bindE (require data ''capacity'') (\<lambda>v.
        bindE (decimal_string v) (\<lambda>cap.
        bindE (require data ''sequence'') (\<lambda>v.
        bindE (bounded_json_integer v PREFIX_STATS_SEQUENCE) (\<lambda>n.
        bindE (require data ''timestamp'') (\<lambda>v.
        bindE (parse_timestamp L v) (\<lambda>ts.
        bindE (case field data ''hot_ratio'' of
                 None \<Rightarrow> Inr None
               | Some v \<Rightarrow> bindE (bounded_json_ratio L v) (\<lambda>x. Inr (Some (RatioFloat x)))) (\<lambda>ratio.
          Inr \<lparr>psc_prefix = lib_str L prefix, psc_hot_count = hot, psc_capacity = cap, psc_sequence = n,
               psc_timestamp = ts, psc_hot_ratio = ratio\<rparr>)))))))))))"

definition decode_payload :: "py_library \<Rightarrow> pystr \<Rightarrow> raw_object \<Rightarrow> event_payload result" where
  "decode_payload L event_type data =
     (if event_type = T_OBSERVATION then bindE (decode_request_observation L data) (\<lambda>p. Inr (RequestObservation p))
      else if event_type \<in> set HOT_IP_EVENT_TYPES then decode_hot_ip_event L event_type data
      else if event_type = T_PREFIX_STATS then bindE (decode_prefix_stats_changed L data) (\<lambda>p. Inr (PrefixStatsChanged p))
      else Inl CodecError)"

definition decode_subject :: "raw_object \<Rightarrow> pystr option result" where
  "decode_subject d = (case field d ''subject'' of
      None \<Rightarrow> Inr None | Some RNull \<Rightarrow> Inr None | Some (RStr s) \<Rightarrow> Inr (Some s) | Some _ \<Rightarrow> Inl CodecError)"

definition decode_envelope :: "py_library \<Rightarrow> raw_object \<Rightarrow> int \<Rightarrow> pystr \<Rightarrow> raw_object \<Rightarrow> pystr option \<Rightarrow> event_envelope result" where
  "decode_envelope L d version event_type payload_data subject =
     catch [TypeError, ValueError, OverflowError]
       (bindE (require d ''agent_id'') (\<lambda>agent.
        bindE (require d ''sequence'') (\<lambda>v.
        bindE (raw_integer v) (\<lambda>n.
        bindE (require d ''config_version'') (\<lambda>v.
        bindE (raw_integer v) (\<lambda>config.
        bindE (require d ''timestamp'') (\<lambda>v.
        bindE (parse_timestamp L v) (\<lambda>ts.
        bindE (decode_payload L event_type payload_data) (\<lambda>payload.
          Inr \<lparr>env_agent_id = lib_str L agent, env_sequence = n, env_event_type = event_type,
               env_config_version = config, env_timestamp = ts, env_payload = payload,
               env_schema_version = version, env_subject = subject\<rparr>)))))))))"

definition decode :: "py_library \<Rightarrow> raw option \<Rightarrow> event_envelope result" where
  "decode L loaded =
     (case loaded of
        Some (RDict d) \<Rightarrow>
          bindE (catch [ValueError, OverflowError] (bindE (require d ''schema_version'') raw_integer)) (\<lambda>version.
          if version \<noteq> SCHEMA_VERSION then Inl CodecError
          else bindE (require d ''event_type'') (\<lambda>t.
            case t of
              RStr event_type \<Rightarrow>
                if event_type \<notin> set KNOWN_EVENT_TYPES then Inl CodecError
                else bindE (require d ''payload'') (\<lambda>pd.
                  case pd of
                    RDict payload_data \<Rightarrow>
                      bindE (require d ''event_id'') (\<lambda>wire_id.
                      bindE (decode_subject d) (\<lambda>subject.
                      bindE (decode_envelope L d version event_type payload_data subject) (\<lambda>e.
                        if event_id L e \<noteq> lib_str L wire_id then Inl CodecError else Inr e)))
                  | _ \<Rightarrow> Inl CodecError)
            | _ \<Rightarrow> Inl CodecError))
      | _ \<Rightarrow> Inl CodecError)"

end
