(* ===== verification/Event_Codec_Correct.thy ===== *)
theory Event_Codec_Correct
  imports Event_Codec
begin

text \<open>
  The two promises of the codec: whatever \<open>json.loads\<close> returned, \<open>decode\<close> raises nothing but
  \<open>CodecError\<close>, and what \<open>encode\<close> wrote \<open>decode\<close> reads back as the same event, its dates in UTC, its
  attributes in canonical form and its event id confirmed.
\<close>

section \<open>Which exceptions escape\<close>

definition raises :: "py_error set \<Rightarrow> 'a result \<Rightarrow> bool" where
  "raises S m \<longleftrightarrow> (\<forall>e. m = Inl e \<longrightarrow> e \<in> S)"

named_theorems raises_intros \<open>which exceptions an operation may raise\<close>

lemma raises_basic [raises_intros]:
  "raises S (Inr x)" "e \<in> S \<Longrightarrow> raises S (Inl e)"
  "raises S m \<Longrightarrow> (\<And>x. raises S (f x)) \<Longrightarrow> raises S (bindE m f)"
  "raises S m1 \<Longrightarrow> raises S m2 \<Longrightarrow> raises S (if b then m1 else m2)"
  by (auto simp: raises_def bindE_def split: sum.splits)

lemma raises_catch:
  "raises (insert CodecError (set es)) m \<Longrightarrow> raises {CodecError} (catch es m)"
  by (auto simp: raises_def catch_def split: sum.splits if_splits)

lemma catch_eq_Inr: "catch es m = Inr x \<longleftrightarrow> m = Inr x"
  by (auto simp: catch_def split: sum.splits if_splits)

lemma raises_mono: "raises S m \<Longrightarrow> S \<subseteq> T \<Longrightarrow> raises T m"
  by (auto simp: raises_def)

lemma raises_map_result [raises_intros]: "(\<And>x. raises S (f x)) \<Longrightarrow> raises S (map_result f xs)"
  by (induction xs) (auto intro!: raises_intros)

lemma raises_fields [raises_intros]:
  "raises {CodecError} (require d k)"
  "raises {CodecError} (to_utc L t)"
  "raises {CodecError} (parse_timestamp L v)"
  "raises {ValueError} (raw_integer v)"
  "raises {ValueError} (bounded_json_integer v b)"
  "raises {ValueError} (bounded_json_ratio L v)"
  "raises {ValueError} (decimal_string v)"
  "raises {InvalidAddressError} (parse_address L s)"
  by (auto simp: raises_def require_def to_utc_def Let_def parse_timestamp_def raw_integer_def bounded_json_integer_def
      bounded_json_ratio_def decimal_string_def parse_address_def mk_address_def bindE_def
      split: option.splits raw.splits if_splits sum.splits)

lemma read_raises:
  "raises {InvalidAttributesError} (read_value acc r)"
  "raises {InvalidAttributesError} (read_items acc rs)"
  "raises {InvalidAttributesError} (read_entries acc seen es)"
  by (induction acc r and acc rs and acc seen es rule: read_value_read_items_read_entries.induct)
     (auto simp: charge_def read_key_def split: raw_key.splits prod.splits intro!: raises_intros)

lemma raises_canonicalize: "raises {InvalidAttributesError} (canonicalize_ip_attributes a)"
proof -
  have "raises {InvalidAttributesError} (read_document a)"
    by (auto simp: read_document_def charge_def split: raw.splits prod.splits intro!: raises_intros read_raises)
  moreover have "raises {InvalidAttributesError} (check_version_and_registry d)" for d
    using check_version_result[of d] by (auto simp: raises_def)
  ultimately show ?thesis
    unfolding canonicalize_ip_attributes_def Let_def by (intro raises_intros) auto
qed

lemma raises_canonical [raises_intros]: "raises {CodecError} (canonical_attributes a)"
  using raises_canonicalize[of a] by (auto simp: raises_def canonical_attributes_def split: sum.splits)

lemma raises_payload [raises_intros]: "raises {CodecError} (decode_payload L t d)"
proof -
  note weak = raises_intros raises_fields[THEN raises_mono]
  have "raises {CodecError} (decode_observation L item)" for item
    by (auto simp: decode_observation_def split: raw.splits intro!: raises_catch weak)
  then have "raises {CodecError} (decode_request_observation L d)"
    by (auto simp: decode_request_observation_def split: raw.splits intro!: raises_catch weak)
  moreover have "raises {CodecError} (decode_hot_ip_event L t d)"
    by (auto simp: decode_hot_ip_event_def Let_def split: option.splits prod.splits intro!: raises_catch weak)
  moreover have "raises {CodecError} (decode_prefix_stats_changed L d)"
    by (auto simp: decode_prefix_stats_changed_def split: option.splits intro!: raises_catch weak)
  ultimately show ?thesis by (auto simp: decode_payload_def intro!: raises_intros)
qed

lemma raises_decode: "raises {CodecError} (decode L r)"
proof -
  note weak = raises_intros raises_fields[THEN raises_mono] raises_payload[THEN raises_mono]
  have "raises {CodecError} (decode_envelope L d v t pd s)" for d v t pd s
    by (auto simp: decode_envelope_def intro!: raises_catch weak)
  then show ?thesis
    by (auto simp: decode_def decode_subject_def split: option.splits raw.splits intro!: raises_catch weak)
qed

section \<open>Reading back what was written\<close>

lemma py_lit_eq [simp]: "py_lit a = py_lit b \<longleftrightarrow> a = b"
proof -
  have "inj (of_char :: char \<Rightarrow> int)"
  proof (rule injI)
    fix c d :: char assume "(of_char c :: int) = of_char d"
    then have "int (of_char c) = int (of_char d)" by (simp only: of_nat_of_char)
    then show "c = d" by simp
  qed
  then show ?thesis by (simp add: py_lit_def inj_map_eq_map)
qed

lemma field_object [simp]:
  "field [] k = None" "field (map (\<lambda>(k, v). (KStr k, raw_of_json v)) []) k = None"
  "field (map (\<lambda>(k, v). (KStr k, raw_of_json v)) (jkey k' v # es)) k =
     (if k' = k then Some (raw_of_json v) else field (map (\<lambda>(k, v). (KStr k, raw_of_json v)) es) k)"
  by (auto simp: field_def jkey_def)

abbreviation obj :: "(pystr \<times> json) list \<Rightarrow> raw_object" where
  "obj es \<equiv> map (\<lambda>(k, v). (KStr k, raw_of_json v)) es"

lemma field_append: "field (obj (es @ fs)) k = (case field (obj es) k of None \<Rightarrow> field (obj fs) k | Some v \<Rightarrow> Some v)"
  by (simp add: field_def map_add_def split: option.split)

lemma copy_again:
  "copy_value r = Some j \<Longrightarrow> copy_value (raw_of_json j) = Some j"
  "copy_items rs = Some js \<Longrightarrow> copy_items (map raw_of_json js) = Some js"
  "copy_entries seen es = Some ds \<Longrightarrow> copy_entries seen (obj ds) = Some ds"
  by (induction r and rs and seen es arbitrary: j and js and ds rule: copy_value_copy_items_copy_entries.induct)
     (auto split: if_splits raw_key.splits simp: bind_eq_Some_conv)

lemma raw_ok_of_json: "json_ok j \<Longrightarrow> raw_ok (raw_of_json j)"
  by (induction j) (auto simp: list_all_iff)

lemma canonical_again:
  assumes "raw_ok a" "canonical_attributes a = Inr copy"
  shows "canonical_attributes (raw_of_json (JDict copy)) = Inr copy"
proof -
  have c: "copy_value a = Some (JDict copy)" "spec_canonicalize a = Some (copy, json_text (JDict copy))"
    using assms canonicalize_spec[OF assms(1)]
    by (auto simp: canonical_attributes_def spec_canonicalize_def simp del: json_text.simps
        split: sum.splits option.splits json.splits if_splits)
  then have again: "copy_value (raw_of_json (JDict copy)) = Some (JDict copy)" using copy_again(1) by blast
  then have "spec_canonicalize (raw_of_json (JDict copy)) = Some (copy, json_text (JDict copy))"
    using c unfolding spec_canonicalize_def by (simp del: raw_of_json.simps)
  moreover have "raw_ok (raw_of_json (JDict copy))" using raw_ok_of_json copy_ok(1)[OF assms(1) c(1)] by blast
  ultimately show ?thesis using canonicalize_spec by (simp add: canonical_attributes_def del: raw_of_json.simps)
qed

section \<open>The event a document stands for\<close>

definition utc_of :: "py_library \<Rightarrow> py_datetime \<Rightarrow> py_datetime" where
  "utc_of L d = (case to_utc L d of Inr t \<Rightarrow> utc t | Inl _ \<Rightarrow> d)"

definition canon_attributes :: "raw \<Rightarrow> raw" where
  "canon_attributes a = (case canonical_attributes a of Inr copy \<Rightarrow> raw_of_json (JDict copy) | Inl _ \<Rightarrow> a)"

definition canon_hot_ip :: "py_library \<Rightarrow> hot_ip_event \<Rightarrow> hot_ip_event" where
  "canon_hot_ip L p = p\<lparr>hi_timestamp := utc_of L (hi_timestamp p), hi_attributes := map_option canon_attributes (hi_attributes p)\<rparr>"

definition canon_payload :: "py_library \<Rightarrow> pystr \<Rightarrow> event_payload \<Rightarrow> event_payload" where
  "canon_payload L event_type payload = (case payload of
      RequestObservation p \<Rightarrow> RequestObservation (p\<lparr>ro_window_start := utc_of L (ro_window_start p)\<rparr>)
    | HotIpAdded p \<Rightarrow> (if event_type = T_ADDED then HotIpAdded else HotIpRemoved) (canon_hot_ip L p)
    | HotIpRemoved p \<Rightarrow> (if event_type = T_ADDED then HotIpAdded else HotIpRemoved) (canon_hot_ip L p)
    | PrefixStatsChanged p \<Rightarrow> PrefixStatsChanged (p\<lparr>psc_timestamp := utc_of L (psc_timestamp p),
        psc_hot_ratio := map_option (\<lambda>r. RatioFloat (ratio_float L r)) (psc_hot_ratio p)\<rparr>))"

definition canon_envelope :: "py_library \<Rightarrow> event_envelope \<Rightarrow> event_envelope" where
  "canon_envelope L e = e\<lparr>env_timestamp := utc_of L (env_timestamp e),
     env_payload := canon_payload L (env_event_type e) (env_payload e)\<rparr>"

text \<open>What the Python types guarantee of an envelope: dates within the representable years, valid
  addresses, attribute floats with a text; and no more observations than a message may carry.\<close>

definition date_ok :: "py_library \<Rightarrow> py_datetime \<Rightarrow> bool" where
  "date_ok L d \<longleftrightarrow> lib_min_micros L \<le> dt_micros d \<and> dt_micros d \<le> lib_max_micros L"

text \<open>\<open>datetime.fromisoformat\<close> returns dates of the representable years.\<close>

definition dates_ok :: "py_library \<Rightarrow> bool" where
  "dates_ok L \<longleftrightarrow> (\<forall>s d. lib_fromisoformat L s = Some d \<longrightarrow> date_ok L d)"

definition hot_ip_ok :: "py_library \<Rightarrow> hot_ip_event \<Rightarrow> bool" where
  "hot_ip_ok L p \<longleftrightarrow> date_ok L (hi_timestamp p) \<and> valid_address (hi_ip p) \<and>
     (case hi_attributes p of None \<Rightarrow> True | Some a \<Rightarrow> raw_ok a)"

definition payload_ok :: "py_library \<Rightarrow> event_payload \<Rightarrow> bool" where
  "payload_ok L payload = (case payload of
      RequestObservation p \<Rightarrow> date_ok L (ro_window_start p) \<and> list_all (\<lambda>ob. valid_address (ob_ip ob)) (ro_observations p) \<and>
        int (length (ro_observations p)) \<le> MAX_OBSERVATIONS
    | HotIpAdded p \<Rightarrow> hot_ip_ok L p
    | HotIpRemoved p \<Rightarrow> hot_ip_ok L p
    | PrefixStatsChanged p \<Rightarrow> date_ok L (psc_timestamp p))"

lemma timestamp_roundtrip:
  assumes "library_ok L" "date_ok L d" "format_timestamp L d = Inr j"
  shows "parse_timestamp L (raw_of_json j) = Inr (utc_of L d)"
proof -
  obtain t where t: "to_utc L d = Inr t" "j = JStr (lib_isoformat_z L t)"
    using assms(3) by (auto simp: format_timestamp_def bindE_eq_Inr)
  have r: "lib_min_micros L \<le> t" "t \<le> lib_max_micros L"
    using t(1) assms(2) by (auto simp: to_utc_def date_ok_def Let_def split: option.splits if_splits)
  then have "lib_fromisoformat L (lib_isoformat_z L t) = Some \<lparr>dt_micros = t, dt_offset = Some 0\<rparr>"
    using assms(1) by (simp add: library_ok_def)
  then show ?thesis using t r by (simp add: parse_timestamp_def to_utc_def utc_of_def utc_def)
qed

lemma address_roundtrip:
  assumes "library_ok L" "valid_address a"
  shows "parse_address L (lib_str L (RStr (lib_ip_text L a))) = Inr a"
  using assms by (simp add: library_ok_def parse_address_def mk_address_def valid_address_def)

lemma nat_text_read:
  "foldl (\<lambda>n c. 10 * n + (c - 48)) 0 (nat_text n) = int n \<and> list_all (\<lambda>c. 48 \<le> c \<and> c \<le> 57) (nat_text n) \<and> nat_text n \<noteq> []"
proof (induction n rule: nat_text.induct)
  case (1 n)
  show ?case
  proof (cases "n < 10")
    case False
    with 1 have "foldl (\<lambda>n c. 10 * n + (c - 48)) 0 (nat_text (n div 10)) = int (n div 10)"
      "list_all (\<lambda>c. 48 \<le> c \<and> c \<le> 57) (nat_text (n div 10))" by blast+
    moreover have "10 * int (n div 10) + int (n mod 10) = int n" by (metis mult_div_mod_eq of_nat_add of_nat_mult of_nat_numeral)
    ultimately show ?thesis using False by (simp add: nat_text.simps[of n] zmod_int zdiv_int)
  qed (simp add: nat_text.simps[of n])
qed

lemma capacity_roundtrip: "encode_capacity n = Inr s \<Longrightarrow> decimal_string (RStr s) = Inr n"
  using nat_text_read[of "nat n"] by (auto simp: encode_capacity_def decimal_string_def split: if_splits)

lemma bounded_roundtrip: "bounded_integer_field n b = Inr m \<Longrightarrow> m = n \<and> bounded_json_integer (RInt n) b = Inr n"
  by (simp add: bounded_integer_field_def bounded_json_integer_def raw_integer_def split: if_splits)

lemma observation_roundtrip:
  assumes "library_ok L" "list_all (\<lambda>ob. valid_address (ob_ip ob)) obs" "map_result (encode_observation L) obs = Inr js"
  shows "map_result (decode_observation L) (map raw_of_json js) = Inr obs \<and> length js = length obs"
  using assms(2,3)
proof (induction obs arbitrary: js)
  case (Cons ob obs)
  then obtain j js' where js: "encode_observation L ob = Inr j" "map_result (encode_observation L) obs = Inr js'" "js = j # js'"
    by (auto simp: bindE_eq_Inr)
  then obtain n where n: "bounded_integer_field (ob_request_count ob) OBSERVATION_REQUEST_COUNT = Inr n"
    "j = JDict [jkey ''ip'' (JStr (lib_ip_text L (ob_ip ob))), jkey ''request_count'' (JInt n)]"
    by (auto simp: encode_observation_def bindE_eq_Inr)
  have "decode_observation L (raw_of_json j) = Inr ob"
    using bounded_roundtrip[OF n(1)] address_roundtrip[OF assms(1), of "ob_ip ob"] Cons.prems(1)
    by (simp add: n(2) decode_observation_def require_def catch_def del: list.map)
  with Cons js show ?case by simp
qed simp

lemma request_observation_roundtrip:
  assumes "library_ok L" "payload_ok L (RequestObservation p)" "encode_request_observation L p = Inr doc"
  shows "\<exists>es. doc = JDict es \<and> decode_request_observation L (obj es) = Inr (p\<lparr>ro_window_start := utc_of L (ro_window_start p)\<rparr>)"
proof -
  obtain n start secs obs where f: "bounded_integer_field (ro_sequence p) OBSERVATION_SEQUENCE = Inr n"
    "format_timestamp L (ro_window_start p) = Inr start"
    "bounded_integer_field (ro_window_seconds p) OBSERVATION_WINDOW_SECONDS = Inr secs"
    "map_result (encode_observation L) (ro_observations p) = Inr obs"
    and doc: "doc = JDict [jkey ''agent_id'' (JStr (ro_agent_id p)), jkey ''sequence'' (JInt n), jkey ''window_start'' start,
                   jkey ''window_seconds'' (JInt secs), jkey ''observations'' (JList obs)]"
    using assms(3) by (auto simp: encode_request_observation_def bindE_eq_Inr)
  have "date_ok L (ro_window_start p)" and obs: "list_all (\<lambda>ob. valid_address (ob_ip ob)) (ro_observations p)"
    "int (length (ro_observations p)) \<le> MAX_OBSERVATIONS"
    using assms(2) by (simp_all add: payload_ok_def)
  moreover have "lib_str L (RStr s) = s" for s using assms(1) by (simp add: library_ok_def)
  ultimately show ?thesis
    using bounded_roundtrip[OF f(1)] bounded_roundtrip[OF f(3)] timestamp_roundtrip[OF assms(1) _ f(2)]
      observation_roundtrip[OF assms(1) obs(1) f(4)]
    by (simp add: doc decode_request_observation_def require_def catch_def del: list.map)
qed

lemma hot_ip_roundtrip:
  assumes "library_ok L" "hot_ip_ok L p" "encode_hot_ip_event L t p = Inr doc"
  shows "\<exists>es. doc = JDict es \<and> decode_hot_ip_event L t' (obj es) =
    Inr ((if t' = T_ADDED then HotIpAdded else HotIpRemoved) (canon_hot_ip L p))"
proof -
  obtain ts n count version attrs where f: "format_timestamp L (hi_timestamp p) = Inr ts"
    "bounded_integer_field (hi_sequence p) HOT_IP_SEQUENCE = Inr n"
    "bounded_integer_field (hi_window_count p) HOT_IP_WINDOW_COUNT = Inr count"
    "bounded_integer_field (hi_config_version p) HOT_IP_CONFIG_VERSION = Inr version"
    and attrs: "(case hi_attributes p of None \<Rightarrow> Inr []
            | Some a \<Rightarrow> bindE (canonical_attributes a) (\<lambda>copy. Inr [jkey ''attributes'' (JDict copy)])) = Inr attrs"
    and doc: "doc = JDict ([jkey ''type'' (JStr t), jkey ''ip'' (JStr (lib_ip_text L (hi_ip p))),
                    jkey ''family'' (JStr (family_text (addr_family (hi_ip p)))), jkey ''timestamp'' ts,
                    jkey ''sequence'' (JInt n), jkey ''window_count'' (JInt count),
                    jkey ''config_version'' (JInt version)] @ attrs)"
    using assms(3) by (auto simp: encode_hot_ip_event_def bindE_eq_Inr)
  have attr: "(case field (obj attrs) ''attributes'' of None \<Rightarrow> Inr None
      | Some v \<Rightarrow> bindE (canonical_attributes v) (\<lambda>copy. Inr (Some (raw_of_json (JDict copy))))) =
      Inr (map_option canon_attributes (hi_attributes p))"
  proof (cases "hi_attributes p")
    case None
    then show ?thesis using attrs by simp
  next
    case (Some a)
    then obtain copy where "canonical_attributes a = Inr copy" "attrs = [jkey ''attributes'' (JDict copy)]"
      using attrs by (auto simp: bindE_eq_Inr)
    moreover have "raw_ok a" using assms(2) Some by (simp add: hot_ip_ok_def)
    ultimately show ?thesis
      using canonical_again[of a copy] Some by (simp add: canon_attributes_def del: raw_of_json.simps list.map)
  qed
  have "date_ok L (hi_timestamp p)" "valid_address (hi_ip p)" using assms(2) by (simp_all add: hot_ip_ok_def)
  then show ?thesis
    using bounded_roundtrip[OF f(2)] bounded_roundtrip[OF f(3)] bounded_roundtrip[OF f(4)] timestamp_roundtrip[OF assms(1) _ f(1)]
      address_roundtrip[OF assms(1), of "hi_ip p"] attr
    by (simp add: doc decode_hot_ip_event_def require_def catch_def canon_hot_ip_def Let_def del: list.map)
qed

lemma ratio_roundtrip:
  assumes "library_ok L" "bounded_ratio_field L r = Inr x"
  shows "x = ratio_float L r \<and> bounded_json_ratio L (RFloat x) = Inr (ratio_float L r)"
  using assms by (cases r) (auto simp: library_ok_def bounded_ratio_field_def bounded_json_ratio_def ratio_violation_def
      ratio_float_def split: if_splits)

lemma prefix_stats_roundtrip:
  assumes "library_ok L" "date_ok L (psc_timestamp p)" "encode_prefix_stats_changed L p = Inr doc"
  shows "\<exists>es. doc = JDict es \<and> decode_prefix_stats_changed L (obj es) = Inr (p\<lparr>psc_timestamp := utc_of L (psc_timestamp p),
    psc_hot_ratio := map_option (\<lambda>r. RatioFloat (ratio_float L r)) (psc_hot_ratio p)\<rparr>)"
proof -
  obtain hot cap n ts ratio where f: "bounded_integer_field (psc_hot_count p) PREFIX_STATS_HOT_COUNT = Inr hot"
    "encode_capacity (psc_capacity p) = Inr cap" "bounded_integer_field (psc_sequence p) PREFIX_STATS_SEQUENCE = Inr n"
    "format_timestamp L (psc_timestamp p) = Inr ts"
    and ratio: "(case psc_hot_ratio p of None \<Rightarrow> Inr []
            | Some r \<Rightarrow> bindE (bounded_ratio_field L r) (\<lambda>x. Inr [jkey ''hot_ratio'' (JFloat x)])) = Inr ratio"
    and doc: "doc = JDict ([jkey ''prefix'' (JStr (psc_prefix p)), jkey ''hot_count'' (JInt hot), jkey ''capacity'' (JStr cap),
                    jkey ''sequence'' (JInt n), jkey ''timestamp'' ts] @ ratio)"
    using assms(3) by (auto simp: encode_prefix_stats_changed_def bindE_eq_Inr)
  have r: "(case field (obj ratio) ''hot_ratio'' of None \<Rightarrow> Inr None
      | Some v \<Rightarrow> bindE (bounded_json_ratio L v) (\<lambda>x. Inr (Some (RatioFloat x)))) =
      Inr (map_option (\<lambda>r. RatioFloat (ratio_float L r)) (psc_hot_ratio p))"
    using ratio ratio_roundtrip[OF assms(1)] by (cases "psc_hot_ratio p") (auto simp: bindE_eq_Inr simp del: list.map)
  have "lib_str L (RStr s) = s" for s using assms(1) by (simp add: library_ok_def)
  then show ?thesis
    using bounded_roundtrip[OF f(1)] bounded_roundtrip[OF f(3)] capacity_roundtrip[OF f(2)]
      timestamp_roundtrip[OF assms(1,2) f(4)] r
    by (simp add: doc decode_prefix_stats_changed_def require_def catch_def del: list.map)
qed

lemma payload_roundtrip:
  assumes "library_ok L" "payload_ok L payload" "encode_payload L t payload = Inr doc"
  shows "\<exists>es. doc = JDict es \<and> decode_payload L t (obj es) = Inr (canon_payload L t payload)"
proof -
  have ne: "T_OBSERVATION \<noteq> T_ADDED" "T_OBSERVATION \<noteq> T_REMOVED" "T_PREFIX_STATS \<noteq> T_OBSERVATION"
    "T_PREFIX_STATS \<noteq> T_ADDED" "T_PREFIX_STATS \<noteq> T_REMOVED"
    by (simp_all add: T_OBSERVATION_def T_ADDED_def T_REMOVED_def T_PREFIX_STATS_def)
  show ?thesis
  proof (cases payload)
    case (RequestObservation p)
    then show ?thesis
      using assms request_observation_roundtrip[of L p doc] ne
      by (auto simp: encode_payload_def decode_payload_def canon_payload_def split: if_splits)
  next
    case (HotIpAdded p)
    then show ?thesis
      using assms hot_ip_roundtrip[of L p t doc t] ne
      by (auto simp: encode_payload_def decode_payload_def canon_payload_def payload_ok_def HOT_IP_EVENT_TYPES_def split: if_splits)
  next
    case (HotIpRemoved p)
    then show ?thesis
      using assms hot_ip_roundtrip[of L p t doc t] ne
      by (auto simp: encode_payload_def decode_payload_def canon_payload_def payload_ok_def HOT_IP_EVENT_TYPES_def split: if_splits)
  next
    case (PrefixStatsChanged p)
    then show ?thesis
      using assms prefix_stats_roundtrip[of L p doc] ne
      by (auto simp: encode_payload_def decode_payload_def canon_payload_def payload_ok_def HOT_IP_EVENT_TYPES_def split: if_splits)
  qed
qed

lemma encode_decode:
  assumes lib: "library_ok L" and ok: "date_ok L (env_timestamp e)" "payload_ok L (env_payload e)" and enc: "encode L e = Inr doc"
  shows "decode L (Some (raw_of_json doc)) = Inr (canon_envelope L e)"
proof -
  obtain ts payload where known: "env_event_type e \<in> set KNOWN_EVENT_TYPES" and version: "env_schema_version e = SCHEMA_VERSION"
    and f: "format_timestamp L (env_timestamp e) = Inr ts" "encode_payload L (env_event_type e) (env_payload e) = Inr payload"
    and doc: "doc = JDict ([jkey ''schema_version'' (JInt (env_schema_version e)), jkey ''event_id'' (JStr (event_id L e)),
                   jkey ''agent_id'' (JStr (env_agent_id e)), jkey ''sequence'' (JInt (env_sequence e)),
                   jkey ''event_type'' (JStr (env_event_type e)), jkey ''config_version'' (JInt (env_config_version e)),
                   jkey ''timestamp'' ts, jkey ''payload'' payload] @
                   (case env_subject e of None \<Rightarrow> [] | Some s \<Rightarrow> [jkey ''subject'' (JStr s)]))"
    using enc by (auto simp: encode_def bindE_eq_Inr Let_def split: if_splits)
  obtain es where es: "payload = JDict es" "decode_payload L (env_event_type e) (obj es) = Inr (canon_payload L (env_event_type e) (env_payload e))"
    using payload_roundtrip[OF lib ok(2) f(2)] by blast
  have str: "lib_str L (RStr s) = s" for s using lib by (simp add: library_ok_def)
  have subj: "decode_subject (obj (case env_subject e of None \<Rightarrow> [] | Some s \<Rightarrow> [jkey ''subject'' (JStr s)])) = Inr (env_subject e)"
    by (cases "env_subject e") (simp_all add: decode_subject_def del: list.map)
  show ?thesis
    using known version es subj timestamp_roundtrip[OF lib ok(1) f(1)] str
    by (simp add: doc decode_def decode_envelope_def decode_subject_def require_def catch_def raw_integer_def SCHEMA_VERSION_def
        canon_envelope_def event_id_def del: list.map)
qed

lemma decode_envelope_result:
  "decode_envelope L d version t pd s = Inr e \<Longrightarrow> env_schema_version e = version \<and> env_event_type e = t"
  by (auto simp: decode_envelope_def catch_def bindE_eq_Inr split: sum.splits if_splits)

lemma decode_from_envelope:
  assumes "decode L loaded = Inr e"
  shows "\<exists>d t pd s. decode_envelope L d SCHEMA_VERSION t pd s = Inr e \<and> t \<in> set KNOWN_EVENT_TYPES"
proof -
  define Q where "Q m \<longleftrightarrow> (\<forall>e. m = Inr e \<longrightarrow> (\<exists>d t pd s. decode_envelope L d SCHEMA_VERSION t pd s = Inr e \<and> t \<in> set KNOWN_EVENT_TYPES))"
    for m :: "event_envelope result"
  have "(\<And>x. Q (f x)) \<Longrightarrow> Q (bindE m f)" for m :: "'x result" and f by (auto simp: Q_def bindE_eq_Inr)
  note bind = this
  have err: "Q (Inl x)" for x by (simp add: Q_def)
  have env: "Q (bindE (decode_envelope L d v t pd s) (\<lambda>e. if event_id L e \<noteq> i then Inl CodecError else Inr e))"
    if "v = SCHEMA_VERSION" "t \<in> set KNOWN_EVENT_TYPES" for d v t pd s i
    using that unfolding Q_def bindE_eq_Inr by (auto split: if_splits)
  have "Q (decode L loaded)"
    unfolding decode_def by (split option.split raw.split if_split | rule env err bind conjI impI allI | simp)+
  then show ?thesis using assms unfolding Q_def by blast
qed

lemma decode_result:
  "decode L loaded = Inr e \<Longrightarrow> env_schema_version e = SCHEMA_VERSION \<and> env_event_type e \<in> set KNOWN_EVENT_TYPES"
  using decode_from_envelope[of L loaded e] decode_envelope_result by blast

section \<open>Properties\<close>

text \<open>C27: A poison message cannot stop a consumer: whatever value \<open>json.loads\<close> returned, or if it raised,
  \<open>decode\<close> either returns an envelope or raises \<open>CodecError\<close>; no \<open>KeyError\<close>, \<open>TypeError\<close>, \<open>ValueError\<close>,
  \<open>OverflowError\<close>, \<open>InvalidAddressError\<close> or \<open>InvalidAttributesError\<close> escapes.\<close>

theorem decode_only_codec_error:
  "decode L loaded = Inl CodecError \<or> (\<exists>e. decode L loaded = Inr e \<and>
     env_schema_version e = 1 \<and> env_event_type e \<in> set KNOWN_EVENT_TYPES)"
proof (cases "decode L loaded")
  case (Inl e)
  then show ?thesis using raises_decode[of L loaded] by (simp add: raises_def)
next
  case (Inr e)
  then show ?thesis using decode_result[OF Inr] by (simp add: SCHEMA_VERSION_def)
qed


text \<open>A library with decimal texts, on which a concrete event is sent.\<close>

definition read_digits :: "pystr \<Rightarrow> int" where
  "read_digits s = foldl (\<lambda>n c. 10 * n + (c - 48)) 0 s"

definition sample_library :: py_library where
  "sample_library = \<lparr>lib_isoformat_z = (\<lambda>t. nat_text (nat t)),
     lib_fromisoformat = (\<lambda>s. if read_digits s < 0 \<or> read_digits s > 253402300799999999 then None
       else Some \<lparr>dt_micros = read_digits s, dt_offset = Some 0\<rparr>),
     lib_ip_text = (\<lambda>a. (if addr_family a = IPV4 then 52 else 54) # nat_text (nat (addr_value a))),
     lib_ip_parse = (\<lambda>s. case s of [] \<Rightarrow> None | c # ds \<Rightarrow> Some \<lparr>addr_family = (if c = 52 then IPV4 else IPV6), addr_value = read_digits ds\<rparr>),
     lib_sha256_hex = (\<lambda>s. s), lib_str = (\<lambda>v. case v of RStr s \<Rightarrow> s | _ \<Rightarrow> []),
     lib_float_value = (\<lambda>x. case fl_integer x of Some n \<Rightarrow> of_int n | None \<Rightarrow> 0),
     lib_float_of_int = (\<lambda>n. PyFloat True (int_text n) (Some n)),
     lib_min_micros = 0, lib_max_micros = 253402300799999999\<rparr>"

lemma sample_library_ok: "library_ok sample_library"
proof -
  have "\<lparr>addr_family = IPV6, addr_value = addr_value a\<rparr> = a" if "addr_family a \<noteq> IPV4" for a :: address
    using that by (cases a; cases "addr_family a") simp_all
  then show ?thesis
    using nat_text_read by (auto simp: library_ok_def sample_library_def read_digits_def valid_address_def)
qed

lemma sample_dates_ok: "dates_ok sample_library"
  by (auto simp: dates_ok_def date_ok_def sample_library_def)

definition sample_event :: event_envelope where
  "sample_event = \<lparr>env_agent_id = py_lit ''aggregator-shard-3'', env_sequence = 7, env_event_type = T_REMOVED, env_config_version = 1,
     env_timestamp = \<lparr>dt_micros = 90, dt_offset = Some 20\<rparr>,
     env_payload = HotIpRemoved \<lparr>hi_ip = \<lparr>addr_family = IPV4, addr_value = 5\<rparr>, hi_timestamp = \<lparr>dt_micros = 90, dt_offset = None\<rparr>,
       hi_sequence = 7, hi_window_count = 3, hi_config_version = 1, hi_attributes = None\<rparr>,
     env_schema_version = 1, env_subject = Some (py_lit ''5'')\<rparr>"


end
