(* ===== verification/Transition_Emitter.thy ===== *)
theory Transition_Emitter
  imports Shard_Window_Theorems Shard_State_Store Event_Codec_Correct Bus_Topics Memory_Bus
begin

text \<open>
  Announcing HOT/COLD edges: \<open>hammertime.aggregator.transitions\<close> with the attribute document of
  \<open>hammertime.core.state.weight\<close>, and the re-evaluation pass \<open>hammertime.aggregator.reevaluate\<close>. The
  emitter works against any state store and any producer, given as records of operations that may
  fail; the contracts it relies on are the locales \<open>shard_state_store\<close> and \<open>producer\<close>. Metrics, logging
  and the yields to the event loop are not modelled: the worker's lock serialises every call.
\<close>

section \<open>The producer protocol\<close>

text \<open>A message's bytes, as what \<open>json.loads\<close> makes of them.\<close>

type_synonym wire = "raw option"

record 'p producer_ops =
  po_publish :: "'p \<Rightarrow> string \<Rightarrow> pystr \<Rightarrow> wire \<Rightarrow> pystr option \<Rightarrow> unit result \<times> 'p"
  po_flush :: "'p \<Rightarrow> unit result \<times> 'p"

text \<open>The log as the producer's client sees it: a publish that returned put the record at the end of the
  topic's log, or the log already had its id; one that raised may have done either or nothing.\<close>

locale producer =
  fixes ops :: "'p producer_ops"
    and log :: "'p \<Rightarrow> string \<Rightarrow> (pystr \<times> wire) list"
    and ids :: "'p \<Rightarrow> string \<Rightarrow> pystr set"
  assumes publish_law: "po_publish ops p topic k v (Some i) = (r, p') \<Longrightarrow>
      (\<forall>t. t \<noteq> topic \<longrightarrow> log p' t = log p t \<and> ids p' t = ids p t) \<and> ids p topic \<subseteq> ids p' topic \<and> ids p' topic \<subseteq> insert i (ids p topic) \<and>
      (log p' topic = log p topic \<or> log p' topic = log p topic @ [(k, v)]) \<and>
      (r = Inr () \<longrightarrow> i \<in> ids p' topic \<and> (i \<notin> ids p topic \<longrightarrow> log p' topic = log p topic @ [(k, v)]))"
    and flush_law: "po_flush ops p = (r, p') \<Longrightarrow> log p' = log p \<and> ids p' = ids p"

definition memory_producer_ops :: "wire memory_bus producer_ops" where
  "memory_producer_ops = \<lparr>po_publish = (\<lambda>b topic k v i. (Inr (), mp_publish b topic k v i)), po_flush = (\<lambda>b. (Inr (), b))\<rparr>"

definition bus_log :: "'v memory_bus \<Rightarrow> string \<Rightarrow> (pystr \<times> 'v) list" where
  "bus_log b topic = map (\<lambda>r. (the (lr_key r), lr_value r)) (mb_logs b topic)"

definition bus_ids :: "'v memory_bus \<Rightarrow> string \<Rightarrow> pystr set" where
  "bus_ids b topic = set (mb_seen_ids b topic)"

interpretation bus: producer memory_producer_ops bus_log bus_ids
  by unfold_locales (auto simp: memory_producer_ops_def mp_publish_def mb_append_def bus_log_def bus_ids_def Let_def split: if_splits)

section \<open>Emitting\<close>

definition transition_attributes :: "int \<Rightarrow> detection_config \<Rightarrow> raw result" where
  "transition_attributes window_count config =
     bindE (compute_weight window_count config) (\<lambda>w.
       Inr (RDict [(KStr (py_lit ''attributes_version''), RInt ATTRIBUTES_VERSION), (KStr (py_lit ''weight''), RInt w)]))"

record emitted_transition =
  et_ip :: address
  et_transition :: state_transition
  et_sequence :: int
  et_window_count :: int
  et_config_version :: int

definition MICROS :: int where "MICROS = 1000000"

text \<open>\<open>datetime.fromtimestamp(now, tz=UTC)\<close>.\<close>

definition from_timestamp :: "py_library \<Rightarrow> int \<Rightarrow> py_datetime result" where
  "from_timestamp L now =
     (if now * MICROS < lib_min_micros L \<or> now * MICROS > lib_max_micros L then Inl ValueError else Inr (utc (now * MICROS)))"

definition transition_envelope :: "py_library \<Rightarrow> int \<Rightarrow> detection_config \<Rightarrow> int \<Rightarrow> address \<Rightarrow> ip_state \<Rightarrow> int \<Rightarrow> int \<Rightarrow> event_envelope result" where
  "transition_envelope L now config shard ip new cnt n =
     bindE (from_timestamp L now) (\<lambda>ts.
     bindE (if new = HOT
            then bindE (transition_attributes cnt config) (\<lambda>a.
                   Inr (T_ADDED, HotIpAdded \<lparr>hi_ip = ip, hi_timestamp = ts, hi_sequence = n, hi_window_count = cnt,
                          hi_config_version = config_version config, hi_attributes = Some a\<rparr>))
            else Inr (T_REMOVED, HotIpRemoved \<lparr>hi_ip = ip, hi_timestamp = ts, hi_sequence = n, hi_window_count = cnt,
                          hi_config_version = config_version config, hi_attributes = None\<rparr>)) (\<lambda>(event_type, payload).
       Inr \<lparr>env_agent_id = py_lit ''aggregator-shard-'' @ int_text shard, env_sequence = n, env_event_type = event_type,
            env_config_version = config_version config, env_timestamp = ts, env_payload = payload,
            env_schema_version = SCHEMA_VERSION, env_subject = Some (lib_ip_text L ip)\<rparr>))"

text \<open>The durable store and the log, as one emitter uses them.\<close>

record ('st, 'p) agg_io =
  io_store :: 'st
  io_producer :: 'p

definition em_evaluate :: "py_library \<Rightarrow> 'st store_ops \<Rightarrow> 'p producer_ops \<Rightarrow> int \<Rightarrow> detection_config \<Rightarrow> shard_window \<Rightarrow> address \<Rightarrow>
    ('st, 'p) agg_io \<Rightarrow> emitted_transition option result \<times> shard_window \<times> ('st, 'p) agg_io" where
  "em_evaluate L S P now config w ip io =
     (let previous = sw_state w ip;
          cnt = sw_total w ip;
          new = evaluate_ip_state previous cnt config
      in if new = previous then (Inr None, w, io)
      else if new = COLD \<and> sw_in_warmup w now \<and> sw_is_inherited w ip then (Inr None, w, io)
      else let n = sw_next_sequence w;
               w1 = w\<lparr>sw_next_sequence := n + 1\<rparr>
      in case transition_envelope L now config (sw_shard w) ip new cnt n of
           Inl e \<Rightarrow> (Inl e, w1, io)
         | Inr envelope \<Rightarrow>
      (case encode L envelope of
         Inl e \<Rightarrow> (Inl e, w1, io)
       | Inr doc \<Rightarrow>
      (case so_record_transition S (io_store io) (sw_shard w) ip new n of
         (Inl e, st) \<Rightarrow> (Inl e, w1, io\<lparr>io_store := st\<rparr>)
       | (Inr _, st) \<Rightarrow>
      (case po_publish P (io_producer io) (ts_name HOT_IP) (lib_ip_text L ip) (Some (raw_of_json doc)) (Some (event_id L envelope)) of
         (Inl e, p) \<Rightarrow> (Inl e, w1, \<lparr>io_store = st, io_producer = p\<rparr>)
       | (Inr _, p) \<Rightarrow>
      (case sw_set_state w1 ip new of
         (Inl e, w2) \<Rightarrow> (Inl e, w2, \<lparr>io_store = st, io_producer = p\<rparr>)
       | (Inr _, w2) \<Rightarrow>
           (Inr (Some \<lparr>et_ip = ip, et_transition = \<lparr>st_previous = previous, st_current = new\<rparr>, et_sequence = n,
                       et_window_count = cnt, et_config_version = config_version config\<rparr>),
            w2, \<lparr>io_store = st, io_producer = p\<rparr>))))))"

section \<open>Evaluating several IPs\<close>

text \<open>The loop of the maintenance pass and of \<open>reevaluate_shard\<close>: the first exception ends it; the result
  is the number of transitions.\<close>

fun em_evaluate_all :: "py_library \<Rightarrow> 'st store_ops \<Rightarrow> 'p producer_ops \<Rightarrow> int \<Rightarrow> detection_config \<Rightarrow> shard_window \<Rightarrow> address list \<Rightarrow>
    ('st, 'p) agg_io \<Rightarrow> int result \<times> shard_window \<times> ('st, 'p) agg_io" where
  "em_evaluate_all L S P now config w [] io = (Inr 0, w, io)"
| "em_evaluate_all L S P now config w (ip # ips) io =
     (case em_evaluate L S P now config w ip io of
        (Inl e, w', io') \<Rightarrow> (Inl e, w', io')
      | (Inr t, w', io') \<Rightarrow>
          (case em_evaluate_all L S P now config w' ips io' of
             (Inl e, w'', io'') \<Rightarrow> (Inl e, w'', io'')
           | (Inr k, w'', io'') \<Rightarrow> (Inr ((if t = None then 0 else 1) + k), w'', io'')))"

definition reevaluate_shard :: "py_library \<Rightarrow> 'st store_ops \<Rightarrow> 'p producer_ops \<Rightarrow> int \<Rightarrow> detection_config \<Rightarrow> shard_window \<Rightarrow>
    address list option \<Rightarrow> int \<Rightarrow> ('st, 'p) agg_io \<Rightarrow> int result \<times> shard_window \<times> ('st, 'p) agg_io" where
  "reevaluate_shard L S P now config w ips batch_size io =
     (if batch_size \<le> 0 then (Inl ValueError, w, io)
      else em_evaluate_all L S P now config w (case ips of None \<Rightarrow> sw_tracked_ips w | Some l \<Rightarrow> l) io)"

end
