(* ===== verification/Transition_Correct.thy ===== *)
theory Transition_Correct
  imports Transition_Emitter
begin

text \<open>
  The emitter keeps three views of a shard's HOT set in step: the window's, the durable one and the
  log's. Between the durable write and the in-memory change nothing is lost: an exception leaves the
  window's states as they were, and an event is on the log only if the durable set has it already.
\<close>

section \<open>The HOT set of a window\<close>

lemma hot_ips_state: "sw_ok w now \<Longrightarrow> sw_hot_ips w = {ip. sw_state w ip = HOT}"
proof -
  assume "sw_ok w now"
  then have dist: "distinct (map fst (sw_entries w))" by (simp add: sw_ok_def)
  then have "(ip, e) \<in> set (sw_entries w) \<longleftrightarrow> sw_entry w ip = Some e" for ip e
    by (metis map_of_eq_Some_iff)
  then show ?thesis by (force simp: sw_hot_ips_def sw_state_def split: option.splits)
qed

lemma sw_state_set:
  assumes "sw_ok w now" "sw_entry w ip = Some e"
  shows "\<exists>w'. sw_set_state w ip s = (Inr (), w') \<and> sw_ok w' now \<and> sw_state w' = (sw_state w)(ip := s) \<and>
    sw_total w' = sw_total w \<and> sw_shard w' = sw_shard w \<and> sw_next_sequence w' = sw_next_sequence w \<and> sw_config w' = sw_config w \<and>
    map fst (sw_entries w') = map fst (sw_entries w) \<and> sw_warm_until w' = sw_warm_until w \<and>
    (\<forall>i. i \<noteq> ip \<longrightarrow> sw_entry w' i = sw_entry w i)"
proof -
  let ?w = "sw_put w ip (e\<lparr>en_state := s, en_inherited := en_inherited e \<and> s = HOT\<rparr>)"
  have "sw_set_state w ip s = (Inr (), ?w)" by (rule sw_set_state_eq[OF assms])
  moreover have "sw_ok ?w now" using sw_set_state_ok[OF assms(1), of ip s] sw_set_state_eq[OF assms, of s] by simp
  moreover have "sw_state ?w = (sw_state w)(ip := s)" "sw_total ?w = sw_total w"
    using assms(2) by (auto simp: sw_state_def sw_total_def fun_eq_iff)
  moreover have "sw_shard ?w = sw_shard w" "sw_next_sequence ?w = sw_next_sequence w" "sw_config ?w = sw_config w" "sw_warm_until ?w = sw_warm_until w" by (simp_all add: sw_put_def)
  ultimately show ?thesis using map_fst_put[OF assms(2)] by simp
qed

text \<open>An IP the state machine moves is tracked: an untracked one counts 0 and is COLD.\<close>

lemma moved_tracked:
  assumes "config_ok config" "evaluate_ip_state (sw_state w ip) (sw_total w ip) config \<noteq> sw_state w ip"
  obtains e where "sw_entry w ip = Some e"
  using assms config_ok_facts(5)[OF assms(1)]
  by (cases "sw_entry w ip") (auto simp: sw_state_def sw_total_def evaluate_ip_state_def)

section \<open>One evaluation\<close>

lemma evaluate_settled: "config_ok config \<Longrightarrow> evaluate_ip_state (evaluate_ip_state s n config) n config = evaluate_ip_state s n config"
  using config_ok_facts(6)[of config] by (auto simp: evaluate_ip_state_def)

definition wants_move :: "detection_config \<Rightarrow> shard_window \<Rightarrow> int \<Rightarrow> address \<Rightarrow> bool" where
  "wants_move config w now ip \<longleftrightarrow> (let new = evaluate_ip_state (sw_state w ip) (sw_total w ip) config in
     new \<noteq> sw_state w ip \<and> \<not> (new = COLD \<and> sw_in_warmup w now \<and> sw_is_inherited w ip))"

text \<open>The window's HOT set and the durable one agree, up to the IPs of \<open>X\<close>, and no sequence number was
  handed out that the store has not been told it may be.\<close>

definition in_step :: "('st \<Rightarrow> int \<Rightarrow> address set) \<Rightarrow> ('st \<Rightarrow> int \<Rightarrow> int) \<Rightarrow> address set \<Rightarrow> shard_window \<Rightarrow> 'st \<Rightarrow> bool" where
  "in_step hot seq X w st \<longleftrightarrow> {ip. sw_state w ip = HOT} - X = hot st (sw_shard w) - X \<and>
     seq st (sw_shard w) \<le> sw_next_sequence w \<and> 0 \<le> sw_next_sequence w"

text \<open>What an evaluation may not touch.\<close>

definition win_frame :: "shard_window \<Rightarrow> shard_window \<Rightarrow> bool" where
  "win_frame w w' \<longleftrightarrow> sw_shard w' = sw_shard w \<and> sw_config w' = sw_config w \<and> map fst (sw_entries w') = map fst (sw_entries w) \<and>
     sw_total w' = sw_total w \<and> sw_warm_until w' = sw_warm_until w \<and> sw_next_sequence w \<le> sw_next_sequence w'"

definition store_frame :: "('st \<Rightarrow> int \<Rightarrow> address set) \<Rightarrow> ('st \<Rightarrow> int \<Rightarrow> int) \<Rightarrow> ('st \<Rightarrow> int \<Rightarrow> int \<Rightarrow> string option) \<Rightarrow> int \<Rightarrow> 'st \<Rightarrow> 'st \<Rightarrow> bool" where
  "store_frame hot seq holder p st st' \<longleftrightarrow> (\<forall>q. q \<noteq> p \<longrightarrow> hot st' q = hot st q \<and> seq st' q = seq st q) \<and> seq st p \<le> seq st' p \<and> holder st' = holder st"

lemma frame_refl [simp]: "win_frame w w" "store_frame hot seq holder p st st"
  by (simp_all add: win_frame_def store_frame_def)

lemma win_frame_trans: "win_frame w w' \<Longrightarrow> win_frame w' w'' \<Longrightarrow> win_frame w w''"
  by (auto simp: win_frame_def)

lemma store_frame_trans: "store_frame hot seq holder p st st' \<Longrightarrow> store_frame hot seq holder p st' st'' \<Longrightarrow> store_frame hot seq holder p st st''"
  by (auto simp: store_frame_def)

lemma in_step_mono: "in_step hot seq X w st \<Longrightarrow> X \<subseteq> Y \<Longrightarrow> in_step hot seq Y w st"
  by (auto simp: in_step_def)

text \<open>The topic's log grew by at most one event, keyed by the IP.\<close>

definition log_grew :: "('p \<Rightarrow> string \<Rightarrow> (pystr \<times> wire) list) \<Rightarrow> pystr \<Rightarrow> 'p \<Rightarrow> 'p \<Rightarrow> bool" where
  "log_grew lg key p p' \<longleftrightarrow> (\<forall>t. t \<noteq> ts_name HOT_IP \<longrightarrow> lg p' t = lg p t) \<and>
     (lg p' (ts_name HOT_IP) = lg p (ts_name HOT_IP) \<or> (\<exists>doc. lg p' (ts_name HOT_IP) = lg p (ts_name HOT_IP) @ [(key, doc)]))"

lemma log_grew_refl [simp]: "log_grew lg key p p"
  by (simp add: log_grew_def)

locale aggregator_io = shard_state_store S hot seq holder + producer P log ids
  for S :: "'st store_ops" and hot :: "'st \<Rightarrow> int \<Rightarrow> address set" and seq :: "'st \<Rightarrow> int \<Rightarrow> int"
    and holder :: "'st \<Rightarrow> int \<Rightarrow> int \<Rightarrow> string option"
    and P :: "'p producer_ops" and log :: "'p \<Rightarrow> string \<Rightarrow> (pystr \<times> wire) list" and ids :: "'p \<Rightarrow> string \<Rightarrow> pystr set"
begin

lemma em_evaluate_idle:
  assumes "\<not> wants_move config w now ip"
  shows "em_evaluate L S P now config w ip io = (Inr None, w, io)"
  using assms by (auto simp: em_evaluate_def wants_move_def Let_def)

lemma recorded_in_step:
  assumes "in_step hot seq X w st" "so_record_transition S st (sw_shard w) ip new (sw_next_sequence w) = (r, st')"
  shows "store_frame hot seq holder (sw_shard w) st st'"
    and "in_step hot seq (insert ip X) (w\<lparr>sw_next_sequence := sw_next_sequence w + 1\<rparr>) st'"
    and "r = Inr () \<Longrightarrow> ip \<in> hot st' (sw_shard w) \<longleftrightarrow> new = HOT"
proof -
  have n: "0 \<le> sw_next_sequence w" "seq st (sw_shard w) \<le> sw_next_sequence w" using assms(1) by (auto simp: in_step_def)
  note law = record_law[OF n(1) assms(2)]
  show "store_frame hot seq holder (sw_shard w) st st'"
    using law by (auto simp: store_frame_def hot_after_def seq_after_def)
  show "r = Inr () \<Longrightarrow> ip \<in> hot st' (sw_shard w) \<longleftrightarrow> new = HOT"
    using law by (auto simp: hot_after_def)
  have "hot st' (sw_shard w) - insert ip X = hot st (sw_shard w) - insert ip X" "seq st' (sw_shard w) \<le> sw_next_sequence w + 1"
    using law n by (auto simp: hot_after_def seq_after_def split: if_splits)
  then show "in_step hot seq (insert ip X) (w\<lparr>sw_next_sequence := sw_next_sequence w + 1\<rparr>) st'"
    using assms(1) n by (auto simp: in_step_def sw_state_def)
qed

text \<open>An evaluation that moves the IP: whatever the outcome, the sequence number is spent and only the IP's
  own entry may differ. An exception leaves every entry as it was, and an event reached the log only if
  the durable set already had it; without one the two sets agree on the IP again.\<close>

lemma em_evaluate_moves:
  assumes ok: "sw_ok w t" and cfg: "config_ok config" and step: "in_step hot seq X w (io_store io)" and move: "wants_move config w now ip"
    and run: "em_evaluate L S P now config w ip io = (r, w', io')"
  shows "win_frame w w' \<and> store_frame hot seq holder (sw_shard w) (io_store io) (io_store io') \<and>
    log_grew log (lib_ip_text L ip) (io_producer io) (io_producer io') \<and> sw_ok w' t \<and> (\<forall>i. i \<noteq> ip \<longrightarrow> sw_entry w' i = sw_entry w i) \<and>
    (case r of
       Inl _ \<Rightarrow> sw_entries w' = sw_entries w \<and> in_step hot seq (insert ip X) w' (io_store io') \<and>
         (log (io_producer io') \<noteq> log (io_producer io) \<longrightarrow>
            (ip \<in> hot (io_store io') (sw_shard w) \<longleftrightarrow> evaluate_ip_state (sw_state w ip) (sw_total w ip) config = HOT))
     | Inr tr \<Rightarrow> tr \<noteq> None \<and> in_step hot seq (X - {ip}) w' (io_store io') \<and> et_sequence (the tr) = sw_next_sequence w \<and>
         sw_state w' = (sw_state w)(ip := evaluate_ip_state (sw_state w ip) (sw_total w ip) config))"
proof -
  let ?new = "evaluate_ip_state (sw_state w ip) (sw_total w ip) config" and ?n = "sw_next_sequence w" and ?p = "sw_shard w"
  let ?w1 = "w\<lparr>sw_next_sequence := ?n + 1\<rparr>"
  have new: "?new \<noteq> sw_state w ip" and warm: "\<not> (?new = COLD \<and> sw_in_warmup w now \<and> sw_is_inherited w ip)"
    using move by (auto simp: wants_move_def Let_def)
  obtain e where e: "sw_entry w ip = Some e" using moved_tracked[OF cfg new] .
  have ok1: "sw_ok ?w1 t" using ok by (simp add: sw_ok_counters)
  have w1: "win_frame w ?w1" "sw_state ?w1 = sw_state w" "sw_total ?w1 = sw_total w" "in_step hot seq (insert ip X) ?w1 (io_store io)"
    using step by (auto simp: win_frame_def sw_total_def sw_state_def in_step_def fun_eq_iff)
  show ?thesis
  proof (cases "transition_envelope L now config ?p ip ?new (sw_total w ip) ?n")
    case (Inl err)
    then show ?thesis using run new warm ok1 w1 by (auto simp: em_evaluate_def Let_def)
  next
    case env: (Inr env)
    show ?thesis
    proof (cases "encode L env")
      case (Inl err)
      then show ?thesis using run new warm env ok1 w1 by (auto simp: em_evaluate_def Let_def)
    next
      case doc: (Inr doc)
      obtain rr st where st: "so_record_transition S (io_store io) ?p ip ?new ?n = (rr, st)" by fastforce
      note rec = recorded_in_step[OF step st]
      show ?thesis
      proof (cases rr)
        case (Inl err)
        then show ?thesis using run new warm env doc st ok1 w1 rec by (auto simp: em_evaluate_def Let_def)
      next
        case okr: (Inr u)
        obtain pr p where p: "po_publish P (io_producer io) (ts_name HOT_IP) (lib_ip_text L ip) (Some (raw_of_json doc)) (Some (event_id L env)) = (pr, p)" by fastforce
        have grew: "log_grew log (lib_ip_text L ip) (io_producer io) p" using publish_law[OF p] by (auto simp: log_grew_def)
        show ?thesis
        proof (cases pr)
          case (Inl err)
          then show ?thesis using run new warm env doc st okr p ok1 w1 rec grew by (auto simp: em_evaluate_def Let_def)
        next
          case (Inr u')
          obtain w2 where w2: "sw_set_state ?w1 ip ?new = (Inr (), w2)" "sw_ok w2 t" "sw_state w2 = (sw_state ?w1)(ip := ?new)"
            "sw_total w2 = sw_total ?w1" "sw_shard w2 = sw_shard ?w1" "sw_next_sequence w2 = sw_next_sequence ?w1" "sw_config w2 = sw_config ?w1"
            "map fst (sw_entries w2) = map fst (sw_entries ?w1)" "sw_warm_until w2 = sw_warm_until ?w1"
            "\<forall>i. i \<noteq> ip \<longrightarrow> sw_entry w2 i = sw_entry ?w1 i"
            using sw_state_set[OF ok1, of ip e ?new] e by auto
          have res: "r = Inr (Some \<lparr>et_ip = ip, et_transition = \<lparr>st_previous = sw_state w ip, st_current = ?new\<rparr>, et_sequence = ?n,
                         et_window_count = sw_total w ip, et_config_version = config_version config\<rparr>)"
            "w' = w2" "io' = \<lparr>io_store = st, io_producer = p\<rparr>"
            using run new warm env doc st okr p Inr w2(1) by (auto simp: em_evaluate_def Let_def)
          have "in_step hot seq (X - {ip}) w2 st"
            using w2(3,5,6) w1(2) rec(2) rec(3) okr by (auto simp: in_step_def)
          moreover have "win_frame w w2" using w1(1) w2 by (simp add: win_frame_def)
          ultimately show ?thesis using res w2 w1(2) rec(1) grew by simp
        qed
      qed
    qed
  qed
qed

lemma wants_move_cong:
  "sw_entry w' ip = sw_entry w ip \<Longrightarrow> sw_warm_until w' = sw_warm_until w \<Longrightarrow> wants_move config w' now ip = wants_move config w now ip"
  by (simp add: wants_move_def sw_state_def sw_total_def sw_is_inherited_def sw_in_warmup_def)

text \<open>Whatever the outcome, the rest of the world is as it was; without an exception the durable set and the
  window agree again and the IP is settled.\<close>

lemma em_evaluate_keeps:
  assumes "sw_ok w t" "config_ok config" "in_step hot seq X w (io_store io)" "em_evaluate L S P now config w ip io = (r, w', io')"
  shows "win_frame w w' \<and> store_frame hot seq holder (sw_shard w) (io_store io) (io_store io') \<and> sw_ok w' t \<and>
    (\<forall>i. i \<noteq> ip \<longrightarrow> sw_entry w' i = sw_entry w i) \<and> in_step hot seq (insert ip X) w' (io_store io') \<and>
    (r \<in> range Inr \<longrightarrow> in_step hot seq X w' (io_store io') \<and> \<not> wants_move config w' now ip)"
proof (cases "wants_move config w now ip")
  case False
  then show ?thesis using assms em_evaluate_idle[OF False, of L io] by (auto intro: in_step_mono)
next
  case True
  note moved = em_evaluate_moves[OF assms(1,2,3) True assms(4)]
  show ?thesis
  proof (cases r)
    case (Inl e)
    then show ?thesis using moved by auto
  next
    case (Inr tr)
    then have st: "sw_state w' ip = evaluate_ip_state (sw_state w ip) (sw_total w ip) config" "sw_total w' = sw_total w"
      and step: "in_step hot seq (X - {ip}) w' (io_store io')" using moved by (auto simp: win_frame_def)
    have "in_step hot seq X w' (io_store io')" "in_step hot seq (insert ip X) w' (io_store io')"
      using in_step_mono[OF step] by auto
    with Inr moved st show ?thesis using evaluate_settled[OF assms(2)] by (simp add: wants_move_def)
  qed
qed

lemma em_evaluate_all_keeps:
  assumes "sw_ok w t" "config_ok config" "in_step hot seq X w (io_store io)" "em_evaluate_all L S P now config w ips io = (r, w', io')"
  shows "win_frame w w' \<and> store_frame hot seq holder (sw_shard w) (io_store io) (io_store io') \<and> sw_ok w' t \<and>
    (\<forall>i. i \<notin> set ips \<longrightarrow> sw_entry w' i = sw_entry w i) \<and> in_step hot seq (X \<union> set ips) w' (io_store io') \<and>
    (r \<in> range Inr \<longrightarrow> in_step hot seq X w' (io_store io') \<and> (\<forall>ip \<in> set ips. \<not> wants_move config w' now ip))"
  using assms
proof (induction ips arbitrary: w io r w' io')
  case (Cons ip ips)
  obtain r1 w1 io1 where one: "em_evaluate L S P now config w ip io = (r1, w1, io1)" by (metis prod_cases3)
  note k1 = em_evaluate_keeps[OF Cons.prems(1-3) one]
  show ?case
  proof (cases r1)
    case (Inl e)
    then show ?thesis using Cons.prems(4) one k1 by (auto intro: in_step_mono)
  next
    case (Inr tr)
    then have step1: "in_step hot seq X w1 (io_store io1)" "\<not> wants_move config w1 now ip" "sw_ok w1 t" "win_frame w w1"
      "store_frame hot seq holder (sw_shard w) (io_store io) (io_store io1)" "sw_shard w1 = sw_shard w"
      using k1 by (auto simp: win_frame_def)
    obtain r2 w2 io2 where rest: "em_evaluate_all L S P now config w1 ips io1 = (r2, w2, io2)" by (metis prod_cases3)
    note k2 = Cons.IH[OF step1(3) Cons.prems(2) step1(1) rest]
    have eq: "w' = w2" "io' = io2" "r \<in> range Inr \<longleftrightarrow> r2 \<in> range Inr"
      using Cons.prems(4) one Inr rest by (auto split: sum.splits)
    have "\<not> wants_move config w2 now ip" if "r2 \<in> range Inr"
    proof (cases "ip \<in> set ips")
      case False
      then show ?thesis using k2 step1(2) wants_move_cong[of w2 ip w1] by (auto simp: win_frame_def)
    qed (use k2 that in blast)
    moreover have "win_frame w w2" using win_frame_trans[OF step1(4)] k2 by blast
    moreover have "store_frame hot seq holder (sw_shard w) (io_store io) (io_store io2)"
      using store_frame_trans[OF step1(5)] k2 step1(6) by simp
    moreover have "in_step hot seq (X \<union> set (ip # ips)) w2 (io_store io2)" using k2 by (auto intro: in_step_mono)
    ultimately show ?thesis using k1 k2 eq by auto
  qed
qed simp

lemma reevaluate_settles:
  assumes "sw_ok w t" "config_ok config" "in_step hot seq {} w (io_store io)"
    "reevaluate_shard L S P now config w None batch io = (Inr k, w', io')"
  shows "sw_ok w' t \<and> in_step hot seq {} w' (io_store io') \<and> (\<forall>ip. \<not> wants_move config w' now ip) \<and> win_frame w w' \<and>
    store_frame hot seq holder (sw_shard w) (io_store io) (io_store io')"
proof -
  have run: "em_evaluate_all L S P now config w (sw_tracked_ips w) io = (Inr k, w', io')"
    using assms(4) by (simp add: reevaluate_shard_def split: if_splits)
  note kept = em_evaluate_all_keeps[OF assms(1-3) run]
  have "\<not> wants_move config w' now ip" for ip
  proof
    assume move: "wants_move config w' now ip"
    then obtain e where "sw_entry w' ip = Some e"
      using moved_tracked[OF assms(2), of w' ip] by (auto simp: wants_move_def Let_def)
    then have "ip \<in> fst ` set (sw_entries w')" by (metis map_of_SomeD fst_conv image_eqI)
    moreover have "map fst (sw_entries w') = map fst (sw_entries w)" using kept by (simp add: win_frame_def)
    ultimately have "ip \<in> set (sw_tracked_ips w)" by (metis sw_tracked_ips_def set_map)
    with kept move show False by auto
  qed
  with kept show ?thesis by auto
qed

end

interpretation agg: aggregator_io memory_store_ops ms_hot ms_seq ms_holder memory_producer_ops bus_log bus_ids ..

section \<open>Properties\<close>

text \<open>A shard whose one HOT IP was inherited.\<close>

definition sample_io :: "(memory_store, wire memory_bus) agg_io" where
  "sample_io = \<lparr>io_store = snd (ms_record_transition ms_new 3 \<lparr>addr_family = IPV4, addr_value = 1\<rparr> HOT 6), io_producer = mb_new\<rparr>"

lemma sample_in_step: "in_step ms_hot ms_seq {} sample_window (io_store sample_io)"
proof -
  have "sw_shard sample_window = 3" "sw_next_sequence sample_window = 7" by code_simp+
  moreover have "sw_hot_ips sample_window = {\<lparr>addr_family = IPV4, addr_value = 1\<rparr>}" by code_simp
  then have "{ip. sw_state sample_window ip = HOT} = {\<lparr>addr_family = IPV4, addr_value = 1\<rparr>}"
    using hot_ips_state[OF sw_reach_ok[OF sample_window_reach]] by simp
  ultimately show ?thesis
    by (simp add: in_step_def sample_io_def ms_record_transition_def ms_new_def Let_def ms_hot_def ms_seq_def)
qed

text \<open>C4: Announcing an edge is crash safe, over any store and any log that keep their contracts and may fail at
  every call. An evaluation touches no other IP, no other shard, no counter and no lease, and adds at
  most one event, keyed by the IP. If it raises, every entry of the window is as it was, the durable HOT
  set differs from the window's at most at this IP, and an event on the log is one the durable set
  already has: the log is never ahead of the store. If it returns, the two sets agree wherever they
  did before, the IP is settled under the configuration, and an edge is reported exactly if one was due.\<close>

theorem emitter_crash_safe:
  assumes "aggregator_io S hot seq holder P lg ids" "sw_ok w t" "config_ok config" "in_step hot seq X w (io_store io)"
    "em_evaluate L S P now config w ip io = (r, w', io')"
  shows "sw_ok w' t \<and> win_frame w w' \<and> (\<forall>i. i \<noteq> ip \<longrightarrow> sw_entry w' i = sw_entry w i) \<and>
    store_frame hot seq holder (sw_shard w) (io_store io) (io_store io') \<and>
    log_grew lg (lib_ip_text L ip) (io_producer io) (io_producer io') \<and>
    (case r of
       Inl _ \<Rightarrow> sw_entries w' = sw_entries w \<and> in_step hot seq (insert ip X) w' (io_store io') \<and>
         (lg (io_producer io') \<noteq> lg (io_producer io) \<longrightarrow>
            (ip \<in> hot (io_store io') (sw_shard w) \<longleftrightarrow> evaluate_ip_state (sw_state w ip) (sw_total w ip) config = HOT))
     | Inr tr \<Rightarrow> in_step hot seq X w' (io_store io') \<and> \<not> wants_move config w' now ip \<and> (tr = None \<longleftrightarrow> \<not> wants_move config w now ip))"
proof (cases "wants_move config w now ip")
  case False
  then show ?thesis using assms(2-5) aggregator_io.em_evaluate_idle[OF assms(1) False, of L io] by auto
next
  case True
  note moved = aggregator_io.em_evaluate_moves[OF assms(1-4) True assms(5)]
    and kept = aggregator_io.em_evaluate_keeps[OF assms]
  show ?thesis
  proof (cases r)
    case (Inl e)
    with moved show ?thesis by simp
  next
    case (Inr tr)
    with moved kept True show ?thesis by simp
  qed
qed

theorem emitter_crash_safe_witness:
  "\<exists>r w' io'. em_evaluate sample_library memory_store_ops memory_producer_ops 125 sample_config sample_window
       \<lparr>addr_family = IPV4, addr_value = 1\<rparr> sample_io = (r, w', io') \<and>
     wants_move sample_config sample_window 125 \<lparr>addr_family = IPV4, addr_value = 1\<rparr> \<and> sw_ok w' 105 \<and>
     (\<forall>i. i \<noteq> \<lparr>addr_family = IPV4, addr_value = 1\<rparr> \<longrightarrow> sw_entry w' i = sw_entry sample_window i)"
proof -
  obtain r w' io' where run: "em_evaluate sample_library memory_store_ops memory_producer_ops 125 sample_config sample_window
       \<lparr>addr_family = IPV4, addr_value = 1\<rparr> sample_io = (r, w', io')" by (metis prod_cases3)
  have "wants_move sample_config sample_window 125 \<lparr>addr_family = IPV4, addr_value = 1\<rparr>" by code_simp
  with run emitter_crash_safe[OF agg.aggregator_io_axioms sw_reach_ok[OF sample_window_reach] sample_config_ok sample_in_step run]
  show ?thesis by blast
qed

text \<open>C17: A re-evaluation pass that returns leaves no IP behind: over every tracked IP, the state machine has
  nothing left to announce under the new configuration, the durable HOT set and the window's agree, and
  the counters, the other shards and the leases are untouched.\<close>

theorem reevaluation_settles:
  assumes "aggregator_io S hot seq holder P lg ids" "sw_ok w t" "config_ok config" "in_step hot seq {} w (io_store io)"
    "reevaluate_shard L S P now config w None batch io = (Inr k, w', io')"
  shows "sw_ok w' t \<and> in_step hot seq {} w' (io_store io') \<and> (\<forall>ip. \<not> wants_move config w' now ip) \<and> win_frame w w' \<and>
    store_frame hot seq holder (sw_shard w) (io_store io) (io_store io')"
  using assms by (rule aggregator_io.reevaluate_settles)

theorem reevaluation_settles_witness:
  "\<exists>k w' io'. reevaluate_shard sample_library memory_store_ops memory_producer_ops 105 sample_config sample_window None 512 sample_io =
       (Inr k, w', io') \<and> (\<forall>ip. \<not> wants_move sample_config w' 105 ip)"
proof -
  have "fst (reevaluate_shard sample_library memory_store_ops memory_producer_ops 105 sample_config sample_window None 512 sample_io) = Inr 0"
    by code_simp
  then obtain w' io' where run: "reevaluate_shard sample_library memory_store_ops memory_producer_ops 105 sample_config sample_window None 512 sample_io =
      (Inr 0, w', io')" by (metis prod_cases3 fst_conv)
  from reevaluation_settles[OF agg.aggregator_io_axioms sw_reach_ok[OF sample_window_reach] sample_config_ok sample_in_step run] run
  show ?thesis by blast
qed

end
