(* ===== verification/Transition_Wire.thy ===== *)
theory Transition_Wire
  imports Transition_Correct
begin

text \<open>
  From the emitter to the reader of the log: the event of a transition can always be encoded, and it
  decodes to itself, attributes included. So no transition is lost between the durable write and the
  log for a reason that is not I/O.
\<close>

section \<open>The attribute document of a transition\<close>

lemma nat_text_short: "0 < k \<Longrightarrow> n < 10 ^ k \<Longrightarrow> length (nat_text n) \<le> k"
proof (induction n arbitrary: k rule: nat_text.induct)
  case (1 n)
  show ?case
  proof (cases "n < 10")
    case True
    then show ?thesis using 1(2) by (simp add: nat_text.simps[of n])
  next
    case False
    then obtain j where k: "k = Suc j" "0 < j" using 1(2,3) by (cases k; cases "k = 1") auto
    then have "n div 10 < 10 ^ j" using 1(3) by (simp add: less_mult_imp_div_less mult.commute)
    with 1(1)[OF False k(2)] have "length (nat_text (n div 10)) \<le> j" .
    then show ?thesis using False k by (simp add: nat_text.simps[of n])
  qed
qed

lemma transition_document_canonical:
  assumes "0 \<le> w" "w \<le> 1000000"
  shows "canonical_attributes (RDict [(KStr (py_lit ''attributes_version''), RInt 1), (KStr (py_lit ''weight''), RInt w)]) =
    Inr [(py_lit ''attributes_version'', JInt 1), (py_lit ''weight'', JInt w)]"
    (is "canonical_attributes ?d = Inr ?copy")
proof -
  have small: "w < S8_BOUND" "1 < S8_BOUND" using S8_BOUND_big assms by simp_all
  have len: "length (nat_text (nat w)) \<le> 7" using assms by (intro nat_text_short) simp_all
  have sur: "\<not> has_surrogate (py_lit ''attributes_version'')" "\<not> has_surrogate (py_lit ''weight'')"
    by (simp_all add: has_surrogate_def py_lit_def)
  have copy: "copy_value ?d = Some (JDict ?copy)" using small assms sur by simp
  have fits: "int (length (json_text (JDict ?copy))) \<le> MAX_BYTES"
    using len assms(1) by (simp add: json_string_def json_escape_def py_lit_def MAX_BYTES_def int_text_def nat_text.simps[of "Suc 0"])
  have check: "check_version_and_registry ?copy = Inr ()"
    using assms by (simp add: check_version_and_registry_def json_integer_def KNOWN_VERSION_def MAX_WEIGHT_def guardE_def)
  have "spec_canonicalize ?d = Some (?copy, json_text (JDict ?copy))"
    using fits check unfolding spec_canonicalize_def copy by (simp add: MAX_KEYS_def del: json_text.simps)
  then show ?thesis using canonicalize_spec[of ?d] by (simp add: canonical_attributes_def del: json_text.simps)
qed

lemma transition_attributes_canonical:
  assumes "config_ok config" "0 \<le> cnt"
  shows "\<exists>w. transition_attributes cnt config =
      Inr (RDict [(KStr (py_lit ''attributes_version''), RInt 1), (KStr (py_lit ''weight''), RInt w)]) \<and>
    compute_weight cnt config = Inr w \<and> 0 \<le> w \<and> w \<le> 1000000"
proof -
  obtain w where "compute_weight cnt config = Inr w" "0 \<le> w" "w \<le> weight_max config" using compute_weight_ok[OF assms] by blast
  then show ?thesis using config_ok_facts(10)[OF assms(1)] by (simp add: transition_attributes_def ATTRIBUTES_VERSION_def)
qed

section \<open>The event of a transition\<close>

text \<open>Numbers the interpreter writes in decimal without hitting its digit limit.\<close>

definition writable :: "int \<Rightarrow> bool" where
  "writable n \<longleftrightarrow> length (nat_text (nat \<bar>n\<bar>)) \<le> INT_STR_DIGITS"

lemma writable_small: "\<bar>n\<bar> \<le> 1000000 \<Longrightarrow> writable n"
proof -
  assume "\<bar>n\<bar> \<le> 1000000"
  then have "nat \<bar>n\<bar> < 10 ^ 7" by simp
  then have "length (nat_text (nat \<bar>n\<bar>)) \<le> 7" by (rule nat_text_short[rotated]) simp
  then show ?thesis by (simp add: writable_def INT_STR_DIGITS_def)
qed

lemmas hot_ip_encoding = transition_envelope_def encode_def KNOWN_EVENT_TYPES_def HOT_IP_EVENT_TYPES_def encode_payload_def
  encode_hot_ip_event_def bounded_integer_field_def range_violation_def HOT_IP_SEQUENCE_def HOT_IP_WINDOW_COUNT_def
  HOT_IP_CONFIG_VERSION_def jkey_def SCHEMA_VERSION_def

lemma transition_event:
  assumes "library_ok L" and cfg: "config_ok config" and ip: "valid_address ip" and nn: "0 \<le> cnt" "0 \<le> n"
    and wr: "writable cnt" "writable n" "writable (config_version config)"
    and time: "lib_min_micros L \<le> now * MICROS" "now * MICROS \<le> lib_max_micros L"
  shows "\<exists>env doc. transition_envelope L now config shard ip new cnt n = Inr env \<and> encode L env = Inr doc \<and>
    decode L (Some (raw_of_json doc)) = Inr env"
proof -
  let ?ts = "utc (now * MICROS)"
  have ts: "from_timestamp L now = Inr ?ts" using time by (simp add: from_timestamp_def)
  have version: "1 \<le> config_version config"
    using cfg by (auto simp: config_ok_def config_accepted_def mk_detection_config_def split: if_splits)
  obtain w where w: "transition_attributes cnt config =
      Inr (RDict [(KStr (py_lit ''attributes_version''), RInt 1), (KStr (py_lit ''weight''), RInt w)])" "0 \<le> w" "w \<le> 1000000"
    using transition_attributes_canonical[OF cfg nn(1)] by blast
  note canon = transition_document_canonical[OF w(2,3)]
  have fmt: "format_timestamp L ?ts = Inr (JStr (lib_isoformat_z L (now * MICROS)))" "utc_of L ?ts = ?ts" "date_ok L ?ts"
    using time by (simp_all add: format_timestamp_def to_utc_def utc_def utc_of_def date_ok_def)
  note wr' = wr writable_small[of 1] writable_small[of w]
  show ?thesis
  proof (cases new)
    case HOT
    obtain env where env: "transition_envelope L now config shard ip new cnt n = Inr env" "canon_envelope L env = env"
      "date_ok L (env_timestamp env)" "payload_ok L (env_payload env)"
      using HOT ts w canon fmt ip by (simp add: transition_envelope_def canon_envelope_def canon_payload_def canon_hot_ip_def
          canon_attributes_def payload_ok_def hot_ip_ok_def T_ADDED_def)
    have "\<exists>doc. encode L env = Inr doc"
      using env(1) HOT ts w canon fmt nn version wr'
      by (auto simp: hot_ip_encoding writable_def)
    with env encode_decode[OF assms(1) env(3,4)] show ?thesis by auto
  next
    case COLD
    obtain env where env: "transition_envelope L now config shard ip new cnt n = Inr env" "canon_envelope L env = env"
      "date_ok L (env_timestamp env)" "payload_ok L (env_payload env)"
      using COLD ts fmt ip by (simp add: transition_envelope_def canon_envelope_def canon_payload_def canon_hot_ip_def
          payload_ok_def hot_ip_ok_def T_ADDED_def T_REMOVED_def)
    have "\<exists>doc. encode L env = Inr doc"
      using env(1) COLD ts fmt nn version wr'
      by (auto simp: hot_ip_encoding writable_def)
    with env encode_decode[OF assms(1) env(3,4)] show ?thesis by auto
  qed
qed

section \<open>Properties\<close>

text \<open>No transition is lost between the durable write and the log for a reason that is not I/O: under every
  accepted configuration, for every address, count and time, the event of an edge is built, encodes,
  and decodes to itself, attributes included.\<close>

theorem transition_on_wire:
  assumes "library_ok L" "config_ok config" "valid_address ip" "0 \<le> cnt" "0 \<le> n" "writable cnt" "writable n"
    "writable (config_version config)" "lib_min_micros L \<le> now * MICROS" "now * MICROS \<le> lib_max_micros L"
  shows "\<exists>env doc. transition_envelope L now config shard ip new cnt n = Inr env \<and> encode L env = Inr doc \<and>
    decode L (Some (raw_of_json doc)) = Inr env"
  using assms by (rule transition_event)

theorem transition_on_wire_witness:
  "\<exists>env doc. transition_envelope sample_library 125 sample_config 3 \<lparr>addr_family = IPV4, addr_value = 1\<rparr> HOT 4000 8 = Inr env \<and>
     encode sample_library env = Inr doc \<and> decode sample_library (Some (raw_of_json doc)) = Inr env"
proof -
  have "lib_min_micros sample_library \<le> 125 * MICROS" "125 * MICROS \<le> lib_max_micros sample_library"
    by (simp_all add: sample_library_def MICROS_def)
  moreover have "config_version sample_config = 1" by code_simp
  ultimately show ?thesis
    using transition_on_wire[OF sample_library_ok sample_config_ok, of "\<lparr>addr_family = IPV4, addr_value = 1\<rparr>" 4000 8 125 3 HOT]
    by (simp add: writable_small valid_address_def bit_length_def)
qed

end
