(* ===== verification/Shard_Claims.thy ===== *)
theory Shard_Claims
  imports Transition_Correct "HOL-Library.List_Lexorder" "HOL-Library.Char_ord"
begin

text \<open>
  The shards a member owns, \<open>hammertime.aggregator.sharding.assignment\<close>: claiming a partition takes its
  lease, loads its durable state and builds its window; a refusal rolls back the claims of the call;
  acknowledgements cover what was handled and follow a flush. The store and the log are the operations
  of the contracts \<open>shard_state_store\<close> and \<open>producer\<close>; acknowledging is the contract \<open>consumer\<close>. A set of
  shards is a list without order, sorted where the code sorts it.
\<close>

section \<open>The consumer protocol\<close>

record ('p, 'c) consumer_ops =
  co_ack :: "'p \<Rightarrow> 'c \<Rightarrow> wire consumed_message list \<Rightarrow> unit result \<times> 'p \<times> 'c"

type_synonym position = "string \<times> int \<times> int"

definition position_of :: "wire consumed_message \<Rightarrow> position" where
  "position_of m = (cm_topic m, cm_partition m, cm_offset m)"

text \<open>Acknowledging covers at most the messages named, all of them if it returns, and publishing
  acknowledges nothing.\<close>

locale consumer = producer P log ids
  for P :: "'p producer_ops" and log :: "'p \<Rightarrow> string \<Rightarrow> (pystr \<times> wire) list" and ids :: "'p \<Rightarrow> string \<Rightarrow> pystr set" +
  fixes C :: "('p, 'c) consumer_ops" and acked :: "'p \<Rightarrow> 'c \<Rightarrow> position set"
  assumes ack_law: "co_ack C p c ms = (r, p', c') \<Longrightarrow> log p' = log p \<and> ids p' = ids p \<and> acked p c \<subseteq> acked p' c' \<and>
      acked p' c' \<subseteq> acked p c \<union> position_of ` set ms \<and> (r = Inr () \<longrightarrow> acked p' c' = acked p c \<union> position_of ` set ms)"
    and publish_acks_nothing: "po_publish P p topic k v i = (r, p') \<Longrightarrow> acked p' c = acked p c"
    and flush_acks_nothing: "po_flush P p = (r, p') \<Longrightarrow> acked p' c = acked p c"

definition memory_consumer_ops :: "(wire memory_bus, memory_consumer) consumer_ops" where
  "memory_consumer_ops = \<lparr>co_ack = mc_ack\<rparr>"

definition bus_acked :: "'v memory_bus \<Rightarrow> memory_consumer \<Rightarrow> position set" where
  "bus_acked b c = {(topic, 0, off) | topic off. mc_topic c = Some topic \<and> off \<in> set (mb_acked b (topic, mc_group_id c))}"

lemma mb_append_acked [simp]: "mb_acked (mb_append b topic k v i) = mb_acked b"
  by (simp add: mb_append_def Let_def split: option.split)

lemma mc_ack_observed:
  assumes "mc_ack b c ms = (r, b', c')"
  shows "mb_logs b' = mb_logs b \<and> mb_seen_ids b' = mb_seen_ids b \<and>
    bus_acked b' c' = (if r = Inr () then bus_acked b c \<union> position_of ` set ms else bus_acked b c)"
proof (cases "r = Inr () \<and> ms \<noteq> []")
  case False
  then show ?thesis using assms by (auto simp: mc_ack_def Let_def split: if_splits option.splits)
next
  case True
  then obtain topic where t: "mc_topic c = Some topic" and can: "\<forall>m \<in> set ms. mc_can_ack c m"
    and res: "b' = mb_mark_acked b topic (mc_group_id c) (remdups (map cm_offset ms))" "mc_topic c' = mc_topic c" "mc_group_id c' = mc_group_id c"
    using assms by (auto simp: mc_ack_def Let_def list_all_iff split: if_splits option.splits)
  from can t have "position_of m = (topic, 0, cm_offset m)" if "m \<in> set ms" for m
    using that by (auto simp: mc_can_ack_def position_of_def)
  then have "position_of ` set ms = (\<lambda>off. (topic, 0, off)) ` cm_offset ` set ms" by (force simp: image_iff)
  then show ?thesis using True t res by (auto simp: bus_acked_def mb_mark_acked_def)
qed

interpretation acks: consumer memory_producer_ops bus_log bus_ids memory_consumer_ops bus_acked
proof unfold_locales
  fix p c ms r p' c'
  assume "co_ack memory_consumer_ops p c ms = (r, p', c')"
  then have "mc_ack p c ms = (r, p', c')" by (simp add: memory_consumer_ops_def)
  from mc_ack_observed[OF this]
  show "bus_log p' = bus_log p \<and> bus_ids p' = bus_ids p \<and> bus_acked p c \<subseteq> bus_acked p' c' \<and>
      bus_acked p' c' \<subseteq> bus_acked p c \<union> position_of ` set ms \<and> (r = Inr () \<longrightarrow> bus_acked p' c' = bus_acked p c \<union> position_of ` set ms)"
    by (auto simp: bus_log_def bus_ids_def fun_eq_iff)
qed (auto simp: memory_producer_ops_def mp_publish_def bus_acked_def)

section \<open>State and reads\<close>

record shard_claims =
  cl_member_id :: string
  cl_instance_id :: string
  cl_lease_ttl_s :: rat
  cl_config :: detection_config
  cl_max_tracked_ips :: int
  cl_windows :: "(int \<times> shard_window) list"
  cl_leased :: "int list"
  cl_handled :: "wire consumed_message list"
  cl_positions :: "(int \<times> int) list"

definition cl_new :: "detection_config \<Rightarrow> string \<Rightarrow> rat \<Rightarrow> int \<Rightarrow> string \<Rightarrow> shard_claims" where
  "cl_new config member_id ttl max_tracked instance_id = \<lparr>cl_member_id = member_id, cl_instance_id = instance_id, cl_lease_ttl_s = ttl,
     cl_config = config, cl_max_tracked_ips = max_tracked, cl_windows = [], cl_leased = [], cl_handled = [], cl_positions = []\<rparr>"

definition lease_owner :: "shard_claims \<Rightarrow> string" where
  "lease_owner cl = cl_member_id cl @ ''/'' @ cl_instance_id cl"

definition cl_shards :: "shard_claims \<Rightarrow> int set" where
  "cl_shards cl = fst ` set (cl_windows cl)"

abbreviation cl_window :: "shard_claims \<Rightarrow> int \<Rightarrow> shard_window option" where
  "cl_window cl \<equiv> map_of (cl_windows cl)"

definition handled_position :: "shard_claims \<Rightarrow> int \<Rightarrow> int option" where
  "handled_position cl shard = map_of (cl_positions cl) shard"

definition adopt_config :: "shard_claims \<Rightarrow> detection_config \<Rightarrow> shard_claims" where
  "adopt_config cl config = cl\<lparr>cl_config := config\<rparr>"

section \<open>Acknowledgements\<close>

definition mark_handled :: "shard_claims \<Rightarrow> wire consumed_message \<Rightarrow> unit result \<times> shard_claims" where
  "mark_handled cl m =
     (if cl_window cl (cm_partition m) = None then (Inl KeyError, cl)
      else let cl1 = cl\<lparr>cl_handled := cl_handled cl @ [m]\<rparr>;
               pos = cm_offset m + 1
           in if (case map_of (cl_positions cl) (cm_partition m) of None \<Rightarrow> True | Some current \<Rightarrow> current < pos)
              then (Inr (), cl1\<lparr>cl_positions := AList.update (cm_partition m) pos (cl_positions cl1)\<rparr>)
              else (Inr (), cl1))"

definition commit_handled :: "'p producer_ops \<Rightarrow> ('p, 'c) consumer_ops \<Rightarrow> shard_claims \<Rightarrow> 'p \<Rightarrow> 'c \<Rightarrow> unit result \<times> shard_claims \<times> 'p \<times> 'c" where
  "commit_handled P C cl p c =
     (case po_flush P p of
        (Inl e, p1) \<Rightarrow> (Inl e, cl, p1, c)
      | (Inr _, p1) \<Rightarrow>
          (case co_ack C p1 c (cl_handled cl) of
             (Inl e, p2, c2) \<Rightarrow> (Inl e, cl, p2, c2)
           | (Inr _, p2, c2) \<Rightarrow> (Inr (), cl\<lparr>cl_handled := []\<rparr>, p2, c2)))"

section \<open>Leases\<close>

fun renew_loop :: "'st store_ops \<Rightarrow> int \<Rightarrow> shard_claims \<Rightarrow> int list \<Rightarrow> 'st \<Rightarrow> unit result \<times> 'st" where
  "renew_loop S now cl [] st = (Inr (), st)"
| "renew_loop S now cl (shard # rest) st =
     (case so_acquire_lease S st now shard (lease_owner cl) (cl_lease_ttl_s cl) of
        (Inl e, st') \<Rightarrow> (Inl e, st')
      | (Inr (Some owner), st') \<Rightarrow> (Inl ShardLeaseLostError, st')
      | (Inr None, st') \<Rightarrow> renew_loop S now cl rest st')"

definition renew_leases :: "'st store_ops \<Rightarrow> int \<Rightarrow> shard_claims \<Rightarrow> 'st \<Rightarrow> unit result \<times> 'st" where
  "renew_leases S now cl st = renew_loop S now cl (sort (cl_leased cl)) st"

fun release_loop :: "'st store_ops \<Rightarrow> int \<Rightarrow> string \<Rightarrow> int list \<Rightarrow> 'st \<Rightarrow> unit result \<times> 'st" where
  "release_loop S now owner [] st = (Inr (), st)"
| "release_loop S now owner (shard # rest) st =
     (case so_release_lease S st now shard owner of
        (Inl e, st') \<Rightarrow> (Inl e, st')
      | (Inr _, st') \<Rightarrow> release_loop S now owner rest st')"

definition cl_release :: "'st store_ops \<Rightarrow> int \<Rightarrow> shard_claims \<Rightarrow> 'st \<Rightarrow> unit result \<times> shard_claims \<times> 'st" where
  "cl_release S now cl st =
     (case release_loop S now (lease_owner cl) (sort (cl_leased cl)) st of (r, st') \<Rightarrow> (r, cl\<lparr>cl_leased := []\<rparr>, st'))"

section \<open>Claiming\<close>

text \<open>\<open>owner.rpartition("/")\<close>: the part before the last slash, the whole text if there is none.\<close>

definition holder_member :: "string \<Rightarrow> string" where
  "holder_member owner = (if CHR ''/'' \<in> set owner then rev (tl (dropWhile (\<lambda>c. c \<noteq> CHR ''/'') (rev owner))) else owner)"

fun rollback :: "'st store_ops \<Rightarrow> int \<Rightarrow> shard_claims \<Rightarrow> int list \<Rightarrow> 'st \<Rightarrow> unit result \<times> shard_claims \<times> 'st" where
  "rollback S now cl [] st = (Inr (), cl, st)"
| "rollback S now cl (taken # rest) st =
     (let cl1 = cl\<lparr>cl_windows := AList.delete taken (cl_windows cl), cl_leased := removeAll taken (cl_leased cl)\<rparr>
      in case so_release_lease S st now taken (lease_owner cl) of
           (Inl e, st1) \<Rightarrow> (Inl e, cl1, st1)
         | (Inr _, st1) \<Rightarrow> rollback S now cl1 rest st1)"

fun claim_loop :: "'st store_ops \<Rightarrow> int \<Rightarrow> shard_claims \<Rightarrow> int list \<Rightarrow> (string \<times> int) list \<Rightarrow> 'st \<Rightarrow> unit result \<times> shard_claims \<times> 'st" where
  "claim_loop S now cl claimed [] st = (Inr (), cl, st)"
| "claim_loop S now cl claimed ((topic, shard) # rest) st =
     (if shard \<in> set (cl_leased cl) \<and> cl_window cl shard \<noteq> None then claim_loop S now cl claimed rest st
      else case so_acquire_lease S st now shard (lease_owner cl) (cl_lease_ttl_s cl) of
        (Inl e, st1) \<Rightarrow> (Inl e, cl, st1)
      | (Inr (Some owner), st1) \<Rightarrow>
          (case rollback S now cl claimed st1 of
             (Inl e, cl2, st2) \<Rightarrow> (Inl e, cl2, st2)
           | (Inr _, cl2, st2) \<Rightarrow>
               (Inl (if holder_member owner = cl_member_id cl then ShardHeldBySameMemberError else ShardOwnedElsewhereError), cl2, st2))
      | (Inr None, st1) \<Rightarrow>
          let cl1 = cl\<lparr>cl_leased := List.insert shard (cl_leased cl)\<rparr> in
          (case so_load S st1 shard of
             (Inl e, st2) \<Rightarrow> (Inl e, cl1, st2)
           | (Inr state, st2) \<Rightarrow>
               (case mk_shard_window shard (cl_config cl) now (shs_hot_ips state) (shs_next_sequence state) (cl_max_tracked_ips cl) of
                  Inl e \<Rightarrow> (Inl e, cl1, st2)
                | Inr w \<Rightarrow>
                    claim_loop S now (cl1\<lparr>cl_windows := AList.update shard w (cl_windows cl1)\<rparr>) (claimed @ [shard]) rest st2)))"

definition cl_on_assigned :: "'st store_ops \<Rightarrow> int \<Rightarrow> shard_claims \<Rightarrow> (string \<times> int) list \<Rightarrow> 'st \<Rightarrow> unit result \<times> shard_claims \<times> 'st" where
  "cl_on_assigned S now cl partitions st =
     (if partitions = [] then (Inl ValueError, cl, st) else claim_loop S now cl [] (sort (remdups partitions)) st)"

end
