(* ===== verification/Shard_Claims_Correct.thy ===== *)
theory Shard_Claims_Correct
  imports Shard_Claims
begin

text \<open>
  Claims: a window is in step with the durable state from the moment it is built, a refused call leaves
  the leases as they were, another instance is told from another member, and an acknowledgement covers
  exactly what was handled.
\<close>

section \<open>A fresh window\<close>

lemma sw_track_fields [simp]:
  "sw_shard (sw_track w ip e) = sw_shard w" "sw_next_sequence (sw_track w ip e) = sw_next_sequence w"
  by (simp_all add: sw_track_def sw_schedule_last_seen_def sw_put_def)

lemma sw_track_inherited_hot:
  assumes "sw_track_inherited w now ips = Inr w'" "\<forall>ip e. sw_entry w ip = Some e \<longrightarrow> en_state e = HOT"
  shows "sw_shard w' = sw_shard w \<and> sw_next_sequence w' = sw_next_sequence w \<and> (\<forall>ip e. sw_entry w' ip = Some e \<longrightarrow> en_state e = HOT)"
  using assms
proof (induction ips arbitrary: w)
  case (Cons ip ips)
  obtain c where c: "sw_new_counter w = Inr c" using Cons.prems(1) by (cases "sw_new_counter w") (auto simp: bindE_def)
  let ?e = "\<lparr>en_counter = c, en_state = HOT, en_last_seen = now, en_inherited = True\<rparr>"
  have entry: "sw_entry (sw_track w ip ?e) i = (if i = ip then Some ?e else sw_entry w i)" for i
    by (simp add: sw_track_def sw_schedule_last_seen_def sw_put_def update_conv')
  have "\<forall>i e. sw_entry (sw_track w ip ?e) i = Some e \<longrightarrow> en_state e = HOT"
    unfolding entry using Cons.prems(2) by simp
  from Cons.IH[OF _ this] Cons.prems(1) c show ?case by (simp add: bindE_def)
qed simp

lemma mk_shard_window_inherits:
  assumes "config_ok cfg" "0 < m"
  obtains w where "mk_shard_window shard cfg now hot seq m = Inr w" "sw_ok w now" "sw_config w = cfg" "sw_shard w = shard"
    "sw_next_sequence w = seq" "{ip. sw_state w ip = HOT} = set hot"
proof -
  obtain w where w: "mk_shard_window shard cfg now hot seq m = Inr w" "sw_ok w now" "sw_config w = cfg" "set (sw_tracked_ips w) = set hot"
    using mk_shard_window_ok[OF assms, of shard now hot seq] by blast
  obtain w0 where w0: "sw_track_inherited \<lparr>sw_shard = shard, sw_next_sequence = seq, sw_capacity_evictions = 0, sw_retention_evictions = 0,
      sw_config = cfg, sw_max_tracked_ips = m, sw_entries = [], sw_tie_break = 0, sw_expiry_heap = [], sw_expiry_scheduled = [],
      sw_last_seen_heap = [], sw_last_seen_scheduled = [], sw_warm_until = None\<rparr> now (remdups hot) = Inr w0"
    and eq: "sw_entries w = sw_entries w0" "sw_shard w = sw_shard w0" "sw_next_sequence w = sw_next_sequence w0"
    using w(1) by (auto simp: mk_shard_window_def bindE_def split: if_splits sum.splits)
  from sw_track_inherited_hot[OF w0]
  have hot: "sw_shard w = shard" "sw_next_sequence w = seq" "\<forall>ip e. sw_entry w ip = Some e \<longrightarrow> en_state e = HOT" using eq by simp_all
  have "sw_state w ip = HOT \<longleftrightarrow> sw_entry w ip \<noteq> None" for ip
    using hot(3) by (cases "sw_entry w ip") (auto simp: sw_state_def)
  then have "sw_state w ip = HOT \<longleftrightarrow> ip \<in> set (sw_tracked_ips w)" for ip
    by (simp only: sw_tracked_ips_def set_map map_of_eq_None_iff not_not)
  then have "{ip. sw_state w ip = HOT} = set hot" using w(4) by auto
  with that w hot show ?thesis by blast
qed

section \<open>Naming the holder\<close>

lemma holder_member_owner: "CHR ''/'' \<notin> set i \<Longrightarrow> holder_member (m @ ''/'' @ i) = m"
proof -
  assume "CHR ''/'' \<notin> set i"
  then have "dropWhile (\<lambda>c. c \<noteq> CHR ''/'') (rev i @ CHR ''/'' # rev m) = CHR ''/'' # rev m"
    by (subst dropWhile_append2) auto
  then show ?thesis by (simp add: holder_member_def)
qed

section \<open>The claims' invariant\<close>

definition claims_ok :: "('st \<Rightarrow> int \<Rightarrow> address set) \<Rightarrow> ('st \<Rightarrow> int \<Rightarrow> int) \<Rightarrow> int \<Rightarrow> shard_claims \<Rightarrow> 'st \<Rightarrow> bool" where
  "claims_ok hot seq now cl st \<longleftrightarrow> config_ok (cl_config cl) \<and> 0 < cl_max_tracked_ips cl \<and> 0 < cl_lease_ttl_s cl \<and>
     (\<forall>p. 0 \<le> seq st p) \<and> distinct (map fst (cl_windows cl)) \<and>
     (\<forall>s w. cl_window cl s = Some w \<longrightarrow> sw_shard w = s \<and> sw_ok w now \<and> sw_config w = cl_config cl \<and>
        (s \<in> set (cl_leased cl) \<longrightarrow> in_step hot seq {} w st))"

lemma claims_okD:
  assumes "claims_ok hot seq now cl st"
  shows "config_ok (cl_config cl)" "0 < cl_max_tracked_ips cl" "0 < cl_lease_ttl_s cl" "0 \<le> seq st p" "distinct (map fst (cl_windows cl))"
    and "cl_window cl s = Some w \<Longrightarrow> sw_shard w = s \<and> sw_ok w now \<and> sw_config w = cl_config cl"
    and "cl_window cl s = Some w \<Longrightarrow> s \<in> set (cl_leased cl) \<Longrightarrow> in_step hot seq {} w st"
  using assms by (auto simp: claims_ok_def)

lemma in_step_cong: "hot st' = hot st \<Longrightarrow> seq st' = seq st \<Longrightarrow> in_step hot seq X w st' = in_step hot seq X w st"
  by (simp add: in_step_def)

lemma claims_ok_store:
  assumes "claims_ok hot seq now cl st" "hot st' = hot st" "seq st' = seq st"
  shows "claims_ok hot seq now cl st'"
proof -
  have "claims_ok hot seq now cl st' = claims_ok hot seq now cl st"
    using assms(2,3) by (simp add: claims_ok_def in_step_cong[OF assms(2,3)])
  with assms(1) show ?thesis by simp
qed

lemma claims_ok_drop:
  "claims_ok hot seq now cl st \<Longrightarrow>
   claims_ok hot seq now (cl\<lparr>cl_windows := AList.delete s (cl_windows cl), cl_leased := removeAll s (cl_leased cl)\<rparr>) st"
  by (auto simp: claims_ok_def delete_conv' distinct_delete split: if_splits)

lemma claims_ok_release: "claims_ok hot seq now cl st \<Longrightarrow> claims_ok hot seq now (cl\<lparr>cl_leased := []\<rparr>) st"
  by (auto simp: claims_ok_def)

lemma claims_ok_put:
  assumes "claims_ok hot seq now cl st" "sw_shard w = s" "sw_ok w now" "sw_config w = cl_config cl" "in_step hot seq {} w st"
    "set (cl_leased cl') \<subseteq> insert s (set (cl_leased cl))"
    "cl_windows cl' = AList.update s w (cl_windows cl)" "cl_config cl' = cl_config cl" "cl_max_tracked_ips cl' = cl_max_tracked_ips cl"
    "cl_lease_ttl_s cl' = cl_lease_ttl_s cl"
  shows "claims_ok hot seq now cl' st"
  using assms by (auto simp: claims_ok_def update_conv' distinct_update split: if_splits)

text \<open>Every window belongs to a lease: so it is before \<open>release\<close>.\<close>

definition no_stale :: "shard_claims \<Rightarrow> bool" where
  "no_stale cl \<longleftrightarrow> dom (cl_window cl) \<subseteq> set (cl_leased cl)"

lemma claims_ok_lease:
  "claims_ok hot seq now cl st \<Longrightarrow> cl_window cl s = None \<Longrightarrow> claims_ok hot seq now (cl\<lparr>cl_leased := List.insert s (cl_leased cl)\<rparr>) st"
  by (auto simp: claims_ok_def)

text \<open>What claiming may not touch.\<close>

definition same_member :: "shard_claims \<Rightarrow> shard_claims \<Rightarrow> bool" where
  "same_member cl cl' \<longleftrightarrow> cl_config cl' = cl_config cl \<and> lease_owner cl' = lease_owner cl \<and> cl_member_id cl' = cl_member_id cl \<and>
     cl_lease_ttl_s cl' = cl_lease_ttl_s cl \<and> cl_max_tracked_ips cl' = cl_max_tracked_ips cl \<and> cl_handled cl' = cl_handled cl \<and>
     cl_positions cl' = cl_positions cl"

lemma same_member_refl [simp]: "same_member cl cl" by (simp add: same_member_def)

lemma same_member_trans: "same_member cl cl' \<Longrightarrow> same_member cl' cl'' \<Longrightarrow> same_member cl cl''"
  by (auto simp: same_member_def)

context shard_state_store
begin

lemma release_observed:
  "so_release_lease ops st now p owner = (r, st') \<Longrightarrow> hot st' = hot st \<and> seq st' = seq st"
  using release_law by blast

lemma acquire_observed:
  "so_acquire_lease ops st now p owner ttl = (ra, st') \<Longrightarrow> hot st' = hot st \<and> seq st' = seq st"
  using acquire_law[of ttl st now p owner ra st'] acquire_error[of ttl st now p owner] by (cases "0 < ttl") auto

lemma rollback_ok:
  assumes "claims_ok hot seq now cl st" "rollback ops now cl taken st = (r, cl', st')"
  shows "claims_ok hot seq now cl' st' \<and> same_member cl cl' \<and> hot st' = hot st \<and> seq st' = seq st \<and>
    set (cl_leased cl') \<subseteq> set (cl_leased cl) \<and> (r = Inr () \<longrightarrow> set (cl_leased cl') = set (cl_leased cl) - set taken) \<and>
    (\<forall>s w. cl_window cl' s = Some w \<longrightarrow> cl_window cl s = Some w \<and> (r = Inr () \<longrightarrow> s \<notin> set taken))"
  using assms
proof (induction taken arbitrary: cl st)
  case (Cons s taken)
  let ?cl = "cl\<lparr>cl_windows := AList.delete s (cl_windows cl), cl_leased := removeAll s (cl_leased cl)\<rparr>"
  obtain r1 st1 where rel: "so_release_lease ops st now s (lease_owner cl) = (r1, st1)" by fastforce
  have ok: "claims_ok hot seq now ?cl st1"
    using claims_ok_store[OF claims_ok_drop[OF Cons.prems(1)]] release_observed[OF rel] by blast
  have same: "same_member cl ?cl" by (simp add: same_member_def lease_owner_def)
  show ?case
  proof (cases r1)
    case (Inl e)
    then show ?thesis using Cons.prems(2) rel ok same release_observed[OF rel] by (auto simp: delete_conv' split: if_splits)
  next
    case (Inr u)
    then have run: "rollback ops now ?cl taken st1 = (r, cl', st')" using Cons.prems(2) rel by (simp add: Let_def)
    note IH = Cons.IH[OF ok run]
    have kept: "cl_window cl s' = Some w \<and> s' \<notin> set (if r = Inr () then s # taken else [])" if "cl_window cl' s' = Some w" for s' w
    proof -
      have "cl_window ?cl s' = Some w" "r = Inr () \<longrightarrow> s' \<notin> set taken" using IH that by blast+
      then show ?thesis by (simp add: delete_conv' split: if_splits)
    qed
    have "same_member cl cl'" using IH same same_member_trans by blast
    moreover have "set (cl_leased cl') \<subseteq> set (cl_leased cl)" "r = Inr () \<longrightarrow> set (cl_leased cl') = set (cl_leased cl) - set (s # taken)"
      using IH by auto
    ultimately show ?thesis using IH release_observed[OF rel] kept by (simp split: if_splits)
  qed
qed simp

text \<open>Claiming keeps the invariant whatever happens; when it returns, every partition is leased and has a
  window.\<close>

lemma claim_loop_ok:
  assumes "claims_ok hot seq now cl st" "no_stale cl" "claim_loop ops now cl claimed ps st = (r, cl', st')"
  shows "claims_ok hot seq now cl' st' \<and> same_member cl cl' \<and> hot st' = hot st \<and> seq st' = seq st \<and>
    (r = Inr () \<longrightarrow> no_stale cl' \<and> set (cl_leased cl) \<subseteq> set (cl_leased cl') \<and> snd ` set ps \<subseteq> set (cl_leased cl') \<inter> dom (cl_window cl') \<and>
       dom (cl_window cl) \<subseteq> dom (cl_window cl'))"
  using assms
proof (induction ps arbitrary: cl st claimed)
  case (Cons tp ps)
  obtain topic s where tp: "tp = (topic, s)" by (cases tp)
  show ?case
  proof (cases "s \<in> set (cl_leased cl) \<and> cl_window cl s \<noteq> None")
    case True
    then have run: "claim_loop ops now cl claimed ps st = (r, cl', st')" using Cons.prems(3) tp by simp
    from Cons.IH[OF Cons.prems(1,2) run] True tp show ?thesis by auto
  next
    case False
    then have none: "cl_window cl s = None" using Cons.prems(2) by (auto simp: no_stale_def)
    obtain ra st1 where acq: "so_acquire_lease ops st now s (lease_owner cl) (cl_lease_ttl_s cl) = (ra, st1)" by fastforce
    note obs = acquire_observed[OF acq]
    have ok1: "claims_ok hot seq now cl st1" using claims_ok_store[OF Cons.prems(1)] obs by blast
    consider e where "ra = Inl e" | owner where "ra = Inr (Some owner)" | "ra = Inr None"
      by (metis obj_sumE option.exhaust)
    then show ?thesis
    proof cases
      case 1
      then show ?thesis using Cons.prems(3) tp False acq ok1 obs by auto
    next
      case (2 owner)
      obtain r2 cl2 st2 where roll: "rollback ops now cl claimed st1 = (r2, cl2, st2)" by (metis prod_cases3)
      have "cl' = cl2" "st' = st2" "r \<noteq> Inr ()" using Cons.prems(3) tp False acq 2 roll by (auto split: sum.splits)
      with rollback_ok[OF ok1 roll] obs show ?thesis by simp
    next
      case 3
      let ?cl1 = "cl\<lparr>cl_leased := List.insert s (cl_leased cl)\<rparr>"
      have same1: "same_member cl ?cl1" by (simp add: same_member_def lease_owner_def)
      obtain rl st2 where ld: "so_load ops st1 s = (rl, st2)" by fastforce
      note law = load_law[OF ld]
      show ?thesis
      proof (cases rl)
        case (Inl e)
        then show ?thesis using Cons.prems(3) tp False acq 3 ld law obs claims_ok_lease[OF ok1 none] same1 by auto
      next
        case (Inr state)
        obtain w where w: "mk_shard_window s (cl_config cl) now (shs_hot_ips state) (shs_next_sequence state) (cl_max_tracked_ips cl) = Inr w"
          "sw_ok w now" "sw_config w = cl_config cl" "sw_shard w = s" "sw_next_sequence w = shs_next_sequence state"
          "{ip. sw_state w ip = HOT} = set (shs_hot_ips state)"
          using mk_shard_window_inherits[OF claims_okD(1,2)[OF ok1]] by blast
        let ?cl2 = "?cl1\<lparr>cl_windows := AList.update s w (cl_windows ?cl1)\<rparr>"
        have step: "in_step hot seq {} w st1" using w law Inr claims_okD(4)[OF ok1] by (simp add: in_step_def)
        have ok2: "claims_ok hot seq now ?cl2 st1" by (rule claims_ok_put[OF ok1 w(4,2,3) step]) auto
        have stale2: "no_stale ?cl2" using Cons.prems(2) by (auto simp: no_stale_def update_conv')
        have "claim_loop ops now ?cl2 (claimed @ [s]) ps st2 = (r, cl', st')"
          using Cons.prems(3) tp none acq 3 ld Inr w(1) by (simp add: Let_def)
        with law have run: "claim_loop ops now ?cl2 (claimed @ [s]) ps st1 = (r, cl', st')" by simp
        have same2: "same_member cl ?cl2" by (simp add: same_member_def lease_owner_def)
        note IH = Cons.IH[OF ok2 stale2 run]
        have "same_member cl cl'" using IH same2 same_member_trans by blast
        moreover have "dom (cl_window cl) \<subseteq> dom (cl_window ?cl2)" "s \<in> dom (cl_window ?cl2)" by (auto simp: update_conv')
        ultimately show ?thesis using IH obs tp by (simp add: subset_iff)
      qed
    qed
  qed
qed simp

end


section \<open>All or nothing\<close>

text \<open>Over a store that does not fail, a call of a fresh process either claims every partition or leaves
  the leases as they were.\<close>

definition claim_holder :: "('st \<Rightarrow> int \<Rightarrow> int \<Rightarrow> string option) \<Rightarrow> int \<Rightarrow> string \<Rightarrow> rat \<Rightarrow> int set \<Rightarrow> 'st \<Rightarrow> 'st \<Rightarrow> bool" where
  "claim_holder holder now owner ttl A st0 st \<longleftrightarrow> (\<forall>t q. now \<le> t \<longrightarrow> holder st t q =
     (if q \<in> A then if of_int t < of_int now + ttl then Some owner else None else holder st0 t q))"

definition refusal :: "('st \<Rightarrow> int \<Rightarrow> int \<Rightarrow> string option) \<Rightarrow> int \<Rightarrow> string \<Rightarrow> int set \<Rightarrow> 'st \<Rightarrow> py_error \<Rightarrow> bool" where
  "refusal holder now member A st e \<longleftrightarrow> (\<exists>s h. s \<in> A \<and> holder st now s = Some h \<and>
     e = (if holder_member h = member then ShardHeldBySameMemberError else ShardOwnedElsewhereError))"

lemma refusal_mono: "refusal holder now member A st e \<Longrightarrow> A \<subseteq> B \<Longrightarrow> refusal holder now member B st e"
  unfolding refusal_def by (meson subsetD)

context reliable_store
begin

lemma release_step:
  assumes "so_release_lease ops st now p owner = (r, st')"
  shows "r = Inr ()" "now \<le> t \<Longrightarrow> holder st' t q = (if q = p \<and> holder st now p = Some owner then None else holder st t q)"
proof -
  show r: "r = Inr ()" using release_returns[of st now p owner] assms by auto
  show "now \<le> t \<Longrightarrow> holder st' t q = (if q = p \<and> holder st now p = Some owner then None else holder st t q)"
    using release_law[OF assms] r by blast
qed

lemma rollback_released:
  assumes "rollback ops now cl taken st = (r, cl', st')" "now \<le> t"
  shows "r = Inr () \<and> holder st' t q = (if q \<in> set taken \<and> holder st now q = Some (lease_owner cl) then None else holder st t q)"
  using assms(1)
proof (induction taken arbitrary: cl st)
  case (Cons s taken)
  let ?cl = "cl\<lparr>cl_windows := AList.delete s (cl_windows cl), cl_leased := removeAll s (cl_leased cl)\<rparr>"
  obtain r1 st1 where rel: "so_release_lease ops st now s (lease_owner cl) = (r1, st1)" by fastforce
  note step = release_step[OF rel]
  have run: "rollback ops now ?cl taken st1 = (r, cl', st')" using Cons.prems rel step(1) by (simp add: Let_def)
  have own: "lease_owner ?cl = lease_owner cl" by (simp add: lease_owner_def)
  note IH = Cons.IH[OF run, unfolded own]
  show ?case using IH step(2)[OF order_refl, of q] step(2)[OF assms(2), of q] by (auto split: if_splits)
qed simp

lemma acquire_step:
  assumes "so_acquire_lease ops st now p owner ttl = (ra, st')" "0 < ttl" "holder st now p \<noteq> Some owner"
  shows "(holder st now p = None \<and> ra = Inr None \<and> holder st' = lease_after (holder st) now p owner ttl) \<or>
    (\<exists>h. holder st now p = Some h \<and> ra = Inr (Some h) \<and> holder st' = holder st)"
proof -
  obtain h where ra: "ra = Inr h" using acquire_returns[OF assms(2), of st now p owner] assms(1) by auto
  show ?thesis using acquire_law[OF assms(2,1)] ra assms(3) by (cases "holder st now p") auto
qed

lemma claim_loop_all_or_nothing:
  assumes "claims_ok hot seq now cl st" "set (cl_leased cl) = A" "dom (cl_window cl) = A" "set claimed = A"
    and "claim_holder holder now (lease_owner cl) (cl_lease_ttl_s cl) A st0 st" "\<forall>q \<in> A. holder st0 now q = None" "\<forall>q. holder st0 now q \<noteq> Some (lease_owner cl)"
    and "claim_loop ops now cl claimed ps st = (r, cl', st')"
  shows "case r of
      Inr _ \<Rightarrow> set (cl_leased cl') = A \<union> snd ` set ps \<and> dom (cl_window cl') = A \<union> snd ` set ps \<and>
        claim_holder holder now (lease_owner cl) (cl_lease_ttl_s cl) (A \<union> snd ` set ps) st0 st'
    | Inl e \<Rightarrow> refusal holder now (cl_member_id cl) (snd ` set ps) st0 e \<and> cl_leased cl' = [] \<and> cl_windows cl' = [] \<and> claim_holder holder now (lease_owner cl) (cl_lease_ttl_s cl) {} st0 st'"
  using assms
proof (induction ps arbitrary: cl st claimed A)
  case Nil
  then show ?case by auto
next
  case (Cons tp ps)
  obtain topic s where tp: "tp = (topic, s)" by (cases tp)
  have ttl: "0 < cl_lease_ttl_s cl" using claims_okD(3)[OF Cons.prems(1)] .
  show ?case
  proof (cases "s \<in> A")
    case True
    then have "s \<in> set (cl_leased cl)" "cl_window cl s \<noteq> None" using Cons.prems(2,3) by auto
    then have "claim_loop ops now cl claimed ps st = (r, cl', st')" using Cons.prems(8) tp by simp
    from Cons.IH[OF Cons.prems(1-7) this] True tp show ?thesis by (auto simp: insert_absorb elim: refusal_mono split: sum.splits)
  next
    case False
    obtain ra st1 where acq: "so_acquire_lease ops st now s (lease_owner cl) (cl_lease_ttl_s cl) = (ra, st1)" by fastforce
    have now: "holder st now q = (if q \<in> A then Some (lease_owner cl) else holder st0 now q)" for q
      using Cons.prems(5) ttl by (simp add: claim_holder_def)
    have "holder st now s \<noteq> Some (lease_owner cl)" using now Cons.prems(7) False by simp
    note acq1 = acquire_step[OF acq ttl this]
    show ?thesis
    proof (cases "holder st now s")
      case None
      then have 1: "holder st now s = None" "ra = Inr None" "holder st1 = lease_after (holder st) now s (lease_owner cl) (cl_lease_ttl_s cl)"
        using acq1 by simp_all
      obtain state where ld: "so_load ops st1 s = (Inr state, st1)" using load_returns by blast
      obtain w where w: "mk_shard_window s (cl_config cl) now (shs_hot_ips state) (shs_next_sequence state) (cl_max_tracked_ips cl) = Inr w"
        "sw_ok w now" "sw_config w = cl_config cl" "sw_shard w = s" "sw_next_sequence w = shs_next_sequence state"
        "{ip. sw_state w ip = HOT} = set (shs_hot_ips state)"
        using mk_shard_window_inherits[OF claims_okD(1,2)[OF Cons.prems(1)]] by blast
      let ?cl = "cl\<lparr>cl_leased := List.insert s (cl_leased cl), cl_windows := AList.update s w (cl_windows cl)\<rparr>"
      have run: "claim_loop ops now ?cl (claimed @ [s]) ps st1 = (r, cl', st')"
        using Cons.prems(2,8) tp False acq 1(2) ld w(1) by (simp add: Let_def)
      have ok1: "claims_ok hot seq now cl st1" using claims_ok_store[OF Cons.prems(1)] acquire_observed[OF acq] by blast
      have step: "in_step hot seq {} w st1" using w load_law[OF ld] claims_okD(4)[OF ok1] by (simp add: in_step_def)
      have ok: "claims_ok hot seq now ?cl st1" by (rule claims_ok_put[OF ok1 w(4,2,3) step]) auto
      have own: "lease_owner ?cl = lease_owner cl" "cl_lease_ttl_s ?cl = cl_lease_ttl_s cl" "cl_member_id ?cl = cl_member_id cl"
        by (simp_all add: lease_owner_def)
      have hold: "claim_holder holder now (lease_owner ?cl) (cl_lease_ttl_s ?cl) (insert s A) st0 st1"
        using Cons.prems(5) 1(3) by (simp add: claim_holder_def lease_after_def own)
      have "set (cl_leased ?cl) = insert s A" "dom (cl_window ?cl) = insert s A" "set (claimed @ [s]) = insert s A"
        using Cons.prems(2,3,4) by (auto simp: update_conv')
      note IH = Cons.IH[OF ok this hold _ _ run, unfolded own]
      have "\<forall>q \<in> insert s A. holder st0 now q = None" using Cons.prems(6) 1(1) now False by simp
      from IH[OF this Cons.prems(7)] tp show ?thesis
        by (auto elim: refusal_mono split: sum.splits)
    next
      case (Some h)
      then have 2: "holder st now s = Some h" "ra = Inr (Some h)" "holder st1 = holder st" using acq1 by simp_all
      have ok1: "claims_ok hot seq now cl st1" using claims_ok_store[OF Cons.prems(1)] acquire_observed[OF acq] by blast
      obtain r2 cl2 st2 where roll: "rollback ops now cl claimed st1 = (r2, cl2, st2)" by (metis prod_cases3)
      have r2: "r2 = Inr ()" using rollback_released[OF roll order_refl] by blast
      have res: "r = Inl (if holder_member h = cl_member_id cl then ShardHeldBySameMemberError else ShardOwnedElsewhereError)" "cl' = cl2" "st' = st2"
        using Cons.prems(2,8) tp False acq 2(2) roll r2 by auto
      note rolled = rollback_ok[OF ok1 roll]
      have "cl_window cl2 q = None" for q
      proof (rule ccontr)
        assume "cl_window cl2 q \<noteq> None"
        then obtain w where "cl_window cl2 q = Some w" by blast
        then have "cl_window cl q = Some w" "q \<notin> set claimed" using rolled r2 by blast+
        then show False using Cons.prems(3,4) by auto
      qed
      then have "cl_windows cl2 = []" using map_of_eq_None_iff[of "cl_windows cl2"] by (cases "cl_windows cl2") auto
      moreover have "cl_leased cl2 = []" using rolled r2 Cons.prems(2,4) by simp
      moreover have "holder st2 t q = holder st0 t q" if "now \<le> t" for t q
        using rollback_released[OF roll that, of q] 2(3) now[of q] Cons.prems(4,5,6) holder_expires[of st0 now q t] that
        by (auto simp: claim_holder_def)
      moreover have "refusal holder now (cl_member_id cl) (snd ` set (tp # ps)) st0 (if holder_member h = cl_member_id cl then ShardHeldBySameMemberError else ShardOwnedElsewhereError)"
        unfolding refusal_def using 2(1) now[of s] False tp by (intro exI[of _ s] exI[of _ h]) simp
      ultimately show ?thesis using res by (simp add: claim_holder_def)
    qed
  qed
qed

end

section \<open>Acknowledgements\<close>

lemma mark_handled_eq:
  "cl_window cl (cm_partition m) = Some w \<Longrightarrow> \<exists>cl'. mark_handled cl m = (Inr (), cl') \<and> cl_handled cl' = cl_handled cl @ [m] \<and>
     handled_position cl' = (handled_position cl)(cm_partition m \<mapsto>
       (case handled_position cl (cm_partition m) of None \<Rightarrow> cm_offset m + 1 | Some n \<Rightarrow> max n (cm_offset m + 1))) \<and>
     cl_windows cl' = cl_windows cl \<and> cl_leased cl' = cl_leased cl \<and> cl_config cl' = cl_config cl \<and> lease_owner cl' = lease_owner cl \<and>
     cl_lease_ttl_s cl' = cl_lease_ttl_s cl \<and> cl_max_tracked_ips cl' = cl_max_tracked_ips cl \<and> cl_member_id cl' = cl_member_id cl"
  by (auto simp: mark_handled_def Let_def handled_position_def fun_eq_iff update_conv' lease_owner_def split: option.splits)

context consumer
begin

text \<open>A commit acknowledges what was handled and nothing else, and adds nothing to the log; if it raises,
  everything handled is kept for the next one.\<close>

lemma commit_handled_ok:
  assumes "commit_handled P C cl p c = (r, cl', p', c')"
  shows "log p' = log p \<and> ids p' = ids p \<and> acked p c \<subseteq> acked p' c' \<and> acked p' c' \<subseteq> acked p c \<union> position_of ` set (cl_handled cl) \<and>
    (if r = Inr () then acked p' c' = acked p c \<union> position_of ` set (cl_handled cl) \<and> cl' = cl\<lparr>cl_handled := []\<rparr> else cl' = cl)"
proof -
  obtain rf p1 where fl: "po_flush P p = (rf, p1)" by fastforce
  note flushed = flush_law[OF fl] flush_acks_nothing[OF fl]
  show ?thesis
  proof (cases rf)
    case (Inl e)
    then show ?thesis using assms fl flushed by (auto simp: commit_handled_def)
  next
    case (Inr u)
    obtain ra p2 c2 where ak: "co_ack C p1 c (cl_handled cl) = (ra, p2, c2)" by (metis prod_cases3)
    note law = ack_law[OF ak]
    show ?thesis
    proof (cases ra)
      case (Inl e)
      then show ?thesis using assms fl Inr ak flushed law by (auto simp: commit_handled_def)
    next
      case okr: (Inr u')
      then show ?thesis using assms fl Inr ak flushed law by (auto simp: commit_handled_def)
    qed
  qed
qed

end

section \<open>Properties\<close>



end
