(* ===== verification/Window_Frame.thy ===== *)
theory Window_Frame
  imports Shard_Window_Theorems
begin

text \<open>
  What the window's operations leave alone: the shard, the sequence counter, the configuration, the end
  of the warm-up, and, but for \<open>set_state\<close>, every IP's HOT/COLD state.
\<close>

definition sw_same :: "shard_window \<Rightarrow> shard_window \<Rightarrow> bool" where
  "sw_same w w' \<longleftrightarrow> sw_shard w' = sw_shard w \<and> sw_next_sequence w' = sw_next_sequence w \<and> sw_config w' = sw_config w \<and>
     sw_max_tracked_ips w' = sw_max_tracked_ips w \<and> sw_warm_until w' = sw_warm_until w"

lemma sw_same_refl [simp]: "sw_same w w"
  by (simp add: sw_same_def)

lemma sw_same_trans: "sw_same w w' \<Longrightarrow> sw_same w' w'' \<Longrightarrow> sw_same w w''"
  by (simp add: sw_same_def)

lemma sw_same_updates [simp]:
  "sw_same w (sw_put w' ip e) = sw_same w w'" "sw_same w (sw_drop w' ip) = sw_same w w'"
  "sw_same w (sw_schedule_expiry w' ip e) = sw_same w w'" "sw_same w (sw_schedule_last_seen w' ip e) = sw_same w w'"
  "sw_same w (w'\<lparr>sw_expiry_heap := h\<rparr>) = sw_same w w'" "sw_same w (w'\<lparr>sw_last_seen_heap := h\<rparr>) = sw_same w w'"
  "sw_same w (w'\<lparr>sw_expiry_scheduled := s\<rparr>) = sw_same w w'" "sw_same w (w'\<lparr>sw_last_seen_scheduled := s\<rparr>) = sw_same w w'"
  "sw_same w (w'\<lparr>sw_capacity_evictions := n\<rparr>) = sw_same w w'" "sw_same w (w'\<lparr>sw_retention_evictions := n\<rparr>) = sw_same w w'"
  by (simp_all add: sw_same_def sw_put_def sw_drop_def sw_schedule_expiry_def sw_schedule_last_seen_def split: option.split)

lemma sw_capacity_loop_same: "sw_capacity_loop w d = (d', v, w') \<Longrightarrow> sw_same w0 w \<Longrightarrow> sw_same w0 w'"
proof (induction w d arbitrary: d' v w' rule: sw_capacity_loop.induct)
  case (1 w d)
  show ?case
  proof (cases "sw_last_seen_heap w")
    case Nil
    then show ?thesis using 1(4,5) by (simp add: sw_capacity_loop.simps[of w])
  next
    case (Cons x rest)
    obtain k tie ip where x: "x = (k, tie, ip)" by (cases x) auto
    note heap = Cons[unfolded x]
    show ?thesis
    proof (cases "sw_entry w ip")
      case None
      with 1(1)[OF heap refl refl refl None] heap 1(4,5) show ?thesis by (simp add: sw_capacity_loop.simps[of w] Let_def)
    next
      case (Some e)
      with 1(2)[OF heap refl refl refl Some] 1(3)[OF heap refl refl refl Some] heap 1(4,5) show ?thesis
        by (auto simp: sw_capacity_loop.simps[of w] Let_def split: if_splits)
    qed
  qed
qed

lemma sw_evict_loop_same: "sw_evict_loop w dl d n = (d', n', w') \<Longrightarrow> sw_same w0 w \<Longrightarrow> sw_same w0 w'"
proof (induction w dl d n arbitrary: d' n' w' rule: sw_evict_loop.induct)
  case (1 w dl d n)
  show ?case
  proof (cases "sw_last_seen_heap w")
    case Nil
    then show ?thesis using 1(5,6) by (simp add: sw_evict_loop.simps[of w])
  next
    case (Cons x rest)
    obtain k tie ip where x: "x = (k, tie, ip)" by (cases x) auto
    note heap = Cons[unfolded x]
    show ?thesis
    proof (cases "sw_entry w ip")
      case None
      with 1(1)[OF heap refl refl refl None] heap 1(5,6) show ?thesis by (simp add: sw_evict_loop.simps[of w] Let_def)
    next
      case (Some e)
      with 1(2)[OF heap refl refl refl Some] 1(3)[OF heap refl refl refl Some] 1(4)[OF heap refl refl refl Some] heap 1(5,6) show ?thesis
        by (auto simp: sw_evict_loop.simps[of w] Let_def split: if_splits)
    qed
  qed
qed

lemma sw_expire_loop_same:
  assumes run: "sw_expire_loop w now ch = Some y"
  shows "sw_same w (snd y)"
proof (rule sw_expire_loop.raw_induct[where P = "\<lambda>w now ch y. sw_same w (snd y)"], goal_cases)
  case (1 f w now ch y)
  show ?case
  proof (cases "sw_expiry_heap w")
    case (Cons x rest)
    obtain k tie ip where x: "x = (k, tie, ip)" by (cases x) auto
    let ?w1 = "w\<lparr>sw_expiry_heap := rest\<rparr>"
    let ?w2 = "?w1\<lparr>sw_expiry_scheduled := AList.delete ip (sw_expiry_scheduled ?w1)\<rparr>"
    have step: "sw_same w (snd y)" if "f w' now ch' = Some y" "sw_same w w'" for w' ch'
      using 1(1)[OF that(1)] that(2) sw_same_trans by blast
    show ?thesis
    proof (cases "k \<le> now \<and> map_of (sw_expiry_scheduled ?w1) ip = Some k")
      case False
      then show ?thesis using 1(2) Cons x step[of ?w1 ch] by (auto simp: Let_def split: if_splits)
    next
      case True
      show ?thesis
      proof (cases "sw_entry w ip")
        case None
        then show ?thesis using True 1(2) Cons x step[of ?w2 ch] by (simp add: Let_def)
      next
        case (Some e)
        obtain n c where c: "ic_expire (en_counter e) now = (n, c)" by fastforce
        let ?e = "e\<lparr>en_counter := c\<rparr>"
        from Some c True 1(2) Cons x obtain ch' where "f (sw_schedule_expiry (sw_put ?w2 ip ?e) ip ?e) now ch' = Some y"
          by (simp add: Let_def)
        then show ?thesis by (rule step) simp
      qed
    qed
  qed (use 1 in auto)
qed (rule run)

lemma sw_expire_due_same: "sw_expire_due w now = Some (ch, w') \<Longrightarrow> sw_same w w'"
  using sw_expire_loop_same[of w now "[]" "(ch, w')"] by (simp add: sw_expire_due_def)

lemma sw_evict_due_same: "sw_evict_due w now = (n, w') \<Longrightarrow> sw_same w w'"
  using sw_evict_loop_same[of w _ "[]" 0] by (auto simp: sw_evict_due_def Let_def split: prod.splits)

lemma sw_evict_for_capacity_same: "sw_same w (sw_evict_for_capacity w)"
  using sw_capacity_loop_same[of w "[]"] by (auto simp: sw_evict_for_capacity_def Let_def split: prod.splits option.splits)

lemma sw_observe_same: "sw_observe w ip s d now = (r, w') \<Longrightarrow> sw_same w w'"
  using sw_evict_for_capacity_same[of w]
  by (auto simp: sw_observe_def sw_track_def Let_def split: option.splits sum.splits prod.splits if_splits)

lemma sw_rebuild_same: "sw_rebuild w now ips = (r, w') \<Longrightarrow> sw_same w w'"
proof (induction ips arbitrary: w)
  case (Cons ip ips)
  show ?case
  proof (cases "sw_entry w ip")
    case None
    then show ?thesis using Cons by simp
  next
    case (Some e)
    then show ?thesis using Cons.prems by (auto simp: Let_def split: sum.splits dest!: Cons.IH elim: sw_same_trans[rotated])
  qed
qed simp

lemma sw_apply_config_same:
  "sw_apply_config w config now = (r, w') \<Longrightarrow> sw_shard w' = sw_shard w \<and> sw_next_sequence w' = sw_next_sequence w \<and> sw_warm_until w' = sw_warm_until w"
  using sw_rebuild_same[of "w\<lparr>sw_config := config\<rparr>" now "map fst (sw_entries w)" r w']
  by (auto simp: sw_apply_config_def Let_def sw_same_def split: if_splits)

lemma sw_finish_warmup_same:
  "sw_finish_warmup_if_due w now = (ips, w') \<Longrightarrow> sw_shard w' = sw_shard w \<and> sw_next_sequence w' = sw_next_sequence w \<and> sw_config w' = sw_config w"
  by (auto simp: sw_finish_warmup_if_due_def split: option.splits if_splits)

section \<open>States\<close>

lemma sw_stateI: "(\<And>ip. map_option en_state (sw_entry w' ip) = map_option en_state (sw_entry w ip)) \<Longrightarrow> sw_state w' = sw_state w"
proof
  fix ip
  assume "\<And>ip. map_option en_state (sw_entry w' ip) = map_option en_state (sw_entry w ip)"
  then show "sw_state w' ip = sw_state w ip"
    by (cases "sw_entry w ip"; cases "sw_entry w' ip") (auto simp: sw_state_def dest!: meta_spec[of _ ip])
qed

lemma sw_entry_dom: "map fst (sw_entries w') = map fst (sw_entries w) \<Longrightarrow> sw_entry w' ip = None \<longleftrightarrow> sw_entry w ip = None"
  by (metis map_of_eq_None_iff set_map)

lemma sw_expire_due_states:
  assumes "sw_ok w now" "sw_expire_due w now = Some (ch, w')"
  shows "sw_state w' = sw_state w"
proof (rule sw_stateI)
  fix ip
  from sw_expire_due_ok[OF assms(1)] assms(2) have dom: "map fst (sw_entries w') = map fst (sw_entries w)"
    and keep: "\<forall>ip e. sw_entry w ip = Some e \<longrightarrow> (\<exists>e'. sw_entry w' ip = Some e' \<and> en_state e' = en_state e)" by (auto 4 4)
  show "map_option en_state (sw_entry w' ip) = map_option en_state (sw_entry w ip)"
    using sw_entry_dom[OF dom, of ip] keep by (cases "sw_entry w ip") auto
qed

lemma sw_evict_for_capacity_states:
  assumes "sw_ok w now"
  shows "sw_state (sw_evict_for_capacity w) = sw_state w"
proof (cases "int (length (sw_entries w)) < sw_max_tracked_ips w")
  case True
  then show ?thesis by (simp add: sw_evict_for_capacity_def)
next
  case False
  with sw_evict_for_capacity_ok[OF assms] obtain v where v: "victim_ok (sw_entry w) v"
    "sw_entries (sw_evict_for_capacity w) = (case v of None \<Rightarrow> sw_entries w | Some ip \<Rightarrow> AList.delete ip (sw_entries w))" by auto
  show ?thesis
  proof (cases v)
    case None
    then show ?thesis using v by (intro sw_stateI) simp
  next
    case (Some x)
    then obtain e where "sw_entry w x = Some e" "en_state e = COLD" using v(1) by (auto simp: victim_ok_def)
    then show ?thesis using v(2) Some by (auto simp: sw_state_def fun_eq_iff delete_conv')
  qed
qed

lemma sw_observe_states:
  assumes "sw_ok w now" "sw_observe w ip s d now = (r, w')"
  shows "sw_state w' = sw_state w"
proof (cases "sw_entry w ip")
  case (Some e)
  then show ?thesis using assms(2)
    by (auto simp: sw_observe_def Let_def sw_state_def fun_eq_iff split: sum.splits prod.splits if_splits)
next
  case None
  show ?thesis
  proof (cases "sw_entries w' = sw_entries w")
    case True
    then show ?thesis by (simp add: sw_state_def fun_eq_iff)
  next
    case False
    let ?e = "\<lambda>c. \<lparr>en_counter = c, en_state = COLD, en_last_seen = s, en_inherited = False\<rparr>"
    from False None assms(2) obtain c where "w' = sw_schedule_expiry (sw_track (sw_evict_for_capacity w) ip (?e c)) ip (?e c)"
      by (auto simp: sw_observe_def Let_def split: sum.splits prod.splits if_splits)
    then have "sw_state w' = (sw_state (sw_evict_for_capacity w))(ip := COLD)"
      by (auto simp: sw_state_def sw_track_def fun_eq_iff)
    then show ?thesis using sw_evict_for_capacity_states[OF assms(1)] None by (simp add: sw_state_def fun_eq_iff)
  qed
qed

lemma map_of_filter_keep:
  "distinct (map fst es) \<Longrightarrow> map_of (filter (\<lambda>(k, v). P v) es) k = (case map_of es k of None \<Rightarrow> None | Some v \<Rightarrow> if P v then Some v else None)"
  by (induction es) (auto split: option.splits simp: map_of_eq_None_iff image_iff dest: map_of_SomeD)

lemma sw_evict_due_states:
  assumes "sw_ok w now" "sw_evict_due w now = (n, w')"
  shows "sw_state w' = sw_state w"
proof
  fix ip
  have dist: "distinct (map fst (sw_entries w))" using assms(1) by (simp add: sw_ok_def)
  have "sw_entries w' = filter (\<lambda>(ip, e). en_state e = HOT \<or> now - state_retention_seconds (sw_config w) < en_last_seen e) (sw_entries w)"
    using sw_evict_due_ok[OF assms(1)] assms(2) by auto
  from map_of_filter_keep[OF dist, of "\<lambda>e. en_state e = HOT \<or> now - state_retention_seconds (sw_config w) < en_last_seen e" ip] this
  show "sw_state w' ip = sw_state w ip" by (auto simp: sw_state_def ip_state_cases split: option.split)
qed

lemma sw_finish_warmup_states:
  assumes "sw_finish_warmup_if_due w now = (ips, w')"
  shows "sw_state w' = sw_state w"
  using assms by (intro sw_stateI) (auto simp: sw_finish_warmup_if_due_def map_of_map_entry option.map_comp o_def split: option.splits if_splits)

lemma sw_rebuild_dom: "sw_rebuild w now ips = (r, w') \<Longrightarrow> map fst (sw_entries w') = map fst (sw_entries w)"
proof (induction ips arbitrary: w)
  case (Cons ip ips)
  show ?case
  proof (cases "sw_entry w ip")
    case None
    then show ?thesis using Cons by simp
  next
    case (Some e)
    have "map fst (sw_entries (sw_schedule_expiry ((sw_put w ip e')\<lparr>sw_expiry_scheduled := s\<rparr>) ip e')) = map fst (sw_entries w)" for e' s
      using map_fst_put[OF Some] by simp
    with Some Cons show ?thesis by (auto simp: Let_def split: sum.splits)
  qed
qed simp

lemma sw_apply_config_states:
  assumes "sw_ok w now" "config_ok config" "sw_apply_config w config now = (r, w')"
  shows "r = Inr ()" "sw_ok w' now" "sw_config w' = config" "sw_state w' = sw_state w"
proof -
  from sw_apply_config_ok[OF assms(1,2)] assms(3) show "r = Inr ()" "sw_ok w' now" "sw_config w' = config" by auto
  from sw_apply_config_ok[OF assms(1,2)] assms(3)
  have keep: "\<forall>ip e. sw_entry w ip = Some e \<longrightarrow> (\<exists>e'. sw_entry w' ip = Some e' \<and> en_state e' = en_state e)" by (auto 4 4)
  have dom: "map fst (sw_entries w') = map fst (sw_entries w)"
    using assms(3) sw_rebuild_dom[of "w\<lparr>sw_config := config\<rparr>" now "map fst (sw_entries w)" r w']
    by (auto simp: sw_apply_config_def Let_def split: if_splits)
  show "sw_state w' = sw_state w"
  proof (rule sw_stateI)
    fix ip show "map_option en_state (sw_entry w' ip) = map_option en_state (sw_entry w ip)"
      using sw_entry_dom[OF dom, of ip] keep by (cases "sw_entry w ip") auto
  qed
qed

end
