(* ===== verification/Aggregator_Worker.thy ===== *)
theory Aggregator_Worker
  imports Shard_Claims_Correct Window_Frame Transition_Wire
begin

text \<open>
  The aggregator's domain loop, \<open>hammertime.aggregator.worker\<close>: one message, one outcome; the maintenance
  sweep; a change of configuration; commits and the shutdown. The worker's lock serialises these, so
  each is one step. Reading the stream, cancelling tasks, metrics and logging are not modelled. The
  service clock is \<open>now\<close>, the monotonic clock \<open>tick\<close>. \<open>None\<close> would mean a sweep that does not end.
\<close>

record agg_worker =
  wk_config :: detection_config
  wk_claims :: shard_claims
  wk_shard_ids :: "int list option"
  wk_commit_interval_s :: rat
  wk_reevaluation_batch :: int
  wk_started :: bool
  wk_stopping :: bool
  wk_stopped :: bool
  wk_last_commit :: rat

definition wk_new :: "detection_config \<Rightarrow> int list option \<Rightarrow> int \<Rightarrow> rat \<Rightarrow> int \<Rightarrow> string \<Rightarrow> rat \<Rightarrow> string \<Rightarrow> rat \<Rightarrow> agg_worker" where
  "wk_new config shard_ids max_tracked commit_interval batch member_id ttl instance_id tick =
     \<lparr>wk_config = config, wk_claims = cl_new config member_id ttl max_tracked instance_id, wk_shard_ids = shard_ids,
      wk_commit_interval_s = commit_interval, wk_reevaluation_batch = batch, wk_started = False, wk_stopping = False,
      wk_stopped = False, wk_last_commit = tick\<rparr>"

definition wk_put_window :: "agg_worker \<Rightarrow> int \<Rightarrow> shard_window \<Rightarrow> agg_worker" where
  "wk_put_window wk shard w = wk\<lparr>wk_claims := (wk_claims wk)\<lparr>cl_windows := AList.update shard w (cl_windows (wk_claims wk))\<rparr>\<rparr>"

definition wk_mark_handled :: "agg_worker \<Rightarrow> wire consumed_message \<Rightarrow> unit result \<times> agg_worker" where
  "wk_mark_handled wk m = (case mark_handled (wk_claims wk) m of (r, cl) \<Rightarrow> (r, wk\<lparr>wk_claims := cl\<rparr>))"

section \<open>Starting\<close>

definition wk_on_assigned :: "'st store_ops \<Rightarrow> int \<Rightarrow> (string \<times> int) list \<Rightarrow> agg_worker \<times> 'st \<Rightarrow> unit result \<times> agg_worker \<times> 'st" where
  "wk_on_assigned S now partitions s = (case s of (wk, st) \<Rightarrow>
     (case cl_on_assigned S now (wk_claims wk) partitions st of (r, cl, st') \<Rightarrow> (r, wk\<lparr>wk_claims := cl\<rparr>, st')))"

text \<open>\<open>subscribe\<close> is the consumer's operation: it takes the topic, the partitions and the listener.\<close>

definition wk_start :: "('c \<Rightarrow> string \<Rightarrow> int list option \<Rightarrow> ((string \<times> int) list \<Rightarrow> agg_worker \<times> 'st \<Rightarrow> unit result \<times> agg_worker \<times> 'st) \<Rightarrow>
      agg_worker \<times> 'st \<Rightarrow> unit result \<times> 'c \<times> agg_worker \<times> 'st) \<Rightarrow> 'st store_ops \<Rightarrow> int \<Rightarrow> agg_worker \<Rightarrow> 'st \<Rightarrow> 'c \<Rightarrow>
    unit result \<times> agg_worker \<times> 'st \<times> 'c" where
  "wk_start subscribe S now wk st c =
     (if wk_started wk then (Inr (), wk, st, c)
      else case subscribe c (ts_name OBSERVATIONS) (wk_shard_ids wk) (wk_on_assigned S now) (wk, st) of
        (Inl e, c', wk', st') \<Rightarrow> (Inl e, wk', st', c')
      | (Inr _, c', wk', st') \<Rightarrow> (Inr (), wk'\<lparr>wk_started := True\<rparr>, st', c'))"

section \<open>One message\<close>

definition wk_decode :: "py_library \<Rightarrow> wire consumed_message \<Rightarrow> (pystr \<times> request_observation \<times> observation) option result" where
  "wk_decode L m =
     (case decode L (cm_value m) of
        Inl e \<Rightarrow> if e = CodecError then Inr None else Inl e
      | Inr env \<Rightarrow>
          (case env_payload env of
             RequestObservation payload \<Rightarrow>
               (case ro_observations payload of
                  [entry] \<Rightarrow>
                    let ip_text = lib_ip_text L (ob_ip entry) in
                    if env_subject env \<noteq> Some ip_text then Inr None
                    else if cm_key m \<noteq> Some ip_text then Inr None
                    else Inr (Some (event_id L env, payload, entry))
                | _ \<Rightarrow> Inr None)
           | _ \<Rightarrow> Inr None))"

text \<open>\<open>floor(window_start.timestamp())\<close>; the float is exact to the microsecond for dates up to \<open>2 ^ 34\<close>
  seconds, and a later one is in the future either way.\<close>

definition window_start_floor :: "request_observation \<Rightarrow> int" where
  "window_start_floor payload =
     (let d = ro_window_start payload in (dt_micros d - (case dt_offset d of None \<Rightarrow> 0 | Some off \<Rightarrow> off)) div MICROS)"

definition wk_divert :: "'p producer_ops \<Rightarrow> wire consumed_message \<Rightarrow> pystr \<Rightarrow> pystr \<Rightarrow> 'p \<Rightarrow> unit result \<times> 'p" where
  "wk_divert P m entry_ip eid p = po_publish P p (ts_name OBSERVATIONS_RECONCILIATION) entry_ip (cm_value m) (Some eid)"

definition wk_handle_claimed :: "py_library \<Rightarrow> 'st store_ops \<Rightarrow> 'p producer_ops \<Rightarrow> int \<Rightarrow> agg_worker \<Rightarrow> wire consumed_message \<Rightarrow>
    ('st, 'p) agg_io \<Rightarrow> observation_outcome result \<times> agg_worker \<times> ('st, 'p) agg_io" where
  "wk_handle_claimed L S P now wk m io =
     (let finish = (\<lambda>wk io outcome. case wk_mark_handled wk m of (Inl e, wk') \<Rightarrow> (Inl e, wk', io) | (Inr _, wk') \<Rightarrow> (Inr outcome, wk', io)) in
      case cl_window (wk_claims wk) (cm_partition m) of
        None \<Rightarrow> (Inr UNCLAIMED, wk, io)
      | Some w \<Rightarrow>
          if (case handled_position (wk_claims wk) (cm_partition m) of None \<Rightarrow> False | Some position \<Rightarrow> cm_offset m < position)
          then finish wk io REDELIVERED
          else case wk_decode L m of
            Inl e \<Rightarrow> (Inl e, wk, io)
          | Inr None \<Rightarrow> finish wk io MALFORMED
          | Inr (Some (eid, payload, entry)) \<Rightarrow>
              let window_start = window_start_floor payload;
                  outcome = classify_observation window_start (ro_window_seconds payload) now (wk_config wk)
              in if outcome \<noteq> APPLIED then
                (case wk_divert P m (lib_ip_text L (ob_ip entry)) eid (io_producer io) of
                   (Inl e, p) \<Rightarrow> (Inl e, wk, io\<lparr>io_producer := p\<rparr>)
                 | (Inr _, p) \<Rightarrow> finish wk (io\<lparr>io_producer := p\<rparr>) outcome)
              else
                (case sw_observe w (ob_ip entry) (bucket_start window_start (bucket_seconds (sw_config w))) (ob_request_count entry) now of
                   (Inl e, w1) \<Rightarrow> (Inl e, wk_put_window wk (cm_partition m) w1, io)
                 | (Inr _, w1) \<Rightarrow>
                     (case em_evaluate L S P now (wk_config wk) w1 (ob_ip entry) io of
                        (Inl e, w2, io') \<Rightarrow> (Inl e, wk_put_window wk (cm_partition m) w2, io')
                      | (Inr _, w2, io') \<Rightarrow> finish (wk_put_window wk (cm_partition m) w2) io' APPLIED)))"

definition wk_handle :: "py_library \<Rightarrow> 'st store_ops \<Rightarrow> 'p producer_ops \<Rightarrow> int \<Rightarrow> agg_worker \<Rightarrow> wire consumed_message \<Rightarrow>
    ('st, 'p) agg_io \<Rightarrow> observation_outcome result \<times> agg_worker \<times> ('st, 'p) agg_io" where
  "wk_handle L S P now wk m io = (if wk_stopping wk then (Inr UNCLAIMED, wk, io) else wk_handle_claimed L S P now wk m io)"

section \<open>Maintenance\<close>

definition maintain_window :: "py_library \<Rightarrow> 'st store_ops \<Rightarrow> 'p producer_ops \<Rightarrow> int \<Rightarrow> detection_config \<Rightarrow> shard_window \<Rightarrow>
    ('st, 'p) agg_io \<Rightarrow> (unit result \<times> shard_window \<times> ('st, 'p) agg_io) option" where
  "maintain_window L S P now config w io =
     (case sw_expire_due w now of
        None \<Rightarrow> None
      | Some (changes, w1) \<Rightarrow>
          Some (case em_evaluate_all L S P now config w1 (map wc_ip (filter (\<lambda>c. wc_state c = HOT) changes)) io of
             (Inl e, w2, io2) \<Rightarrow> (Inl e, w2, io2)
           | (Inr _, w2, io2) \<Rightarrow>
               (case sw_finish_warmup_if_due w2 now of
                  (warmed, w3) \<Rightarrow>
                    (case em_evaluate_all L S P now config w3 (case warmed of None \<Rightarrow> [] | Some ips \<Rightarrow> ips) io2 of
                       (Inl e, w4, io4) \<Rightarrow> (Inl e, w4, io4)
                     | (Inr _, w4, io4) \<Rightarrow> (Inr (), snd (sw_evict_due w4 now), io4)))))"

fun maintain_loop :: "py_library \<Rightarrow> 'st store_ops \<Rightarrow> 'p producer_ops \<Rightarrow> int \<Rightarrow> agg_worker \<Rightarrow> int list \<Rightarrow>
    ('st, 'p) agg_io \<Rightarrow> (unit result \<times> agg_worker \<times> ('st, 'p) agg_io) option" where
  "maintain_loop L S P now wk [] io = Some (Inr (), wk, io)"
| "maintain_loop L S P now wk (shard # rest) io =
     (case cl_window (wk_claims wk) shard of
        None \<Rightarrow> maintain_loop L S P now wk rest io
      | Some w \<Rightarrow>
          (case maintain_window L S P now (wk_config wk) w io of
             None \<Rightarrow> None
           | Some (Inl e, w', io') \<Rightarrow> Some (Inl e, wk_put_window wk shard w', io')
           | Some (Inr _, w', io') \<Rightarrow> maintain_loop L S P now (wk_put_window wk shard w') rest io'))"

definition wk_run_maintenance :: "py_library \<Rightarrow> 'st store_ops \<Rightarrow> 'p producer_ops \<Rightarrow> int \<Rightarrow> agg_worker \<Rightarrow>
    ('st, 'p) agg_io \<Rightarrow> (unit result \<times> agg_worker \<times> ('st, 'p) agg_io) option" where
  "wk_run_maintenance L S P now wk io =
     (if wk_stopping wk then Some (Inr (), wk, io)
      else case renew_leases S now (wk_claims wk) (io_store io) of
        (Inl e, st) \<Rightarrow> Some (Inl e, wk, io\<lparr>io_store := st\<rparr>)
      | (Inr _, st) \<Rightarrow> maintain_loop L S P now wk (map fst (cl_windows (wk_claims wk))) (io\<lparr>io_store := st\<rparr>))"

section \<open>A new configuration\<close>

fun configure_loop :: "detection_config \<Rightarrow> int \<Rightarrow> agg_worker \<Rightarrow> int list \<Rightarrow> unit result \<times> agg_worker" where
  "configure_loop config now wk [] = (Inr (), wk)"
| "configure_loop config now wk (shard # rest) =
     (case cl_window (wk_claims wk) shard of
        None \<Rightarrow> configure_loop config now wk rest
      | Some w \<Rightarrow>
          (case sw_apply_config w config now of
             (Inl e, w') \<Rightarrow> (Inl e, wk_put_window wk shard w')
           | (Inr _, w') \<Rightarrow> configure_loop config now (wk_put_window wk shard w') rest))"

fun reevaluate_loop :: "py_library \<Rightarrow> 'st store_ops \<Rightarrow> 'p producer_ops \<Rightarrow> int \<Rightarrow> detection_config \<Rightarrow> agg_worker \<Rightarrow> int list \<Rightarrow>
    ('st, 'p) agg_io \<Rightarrow> unit result \<times> agg_worker \<times> ('st, 'p) agg_io" where
  "reevaluate_loop L S P now config wk [] io = (Inr (), wk, io)"
| "reevaluate_loop L S P now config wk (shard # rest) io =
     (case cl_window (wk_claims wk) shard of
        None \<Rightarrow> reevaluate_loop L S P now config wk rest io
      | Some w \<Rightarrow>
          (case reevaluate_shard L S P now config w None (wk_reevaluation_batch wk) io of
             (Inl e, w', io') \<Rightarrow> (Inl e, wk_put_window wk shard w', io')
           | (Inr _, w', io') \<Rightarrow> reevaluate_loop L S P now config (wk_put_window wk shard w') rest io'))"

definition wk_apply_config :: "py_library \<Rightarrow> 'st store_ops \<Rightarrow> 'p producer_ops \<Rightarrow> int \<Rightarrow> agg_worker \<Rightarrow> detection_config \<Rightarrow>
    ('st, 'p) agg_io \<Rightarrow> unit result \<times> agg_worker \<times> ('st, 'p) agg_io" where
  "wk_apply_config L S P now wk config io =
     (if wk_stopping wk then (Inr (), wk, io)
      else let shards = map fst (cl_windows (wk_claims wk)) in
        case configure_loop config now wk shards of
          (Inl e, wk1) \<Rightarrow> (Inl e, wk1, io)
        | (Inr _, wk1) \<Rightarrow>
            (case reevaluate_loop L S P now config wk1 shards io of
               (Inl e, wk2, io2) \<Rightarrow> (Inl e, wk2, io2)
             | (Inr _, wk2, io2) \<Rightarrow> (Inr (), wk2\<lparr>wk_config := config, wk_claims := adopt_config (wk_claims wk2) config\<rparr>, io2)))"

section \<open>Commits and shutdown\<close>

definition flush_and_ack :: "'p producer_ops \<Rightarrow> ('p, 'c) consumer_ops \<Rightarrow> rat \<Rightarrow> agg_worker \<Rightarrow> 'p \<Rightarrow> 'c \<Rightarrow> unit result \<times> agg_worker \<times> 'p \<times> 'c" where
  "flush_and_ack P C tick wk p c =
     (case commit_handled P C (wk_claims wk) p c of
        (Inl e, cl, p', c') \<Rightarrow> (Inl e, wk\<lparr>wk_claims := cl\<rparr>, p', c')
      | (Inr _, cl, p', c') \<Rightarrow> (Inr (), wk\<lparr>wk_claims := cl, wk_last_commit := tick\<rparr>, p', c'))"

definition commit_if_due :: "'p producer_ops \<Rightarrow> ('p, 'c) consumer_ops \<Rightarrow> rat \<Rightarrow> agg_worker \<Rightarrow> 'p \<Rightarrow> 'c \<Rightarrow> unit result \<times> agg_worker \<times> 'p \<times> 'c" where
  "commit_if_due P C tick wk p c =
     (if tick - wk_last_commit wk < wk_commit_interval_s wk then (Inr (), wk, p, c)
      else if wk_stopping wk then (Inr (), wk, p, c)
      else flush_and_ack P C tick wk p c)"

definition wk_stop :: "'st store_ops \<Rightarrow> 'p producer_ops \<Rightarrow> ('p, 'c) consumer_ops \<Rightarrow> int \<Rightarrow> rat \<Rightarrow> agg_worker \<Rightarrow> ('st, 'p) agg_io \<Rightarrow> 'c \<Rightarrow>
    unit result \<times> agg_worker \<times> ('st, 'p) agg_io \<times> 'c" where
  "wk_stop S P C now tick wk io c =
     (let wk1 = wk\<lparr>wk_stopping := True\<rparr> in
      if wk_stopped wk1 then (Inr (), wk1, io, c)
      else case flush_and_ack P C tick wk1 (io_producer io) c of
        (r, wk2, p, c') \<Rightarrow>
          (case cl_release S now (wk_claims wk2) (io_store io) of
             (r', cl, st) \<Rightarrow>
               (case r' of Inl e \<Rightarrow> Inl e | Inr _ \<Rightarrow> r,
                wk2\<lparr>wk_claims := cl, wk_stopped := True\<rparr>, \<lparr>io_store = st, io_producer = p\<rparr>, c')))"

end
