(* ===== verification/Quiet_Window.thy ===== *)
theory Quiet_Window
  imports Aggregator_Worker
begin

text \<open>
  A window is quiet if the state machine has nothing to say about it: every IP is in the state its count
  calls for, except those inherited as HOT that are still warming up. Every operation of the worker
  leaves a quiet window, and a sweep leaves one that is quiet at the time of the sweep.
\<close>

definition quiet_at :: "detection_config \<Rightarrow> shard_window \<Rightarrow> address \<Rightarrow> bool" where
  "quiet_at config w ip \<longleftrightarrow> evaluate_ip_state (sw_state w ip) (sw_total w ip) config = sw_state w ip \<or>
     (sw_is_inherited w ip \<and> sw_state w ip = HOT \<and> sw_warm_until w \<noteq> None)"

lemma quiet_if_settled: "\<not> wants_move config w now ip \<Longrightarrow> quiet_at config w ip"
  by (cases "sw_state w ip") (auto simp: wants_move_def quiet_at_def Let_def sw_in_warmup_def split: option.splits)

lemma quiet_at_cong:
  "sw_entry w' ip = sw_entry w ip \<Longrightarrow> sw_warm_until w' = sw_warm_until w \<Longrightarrow> quiet_at config w' ip = quiet_at config w ip"
  by (simp add: quiet_at_def sw_state_def sw_total_def sw_is_inherited_def)

lemma quiet_untracked: "config_ok config \<Longrightarrow> sw_entry w ip = None \<Longrightarrow> quiet_at config w ip"
  using config_ok_facts(5)[of config] by (simp add: quiet_at_def sw_state_def sw_total_def evaluate_ip_state_def)

text \<open>When no warm-up is over, quiet means settled.\<close>

lemma settled_if_quiet:
  "quiet_at config w ip \<Longrightarrow> (case sw_warm_until w of None \<Rightarrow> True | Some t \<Rightarrow> now < t) \<Longrightarrow> \<not> wants_move config w now ip"
  by (cases "evaluate_ip_state (sw_state w ip) (sw_total w ip) config")
    (auto simp: wants_move_def quiet_at_def Let_def sw_in_warmup_def split: option.splits)

section \<open>Expiry only lowers\<close>

lemma ic_expire_le:
  assumes "ic_ok c"
  shows "ic_total (snd (ic_expire c now)) \<le> ic_total c"
proof -
  obtain r c' where c': "ic_expire c now = (r, c')" by (cases "ic_expire c now")
  note ex = ic_expire_ok[OF assms c']
  have len: "length (ic_counts c) = nat (ic_bucket_count c)" "length (ic_counts c') = nat (ic_bucket_count c)"
    using assms ex(1,2) by (simp_all add: ic_ok_def ic_geometry_def)
  have "sum_list (ic_counts c') \<le> sum_list (ic_counts c)"
  proof -
    have "ic_counts c' ! i \<le> ic_counts c ! i" if "i < length (ic_counts c)" for i
      using ex(6)[of i] that len assms by (auto simp: ic_ok_def)
    then show ?thesis using len unfolding sum_list_sum_nth by (auto intro!: sum_mono)
  qed
  then show ?thesis using ex(1) assms c' by (simp add: ic_ok_def)
qed

lemma evaluate_cold_mono: "m \<le> n \<Longrightarrow> evaluate_ip_state COLD n config = COLD \<Longrightarrow> evaluate_ip_state COLD m config = COLD"
  by (auto simp: evaluate_ip_state_def split: if_splits)

lemma expire_quiet:
  assumes "sw_ok w now" "sw_expire_due w now = Some (changes, w1)" "quiet_at config w ip"
    "ip \<notin> wc_ip ` {c \<in> set changes. wc_state c = HOT}"
  shows "quiet_at config w1 ip"
proof (cases "sw_entry w ip")
  case None
  from sw_expire_due_ok[OF assms(1)] assms(2) have "map fst (sw_entries w1) = map fst (sw_entries w)" by auto
  with None have "sw_entry w1 ip = None" using sw_entry_dom by blast
  then show ?thesis using None assms(3) quiet_at_cong[of w1 ip w config] sw_expire_due_same[OF assms(2)] by (simp add: sw_same_def)
next
  case (Some e)
  let ?n = "ic_total (snd (ic_expire (en_counter e) now))"
  from sw_expire_due_ok[OF assms(1)] assms(2)
  have ch: "set changes = {change_of now ip e | ip e. sw_entry w ip = Some e \<and> ic_total (snd (ic_expire (en_counter e) now)) \<noteq> ic_total (en_counter e)}"
    and keep: "\<exists>e'. sw_entry w1 ip = Some e' \<and> en_state e' = en_state e \<and> en_inherited e' = en_inherited e \<and> ic_total (en_counter e') = ?n"
    using Some by (auto 4 4)
  from keep obtain e' where e': "sw_entry w1 ip = Some e'" "en_state e' = en_state e" "en_inherited e' = en_inherited e" "ic_total (en_counter e') = ?n"
    by blast
  have warm: "sw_warm_until w1 = sw_warm_until w" using sw_expire_due_same[OF assms(2)] by (simp add: sw_same_def)
  have "?n = ic_total (en_counter e) \<or> en_state e = COLD"
  proof (rule ccontr)
    assume "\<not> (?n = ic_total (en_counter e) \<or> en_state e = COLD)"
    then have "change_of now ip e \<in> {c \<in> set changes. wc_state c = HOT}"
      using Some ch by (cases "en_state e") (auto simp: change_of_def)
    then have "ip \<in> wc_ip ` {c \<in> set changes. wc_state c = HOT}" by (rule rev_image_eqI) (simp add: change_of_def)
    with assms(4) show False by blast
  qed
  then show ?thesis
  proof
    assume "?n = ic_total (en_counter e)"
    then show ?thesis using assms(3) Some e' warm by (simp add: quiet_at_def sw_state_def sw_total_def sw_is_inherited_def)
  next
    assume cold: "en_state e = COLD"
    have "?n \<le> ic_total (en_counter e)" using ic_expire_le sw_ok_entry[OF assms(1) Some] by (simp add: entry_ok_def)
    then show ?thesis using assms(3) Some e' warm cold evaluate_cold_mono[of ?n "ic_total (en_counter e)" config]
      by (simp add: quiet_at_def sw_state_def sw_total_def sw_is_inherited_def)
  qed
qed

section \<open>Observing, warming up and evicting\<close>

lemma observe_others:
  assumes "sw_ok w now" "sw_observe w ip s d now = (r, w')" "i \<noteq> ip"
  shows "sw_entry w' i = sw_entry w i \<or> sw_entry w' i = None"
proof (cases "sw_entry w ip")
  case (Some e)
  then show ?thesis using assms(2,3)
    by (auto simp: sw_observe_def Let_def split: sum.splits prod.splits if_splits)
next
  case None
  let ?e = "\<lambda>c. \<lparr>en_counter = c, en_state = COLD, en_last_seen = s, en_inherited = False\<rparr>"
  have "sw_entries w' = sw_entries w \<or> (\<exists>c. w' = sw_schedule_expiry (sw_track (sw_evict_for_capacity w) ip (?e c)) ip (?e c))"
    using None assms(2) by (auto simp: sw_observe_def Let_def split: sum.splits prod.splits if_splits)
  then show ?thesis
  proof
    assume "\<exists>c. w' = sw_schedule_expiry (sw_track (sw_evict_for_capacity w) ip (?e c)) ip (?e c)"
    then have "sw_entry w' i = sw_entry (sw_evict_for_capacity w) i" using assms(3) by (auto simp: sw_track_def)
    moreover have "\<exists>v. sw_entries (sw_evict_for_capacity w) = (case v of None \<Rightarrow> sw_entries w | Some x \<Rightarrow> AList.delete x (sw_entries w))"
      using sw_evict_for_capacity_ok[OF assms(1)]
      by (cases "int (length (sw_entries w)) < sw_max_tracked_ips w") (auto intro: exI[of _ None])
    ultimately show ?thesis by (auto simp: delete_conv' split: option.splits if_splits)
  qed simp
qed

lemma observe_quiet:
  assumes "sw_ok w now" "sw_observe w ip s d now = (r, w')" "i \<noteq> ip" "quiet_at config w i" "config_ok config"
  shows "quiet_at config w' i"
  using observe_others[OF assms(1-3)] quiet_untracked[OF assms(5)] quiet_at_cong[of w' i w] assms(4) sw_observe_same[OF assms(2)]
  by (auto simp: sw_same_def)

lemma warmup_quiet:
  assumes "sw_finish_warmup_if_due w now = (warmed, w')" "quiet_at config w ip" "ip \<notin> set (case warmed of None \<Rightarrow> [] | Some ips \<Rightarrow> ips)"
    "distinct (map fst (sw_entries w))"
  shows "quiet_at config w' ip"
proof (cases warmed)
  case None
  then show ?thesis using assms(1,2) by (auto simp: sw_finish_warmup_if_due_def split: option.splits if_splits)
next
  case (Some ips)
  have w': "sw_entry w' i = map_option (\<lambda>e. e\<lparr>en_inherited := False\<rparr>) (sw_entry w i)" for i
    using assms(1) Some by (auto simp: sw_finish_warmup_if_due_def map_of_map_entry split: option.splits if_splits)
  have ips: "ips = map fst (filter (\<lambda>(ip, e). en_inherited e \<and> en_state e = HOT) (sw_entries w))"
    using assms(1) Some by (auto simp: sw_finish_warmup_if_due_def split: option.splits if_splits)
  show ?thesis
  proof (cases "sw_entry w ip")
    case None
    then show ?thesis using assms(2) w'[of ip] by (simp add: quiet_at_def sw_state_def sw_total_def sw_is_inherited_def)
  next
    case entry: (Some e)
    have "\<not> (en_inherited e \<and> en_state e = HOT)"
    proof
      assume "en_inherited e \<and> en_state e = HOT"
      then have "ip \<in> set ips" unfolding ips using map_of_SomeD[OF entry] by (force simp: image_iff)
      then show False using assms(3) Some by simp
    qed
    then show ?thesis using assms(2) w'[of ip] entry by (auto simp: quiet_at_def sw_state_def sw_total_def sw_is_inherited_def)
  qed
qed

lemma evict_quiet:
  assumes "sw_ok w now" "sw_evict_due w now = (n, w')" "quiet_at config w ip" "config_ok config"
  shows "quiet_at config w' ip"
proof -
  have dist: "distinct (map fst (sw_entries w))" using assms(1) by (simp add: sw_ok_def)
  have "sw_entries w' = filter (\<lambda>(ip, e). en_state e = HOT \<or> now - state_retention_seconds (sw_config w) < en_last_seen e) (sw_entries w)"
    using sw_evict_due_ok[OF assms(1)] assms(2) by auto
  with map_of_filter_keep[OF dist, of "\<lambda>e. en_state e = HOT \<or> now - state_retention_seconds (sw_config w) < en_last_seen e" ip]
  have "sw_entry w' ip = sw_entry w ip \<or> sw_entry w' ip = None" by (auto split: option.splits)
  then show ?thesis using quiet_untracked[OF assms(4)] quiet_at_cong[of w' ip w] assms(3) sw_evict_due_same[OF assms(2)]
    by (auto simp: sw_same_def)
qed

end
