(* ===== verification/Aggregator_Correct.thy ===== *)
theory Aggregator_Correct
  imports Quiet_Window
begin

text \<open>
  The worker as a whole: between two steps every claimed window is consistent, its HOT set is the
  durable one, and the state machine has nothing to announce; a step that raises ends the process. The
  steps of other members, which write to other shards and to the log, may come in between.
\<close>

section \<open>Invariants\<close>

definition window_good :: "('st \<Rightarrow> int \<Rightarrow> address set) \<Rightarrow> ('st \<Rightarrow> int \<Rightarrow> int) \<Rightarrow> detection_config \<Rightarrow> int \<Rightarrow> shard_window \<Rightarrow> 'st \<Rightarrow> int \<Rightarrow> bool" where
  "window_good hot seq config s w st now \<longleftrightarrow> sw_shard w = s \<and> sw_ok w now \<and> sw_config w = config \<and> in_step hot seq {} w st \<and>
     (\<forall>ip. quiet_at config w ip)"

definition worker_ok :: "('st \<Rightarrow> int \<Rightarrow> address set) \<Rightarrow> ('st \<Rightarrow> int \<Rightarrow> int) \<Rightarrow> int \<Rightarrow> agg_worker \<Rightarrow> 'st \<Rightarrow> bool" where
  "worker_ok hot seq now wk st \<longleftrightarrow> claims_ok hot seq now (wk_claims wk) st \<and> cl_config (wk_claims wk) = wk_config wk \<and>
     0 < wk_reevaluation_batch wk \<and> (\<not> wk_stopped wk \<longrightarrow> no_stale (wk_claims wk)) \<and> (wk_stopped wk \<longrightarrow> wk_stopping wk) \<and>
     (\<forall>s w ip. cl_window (wk_claims wk) s = Some w \<longrightarrow> quiet_at (wk_config wk) w ip)"

lemma worker_window:
  assumes "worker_ok hot seq now wk st" "\<not> wk_stopped wk" "cl_window (wk_claims wk) s = Some w"
  shows "window_good hot seq (wk_config wk) s w st now"
proof -
  have cl: "claims_ok hot seq now (wk_claims wk) st" "s \<in> set (cl_leased (wk_claims wk))"
    using assms by (auto simp: worker_ok_def no_stale_def)
  from claims_okD(6)[OF cl(1) assms(3)] claims_okD(7)[OF cl(1) assms(3) cl(2)] assms(1,3) show ?thesis
    by (auto simp: window_good_def worker_ok_def)
qed

lemma worker_config: "worker_ok hot seq now wk st \<Longrightarrow> config_ok (wk_config wk)"
  using claims_okD(1)[of hot seq now "wk_claims wk" st] by (simp add: worker_ok_def)

lemma wk_put_simps [simp]:
  "wk_config (wk_put_window wk s w) = wk_config wk" "wk_stopped (wk_put_window wk s w) = wk_stopped wk"
  "wk_stopping (wk_put_window wk s w) = wk_stopping wk" "wk_reevaluation_batch (wk_put_window wk s w) = wk_reevaluation_batch wk"
  "cl_leased (wk_claims (wk_put_window wk s w)) = cl_leased (wk_claims wk)"
  "cl_handled (wk_claims (wk_put_window wk s w)) = cl_handled (wk_claims wk)"
  "handled_position (wk_claims (wk_put_window wk s w)) = handled_position (wk_claims wk)"
  "cl_config (wk_claims (wk_put_window wk s w)) = cl_config (wk_claims wk)"
  "cl_max_tracked_ips (wk_claims (wk_put_window wk s w)) = cl_max_tracked_ips (wk_claims wk)"
  "cl_lease_ttl_s (wk_claims (wk_put_window wk s w)) = cl_lease_ttl_s (wk_claims wk)"
  "cl_window (wk_claims (wk_put_window wk s w)) q = (if q = s then Some w else cl_window (wk_claims wk) q)"
  by (simp_all add: wk_put_window_def handled_position_def[abs_def] update_conv')

lemma wk_put_distinct [simp]:
  "distinct (map fst (cl_windows (wk_claims wk))) \<Longrightarrow> distinct (map fst (cl_windows (wk_claims (wk_put_window wk s w))))"
  by (simp add: wk_put_window_def distinct_update)

lemma in_step_frame:
  assumes "store_frame hot seq holder s st st'" "sw_shard w \<noteq> s" "in_step hot seq X w st"
  shows "in_step hot seq X w st'"
  using assms by (auto simp: in_step_def store_frame_def)

lemma claims_ok_step:
  assumes ok: "claims_ok hot seq now cl st" and win: "cl_window cl s = Some w"
    and new: "sw_shard w' = s" "sw_ok w' now" "sw_config w' = cl_config cl" "in_step hot seq {} w' st'"
    and fr: "store_frame hot seq holder s st st'"
  shows "claims_ok hot seq now (cl\<lparr>cl_windows := AList.update s w' (cl_windows cl)\<rparr>) st'"
proof -
  have "0 \<le> seq st' p" for p using claims_okD(4)[OF ok, of p] claims_okD(4)[OF ok, of s] fr by (cases "p = s") (auto simp: store_frame_def)
  moreover have "in_step hot seq {} v st'" if "q \<noteq> s" "cl_window cl q = Some v" "q \<in> set (cl_leased cl)" for q v
    using in_step_frame[OF fr _ claims_okD(7)[OF ok that(2,3)]] claims_okD(6)[OF ok that(2)] that(1) by simp
  ultimately show ?thesis
    using ok new by (simp add: claims_ok_def update_conv' distinct_update)
qed

lemma worker_put:
  assumes "worker_ok hot seq now wk st" "\<not> wk_stopped wk" "cl_window (wk_claims wk) s = Some w"
    "window_good hot seq (wk_config wk) s w' st' now" "store_frame hot seq holder s st st'"
  shows "worker_ok hot seq now (wk_put_window wk s w') st'"
proof -
  have "claims_ok hot seq now (wk_claims (wk_put_window wk s w')) st'"
    using claims_ok_step[of hot seq now "wk_claims wk" st s w w' st' holder] assms by (simp add: worker_ok_def window_good_def wk_put_window_def)
  moreover have "no_stale (wk_claims (wk_put_window wk s w'))"
    using assms(1-3) by (auto simp: worker_ok_def no_stale_def split: if_splits)
  ultimately show ?thesis using assms(1,4) by (auto simp: worker_ok_def window_good_def split: if_splits)
qed

text \<open>Nothing but the windows differs.\<close>

definition only_windows :: "agg_worker \<Rightarrow> agg_worker \<Rightarrow> bool" where
  "only_windows wk wk' \<longleftrightarrow> (\<exists>ws. wk' = wk\<lparr>wk_claims := (wk_claims wk)\<lparr>cl_windows := ws\<rparr>\<rparr>)"

lemma only_windows_refl [simp]: "only_windows wk wk"
  by (auto simp: only_windows_def intro: exI[of _ "cl_windows (wk_claims wk)"])

lemma only_windows_put [simp]: "only_windows wk (wk_put_window wk s w)"
  by (auto simp: only_windows_def wk_put_window_def)

lemma only_windows_trans: "only_windows wk wk' \<Longrightarrow> only_windows wk' wk'' \<Longrightarrow> only_windows wk wk''"
  by (auto simp: only_windows_def)

section \<open>A sweep\<close>

context aggregator_io
begin

lemma em_evaluate_all_quiet:
  assumes "sw_ok w t" "config_ok config" "in_step hot seq {} w (io_store io)" "em_evaluate_all L S P now config w ips io = (Inr k, w', io')"
    "\<And>ip. ip \<notin> set ips \<Longrightarrow> quiet_at config w ip"
  shows "win_frame w w' \<and> store_frame hot seq holder (sw_shard w) (io_store io) (io_store io') \<and> sw_ok w' t \<and>
    in_step hot seq {} w' (io_store io') \<and> (\<forall>ip. quiet_at config w' ip)"
proof -
  note kept = em_evaluate_all_keeps[OF assms(1-4)]
  have "quiet_at config w' ip" for ip
  proof (cases "ip \<in> set ips")
    case True
    then show ?thesis using kept quiet_if_settled by blast
  next
    case False
    then show ?thesis using kept assms(5)[OF False] quiet_at_cong[of w' ip w config] by (simp add: win_frame_def)
  qed
  with kept show ?thesis by simp
qed

lemma maintain_window_ok:
  assumes good: "window_good hot seq config s w (io_store io) now" and cfg: "config_ok config"
  shows "\<exists>r w' io'. maintain_window L S P now config w io = Some (r, w', io') \<and>
    (r = Inr () \<longrightarrow> store_frame hot seq holder s (io_store io) (io_store io') \<and>
       window_good hot seq config s w' (io_store io') now \<and> (\<forall>ip. \<not> wants_move config w' now ip))"
proof -
  have ok: "sw_ok w now" and step: "in_step hot seq {} w (io_store io)" and sh: "sw_shard w = s" "sw_config w = config"
    and quiet: "\<And>ip. quiet_at config w ip" using good by (auto simp: window_good_def)
  obtain changes w1 where ex: "sw_expire_due w now = Some (changes, w1)" "sw_ok w1 now" using sw_expire_due_ok[OF ok] by blast
  note same1 = sw_expire_due_same[OF ex(1), unfolded sw_same_def]
  have step1: "in_step hot seq {} w1 (io_store io)"
    using step same1 sw_expire_due_states[OF ok ex(1)] by (simp add: in_step_def)
  let ?hot = "map wc_ip (filter (\<lambda>c. wc_state c = HOT) changes)"
  have quiet1: "quiet_at config w1 ip" if "ip \<notin> set ?hot" for ip
    using expire_quiet[OF ok ex(1) quiet] that by simp
  obtain r2 w2 io2 where ev: "em_evaluate_all L S P now config w1 ?hot io = (r2, w2, io2)" by (metis prod_cases3)
  show ?thesis
  proof (cases r2)
    case (Inl e)
    then show ?thesis using ex ev by (simp add: maintain_window_def)
  next
    case r2: (Inr k2)
    note k2 = em_evaluate_all_quiet[OF ex(2) cfg step1 ev[unfolded r2] quiet1]
    obtain warmed w3 where fin: "sw_finish_warmup_if_due w2 now = (warmed, w3)" by fastforce
    have ok2: "sw_ok w2 now" using k2 by blast
    have ok3: "sw_ok w3 now" using sw_finish_warmup_ok[OF ok2] fin by simp
    have step3: "in_step hot seq {} w3 (io_store io2)"
      using k2 sw_finish_warmup_states[OF fin] sw_finish_warmup_same[OF fin] by (simp add: in_step_def)
    let ?ips = "case warmed of None \<Rightarrow> [] | Some ips \<Rightarrow> ips"
    have quiet3: "quiet_at config w3 ip" if "ip \<notin> set ?ips" for ip
      using warmup_quiet[OF fin _ that] k2 ok2 by (simp add: sw_ok_def)
    obtain r4 w4 io4 where ev4: "em_evaluate_all L S P now config w3 ?ips io2 = (r4, w4, io4)" by (metis prod_cases3)
    show ?thesis
    proof (cases r4)
      case (Inl e)
      then show ?thesis using ex ev r2 fin ev4 by (simp add: maintain_window_def)
    next
      case r4: (Inr k4)
      note k4 = em_evaluate_all_quiet[OF ok3 cfg step3 ev4[unfolded r4] quiet3]
      obtain n w5 where evi: "sw_evict_due w4 now = (n, w5)" by fastforce
      have ok4: "sw_ok w4 now" using k4 by blast
      have ok5: "sw_ok w5 now" using sw_evict_due_ok[OF ok4] evi by auto
      note same5 = sw_evict_due_same[OF evi, unfolded sw_same_def]
      have quiet5: "quiet_at config w5 ip" for ip using evict_quiet[OF ok4 evi _ cfg] k4 by blast
      have step5: "in_step hot seq {} w5 (io_store io4)"
        using k4 same5 sw_evict_due_states[OF ok4 evi] by (simp add: in_step_def)
      have sh5: "sw_shard w5 = s" "sw_config w5 = config"
        using sh same1 k2 sw_finish_warmup_same[OF fin] k4 same5 by (simp_all add: win_frame_def)
      have "case sw_warm_until w3 of None \<Rightarrow> True | Some t \<Rightarrow> now < t"
        using fin by (auto simp: sw_finish_warmup_if_due_def split: option.splits if_splits)
      then have "\<not> wants_move config w5 now ip" for ip
        using settled_if_quiet[OF quiet5] k4 same5 by (simp add: win_frame_def)
      moreover have "store_frame hot seq holder s (io_store io) (io_store io4)"
        using store_frame_trans[of hot seq holder s "io_store io" "io_store io2" "io_store io4"] k2 k4 sh same1 sw_finish_warmup_same[OF fin]
        by (simp add: win_frame_def)
      moreover have "maintain_window L S P now config w io = Some (Inr (), w5, io4)"
        using ex ev r2 fin ev4 r4 evi by (simp add: maintain_window_def)
      ultimately show ?thesis using ok5 quiet5 step5 sh5 by (auto simp: window_good_def)
    qed
  qed
qed

lemma renew_observed:
  "renew_leases S now cl st = (r, st') \<Longrightarrow> hot st' = hot st \<and> seq st' = seq st"
proof -
  have "renew_loop S now cl ss st = (r, st') \<Longrightarrow> hot st' = hot st \<and> seq st' = seq st" for ss
  proof (induction ss arbitrary: st)
    case (Cons s ss)
    obtain ra st1 where acq: "so_acquire_lease S st now s (lease_owner cl) (cl_lease_ttl_s cl) = (ra, st1)" by fastforce
    note obs = acquire_observed[OF acq]
    consider e where "ra = Inl e" | owner where "ra = Inr (Some owner)" | "ra = Inr None" by (metis obj_sumE option.exhaust)
    then show ?case
    proof cases
      case 3
      then show ?thesis using Cons acq obs by simp
    qed (use Cons.prems acq obs in auto)
  qed simp
  then show "renew_leases S now cl st = (r, st') \<Longrightarrow> hot st' = hot st \<and> seq st' = seq st" by (simp add: renew_leases_def)
qed

lemma maintain_loop_ok:
  assumes "worker_ok hot seq now wk (io_store io)" "\<not> wk_stopped wk" "distinct ss"
  shows "\<exists>r wk' io'. maintain_loop L S P now wk ss io = Some (r, wk', io') \<and> only_windows wk wk' \<and>
    (r = Inr () \<longrightarrow> worker_ok hot seq now wk' (io_store io') \<and> (\<forall>q. cl_window (wk_claims wk') q = None \<longleftrightarrow> cl_window (wk_claims wk) q = None) \<and>
       (\<forall>s. s \<notin> set ss \<longrightarrow> cl_window (wk_claims wk') s = cl_window (wk_claims wk) s) \<and>
       (\<forall>s w ip. s \<in> set ss \<and> cl_window (wk_claims wk') s = Some w \<longrightarrow> \<not> wants_move (wk_config wk) w now ip))"
  using assms
proof (induction ss arbitrary: wk io)
  case (Cons s ss)
  show ?case
  proof (cases "cl_window (wk_claims wk) s")
    case None
    with Cons.IH[OF Cons.prems(1,2)] Cons.prems(3) show ?thesis by fastforce
  next
    case (Some w)
    obtain r1 w1 io1 where mw: "maintain_window L S P now (wk_config wk) w io = Some (r1, w1, io1)" and
      good: "r1 = Inr () \<longrightarrow> store_frame hot seq holder s (io_store io) (io_store io1) \<and>
         window_good hot seq (wk_config wk) s w1 (io_store io1) now \<and> (\<forall>ip. \<not> wants_move (wk_config wk) w1 now ip)"
      using maintain_window_ok[OF worker_window[OF Cons.prems(1,2) Some] worker_config[OF Cons.prems(1)]] by blast
    show ?thesis
    proof (cases r1)
      case (Inl e)
      then show ?thesis using Some mw by simp
    next
      case (Inr u)
      let ?wk = "wk_put_window wk s w1"
      have ok1: "worker_ok hot seq now ?wk (io_store io1)"
        using worker_put[OF Cons.prems(1,2) Some, of w1 "io_store io1" holder] good Inr by simp
      from Cons.IH[OF ok1] Cons.prems(2,3) obtain r2 wk2 io2 where
        run: "maintain_loop L S P now ?wk ss io1 = Some (r2, wk2, io2)" "only_windows ?wk wk2" and
        res: "r2 = Inr () \<longrightarrow> worker_ok hot seq now wk2 (io_store io2) \<and> (\<forall>q. cl_window (wk_claims wk2) q = None \<longleftrightarrow> cl_window (wk_claims ?wk) q = None) \<and>
          (\<forall>s. s \<notin> set ss \<longrightarrow> cl_window (wk_claims wk2) s = cl_window (wk_claims ?wk) s) \<and>
          (\<forall>s w ip. s \<in> set ss \<and> cl_window (wk_claims wk2) s = Some w \<longrightarrow> \<not> wants_move (wk_config wk) w now ip)" by auto
      have eq: "maintain_loop L S P now wk (s # ss) io = Some (r2, wk2, io2)" using Some mw Inr run by simp
      have only: "only_windows wk wk2" using run(2) only_windows_trans only_windows_put by blast
      have "worker_ok hot seq now wk2 (io_store io2) \<and> (\<forall>q. cl_window (wk_claims wk2) q = None \<longleftrightarrow> cl_window (wk_claims wk) q = None) \<and>
          (\<forall>q. q \<notin> set (s # ss) \<longrightarrow> cl_window (wk_claims wk2) q = cl_window (wk_claims wk) q) \<and>
          (\<forall>q w ip. q \<in> set (s # ss) \<and> cl_window (wk_claims wk2) q = Some w \<longrightarrow> \<not> wants_move (wk_config wk) w now ip)"
        if "r2 = Inr ()"
      proof -
        have keep: "\<And>q. q \<notin> set ss \<Longrightarrow> cl_window (wk_claims wk2) q = (if q = s then Some w1 else cl_window (wk_claims wk) q)"
          and quiet: "\<And>q w ip. q \<in> set ss \<Longrightarrow> cl_window (wk_claims wk2) q = Some w \<Longrightarrow> \<not> wants_move (wk_config wk) w now ip"
          and ok2: "worker_ok hot seq now wk2 (io_store io2)"
          and dom2: "(\<forall>q. cl_window (wk_claims wk2) q = None \<longleftrightarrow> cl_window (wk_claims ?wk) q = None)" using res that by simp_all
        have "\<forall>q. cl_window (wk_claims ?wk) q = None \<longleftrightarrow> cl_window (wk_claims wk) q = None" using Some by simp
        moreover have "\<not> wants_move (wk_config wk) v now ip" if "q \<in> set (s # ss)" "cl_window (wk_claims wk2) q = Some v" for q v ip
        proof (cases "q \<in> set ss")
          case False
          then show ?thesis using keep[OF False] that good Inr by simp
        qed (use quiet that in blast)
        ultimately show ?thesis using ok2 dom2 keep by auto
      qed
      with eq only show ?thesis by blast
    qed
  qed
qed simp

text \<open>A maintenance pass always ends; one that returns leaves every IP of every claimed shard in the state
  its live count calls for, inherited ones that are still warming up apart.\<close>

lemma run_maintenance_ok:
  assumes "worker_ok hot seq now wk (io_store io)"
  shows "\<exists>r wk' io'. wk_run_maintenance L S P now wk io = Some (r, wk', io') \<and> only_windows wk wk' \<and>
    (r = Inr () \<longrightarrow> worker_ok hot seq now wk' (io_store io') \<and> (\<forall>q. cl_window (wk_claims wk') q = None \<longleftrightarrow> cl_window (wk_claims wk) q = None) \<and>
       (\<not> wk_stopping wk \<longrightarrow> (\<forall>s w ip. cl_window (wk_claims wk') s = Some w \<longrightarrow> \<not> wants_move (wk_config wk) w now ip)))"
proof (cases "wk_stopping wk")
  case True
  then show ?thesis using assms by (simp add: wk_run_maintenance_def)
next
  case False
  then have run: "\<not> wk_stopped wk" using assms by (auto simp: worker_ok_def)
  obtain rr st where ren: "renew_leases S now (wk_claims wk) (io_store io) = (rr, st)" by fastforce
  show ?thesis
  proof (cases rr)
    case (Inl e)
    then show ?thesis using ren False by (simp add: wk_run_maintenance_def)
  next
    case (Inr u)
    have cl: "claims_ok hot seq now (wk_claims wk) st" "distinct (map fst (cl_windows (wk_claims wk)))"
      using claims_ok_store[of hot seq now "wk_claims wk" "io_store io" st] renew_observed[OF ren] assms
      by (auto simp: worker_ok_def claims_ok_def)
    then have "worker_ok hot seq now wk (io_store (io\<lparr>io_store := st\<rparr>))" using assms by (simp add: worker_ok_def)
    from maintain_loop_ok[OF this run cl(2), of L] obtain r wk' io' where
      loop: "maintain_loop L S P now wk (map fst (cl_windows (wk_claims wk))) (io\<lparr>io_store := st\<rparr>) = Some (r, wk', io')" "only_windows wk wk'" and
      res: "r = Inr () \<longrightarrow> worker_ok hot seq now wk' (io_store io') \<and> (\<forall>q. cl_window (wk_claims wk') q = None \<longleftrightarrow> cl_window (wk_claims wk) q = None) \<and>
         (\<forall>s. s \<notin> set (map fst (cl_windows (wk_claims wk))) \<longrightarrow> cl_window (wk_claims wk') s = cl_window (wk_claims wk) s) \<and>
         (\<forall>s w ip. s \<in> set (map fst (cl_windows (wk_claims wk))) \<and> cl_window (wk_claims wk') s = Some w \<longrightarrow> \<not> wants_move (wk_config wk) w now ip)"
      by blast
    have all: "s \<in> set (map fst (cl_windows (wk_claims wk)))" if "(\<forall>q. cl_window (wk_claims wk') q = None \<longleftrightarrow> cl_window (wk_claims wk) q = None)"
        "cl_window (wk_claims wk') s = Some w" for s w
      using that by (metis option.distinct(1) map_of_eq_None_iff set_map)
    have "wk_run_maintenance L S P now wk io = Some (r, wk', io')" using loop ren Inr False by (simp add: wk_run_maintenance_def)
    with loop(2) res all show ?thesis by blast
  qed
qed

end

end
