(* ===== verification/Message_Handling.thy ===== *)
theory Message_Handling
  imports Aggregator_Correct
begin

text \<open>
  One message, one outcome: what \<open>handle\<close> does on each of its branches.
\<close>

section \<open>Decoded observations\<close>

definition counts_ok :: "event_envelope \<Rightarrow> bool" where
  "counts_ok e \<longleftrightarrow> (\<forall>p. env_payload e = RequestObservation p \<longrightarrow> (\<forall>x \<in> set (ro_observations p). 0 \<le> ob_request_count x))"

lemma map_result_all: "map_result f xs = Inr ys \<Longrightarrow> (\<And>x y. f x = Inr y \<Longrightarrow> Q y) \<Longrightarrow> \<forall>y \<in> set ys. Q y"
  by (induction xs arbitrary: ys) (auto simp: bindE_eq_Inr)

lemma decode_observation_count: "decode_observation L r = Inr x \<Longrightarrow> 0 \<le> ob_request_count x"
  by (auto simp: decode_observation_def catch_eq_Inr bindE_eq_Inr bounded_json_integer_def range_violation_def OBSERVATION_REQUEST_COUNT_def
      split: raw.splits sum.splits if_splits)

lemma decode_observations_count:
  assumes "decode_request_observation L d = Inr p"
  shows "\<forall>x \<in> set (ro_observations p). 0 \<le> ob_request_count x"
proof -
  obtain r where r: "require d ''observations'' = Inr r" using assms by (auto simp: decode_request_observation_def bindE_eq_Inr)
  then obtain items where "r = RList items" using assms by (cases r) (auto simp: decode_request_observation_def)
  then have "map_result (decode_observation L) items = Inr (ro_observations p)"
    using assms r by (auto simp: decode_request_observation_def catch_eq_Inr bindE_eq_Inr split: if_splits)
  then show ?thesis by (rule map_result_all) (rule decode_observation_count)
qed

lemma decode_envelope_count: "decode_envelope L d v t pd s = Inr e \<Longrightarrow> counts_ok e"
proof -
  assume "decode_envelope L d v t pd s = Inr e"
  then have "decode_payload L t pd = Inr (env_payload e)"
    by (auto simp: decode_envelope_def catch_eq_Inr bindE_eq_Inr)
  then show "counts_ok e" using decode_observations_count[of L pd]
    by (auto simp: counts_ok_def decode_payload_def decode_hot_ip_event_def catch_eq_Inr bindE_eq_Inr Let_def split: if_splits)
qed

lemma decode_count: "decode L loaded = Inr e \<Longrightarrow> counts_ok e"
  using decode_from_envelope[of L loaded e] decode_envelope_count by blast

lemma wk_decode_returns: "\<exists>d. wk_decode L m = Inr d"
  using raises_decode[of L "cm_value m"]
  by (auto simp: wk_decode_def raises_def Let_def split: sum.splits event_payload.splits list.splits)

lemma wk_decode_count: "wk_decode L m = Inr (Some (eid, payload, entry)) \<Longrightarrow> 0 \<le> ob_request_count entry"
  using decode_count[of L "cm_value m"]
  by (auto simp: wk_decode_def counts_ok_def Let_def split: sum.splits event_payload.splits list.splits if_splits)

section \<open>Marking a message handled\<close>

definition marked :: "agg_worker \<Rightarrow> wire consumed_message \<Rightarrow> agg_worker \<Rightarrow> bool" where
  "marked wk m wk' \<longleftrightarrow> cl_handled (wk_claims wk') = cl_handled (wk_claims wk) @ [m] \<and>
     handled_position (wk_claims wk') = (handled_position (wk_claims wk))(cm_partition m \<mapsto>
       (case handled_position (wk_claims wk) (cm_partition m) of None \<Rightarrow> cm_offset m + 1 | Some n \<Rightarrow> max n (cm_offset m + 1))) \<and>
     cl_leased (wk_claims wk') = cl_leased (wk_claims wk) \<and> wk_config wk' = wk_config wk \<and> wk_stopping wk' = wk_stopping wk \<and>
     wk_stopped wk' = wk_stopped wk"

lemma wk_mark_ok:
  assumes "worker_ok hot seq now wk st" "cl_window (wk_claims wk) (cm_partition m) = Some w"
  obtains wk' where "wk_mark_handled wk m = (Inr (), wk')" "marked wk m wk'" "cl_windows (wk_claims wk') = cl_windows (wk_claims wk)"
    "worker_ok hot seq now wk' st"
proof -
  from mark_handled_eq[OF assms(2)] obtain cl where cl: "mark_handled (wk_claims wk) m = (Inr (), cl)"
    "cl_handled cl = cl_handled (wk_claims wk) @ [m]"
    "handled_position cl = (handled_position (wk_claims wk))(cm_partition m \<mapsto>
       (case handled_position (wk_claims wk) (cm_partition m) of None \<Rightarrow> cm_offset m + 1 | Some n \<Rightarrow> max n (cm_offset m + 1)))"
    "cl_windows cl = cl_windows (wk_claims wk)" "cl_leased cl = cl_leased (wk_claims wk)" "cl_config cl = cl_config (wk_claims wk)"
    "cl_lease_ttl_s cl = cl_lease_ttl_s (wk_claims wk)" "cl_max_tracked_ips cl = cl_max_tracked_ips (wk_claims wk)" by blast
  have "claims_ok hot seq now cl st = claims_ok hot seq now (wk_claims wk) st" "no_stale cl = no_stale (wk_claims wk)"
    using cl(4-8) by (simp_all add: claims_ok_def no_stale_def)
  then have "worker_ok hot seq now (wk\<lparr>wk_claims := cl\<rparr>) st"
    using assms(1) cl(4,6) by (simp add: worker_ok_def)
  with that[of "wk\<lparr>wk_claims := cl\<rparr>"] cl show ?thesis by (simp add: wk_mark_handled_def marked_def)
qed

section \<open>An observation that is applied\<close>

context aggregator_io
begin

lemma observe_evaluate_ok:
  assumes good: "window_good hot seq config s w (io_store io) now" and cfg: "config_ok config"
    and cls: "classify_observation ws secs now config = APPLIED" and n: "0 \<le> d"
  shows "\<exists>ch w1 r w2 io'. sw_observe w ip (bucket_start ws (bucket_seconds config)) d now = (Inr (Some ch), w1) \<and>
    em_evaluate L S P now config w1 ip io = (r, w2, io') \<and>
    (r \<in> range Inr \<longrightarrow> store_frame hot seq holder s (io_store io) (io_store io') \<and> window_good hot seq config s w2 (io_store io') now)"
proof -
  have ok: "sw_ok w now" and step: "in_step hot seq {} w (io_store io)" and sh: "sw_shard w = s" "sw_config w = config"
    and quiet: "\<And>ip. quiet_at config w ip" using good by (auto simp: window_good_def)
  let ?b = "bucket_start ws (bucket_seconds config)"
  have "bucket_seconds config dvd ?b" by (simp add: bucket_start_def)
  moreover have "0 \<le> bucket_start now (bucket_seconds config) - ?b" "bucket_start now (bucket_seconds config) - ?b < window_seconds config"
    using cls classify_applied_iff[OF cfg] by auto
  ultimately obtain ch w1 where obs: "sw_observe w ip ?b d now = (Inr (Some ch), w1)"
    using sw_observe_live[OF ok, of ?b d ip] n sh(2) by auto
  note same = sw_observe_same[OF obs, unfolded sw_same_def]
  have ok1: "sw_ok w1 now" using sw_observe_ok[OF ok, of ip ?b d] obs by simp
  have step1: "in_step hot seq {} w1 (io_store io)" using step same sw_observe_states[OF ok obs] by (simp add: in_step_def)
  obtain r w2 io' where ev: "em_evaluate L S P now config w1 ip io = (r, w2, io')" by (metis prod_cases3)
  note kept = em_evaluate_keeps[OF ok1 cfg step1 ev]
  have "quiet_at config w2 i" if "r \<in> range Inr" for i
  proof (cases "i = ip")
    case True
    then show ?thesis using kept that quiet_if_settled by blast
  next
    case False
    then show ?thesis using kept quiet_at_cong[of w2 i w1 config] observe_quiet[OF ok obs False quiet cfg] by (simp add: win_frame_def)
  qed
  moreover have "sw_shard w2 = s" "sw_config w2 = config" "store_frame hot seq holder s (io_store io) (io_store io')"
    using kept sh same by (simp_all add: win_frame_def)
  ultimately show ?thesis using obs ev kept by (auto simp: window_good_def)
qed

end

section \<open>Every branch\<close>

text \<open>The part of the state an outcome may change, besides marking the message.\<close>

definition applied :: "py_library \<Rightarrow> 'st store_ops \<Rightarrow> 'p producer_ops \<Rightarrow> int \<Rightarrow> agg_worker \<Rightarrow> wire consumed_message \<Rightarrow> ('st, 'p) agg_io \<Rightarrow>
    agg_worker \<Rightarrow> ('st, 'p) agg_io \<Rightarrow> bool" where
  "applied L S P now wk m io wk' io' \<longleftrightarrow> (\<exists>w eid payload entry ch w1 tr w2.
     cl_window (wk_claims wk) (cm_partition m) = Some w \<and> wk_decode L m = Inr (Some (eid, payload, entry)) \<and>
     classify_observation (window_start_floor payload) (ro_window_seconds payload) now (wk_config wk) = APPLIED \<and>
     sw_observe w (ob_ip entry) (bucket_start (window_start_floor payload) (bucket_seconds (wk_config wk))) (ob_request_count entry) now =
       (Inr (Some ch), w1) \<and>
     em_evaluate L S P now (wk_config wk) w1 (ob_ip entry) io = (Inr tr, w2, io') \<and>
     cl_window (wk_claims wk') = (cl_window (wk_claims wk))(cm_partition m \<mapsto> w2))"

definition diverted :: "py_library \<Rightarrow> ('p \<Rightarrow> string \<Rightarrow> (pystr \<times> wire) list) \<Rightarrow> ('p \<Rightarrow> string \<Rightarrow> pystr set) \<Rightarrow> int \<Rightarrow> detection_config \<Rightarrow>
    wire consumed_message \<Rightarrow> observation_outcome \<Rightarrow> 'p \<Rightarrow> 'p \<Rightarrow> bool" where
  "diverted L lg ids now config m out p p' \<longleftrightarrow> (\<exists>eid payload entry. wk_decode L m = Inr (Some (eid, payload, entry)) \<and>
     out = classify_observation (window_start_floor payload) (ro_window_seconds payload) now config \<and>
     (\<forall>t. t \<noteq> ts_name OBSERVATIONS_RECONCILIATION \<longrightarrow> lg p' t = lg p t) \<and>
     eid \<in> ids p' (ts_name OBSERVATIONS_RECONCILIATION) \<and>
     (eid \<notin> ids p (ts_name OBSERVATIONS_RECONCILIATION) \<longrightarrow>
        lg p' (ts_name OBSERVATIONS_RECONCILIATION) = lg p (ts_name OBSERVATIONS_RECONCILIATION) @ [(lib_ip_text L (ob_ip entry), cm_value m)]))"

definition handled_as :: "py_library \<Rightarrow> 'st store_ops \<Rightarrow> 'p producer_ops \<Rightarrow> ('p \<Rightarrow> string \<Rightarrow> (pystr \<times> wire) list) \<Rightarrow> ('p \<Rightarrow> string \<Rightarrow> pystr set) \<Rightarrow>
    int \<Rightarrow> agg_worker \<Rightarrow> wire consumed_message \<Rightarrow> ('st, 'p) agg_io \<Rightarrow> observation_outcome \<Rightarrow> agg_worker \<Rightarrow> ('st, 'p) agg_io \<Rightarrow> bool" where
  "handled_as L S P lg ids now wk m io out wk' io' \<longleftrightarrow>
     (if out = UNCLAIMED then wk' = wk \<and> io' = io \<and> (wk_stopping wk \<or> cl_window (wk_claims wk) (cm_partition m) = None)
      else marked wk m wk' \<and>
        (out = REDELIVERED \<longleftrightarrow> (case handled_position (wk_claims wk) (cm_partition m) of None \<Rightarrow> False | Some position \<Rightarrow> cm_offset m < position)) \<and>
        (if out = APPLIED then applied L S P now wk m io wk' io'
         else cl_windows (wk_claims wk') = cl_windows (wk_claims wk) \<and> io_store io' = io_store io \<and>
           (if out = REDELIVERED then io' = io
            else if out = MALFORMED then io' = io \<and> wk_decode L m = Inr None
            else diverted L lg ids now (wk_config wk) m out (io_producer io) (io_producer io'))))"

lemma handled_cases:
  "handled_as L S P lg ids now wk m io APPLIED wk' io' \<longleftrightarrow> marked wk m wk' \<and> applied L S P now wk m io wk' io' \<and>
     \<not> (case handled_position (wk_claims wk) (cm_partition m) of None \<Rightarrow> False | Some position \<Rightarrow> cm_offset m < position)"
  by (auto simp: handled_as_def)

context aggregator_io
begin

lemma handle_claimed_ok:
  assumes ok: "worker_ok hot seq now wk (io_store io)" and live: "\<not> wk_stopping wk" and run: "wk_handle_claimed L S P now wk m io = (r, wk', io')"
  shows "case r of
      Inl _ \<Rightarrow> cl_handled (wk_claims wk') = cl_handled (wk_claims wk) \<and> (\<exists>x. wk_decode L m = Inr (Some x))
    | Inr out \<Rightarrow> worker_ok hot seq now wk' (io_store io') \<and> handled_as L S P log ids now wk m io out wk' io'"
proof (cases "cl_window (wk_claims wk) (cm_partition m)")
  case None
  then show ?thesis using run ok by (auto simp: wk_handle_claimed_def handled_as_def)
next
  case (Some w)
  let ?redelivered = "case handled_position (wk_claims wk) (cm_partition m) of None \<Rightarrow> False | Some position \<Rightarrow> cm_offset m < position"
  obtain wk1 where mk: "wk_mark_handled wk m = (Inr (), wk1)" "marked wk m wk1" "cl_windows (wk_claims wk1) = cl_windows (wk_claims wk)"
    and okm: "\<And>st. worker_ok hot seq now wk st \<Longrightarrow> worker_ok hot seq now wk1 st"
    using wk_mark_ok[OF ok Some] wk_mark_ok[of hot seq now wk _ m w] Some by (metis prod.inject)
  have stopped: "\<not> wk_stopped wk" using ok live by (auto simp: worker_ok_def)
  note good = worker_window[OF ok stopped Some]
  have cfgw: "sw_config w = wk_config wk" using good by (simp add: window_good_def)
  show ?thesis
  proof (cases ?redelivered)
    case True
    then show ?thesis using run Some mk okm[OF ok] by (auto simp: wk_handle_claimed_def handled_as_def)
  next
    case fresh: False
    obtain d where d: "wk_decode L m = Inr d" using wk_decode_returns by blast
    show ?thesis
    proof (cases d)
      case None
      then show ?thesis using run Some mk okm[OF ok] d fresh by (auto simp: wk_handle_claimed_def handled_as_def)
    next
      case (Some x)
      obtain eid payload entry where x: "x = (eid, payload, entry)" by (cases x) auto
      note dec = d[unfolded Some x]
      let ?ws = "window_start_floor payload" and ?key = "lib_ip_text L (ob_ip entry)"
      let ?out = "classify_observation ?ws (ro_window_seconds payload) now (wk_config wk)"
      show ?thesis
      proof (cases "?out = APPLIED")
        case False
        obtain pr p where pub: "wk_divert P m ?key eid (io_producer io) = (pr, p)" by fastforce
        note law = publish_law[OF pub[unfolded wk_divert_def]]
        have out: "?out \<notin> {UNCLAIMED, REDELIVERED, MALFORMED}" by (simp add: classify_observation_def Let_def)
        show ?thesis
        proof (cases pr)
          case (Inl e)
          then show ?thesis using run \<open>cl_window (wk_claims wk) (cm_partition m) = Some w\<close> fresh dec False pub by (auto simp: wk_handle_claimed_def Let_def)
        next
          case (Inr u)
          then have res: "r = Inr ?out" "wk' = wk1" "io' = io\<lparr>io_producer := p\<rparr>"
            using run \<open>cl_window (wk_claims wk) (cm_partition m) = Some w\<close> fresh dec False pub mk(1) by (auto simp: wk_handle_claimed_def Let_def)
          have "diverted L log ids now (wk_config wk) m ?out (io_producer io) p" using dec law Inr by (auto simp: diverted_def)
          then show ?thesis using res okm[OF ok] mk fresh out False by (simp add: handled_as_def)
        qed
      next
        case True
        obtain ch w1 r2 w2 io2 where
          obs: "sw_observe w (ob_ip entry) (bucket_start ?ws (bucket_seconds (wk_config wk))) (ob_request_count entry) now = (Inr (Some ch), w1)"
          and ev: "em_evaluate L S P now (wk_config wk) w1 (ob_ip entry) io = (r2, w2, io2)"
          and res: "r2 \<in> range Inr \<longrightarrow> store_frame hot seq holder (cm_partition m) (io_store io) (io_store io2) \<and>
             window_good hot seq (wk_config wk) (cm_partition m) w2 (io_store io2) now"
          using observe_evaluate_ok[OF good worker_config[OF ok] True wk_decode_count[OF dec]] by blast
        show ?thesis
        proof (cases r2)
          case (Inl e)
          then show ?thesis using run \<open>cl_window (wk_claims wk) (cm_partition m) = Some w\<close> fresh dec True obs ev cfgw
            by (auto simp: wk_handle_claimed_def Let_def)
        next
          case (Inr tr)
          let ?wk = "wk_put_window wk (cm_partition m) w2"
          have ok2: "worker_ok hot seq now ?wk (io_store io2)"
            using worker_put[OF ok stopped \<open>cl_window (wk_claims wk) (cm_partition m) = Some w\<close>, of w2 "io_store io2" holder] res Inr by simp
          obtain wk2 where mk2: "wk_mark_handled ?wk m = (Inr (), wk2)" "marked ?wk m wk2" "cl_windows (wk_claims wk2) = cl_windows (wk_claims ?wk)"
            "worker_ok hot seq now wk2 (io_store io2)"
            using wk_mark_ok[OF ok2, of m w2] by auto
          have res2: "r = Inr APPLIED" "wk' = wk2" "io' = io2"
            using run \<open>cl_window (wk_claims wk) (cm_partition m) = Some w\<close> fresh dec True obs ev cfgw Inr mk2(1)
            by (auto simp: wk_handle_claimed_def Let_def)
          have "cl_window (wk_claims wk2) = (cl_window (wk_claims wk))(cm_partition m \<mapsto> w2)" unfolding mk2(3) by auto
          then have "applied L S P now wk m io wk2 io2"
            unfolding applied_def using \<open>cl_window (wk_claims wk) (cm_partition m) = Some w\<close> dec True obs ev Inr by blast
          moreover have "marked wk m wk2" using mk2(2) by (simp add: marked_def)
          ultimately show ?thesis using res2 mk2(4) fresh by (simp add: handled_cases)
        qed
      qed
    qed
  qed
qed

end

end
