(* ===== verification/Worker_Runs.thy ===== *)
theory Worker_Runs
  imports Message_Handling
begin

text \<open>
  Whole runs of the worker: messages, maintenance, configuration changes, commits and the shutdown in
  any order, with the clock advancing and other members acting in between.
\<close>

section \<open>A configuration pass\<close>

definition windows_ok :: "('st \<Rightarrow> int \<Rightarrow> address set) \<Rightarrow> ('st \<Rightarrow> int \<Rightarrow> int) \<Rightarrow> int \<Rightarrow> (int \<Rightarrow> detection_config) \<Rightarrow> agg_worker \<Rightarrow> 'st \<Rightarrow> bool" where
  "windows_ok hot seq now cf wk st \<longleftrightarrow> (\<forall>s w. cl_window (wk_claims wk) s = Some w \<longrightarrow>
     sw_shard w = s \<and> sw_ok w now \<and> in_step hot seq {} w st \<and> sw_config w = cf s)"

definition same_dom :: "agg_worker \<Rightarrow> agg_worker \<Rightarrow> bool" where
  "same_dom wk wk' \<longleftrightarrow> (\<forall>q. cl_window (wk_claims wk') q = None \<longleftrightarrow> cl_window (wk_claims wk) q = None) \<and>
     map fst (cl_windows (wk_claims wk')) = map fst (cl_windows (wk_claims wk))"

lemma same_dom_refl [simp]: "same_dom wk wk" by (simp add: same_dom_def)

lemma same_dom_trans: "same_dom wk wk' \<Longrightarrow> same_dom wk' wk'' \<Longrightarrow> same_dom wk wk''" by (simp add: same_dom_def)

lemma same_dom_put: "cl_window (wk_claims wk) s = Some w \<Longrightarrow> same_dom wk (wk_put_window wk s w')"
  by (simp add: same_dom_def) (simp add: wk_put_window_def update_keys map_of_eq_None_iff, metis fst_conv image_eqI map_of_SomeD)

lemma configure_loop_ok:
  assumes "windows_ok hot seq now cf wk st" "config_ok config"
  shows "\<exists>wk'. configure_loop config now wk ss = (Inr (), wk') \<and> only_windows wk wk' \<and> same_dom wk wk' \<and>
    windows_ok hot seq now (\<lambda>s. if s \<in> set ss then config else cf s) wk' st"
  using assms(1)
proof (induction ss arbitrary: wk cf)
  case Nil
  then show ?case by simp
next
  case (Cons s ss)
  show ?case
  proof (cases "cl_window (wk_claims wk) s")
    case None
    from Cons.IH[OF Cons.prems] obtain wk' where wk': "configure_loop config now wk ss = (Inr (), wk')" "only_windows wk wk'" "same_dom wk wk'"
      "windows_ok hot seq now (\<lambda>s. if s \<in> set ss then config else cf s) wk' st" by blast
    then have "cl_window (wk_claims wk') s = None" using None by (simp add: same_dom_def)
    then have "windows_ok hot seq now (\<lambda>q. if q \<in> set (s # ss) then config else cf q) wk' st" using wk'(4) by (auto simp: windows_ok_def)
    with wk' None show ?thesis by simp
  next
    case (Some w)
    obtain r w1 where ap: "sw_apply_config w config now = (r, w1)" by fastforce
    have w: "sw_shard w = s" "sw_ok w now" "in_step hot seq {} w st" using Cons.prems Some by (auto simp: windows_ok_def)
    note st = sw_apply_config_states[OF w(2) assms(2) ap] sw_apply_config_same[OF ap]
    have "in_step hot seq {} w1 st" using w(3) st by (simp add: in_step_def)
    then have ok1: "windows_ok hot seq now (\<lambda>q. if q = s then config else cf q) (wk_put_window wk s w1) st"
      using Cons.prems st w(1) by (simp add: windows_ok_def)
    from Cons.IH[OF ok1] obtain wk' where wk': "configure_loop config now (wk_put_window wk s w1) ss = (Inr (), wk')"
      "only_windows (wk_put_window wk s w1) wk'" "same_dom (wk_put_window wk s w1) wk'"
      "windows_ok hot seq now (\<lambda>q. if q \<in> set ss then config else if q = s then config else cf q) wk' st" by blast
    have "(\<lambda>q. if q \<in> set ss then config else if q = s then config else cf q) = (\<lambda>q. if q \<in> set (s # ss) then config else cf q)" by auto
    with wk' Some ap st(1) same_dom_trans[OF same_dom_put[OF Some] wk'(3)] only_windows_trans[OF only_windows_put wk'(2)] show ?thesis by simp
  qed
qed

context aggregator_io
begin

lemma reevaluate_loop_ok:
  assumes "windows_ok hot seq now (\<lambda>_. config) wk (io_store io)" "\<forall>p. 0 \<le> seq (io_store io) p" "config_ok config"
    "reevaluate_loop L S P now config wk ss io = (r, wk', io')"
  shows "only_windows wk wk' \<and> (r = Inr () \<longrightarrow> same_dom wk wk' \<and> windows_ok hot seq now (\<lambda>_. config) wk' (io_store io') \<and>
    (\<forall>p. 0 \<le> seq (io_store io') p) \<and>
    (\<forall>q. q \<notin> set ss \<longrightarrow> cl_window (wk_claims wk') q = cl_window (wk_claims wk) q) \<and>
    (\<forall>q w ip. q \<in> set ss \<and> cl_window (wk_claims wk') q = Some w \<longrightarrow> \<not> wants_move config w now ip))"
  using assms(1,2,4)
proof (induction ss arbitrary: wk io)
  case (Cons s ss)
  show ?case
  proof (cases "cl_window (wk_claims wk) s")
    case None
    then have run: "reevaluate_loop L S P now config wk ss io = (r, wk', io')" using Cons.prems(3) by simp
    note IH = Cons.IH[OF Cons.prems(1,2) run]
    have "cl_window (wk_claims wk') s = None" if "r = Inr ()" using IH None that by (simp add: same_dom_def)
    with IH show ?thesis by auto
  next
    case (Some w)
    obtain r1 w1 io1 where ev: "reevaluate_shard L S P now config w None (wk_reevaluation_batch wk) io = (r1, w1, io1)" by (metis prod_cases3)
    have w: "sw_shard w = s" "sw_ok w now" "in_step hot seq {} w (io_store io)" "sw_config w = config"
      using Cons.prems(1) Some by (auto simp: windows_ok_def)
    show ?thesis
    proof (cases r1)
      case (Inl e)
      then show ?thesis using Cons.prems(3) Some ev by auto
    next
      case (Inr k)
      let ?wk = "wk_put_window wk s w1"
      note set = reevaluate_settles[OF w(2) assms(3) w(3) ev[unfolded Inr]]
      have fr: "store_frame hot seq holder s (io_store io) (io_store io1)" using set w(1) by simp
      have ok1: "windows_ok hot seq now (\<lambda>_. config) ?wk (io_store io1)"
        using Cons.prems(1) set w in_step_frame[OF fr] by (auto simp: windows_ok_def win_frame_def split: if_splits)
      have nn: "\<forall>p. 0 \<le> seq (io_store io1) p" using fr Cons.prems(2) by (metis store_frame_def order_trans)
      have run: "reevaluate_loop L S P now config ?wk ss io1 = (r, wk', io')" using Cons.prems(3) Some ev Inr by simp
      note IH = Cons.IH[OF ok1 nn run]
      have only: "only_windows wk wk'" using IH only_windows_trans[OF only_windows_put] by blast
      have "same_dom wk wk' \<and> (\<forall>q. q \<notin> set (s # ss) \<longrightarrow> cl_window (wk_claims wk') q = cl_window (wk_claims wk) q) \<and>
          (\<forall>q v ip. q \<in> set (s # ss) \<and> cl_window (wk_claims wk') q = Some v \<longrightarrow> \<not> wants_move config v now ip)" if "r = Inr ()"
      proof -
        have keep: "\<And>q. q \<notin> set ss \<Longrightarrow> cl_window (wk_claims wk') q = (if q = s then Some w1 else cl_window (wk_claims wk) q)"
          and quiet: "\<And>q v ip. q \<in> set ss \<Longrightarrow> cl_window (wk_claims wk') q = Some v \<Longrightarrow> \<not> wants_move config v now ip"
          and dom: "same_dom ?wk wk'" using IH that by simp_all
        have "\<not> wants_move config v now ip" if "q \<in> set (s # ss)" "cl_window (wk_claims wk') q = Some v" for q v ip
        proof (cases "q \<in> set ss")
          case False
          then show ?thesis using keep[OF False] that set by simp
        qed (use quiet that in blast)
        moreover have "same_dom wk wk'" using same_dom_trans[OF same_dom_put[OF Some] dom] .
        ultimately show ?thesis using keep by auto
      qed
      with IH only show ?thesis by blast
    qed
  qed
qed auto

lemma apply_config_ok:
  assumes ok: "worker_ok hot seq now wk (io_store io)" and cfg: "config_ok config" and run: "wk_apply_config L S P now wk config io = (r, wk', io')"
  shows "cl_handled (wk_claims wk') = cl_handled (wk_claims wk) \<and> handled_position (wk_claims wk') = handled_position (wk_claims wk) \<and>
    wk_stopping wk' = wk_stopping wk \<and>
    (r = Inr () \<longrightarrow> worker_ok hot seq now wk' (io_store io') \<and>
      (\<not> wk_stopping wk \<longrightarrow> wk_config wk' = config \<and> same_dom wk wk' \<and>
        (\<forall>s w ip. cl_window (wk_claims wk') s = Some w \<longrightarrow> \<not> wants_move config w now ip)))"
proof (cases "wk_stopping wk")
  case True
  then show ?thesis using run ok by (auto simp: wk_apply_config_def)
next
  case False
  let ?ss = "map fst (cl_windows (wk_claims wk))"
  have cl: "claims_ok hot seq now (wk_claims wk) (io_store io)" "no_stale (wk_claims wk)" "\<not> wk_stopped wk"
    using ok False by (auto simp: worker_ok_def)
  have "windows_ok hot seq now (\<lambda>_. wk_config wk) wk (io_store io)"
    using worker_window[OF ok cl(3)] by (auto simp: windows_ok_def window_good_def)
  from configure_loop_ok[OF this cfg, of ?ss] obtain wk1 where
    wk1: "configure_loop config now wk ?ss = (Inr (), wk1)" "only_windows wk wk1" "same_dom wk wk1"
    "windows_ok hot seq now (\<lambda>s. if s \<in> set ?ss then config else wk_config wk) wk1 (io_store io)" by blast
  have all: "s \<in> set ?ss" if "cl_window (wk_claims v) s = Some w" "same_dom wk v" for v s w
    using that by (metis option.distinct(1) map_of_eq_None_iff set_map same_dom_def)
  have ok1: "windows_ok hot seq now (\<lambda>_. config) wk1 (io_store io)"
    using wk1(4) all[OF _ wk1(3)] unfolding windows_ok_def by (metis (full_types))
  obtain r2 wk2 io2 where ev: "reevaluate_loop L S P now config wk1 ?ss io = (r2, wk2, io2)" by (metis prod_cases3)
  have nn: "\<forall>p. 0 \<le> seq (io_store io) p" using claims_okD(4)[OF cl(1)] by blast
  note res = reevaluate_loop_ok[OF ok1 nn cfg ev]
  have only: "only_windows wk wk2" using only_windows_trans[OF wk1(2)] res by blast
  then obtain ws where ws: "wk2 = wk\<lparr>wk_claims := (wk_claims wk)\<lparr>cl_windows := ws\<rparr>\<rparr>" by (auto simp: only_windows_def)
  show ?thesis
  proof (cases r2)
    case (Inl e)
    then show ?thesis using run False wk1 ev ws by (auto simp: wk_apply_config_def Let_def handled_position_def[abs_def])
  next
    case (Inr u)
    have fin: "r = Inr ()" "wk' = wk2\<lparr>wk_config := config, wk_claims := adopt_config (wk_claims wk2) config\<rparr>" "io' = io2"
      using run False wk1 ev Inr by (auto simp: wk_apply_config_def Let_def)
    have dom: "same_dom wk wk2" using same_dom_trans[OF wk1(3)] res Inr by simp
    have eq: "cl_window (wk_claims wk') = cl_window (wk_claims wk2)" "cl_leased (wk_claims wk') = cl_leased (wk_claims wk)"
      "cl_windows (wk_claims wk') = cl_windows (wk_claims wk2)"
      using fin ws by (simp_all add: adopt_config_def)
    have settled: "\<not> wants_move config w now ip" if "cl_window (wk_claims wk2) s = Some w" for s w ip
      using res Inr all[OF that dom] that by simp
    have "distinct (map fst (cl_windows (wk_claims wk2)))" using dom claims_okD(5)[OF cl(1)] by (simp add: same_dom_def)
    moreover have "windows_ok hot seq now (\<lambda>_. config) wk2 (io_store io2)" "\<forall>p. 0 \<le> seq (io_store io2) p" using res Inr by simp_all
    ultimately have ok2: "claims_ok hot seq now (wk_claims wk') (io_store io2)"
      using cfg claims_okD(2,3)[OF cl(1)] fin(2) ws eq unfolding claims_ok_def windows_ok_def by (auto simp: adopt_config_def)
    have "no_stale (wk_claims wk')" using cl(2) dom eq unfolding no_stale_def same_dom_def by (auto simp: dom_def)
    with ok2 have "worker_ok hot seq now wk' (io_store io2)"
      using ok fin(2) ws eq quiet_if_settled[OF settled] unfolding worker_ok_def by (auto simp: adopt_config_def)
    then show ?thesis using fin eq settled dom ws by (auto simp: adopt_config_def same_dom_def handled_position_def[abs_def])
  qed
qed

end

section \<open>Only a commit acknowledges\<close>

context consumer
begin

lemma em_evaluate_acks: "em_evaluate L S P now config w ip io = (r, w', io') \<Longrightarrow> acked (io_producer io') c = acked (io_producer io) c"
  using publish_acks_nothing
  by (auto simp: em_evaluate_def Let_def split: if_splits sum.splits prod.splits)

lemma em_evaluate_all_acks:
  "em_evaluate_all L S P now config w ips io = (r, w', io') \<Longrightarrow> acked (io_producer io') c = acked (io_producer io) c"
proof (induction ips arbitrary: w io r w' io')
  case (Cons ip ips)
  obtain r1 w1 io1 where one: "em_evaluate L S P now config w ip io = (r1, w1, io1)" by (metis prod_cases3)
  obtain r2 w2 io2 where rest: "em_evaluate_all L S P now config w1 ips io1 = (r2, w2, io2)" by (metis prod_cases3)
  show ?case using Cons.prems one rest Cons.IH[OF rest] em_evaluate_acks[OF one] by (auto split: sum.splits)
qed simp

lemma maintain_window_acks:
  assumes "maintain_window L S P now config w io = Some (r, w', io')"
  shows "acked (io_producer io') c = acked (io_producer io) c"
proof -
  obtain ch w1 where ex: "sw_expire_due w now = Some (ch, w1)" using assms by (auto simp: maintain_window_def split: option.splits)
  obtain r2 w2 io2 where ev: "em_evaluate_all L S P now config w1 (map wc_ip (filter (\<lambda>c. wc_state c = HOT) ch)) io = (r2, w2, io2)" by (metis prod_cases3)
  obtain warmed w3 where fin: "sw_finish_warmup_if_due w2 now = (warmed, w3)" by fastforce
  obtain r4 w4 io4 where ev4: "em_evaluate_all L S P now config w3 (case warmed of None \<Rightarrow> [] | Some ips \<Rightarrow> ips) io2 = (r4, w4, io4)" by (metis prod_cases3)
  from assms ex ev fin ev4 have "io' = io2 \<or> io' = io4" by (auto simp: maintain_window_def split: sum.splits)
  then show ?thesis using em_evaluate_all_acks[OF ev, of c] em_evaluate_all_acks[OF ev4, of c] by auto
qed

lemma maintain_loop_acks: "maintain_loop L S P now wk ss io = Some (r, wk', io') \<Longrightarrow> acked (io_producer io') c = acked (io_producer io) c"
proof (induction ss arbitrary: wk io)
  case (Cons s ss)
  show ?case
  proof (cases "cl_window (wk_claims wk) s")
    case None
    then show ?thesis using Cons by simp
  next
    case (Some w)
    obtain r1 w1 io1 where mw: "maintain_window L S P now (wk_config wk) w io = Some (r1, w1, io1)"
      using Cons.prems Some by (auto split: option.splits)
    from maintain_window_acks[OF mw, of c] Cons Some mw show ?thesis by (auto split: sum.splits)
  qed
qed simp

lemma run_maintenance_acks:
  assumes "wk_run_maintenance L S P now wk io = Some (r, wk', io')"
  shows "acked (io_producer io') c = acked (io_producer io) c"
proof (cases "wk_stopping wk")
  case True
  then show ?thesis using assms by (simp add: wk_run_maintenance_def)
next
  case False
  obtain rr st where ren: "renew_leases S now (wk_claims wk) (io_store io) = (rr, st)" by fastforce
  show ?thesis
  proof (cases rr)
    case (Inl e)
    then show ?thesis using assms False ren by (auto simp: wk_run_maintenance_def)
  next
    case (Inr u)
    then have "maintain_loop L S P now wk (map fst (cl_windows (wk_claims wk))) (io\<lparr>io_store := st\<rparr>) = Some (r, wk', io')"
      using assms False ren by (simp add: wk_run_maintenance_def)
    from maintain_loop_acks[OF this, of c] show ?thesis by simp
  qed
qed

lemma reevaluate_loop_acks: "reevaluate_loop L S P now config wk ss io = (r, wk', io') \<Longrightarrow> acked (io_producer io') c = acked (io_producer io) c"
proof (induction ss arbitrary: wk io)
  case (Cons s ss)
  show ?case
  proof (cases "cl_window (wk_claims wk) s")
    case None
    then show ?thesis using Cons by simp
  next
    case (Some w)
    obtain r1 w1 io1 where ev: "reevaluate_shard L S P now config w None (wk_reevaluation_batch wk) io = (r1, w1, io1)" by (metis prod_cases3)
    then have "acked (io_producer io1) c = acked (io_producer io) c"
      by (auto simp: reevaluate_shard_def split: if_splits dest!: em_evaluate_all_acks[where c = c])
    with Cons Some ev show ?thesis by (auto split: sum.splits)
  qed
qed simp

lemma apply_config_acks:
  assumes "wk_apply_config L S P now wk config io = (r, wk', io')"
  shows "acked (io_producer io') c = acked (io_producer io) c"
proof -
  let ?ss = "map fst (cl_windows (wk_claims wk))"
  obtain r1 wk1 where cf: "configure_loop config now wk ?ss = (r1, wk1)" by fastforce
  obtain r2 wk2 io2 where ev: "reevaluate_loop L S P now config wk1 ?ss io = (r2, wk2, io2)" by (metis prod_cases3)
  have "io' = io \<or> io' = io2" using assms cf ev by (auto simp: wk_apply_config_def Let_def split: if_splits sum.splits)
  with reevaluate_loop_acks[OF ev, of c] show ?thesis by auto
qed

lemma handle_acks:
  assumes "wk_handle L S P now wk m io = (r, wk', io')"
  shows "acked (io_producer io') c = acked (io_producer io) c"
proof (cases "wk_stopping wk \<or> cl_window (wk_claims wk) (cm_partition m) = None \<or> io' = io")
  case True
  then show ?thesis using assms by (auto simp: wk_handle_def wk_handle_claimed_def split: if_splits)
next
  case False
  then obtain w where w: "cl_window (wk_claims wk) (cm_partition m) = Some w" "io' \<noteq> io" "\<not> wk_stopping wk" by auto
  then obtain eid payload entry where dec: "wk_decode L m = Inr (Some (eid, payload, entry))"
    using assms wk_decode_returns[of L m]
    by (auto simp: wk_handle_def wk_handle_claimed_def Let_def split: if_splits prod.splits sum.splits option.splits)
  obtain pr p where pub: "wk_divert P m (lib_ip_text L (ob_ip entry)) eid (io_producer io) = (pr, p)" by fastforce
  obtain r1 w1 where obs: "sw_observe w (ob_ip entry) (bucket_start (window_start_floor payload) (bucket_seconds (sw_config w)))
      (ob_request_count entry) now = (r1, w1)" by fastforce
  obtain r2 w2 io2 where ev: "em_evaluate L S P now (wk_config wk) w1 (ob_ip entry) io = (r2, w2, io2)" by (metis prod_cases3)
  have "io' = io\<lparr>io_producer := p\<rparr> \<or> io' = io2"
    using assms w dec pub obs ev by (auto simp: wk_handle_def wk_handle_claimed_def Let_def split: if_splits prod.splits sum.splits option.splits)
  then show ?thesis
    using publish_acks_nothing[OF pub[unfolded wk_divert_def], of c] em_evaluate_acks[OF ev, of c] by auto
qed

end

section \<open>Commits and shutdown\<close>

locale worker_io = aggregator_io S hot seq holder P log ids + consumer P log ids C acked
  for S :: "'st store_ops" and hot :: "'st \<Rightarrow> int \<Rightarrow> address set" and seq :: "'st \<Rightarrow> int \<Rightarrow> int"
    and holder :: "'st \<Rightarrow> int \<Rightarrow> int \<Rightarrow> string option" and P :: "'p producer_ops"
    and log :: "'p \<Rightarrow> string \<Rightarrow> (pystr \<times> wire) list" and ids :: "'p \<Rightarrow> string \<Rightarrow> pystr set"
    and C :: "('p, 'c) consumer_ops" and acked :: "'p \<Rightarrow> 'c \<Rightarrow> position set"
begin

lemma flush_and_ack_ok:
  assumes "worker_ok hot seq now wk st" "flush_and_ack P C tick wk p c = (r, wk', p', c')"
  shows "worker_ok hot seq now wk' st \<and> acked p' c' \<subseteq> acked p c \<union> position_of ` set (cl_handled (wk_claims wk)) \<and>
    set (cl_handled (wk_claims wk')) \<subseteq> set (cl_handled (wk_claims wk)) \<and> wk_stopped wk' = wk_stopped wk \<and> wk_stopping wk' = wk_stopping wk \<and>
    cl_windows (wk_claims wk') = cl_windows (wk_claims wk) \<and>
    (r = Inr () \<longrightarrow> acked p' c' = acked p c \<union> position_of ` set (cl_handled (wk_claims wk)) \<and> cl_handled (wk_claims wk') = [])"
proof -
  obtain r1 cl p1 c1 where run: "commit_handled P C (wk_claims wk) p c = (r1, cl, p1, c1)" by (metis prod_cases4)
  note ok = commit_handled_ok[OF run]
  have cl: "cl = wk_claims wk \<or> cl = (wk_claims wk)\<lparr>cl_handled := []\<rparr>" using ok by (auto split: if_splits)
  then have "claims_ok hot seq now cl st = claims_ok hot seq now (wk_claims wk) st" "no_stale cl = no_stale (wk_claims wk)"
    by (elim disjE; simp add: claims_ok_def no_stale_def)+
  then have "worker_ok hot seq now (wk\<lparr>wk_claims := cl, wk_last_commit := t\<rparr>) st" "worker_ok hot seq now (wk\<lparr>wk_claims := cl\<rparr>) st" for t
    using assms(1) cl by (auto simp: worker_ok_def)
  with assms(2) run ok cl show ?thesis by (auto simp: flush_and_ack_def split: sum.splits if_splits)
qed

lemma release_loop_observed: "release_loop S now owner ss st = (r, st') \<Longrightarrow> hot st' = hot st \<and> seq st' = seq st"
proof (induction ss arbitrary: st)
  case (Cons s ss)
  obtain r1 st1 where rel: "so_release_lease S st now s owner = (r1, st1)" by fastforce
  from release_observed[OF rel] Cons rel show ?case by (auto split: sum.splits)
qed simp

lemma wk_stop_ok:
  assumes "worker_ok hot seq now wk (io_store io)" "wk_stop S P C now tick wk io c = (r, wk', io', c')"
  shows "worker_ok hot seq now wk' (io_store io') \<and> acked (io_producer io') c' \<subseteq> acked (io_producer io) c \<union> position_of ` set (cl_handled (wk_claims wk)) \<and>
    set (cl_handled (wk_claims wk')) \<subseteq> set (cl_handled (wk_claims wk)) \<and> wk_stopped wk' \<and> wk_stopping wk'"
proof (cases "wk_stopped wk")
  case True
  then show ?thesis using assms by (auto simp: wk_stop_def worker_ok_def)
next
  case False
  have ok1: "worker_ok hot seq now (wk\<lparr>wk_stopping := True\<rparr>) (io_store io)" using assms(1) by (simp add: worker_ok_def)
  obtain r1 wk2 p c2 where fl: "flush_and_ack P C tick (wk\<lparr>wk_stopping := True\<rparr>) (io_producer io) c = (r1, wk2, p, c2)" by (metis prod_cases4)
  note ok2 = flush_and_ack_ok[OF ok1 fl]
  obtain r3 cl st where rel: "cl_release S now (wk_claims wk2) (io_store io) = (r3, cl, st)" by (metis prod_cases3)
  obtain r4 where "release_loop S now (lease_owner (wk_claims wk2)) (sort (cl_leased (wk_claims wk2))) (io_store io) = (r4, st)"
    and cl: "cl = (wk_claims wk2)\<lparr>cl_leased := []\<rparr>" using rel by (auto simp: cl_release_def split: prod.splits)
  then have obs: "hot st = hot (io_store io)" "seq st = seq (io_store io)" using release_loop_observed by blast+
  have "claims_ok hot seq now (wk_claims wk2) st"
    using ok2 claims_ok_store[of hot seq now "wk_claims wk2" "io_store io" st] obs by (simp add: worker_ok_def)
  then have "claims_ok hot seq now cl st" unfolding cl by (rule claims_ok_release)
  then have "worker_ok hot seq now (wk2\<lparr>wk_claims := cl, wk_stopped := True\<rparr>) st" using ok2 cl by (auto simp: worker_ok_def)
  with False fl rel assms(2) ok2 cl show ?thesis by (auto simp: wk_stop_def Let_def)
qed

end

section \<open>Runs\<close>

text \<open>A run of a worker that has not raised, with the positions of the messages it has handled. \<open>other\<close> is
  what other members do: they leave the shards this one has leased alone and acknowledge nothing for it.
  A commit or a shutdown that raises ends the run.\<close>

inductive worker_run :: "py_library \<Rightarrow> 'st store_ops \<Rightarrow> ('st \<Rightarrow> int \<Rightarrow> address set) \<Rightarrow> ('st \<Rightarrow> int \<Rightarrow> int) \<Rightarrow> 'p producer_ops \<Rightarrow> ('p, 'c) consumer_ops \<Rightarrow>
    ('p \<Rightarrow> 'c \<Rightarrow> position set) \<Rightarrow> position set \<Rightarrow> int \<Rightarrow> agg_worker \<Rightarrow> ('st, 'p) agg_io \<Rightarrow> 'c \<Rightarrow> position set \<Rightarrow> bool"
  for L S hot seq P C acked A0 where
  run_start: "worker_ok hot seq now wk (io_store io) \<Longrightarrow> cl_handled (wk_claims wk) = [] \<Longrightarrow> acked (io_producer io) c \<subseteq> A0 \<Longrightarrow>
    worker_run L S hot seq P C acked A0 now wk io c {}"
| run_time: "worker_run L S hot seq P C acked A0 now wk io c H \<Longrightarrow> now \<le> now' \<Longrightarrow> worker_run L S hot seq P C acked A0 now' wk io c H"
| run_other: "worker_run L S hot seq P C acked A0 now wk io c H \<Longrightarrow>
    (\<And>s. s \<in> set (cl_leased (wk_claims wk)) \<Longrightarrow> hot (io_store io') s = hot (io_store io) s \<and> seq (io_store io') s = seq (io_store io) s) \<Longrightarrow>
    (\<And>s. 0 \<le> seq (io_store io') s) \<Longrightarrow> acked (io_producer io') c = acked (io_producer io) c \<Longrightarrow>
    worker_run L S hot seq P C acked A0 now wk io' c H"
| run_handle: "worker_run L S hot seq P C acked A0 now wk io c H \<Longrightarrow> wk_handle L S P now wk m io = (Inr out, wk', io') \<Longrightarrow>
    worker_run L S hot seq P C acked A0 now wk' io' c (if out = UNCLAIMED then H else insert (position_of m) H)"
| run_maintain: "worker_run L S hot seq P C acked A0 now wk io c H \<Longrightarrow> wk_run_maintenance L S P now wk io = Some (Inr (), wk', io') \<Longrightarrow>
    worker_run L S hot seq P C acked A0 now wk' io' c H"
| run_config: "worker_run L S hot seq P C acked A0 now wk io c H \<Longrightarrow> config_ok config \<Longrightarrow> wk_apply_config L S P now wk config io = (Inr (), wk', io') \<Longrightarrow>
    worker_run L S hot seq P C acked A0 now wk' io' c H"
| run_commit: "worker_run L S hot seq P C acked A0 now wk io c H \<Longrightarrow> commit_if_due P C tick wk (io_producer io) c = (r, wk', p', c') \<Longrightarrow>
    worker_run L S hot seq P C acked A0 now wk' (io\<lparr>io_producer := p'\<rparr>) c' H"
| run_stop: "worker_run L S hot seq P C acked A0 now wk io c H \<Longrightarrow> wk_stop S P C now tick wk io c = (r, wk', io', c') \<Longrightarrow>
    worker_run L S hot seq P C acked A0 now wk' io' c' H"

lemma claims_ok_time:
  assumes "claims_ok hot seq now cl st" "now \<le> now'"
  shows "claims_ok hot seq now' cl st"
  using claims_okD(6)[OF assms(1), THEN conjunct2, THEN conjunct1, THEN sw_ok_mono, OF _ assms(2)] assms(1)
  unfolding claims_ok_def by blast

lemma worker_ok_time: "worker_ok hot seq now wk st \<Longrightarrow> now \<le> now' \<Longrightarrow> worker_ok hot seq now' wk st"
  by (auto simp: worker_ok_def intro: claims_ok_time)

lemma worker_ok_other:
  assumes "worker_ok hot seq now wk st" "\<And>s. s \<in> set (cl_leased (wk_claims wk)) \<Longrightarrow> hot st' s = hot st s \<and> seq st' s = seq st s" "\<And>s. 0 \<le> seq st' s"
  shows "worker_ok hot seq now wk st'"
proof -
  have cl: "claims_ok hot seq now (wk_claims wk) st" using assms(1) by (simp add: worker_ok_def)
  have "in_step hot seq {} w st'" if "cl_window (wk_claims wk) s = Some w" "s \<in> set (cl_leased (wk_claims wk))" for s w
    using claims_okD(7)[OF cl that] claims_okD(6)[OF cl that(1)] assms(2)[OF that(2)] by (simp add: in_step_def)
  then have "claims_ok hot seq now (wk_claims wk) st'" using cl assms(3) by (auto simp: claims_ok_def)
  then show ?thesis using assms(1) by (simp add: worker_ok_def)
qed

lemma acked_step: "A' \<subseteq> A \<union> f ` S \<Longrightarrow> S' \<subseteq> S \<Longrightarrow> A \<subseteq> A0 \<union> H \<Longrightarrow> f ` S \<subseteq> H \<Longrightarrow> A' \<subseteq> A0 \<union> H \<and> f ` S' \<subseteq> H"
  by blast

context worker_io
begin

lemma worker_run_ok:
  assumes "worker_run L S hot seq P C acked A0 now wk io c H"
  shows "worker_ok hot seq now wk (io_store io) \<and> acked (io_producer io) c \<subseteq> A0 \<union> H \<and> position_of ` set (cl_handled (wk_claims wk)) \<subseteq> H"
  using assms
proof (induction rule: worker_run.induct)
  case (run_start now wk io c)
  then show ?case by auto
next
  case (run_time now wk io c H now')
  then show ?case using worker_ok_time[of hot seq now wk "io_store io" now'] by simp
next
  case (run_other now wk io c H io')
  then show ?case using worker_ok_other[of hot seq now wk "io_store io" "io_store io'"] by simp
next
  case (run_handle now wk io c H m out wk' io')
  have ok: "worker_ok hot seq now wk (io_store io)" using run_handle.IH by blast
  have "worker_ok hot seq now wk' (io_store io') \<and> (if out = UNCLAIMED then wk' = wk else marked wk m wk')"
  proof (cases "wk_stopping wk")
    case True
    then show ?thesis using run_handle.hyps(2) ok by (auto simp: wk_handle_def)
  next
    case False
    then have "wk_handle_claimed L S P now wk m io = (Inr out, wk', io')" using run_handle.hyps(2) by (simp add: wk_handle_def)
    from handle_claimed_ok[OF ok False this] show ?thesis by (auto simp: handled_as_def split: if_splits)
  qed
  with handle_acks[OF run_handle.hyps(2), of c] run_handle.IH show ?case by (auto simp: marked_def split: if_splits)
next
  case (run_maintain now wk io c H wk' io')
  have ok: "worker_ok hot seq now wk (io_store io)" using run_maintain.IH by blast
  from run_maintenance_ok[OF ok, of L] run_maintain.hyps(2) have "worker_ok hot seq now wk' (io_store io')" "only_windows wk wk'" by auto
  moreover from this(2) have "cl_handled (wk_claims wk') = cl_handled (wk_claims wk)" by (auto simp: only_windows_def)
  ultimately show ?case using run_maintenance_acks[OF run_maintain.hyps(2), of c] run_maintain.IH by simp
next
  case (run_config now wk io c H config wk' io')
  have ok: "worker_ok hot seq now wk (io_store io)" using run_config.IH by blast
  from apply_config_ok[OF ok run_config.hyps(2,3)] apply_config_acks[OF run_config.hyps(3), of c] run_config.IH show ?case by simp
next
  case (run_commit now wk io c H tick r wk' p' c')
  have ok: "worker_ok hot seq now wk (io_store io)" using run_commit.IH by blast
  show ?case
  proof (cases "wk' = wk \<and> p' = io_producer io \<and> c' = c")
    case False
    then have "flush_and_ack P C tick wk (io_producer io) c = (r, wk', p', c')"
      using run_commit.hyps(2) by (auto simp: commit_if_due_def split: if_splits)
    from flush_and_ack_ok[OF ok this] run_commit.IH
      acked_step[of "acked p' c'" "acked (io_producer io) c" position_of "set (cl_handled (wk_claims wk))" "set (cl_handled (wk_claims wk'))" A0 H]
    show ?thesis by simp
  qed (use run_commit.IH in auto)
next
  case (run_stop now wk io c H tick r wk' io' c')
  have ok: "worker_ok hot seq now wk (io_store io)" using run_stop.IH by blast
  from wk_stop_ok[OF ok run_stop.hyps(2)] run_stop.IH
    acked_step[of "acked (io_producer io') c'" "acked (io_producer io) c" position_of "set (cl_handled (wk_claims wk))" "set (cl_handled (wk_claims wk'))" A0 H]
  show ?case by simp
qed

end

interpretation agw: worker_io memory_store_ops ms_hot ms_seq ms_holder memory_producer_ops bus_log bus_ids memory_consumer_ops bus_acked ..

section \<open>Properties\<close>

text \<open>A worker that has claimed shard 0 of an empty store.\<close>

definition sample_worker :: agg_worker where
  "sample_worker = fst (snd (wk_on_assigned memory_store_ops 100 [(ts_name OBSERVATIONS, 0)]
     (wk_new sample_config None 10 1 512 ''m'' 30 ''x'' 0, ms_new)))"

definition sample_world :: "(memory_store, wire memory_bus) agg_io" where
  "sample_world = \<lparr>io_store = snd (snd (wk_on_assigned memory_store_ops 100 [(ts_name OBSERVATIONS, 0)]
     (wk_new sample_config None 10 1 512 ''m'' 30 ''x'' 0, ms_new))), io_producer = mb_new\<rparr>"

definition sample_message :: "wire consumed_message" where
  "sample_message = \<lparr>cm_topic = ts_name OBSERVATIONS, cm_partition = 0, cm_offset = 0, cm_key = None, cm_value = None, cm_delivery_count = 1\<rparr>"

lemma sample_worker_ok: "worker_ok ms_hot ms_seq 100 sample_worker (io_store sample_world)"
proof -
  let ?cl = "cl_new sample_config ''m'' 30 10 ''x''"
  obtain r cl st where run: "cl_on_assigned memory_store_ops 100 ?cl [(ts_name OBSERVATIONS, 0)] ms_new = (r, cl, st)" by (metis prod_cases3)
  have loop: "claim_loop memory_store_ops 100 ?cl [] [(ts_name OBSERVATIONS, 0)] ms_new = (r, cl, st)" using run by (simp add: cl_on_assigned_def)
  have "claims_ok ms_hot ms_seq 100 ?cl ms_new" "no_stale ?cl" "cl_config ?cl = sample_config"
    by (simp_all add: claims_ok_def cl_new_def sample_config_ok no_stale_def ms_seq_def ms_new_def)
  moreover from ms.claim_loop_ok[OF this(1,2) loop] have "claims_ok ms_hot ms_seq 100 cl st" "same_member ?cl cl" "r = Inr () \<Longrightarrow> no_stale cl" by auto
  moreover have "fst (cl_on_assigned memory_store_ops 100 ?cl [(ts_name OBSERVATIONS, 0)] ms_new) = Inr ()" by code_simp
  moreover have "map fst (cl_windows (fst (snd (cl_on_assigned memory_store_ops 100 ?cl [(ts_name OBSERVATIONS, 0)] ms_new)))) = [0]" by code_simp
  moreover have "sw_entries (the (map_of (cl_windows (fst (snd (cl_on_assigned memory_store_ops 100 ?cl [(ts_name OBSERVATIONS, 0)] ms_new)))) 0)) = []" by code_simp
  ultimately have cl: "claims_ok ms_hot ms_seq 100 cl st" "cl_config cl = sample_config" "no_stale cl"
    and keys: "map fst (cl_windows cl) = [0]" and empty: "sw_entries (the (cl_window cl 0)) = []"
    using run by (auto simp: same_member_def)
  have "quiet_at sample_config w ip" if "cl_window cl s = Some w" for s w ip
  proof -
    have "s = 0" using that keys by (cases "cl_windows cl") (auto split: if_splits)
    then have "sw_entry w ip = None" using that empty by simp
    then show ?thesis by (rule quiet_untracked[OF sample_config_ok])
  qed
  with cl run show ?thesis by (simp add: worker_ok_def sample_worker_def sample_world_def wk_on_assigned_def wk_new_def)
qed

text \<open>C3: One message, one outcome, over any store and log that keep their contracts and may fail at every
  call. A message of a partition this worker does not hold, or after the shutdown began, changes nothing
  and stays unacknowledged. One below the handled position is a redelivery: it is only marked. One that
  does not decode to a single observation of the IP it is keyed by is malformed and only marked. One the
  window cannot count goes to reconciliation, bytes and event id unchanged, and touches neither counters
  nor store. Any other is counted in its own shard's window and that IP evaluated. If a step raises, the
  message is not marked, so it is delivered again; nothing that failed to decode can raise. Between
  messages every window agrees with the durable state and has nothing left to announce.\<close>

theorem handle_one_outcome:
  assumes "aggregator_io S hot seq holder P lg ids" "worker_ok hot seq now wk (io_store io)" "wk_handle L S P now wk m io = (r, wk', io')"
  shows "case r of
      Inl _ \<Rightarrow> cl_handled (wk_claims wk') = cl_handled (wk_claims wk) \<and> (\<exists>x. wk_decode L m = Inr (Some x))
    | Inr out \<Rightarrow> worker_ok hot seq now wk' (io_store io') \<and> handled_as L S P lg ids now wk m io out wk' io'"
proof (cases "wk_stopping wk")
  case True
  then show ?thesis using assms(2,3) by (auto simp: wk_handle_def handled_as_def)
next
  case False
  then have "wk_handle_claimed L S P now wk m io = (r, wk', io')" using assms(3) by (simp add: wk_handle_def)
  from aggregator_io.handle_claimed_ok[OF assms(1,2) False this] show ?thesis .
qed

theorem handle_one_outcome_witness:
  "\<exists>wk'. wk_handle sample_library memory_store_ops memory_producer_ops 100 sample_worker sample_message sample_world =
      (Inr MALFORMED, wk', sample_world) \<and> cl_handled (wk_claims wk') = cl_handled (wk_claims sample_worker) @ [sample_message]"
proof -
  obtain r wk' io' where run: "wk_handle sample_library memory_store_ops memory_producer_ops 100 sample_worker sample_message sample_world = (r, wk', io')"
    by (metis prod_cases3)
  have "fst (wk_handle sample_library memory_store_ops memory_producer_ops 100 sample_worker sample_message sample_world) = Inr MALFORMED" by code_simp
  then have r: "r = Inr MALFORMED" using run by simp
  from handle_one_outcome[OF agg.aggregator_io_axioms sample_worker_ok run] r run show ?thesis
    by (auto simp: handled_as_def marked_def)
qed





end
