(* ===== verification/Trie_Service.thy ===== *)
theory Trie_Service
  imports Trie_Theorems Transition_Wire
begin

text \<open>
  The trie service: its read state \<open>hammertime.trie.state\<close>, the statistics publisher
  \<open>hammertime.trie.publisher\<close> and the single writer \<open>hammertime.trie.worker\<close>. The worker's lock makes each
  handled message one step; metrics and logging are not modelled, so the two reason tokens of a refused
  message are one. \<open>float(Fraction(n, d))\<close> is the parameter \<open>ratio\<close>. What the subscription hands to the
  worker is a list of events: a message, its end, an exception, or the stop signal; the end of the list
  is a worker that still waits. \<open>None\<close> would mean a trie operation that does not return.
\<close>

section \<open>The read state\<close>

record family_state =
  fs_trie :: patricia
  fs_records :: ip_attribute_records

record trie_state =
  trs_families :: "(family \<times> family_state) list"
  trs_config :: detection_config
  trs_position :: "int option"
  trs_as_of :: "py_datetime option"

text \<open>\<open>sorted(served)\<close> in the order of the enumeration.\<close>

definition trs_new :: "family set \<Rightarrow> detection_config \<Rightarrow> trie_state result" where
  "trs_new families config =
     (if families = {} then Inl ValueError
      else Inr \<lparr>trs_families = map (\<lambda>f. (f, \<lparr>fs_trie = pt_new f, fs_records = ia_new f\<rparr>)) (filter (\<lambda>f. f \<in> families) [IPV4, IPV6]),
                trs_config = config, trs_position = None, trs_as_of = None\<rparr>)"

definition serves :: "trie_state \<Rightarrow> family \<Rightarrow> bool" where
  "serves s f \<longleftrightarrow> map_of (trs_families s) f \<noteq> None"

definition trs_of :: "trie_state \<Rightarrow> family \<Rightarrow> family_state result" where
  "trs_of s f = (case map_of (trs_families s) f of None \<Rightarrow> Inl KeyError | Some fs \<Rightarrow> Inr fs)"

definition event_sequence :: "trie_state \<Rightarrow> int" where
  "event_sequence s = (case trs_position s of None \<Rightarrow> 0 | Some n \<Rightarrow> n + 1)"

definition trs_check_offset :: "trie_state \<Rightarrow> int \<Rightarrow> unit result" where
  "trs_check_offset s off =
     (if off < 0 then Inl ValueError
      else if (case trs_position s of None \<Rightarrow> False | Some n \<Rightarrow> off \<le> n) then Inl ValueError else Inr ())"

definition note_handled :: "trie_state \<Rightarrow> int \<Rightarrow> unit result \<times> trie_state" where
  "note_handled s off = (case trs_check_offset s off of Inl e \<Rightarrow> (Inl e, s) | Inr _ \<Rightarrow> (Inr (), s\<lparr>trs_position := Some off\<rparr>))"

definition instant :: "py_datetime \<Rightarrow> int" where
  "instant d = dt_micros d - (case dt_offset d of None \<Rightarrow> 0 | Some off \<Rightarrow> off)"

definition note_applied :: "trie_state \<Rightarrow> int \<Rightarrow> py_datetime \<Rightarrow> unit result \<times> trie_state" where
  "note_applied s off timestamp =
     (case trs_check_offset s off of
        Inl e \<Rightarrow> (Inl e, s)
      | Inr _ \<Rightarrow>
          if dt_offset timestamp = None then (Inl ValueError, s)
          else (Inr (), s\<lparr>trs_position := Some off,
                  trs_as_of := (case trs_as_of s of
                      None \<Rightarrow> Some timestamp
                    | Some d \<Rightarrow> if instant timestamp > instant d then Some timestamp else Some d)\<rparr>))"

definition note_passed :: "trie_state \<Rightarrow> int \<Rightarrow> unit result \<times> trie_state" where
  "note_passed s off = (case trs_check_offset s off of Inl e \<Rightarrow> (Inl e, s) | Inr _ \<Rightarrow> (Inr (), s\<lparr>trs_position := Some off\<rparr>))"

definition trs_adopt_config :: "trie_state \<Rightarrow> detection_config \<Rightarrow> trie_state" where
  "trs_adopt_config s config = s\<lparr>trs_config := config\<rparr>"

section \<open>The statistics publisher\<close>

definition AGENT_ID :: pystr where "AGENT_ID = py_lit ''trie-primary''"

record stats_message =
  sm_key :: pystr
  sm_value :: wire
  sm_message_id :: pystr

record prepared_stats =
  pp_family :: family
  pp_sequence :: int
  pp_messages :: "stats_message list"

text \<open>The constructor's check of the minimum lengths, family by family.\<close>

definition check_min_length :: "(family \<times> py_count) list \<Rightarrow> family \<Rightarrow> int result" where
  "check_min_length lengths f = (case map_of lengths f of
      None \<Rightarrow> Inl ValueError
    | Some OtherCount \<Rightarrow> Inl ValueError
    | Some (ExactInt l) \<Rightarrow> if 0 \<le> l \<and> l \<le> bit_length f then Inr l else Inl ValueError)"

definition publisher_new :: "(family \<times> py_count) list \<Rightarrow> (family \<times> int) list result" where
  "publisher_new lengths = mapE (\<lambda>f. bindE (check_min_length lengths f) (\<lambda>l. Inr (f, l))) [IPV4, IPV6]"

definition min_prefix_length :: "(family \<times> int) list \<Rightarrow> family \<Rightarrow> int result" where
  "min_prefix_length lengths f = (case map_of lengths f of None \<Rightarrow> Inl KeyError | Some l \<Rightarrow> Inr l)"

definition prefix_text :: "py_library \<Rightarrow> prefix \<Rightarrow> pystr result" where
  "prefix_text L p = bindE (mk_address (pfx_family p) (pfx_network p)) (\<lambda>a. Inr (lib_ip_text L a @ [47] @ int_text (pfx_length p)))"

definition stats_envelope :: "py_library \<Rightarrow> (int \<Rightarrow> int \<Rightarrow> py_float) \<Rightarrow> int \<Rightarrow> int \<Rightarrow> py_datetime \<Rightarrow> prefix_stats \<Rightarrow> event_envelope result" where
  "stats_envelope L ratio n version timestamp s =
     bindE (prefix_text L (ps_prefix s)) (\<lambda>text.
       Inr \<lparr>env_agent_id = AGENT_ID, env_sequence = n, env_event_type = T_PREFIX_STATS, env_config_version = version,
            env_timestamp = timestamp,
            env_payload = PrefixStatsChanged \<lparr>psc_prefix = text, psc_hot_count = ps_hot_count s, psc_capacity = ps_capacity s,
              psc_sequence = n, psc_timestamp = timestamp,
              psc_hot_ratio = Some (RatioFloat (ratio (ps_hot_count s) (ps_capacity s)))\<rparr>,
            env_schema_version = SCHEMA_VERSION, env_subject = Some text\<rparr>)"

definition stats_message_of :: "py_library \<Rightarrow> (int \<Rightarrow> int \<Rightarrow> py_float) \<Rightarrow> int \<Rightarrow> int \<Rightarrow> py_datetime \<Rightarrow> prefix_stats \<Rightarrow> stats_message result" where
  "stats_message_of L ratio n version timestamp s =
     bindE (prefix_text L (ps_prefix s)) (\<lambda>key.
     bindE (stats_envelope L ratio n version timestamp s) (\<lambda>env.
     bindE (encode L env) (\<lambda>doc.
       Inr \<lparr>sm_key = key, sm_value = Some (raw_of_json doc), sm_message_id = event_id L env\<rparr>)))"

definition prepare_stats :: "py_library \<Rightarrow> (int \<Rightarrow> int \<Rightarrow> py_float) \<Rightarrow> (family \<times> int) list \<Rightarrow> patricia \<Rightarrow> address \<Rightarrow> int \<Rightarrow> int \<Rightarrow>
    py_datetime \<Rightarrow> prepared_stats result option" where
  "prepare_stats L ratio lengths t ip n version timestamp =
     bindO (Some (min_prefix_length lengths (ht_family patricia_ops t))) (\<lambda>min_length.
     bindO (ancestor_stats patricia_ops t ip min_length) (\<lambda>stats.
       Some (bindE (mapE (stats_message_of L ratio n version timestamp) stats) (\<lambda>ms.
         Inr \<lparr>pp_family = ht_family patricia_ops t, pp_sequence = n, pp_messages = ms\<rparr>))))"

text \<open>\<open>gather\<close> starts the publishes in message order and waits for all of them; the exceptions, in
  message order.\<close>

fun publish_each :: "'p producer_ops \<Rightarrow> stats_message list \<Rightarrow> 'p \<Rightarrow> py_error list \<times> 'p" where
  "publish_each P [] p = ([], p)"
| "publish_each P (m # ms) p =
     (case po_publish P p (ts_name PREFIX_STATS) (sm_key m) (sm_value m) (Some (sm_message_id m)) of
        (r, p1) \<Rightarrow> (case publish_each P ms p1 of (es, p2) \<Rightarrow> ((case r of Inl e \<Rightarrow> [e] | Inr _ \<Rightarrow> []) @ es, p2)))"

definition publish_stats :: "'p producer_ops \<Rightarrow> prepared_stats \<Rightarrow> 'p \<Rightarrow> unit result \<times> 'p" where
  "publish_stats P prepared p =
     (case publish_each P (pp_messages prepared) p of
        (failures, p') \<Rightarrow> (if failures \<noteq> [] then Inl PrefixStatsPublishError else Inr (), p'))"

section \<open>The worker\<close>

datatype hot_ip_outcome = HIP_APPLIED | HIP_UNCHANGED | HIP_MALFORMED | HIP_FAMILY_NOT_SERVED | HIP_REDELIVERED | HIP_STOPPED

record trie_worker =
  tw_state :: trie_state
  tw_min_lengths :: "(family \<times> int) list"
  tw_published :: int
  tw_stopping :: bool
  tw_subscribed :: bool
  tw_replay_target :: "int option"
  tw_republish_from :: "int option"

definition tw_new :: "trie_state \<Rightarrow> (family \<times> py_count) list \<Rightarrow> trie_worker result" where
  "tw_new s lengths = bindE (publisher_new lengths) (\<lambda>ls.
     Inr \<lparr>tw_state = s, tw_min_lengths = ls, tw_published = 0, tw_stopping = False, tw_subscribed = False,
          tw_replay_target = None, tw_republish_from = None\<rparr>)"

definition caught_up :: "trie_worker \<Rightarrow> bool" where
  "caught_up w = (case tw_replay_target w of
      None \<Rightarrow> False
    | Some target \<Rightarrow> tw_subscribed w \<and> event_sequence (tw_state w) \<ge> target)"

text \<open>\<open>_decode\<close>: the event with whether it is a \<open>HotIpAdded\<close>; \<open>None\<close> for a refused message.\<close>

definition hot_ip_payload :: "event_payload \<Rightarrow> (bool \<times> hot_ip_event) option" where
  "hot_ip_payload payload = (case payload of HotIpAdded p \<Rightarrow> Some (True, p) | HotIpRemoved p \<Rightarrow> Some (False, p) | _ \<Rightarrow> None)"

definition tw_decode :: "py_library \<Rightarrow> wire consumed_message \<Rightarrow> (bool \<times> hot_ip_event) option result" where
  "tw_decode L m =
     (case decode L (cm_value m) of
        Inl e \<Rightarrow> if e = CodecError then Inr None else Inl e
      | Inr env \<Rightarrow>
          (case hot_ip_payload (env_payload env) of
             None \<Rightarrow> Inr None
           | Some (added, p) \<Rightarrow>
               let ip_text = lib_ip_text L (hi_ip p) in
               if cm_key m \<noteq> Some ip_text then Inr None
               else if env_subject env \<noteq> Some ip_text then Inr None
               else Inr (Some (added, p))))"

definition apply_added :: "family_state \<Rightarrow> hot_ip_event \<Rightarrow> (bool result \<times> patricia \<times> ip_attribute_records) option" where
  "apply_added fs p =
     (case apply_hot_ip_added patricia_ops (fs_trie fs) (fs_records fs) (hi_ip p) (hi_attributes p) (ExactInt (hi_window_count p)) of
        None \<Rightarrow> None
      | Some (Inl e, t, m) \<Rightarrow>
          if e = InvalidAttributesError
          then apply_hot_ip_added patricia_ops t m (hi_ip p) None (ExactInt (hi_window_count p))
          else Some (Inl e, t, m)
      | Some (Inr moved, t, m) \<Rightarrow> Some (Inr moved, t, m))"

definition apply_event :: "family_state \<Rightarrow> bool \<Rightarrow> hot_ip_event \<Rightarrow> (bool result \<times> patricia \<times> ip_attribute_records) option" where
  "apply_event fs added p =
     (if added then apply_added fs p
      else apply_hot_ip_removed patricia_ops (fs_trie fs) (fs_records fs) (hi_ip p))"

definition trs_put :: "trie_state \<Rightarrow> family \<Rightarrow> patricia \<Rightarrow> ip_attribute_records \<Rightarrow> trie_state" where
  "trs_put s f t m = s\<lparr>trs_families := AList.update f \<lparr>fs_trie = t, fs_records = m\<rparr> (trs_families s)\<rparr>"

text \<open>Steps 4, 5 and 5a for a decoded event of a served family.\<close>

definition tw_apply :: "py_library \<Rightarrow> (int \<Rightarrow> int \<Rightarrow> py_float) \<Rightarrow> trie_worker \<Rightarrow> int \<Rightarrow> family_state \<Rightarrow> bool \<Rightarrow> hot_ip_event \<Rightarrow>
    ((hot_ip_outcome \<times> prepared_stats option) result \<times> trie_worker) option" where
  "tw_apply L ratio w off fs added p =
     (case apply_event fs added p of
        None \<Rightarrow> None
      | Some (r, t, m) \<Rightarrow>
          let s = trs_put (tw_state w) (addr_family (hi_ip p)) t m in
          (case r of
             Inl e \<Rightarrow> Some (Inl e, w\<lparr>tw_state := s\<rparr>)
           | Inr moved \<Rightarrow>
               (case note_applied s off (hi_timestamp p) of
                  (Inl e, s') \<Rightarrow> Some (Inl e, w\<lparr>tw_state := s'\<rparr>)
                | (Inr _, s') \<Rightarrow>
                    let w' = w\<lparr>tw_state := s'\<rparr>; outcome = (if moved then HIP_APPLIED else HIP_UNCHANGED) in
                    if \<not> moved \<or> event_sequence s' < (case tw_republish_from w of None \<Rightarrow> 0 | Some n \<Rightarrow> n)
                    then Some (Inr (outcome, None), w')
                    else (case prepare_stats L ratio (tw_min_lengths w) t (hi_ip p) (event_sequence s')
                               (config_version (trs_config s')) (hi_timestamp p) of
                            None \<Rightarrow> None
                          | Some (Inl e) \<Rightarrow> Some (Inl e, w')
                          | Some (Inr prepared) \<Rightarrow> Some (Inr (outcome, Some prepared), w')))))"

definition tw_note_handled :: "trie_worker \<Rightarrow> int \<Rightarrow> hot_ip_outcome \<Rightarrow> (hot_ip_outcome \<times> prepared_stats option) result \<times> trie_worker" where
  "tw_note_handled w off outcome =
     (case note_handled (tw_state w) off of
        (Inl e, s) \<Rightarrow> (Inl e, w\<lparr>tw_state := s\<rparr>)
      | (Inr _, s) \<Rightarrow> (Inr (outcome, None), w\<lparr>tw_state := s\<rparr>))"

definition tw_handle_sync :: "py_library \<Rightarrow> (int \<Rightarrow> int \<Rightarrow> py_float) \<Rightarrow> trie_worker \<Rightarrow> wire consumed_message \<Rightarrow>
    ((hot_ip_outcome \<times> prepared_stats option) result \<times> trie_worker) option" where
  "tw_handle_sync L ratio w m =
     (if (case trs_position (tw_state w) of None \<Rightarrow> False | Some n \<Rightarrow> cm_offset m \<le> n) then Some (Inr (HIP_REDELIVERED, None), w)
      else case tw_decode L m of
        Inl e \<Rightarrow> Some (Inl e, w)
      | Inr None \<Rightarrow> Some (tw_note_handled w (cm_offset m) HIP_MALFORMED)
      | Inr (Some (added, p)) \<Rightarrow>
          if \<not> serves (tw_state w) (addr_family (hi_ip p))
          then Some (tw_note_handled w (cm_offset m) HIP_FAMILY_NOT_SERVED)
          else (case trs_of (tw_state w) (addr_family (hi_ip p)) of
                  Inl e \<Rightarrow> Some (Inl e, w)
                | Inr fs \<Rightarrow> tw_apply L ratio w (cm_offset m) fs added p))"

definition tw_publish :: "'p producer_ops \<Rightarrow> prepared_stats \<Rightarrow> trie_worker \<Rightarrow> 'p \<Rightarrow> unit result \<times> trie_worker \<times> 'p" where
  "tw_publish P prepared w p =
     (case publish_stats P prepared p of
        (Inl e, p') \<Rightarrow> (Inl e, w, p')
      | (Inr _, p') \<Rightarrow> (Inr (), w\<lparr>tw_published := tw_published w + int (length (pp_messages prepared))\<rparr>, p'))"

definition tw_handle :: "py_library \<Rightarrow> (int \<Rightarrow> int \<Rightarrow> py_float) \<Rightarrow> 'p producer_ops \<Rightarrow> trie_worker \<Rightarrow> wire consumed_message \<Rightarrow> 'p \<Rightarrow>
    (hot_ip_outcome result \<times> trie_worker \<times> 'p) option" where
  "tw_handle L ratio P w m p =
     (if tw_stopping w then Some (Inr HIP_STOPPED, w, p)
      else case tw_handle_sync L ratio w m of
        None \<Rightarrow> None
      | Some (Inl e, w') \<Rightarrow> Some (Inl e, w', p)
      | Some (Inr (outcome, None), w') \<Rightarrow> Some (Inr outcome, w', p)
      | Some (Inr (outcome, Some prepared), w') \<Rightarrow>
          (case tw_publish P prepared w' p of
             (Inl e, w'', p') \<Rightarrow> Some (Inl e, w'', p')
           | (Inr _, w'', p') \<Rightarrow> Some (Inr outcome, w'', p')))"

definition tw_apply_config :: "trie_worker \<Rightarrow> detection_config \<Rightarrow> trie_worker" where
  "tw_apply_config w config = (if tw_stopping w then w else w\<lparr>tw_state := trs_adopt_config (tw_state w) config\<rparr>)"

definition tw_stop :: "'p producer_ops \<Rightarrow> trie_worker \<Rightarrow> 'p \<Rightarrow> unit result \<times> trie_worker \<times> 'p" where
  "tw_stop P w p = (case po_flush P p of (r, p') \<Rightarrow> (r, w\<lparr>tw_stopping := True\<rparr>, p'))"

section \<open>Reading the log\<close>

datatype stream_event = Received "wire consumed_message" | StreamEnded | StreamRaised py_error | StopSignal

datatype pump_end = PUMP_DONE | PUMP_STOPPED | PUMP_ENDED | PUMP_WAITING

fun tw_pump :: "py_library \<Rightarrow> (int \<Rightarrow> int \<Rightarrow> py_float) \<Rightarrow> 'p producer_ops \<Rightarrow> (trie_worker \<Rightarrow> bool) \<Rightarrow> stream_event list \<Rightarrow> trie_worker \<Rightarrow> 'p \<Rightarrow>
    (pump_end result \<times> trie_worker \<times> 'p) option" where
  "tw_pump L ratio P stop_when [] w p =
     Some (Inr (if stop_when w then PUMP_DONE else if tw_stopping w then PUMP_STOPPED else PUMP_WAITING), w, p)"
| "tw_pump L ratio P stop_when (ev # evs) w p =
     (if stop_when w then Some (Inr PUMP_DONE, w, p)
      else if tw_stopping w then Some (Inr PUMP_STOPPED, w, p)
      else case ev of
        StopSignal \<Rightarrow> Some (Inr PUMP_STOPPED, w\<lparr>tw_stopping := True\<rparr>, p)
      | StreamEnded \<Rightarrow> Some (Inr PUMP_ENDED, w, p)
      | StreamRaised e \<Rightarrow> Some (Inl e, w, p)
      | Received m \<Rightarrow>
          (case tw_handle L ratio P w m p of
             None \<Rightarrow> None
           | Some (Inl e, w', p') \<Rightarrow> Some (Inl e, w', p')
           | Some (Inr _, w', p') \<Rightarrow> tw_pump L ratio P stop_when evs w' p'))"

text \<open>\<open>_republish_from\<close>: what the last prefix-stats message says was published before this start.\<close>

definition republish_from :: "py_library \<Rightarrow> wire option \<Rightarrow> int \<Rightarrow> int result" where
  "republish_from L last_message replay_target =
     (case last_message of
        None \<Rightarrow> Inr 0
      | Some v \<Rightarrow>
          (case decode L v of
             Inl e \<Rightarrow> if e = CodecError then Inr 0 else Inl e
           | Inr env \<Rightarrow>
               (case env_payload env of
                  PrefixStatsChanged q \<Rightarrow>
                    if env_agent_id env \<noteq> AGENT_ID then Inr 0
                    else if env_sequence env > replay_target then Inr 0
                    else Inr (env_sequence env)
                | _ \<Rightarrow> Inr 0)))"

text \<open>The reads of the bus that \<open>start\<close> makes, and the subscription from an offset.\<close>

record 'b log_reads =
  lo_end_offset :: "'b \<Rightarrow> string \<Rightarrow> int result"
  lo_first_offset :: "'b \<Rightarrow> string \<Rightarrow> int result"
  lo_last_value :: "'b \<Rightarrow> string \<Rightarrow> wire option result"
  lo_subscribe :: "'b \<Rightarrow> string \<Rightarrow> int \<Rightarrow> stream_event list result"

definition tw_pass :: "trie_worker \<Rightarrow> int \<Rightarrow> unit result \<times> trie_worker" where
  "tw_pass w first =
     (if first > event_sequence (tw_state w) \<and> \<not> tw_stopping w
      then (case note_passed (tw_state w) (first - 1) of (r, s) \<Rightarrow> (r, w\<lparr>tw_state := s\<rparr>))
      else (Inr (), w))"

text \<open>\<open>start\<close>; the result is \<open>False\<close> while the replay still waits for a message.\<close>

definition tw_start :: "py_library \<Rightarrow> (int \<Rightarrow> int \<Rightarrow> py_float) \<Rightarrow> 'p producer_ops \<Rightarrow> 'b log_reads \<Rightarrow> 'b \<Rightarrow> trie_worker \<Rightarrow> 'p \<Rightarrow>
    (bool result \<times> trie_worker \<times> 'p) option" where
  "tw_start L ratio P R b w p =
     (if tw_subscribed w then Some (Inr True, w, p)
      else case lo_end_offset R b (ts_name HOT_IP) of
        Inl e \<Rightarrow> Some (Inl e, w, p)
      | Inr target \<Rightarrow>
      let w1 = w\<lparr>tw_replay_target := Some target\<rparr> in
      (case lo_first_offset R b (ts_name HOT_IP) of
         Inl e \<Rightarrow> Some (Inl e, w1, p)
       | Inr first \<Rightarrow>
      (case bindE (lo_last_value R b (ts_name PREFIX_STATS)) (\<lambda>v. republish_from L v target) of
         Inl e \<Rightarrow> Some (Inl e, w1, p)
       | Inr n \<Rightarrow>
      (case tw_pass (w1\<lparr>tw_republish_from := Some n\<rparr>) first of
         (Inl e, w2) \<Rightarrow> Some (Inl e, w2, p)
       | (Inr _, w2) \<Rightarrow>
      (case lo_subscribe R b (ts_name HOT_IP) (event_sequence (tw_state w2)) of
         Inl e \<Rightarrow> Some (Inl e, w2, p)
       | Inr stream \<Rightarrow>
      (case tw_pump L ratio P caught_up stream (w2\<lparr>tw_subscribed := True\<rparr>) p of
         None \<Rightarrow> None
       | Some (Inl e, w3, p3) \<Rightarrow> Some (Inl e, w3, p3)
       | Some (Inr ended, w3, p3) \<Rightarrow>
           Some (if ended = PUMP_ENDED then (Inl RuntimeError, w3, p3) else (Inr (ended \<noteq> PUMP_WAITING), w3, p3))))))))"

definition tw_run :: "py_library \<Rightarrow> (int \<Rightarrow> int \<Rightarrow> py_float) \<Rightarrow> 'p producer_ops \<Rightarrow> stream_event list \<Rightarrow> trie_worker \<Rightarrow> 'p \<Rightarrow>
    (pump_end result \<times> trie_worker \<times> 'p) option" where
  "tw_run L ratio P stream w p =
     (if \<not> tw_subscribed w then Some (Inl RuntimeError, w, p)
      else tw_pump L ratio P (\<lambda>_. False) stream w p)"

end
