(* ===== verification/Trie_Service_Correct.thy ===== *)
theory Trie_Service_Correct
  imports Trie_Service
begin

text \<open>
  The trie service is a function of the log: the lemmas on one event (what a decoded message guarantees,
  that the coupled step always applies), on the statistics of an event, on one handled message, and on a
  run over the stream.
\<close>

section \<open>What a decoded event guarantees\<close>

definition event_ok :: "py_library \<Rightarrow> hot_ip_event \<Rightarrow> bool" where
  "event_ok L p \<longleftrightarrow> valid_address (hi_ip p) \<and> 0 \<le> hi_window_count p \<and> (\<exists>t. hi_timestamp p = utc t) \<and> date_ok L (hi_timestamp p)"

lemma parse_timestamp_ok:
  assumes "dates_ok L" "parse_timestamp L v = Inr d"
  shows "(\<exists>t. d = utc t) \<and> date_ok L d"
  using assms by (auto simp: parse_timestamp_def dates_ok_def to_utc_def utc_def date_ok_def bindE_eq_Inr Let_def
      split: raw.splits option.splits if_splits)

lemma decode_hot_ip_event_ok:
  assumes "dates_ok L" "decode_hot_ip_event L t data = Inr payload" "hot_ip_payload payload = Some (added, p)"
  shows "event_ok L p \<and> added = (t = T_ADDED)"
proof -
  obtain v where "parse_timestamp L v = Inr (hi_timestamp p)" "valid_address (hi_ip p)" "0 \<le> hi_window_count p" "added = (t = T_ADDED)"
    using assms(2,3) by (auto simp: decode_hot_ip_event_def bindE_eq_Inr catch_eq_Inr hot_ip_payload_def parse_address_def
        mk_address_def valid_address_def bounded_json_integer_def range_violation_def HOT_IP_WINDOW_COUNT_def Let_def
        split: option.splits if_splits)
  then show ?thesis using parse_timestamp_ok[OF assms(1)] by (simp add: event_ok_def)
qed

lemma decode_payload_ok:
  assumes "dates_ok L" "decode_payload L t data = Inr payload" "hot_ip_payload payload = Some (added, p)"
  shows "event_ok L p \<and> added = (t = T_ADDED)"
  using assms decode_hot_ip_event_ok[OF assms(1)]
  by (auto simp: decode_payload_def bindE_eq_Inr hot_ip_payload_def split: if_splits)

lemma decode_hot_ip_ok:
  assumes "dates_ok L" "decode L v = Inr env" "hot_ip_payload (env_payload env) = Some (added, p)"
  shows "event_ok L p"
proof -
  have "\<exists>t data. decode_payload L t data = Inr (env_payload env)"
    using decode_from_envelope[OF assms(2)] by (fastforce simp: decode_envelope_def bindE_eq_Inr catch_eq_Inr)
  then show ?thesis using decode_payload_ok[OF assms(1)] assms(3) by blast
qed

lemma tw_decode_returns: "\<exists>d. tw_decode L m = Inr d"
  using raises_decode[of L "cm_value m"]
  by (auto simp: tw_decode_def raises_def Let_def split: sum.splits option.splits)

lemma tw_decode_ok:
  assumes "dates_ok L" "tw_decode L m = Inr (Some (added, p))"
  shows "event_ok L p"
  using assms(2) decode_hot_ip_ok[OF assms(1)]
  by (auto simp: tw_decode_def Let_def split: sum.splits option.splits if_splits)

section \<open>The coupled step always applies\<close>

lemma prepare_raises: "raises {InvalidAttributesError} (prepare d)"
  using raises_canonicalize by (auto simp: prepare_def split: option.splits prod.splits intro!: raises_intros)

lemma added_applies:
  assumes "pat.coupled (t, m)" "valid_address a" "addr_family a = pt_family t" "0 \<le> n" "prepare d = Inr doc"
  shows "\<exists>t' m'. apply_hot_ip_added patricia_ops t m a d (ExactInt n) = Some (Inr (a \<notin> set (ia_iter m)), t', m') \<and>
    pat.coupled (t', m') \<and> patricia_set t' = insert (addr_value a) (patricia_set t) \<and> pt_family t' = pt_family t"
proof -
  have inv: "patricia_invar t" "ia_family m = pt_family t" using assms(1) by (simp_all add: pat.coupled_def)
  obtain t' where t': "pt_add_hot_ip t a = Some (Inr (addr_value a \<notin> patricia_set t), t')"
    "patricia_set t' = insert (addr_value a) (patricia_set t)" "pt_family t' = pt_family t"
    using pat.add[OF inv(1) assms(2)] assms(3) by auto
  then have run: "apply_hot_ip_added patricia_ops t m a d (ExactInt n) =
      Some (Inr (addr_value a \<notin> patricia_set t), t', ia_commit m a doc n)"
    using assms(3-5) inv(2) by (simp add: apply_hot_ip_added_def check_families_def check_request_count_def)
  then show ?thesis using pat.added_step[OF assms(1,2), of d "ExactInt n"] t' by auto
qed

lemma removed_applies:
  assumes "pat.coupled (t, m)" "valid_address a" "addr_family a = pt_family t"
  shows "\<exists>t' m'. apply_hot_ip_removed patricia_ops t m a = Some (Inr (a \<in> set (ia_iter m)), t', m') \<and>
    pat.coupled (t', m') \<and> patricia_set t' = patricia_set t - {addr_value a} \<and> pt_family t' = pt_family t"
proof -
  have inv: "patricia_invar t" "ia_family m = pt_family t" "ia_ok m" using assms(1) by (simp_all add: pat.coupled_def)
  obtain t' where t': "pt_remove_hot_ip t a = Some (Inr (addr_value a \<in> patricia_set t), t')"
    "patricia_set t' = patricia_set t - {addr_value a}" "pt_family t' = pt_family t"
    using pat.remove[OF inv(1) assms(2)] assms(3) by auto
  obtain m' where "ia_discard m a = (Inr (a \<in> set (ia_iter m)), m')" using ia_discard_ok[OF inv(3)] assms(3) inv(2) by auto
  with t' have "apply_hot_ip_removed patricia_ops t m a = Some (Inr (addr_value a \<in> patricia_set t), t', m')"
    using assms(3) inv(2) by (simp add: apply_hot_ip_removed_def check_families_def)
  then show ?thesis using pat.removed_step[OF assms(1,2)] t' assms(3) by auto
qed

lemma coupled_member:
  "pat.coupled (t, m) \<Longrightarrow> addr_family a = pt_family t \<Longrightarrow> a \<in> set (ia_iter m) \<longleftrightarrow> addr_value a \<in> patricia_set t"
  by (cases a) (auto simp: pat.coupled_def hot_addresses_def)

text \<open>The retry with the default document makes an addition always apply.\<close>

lemma apply_event_ok:
  assumes "pat.coupled (fs_trie fs, fs_records fs)" "valid_address (hi_ip p)" "0 \<le> hi_window_count p"
    "addr_family (hi_ip p) = pt_family (fs_trie fs)"
  shows "\<exists>t' m'. apply_event fs added p = Some (Inr (patricia_set t' \<noteq> patricia_set (fs_trie fs)), t', m') \<and> pat.coupled (t', m') \<and>
    pt_family t' = pt_family (fs_trie fs) \<and>
    patricia_set t' = (if added then insert (addr_value (hi_ip p)) (patricia_set (fs_trie fs)) else patricia_set (fs_trie fs) - {addr_value (hi_ip p)})"
proof (cases added)
  case False
  then show ?thesis using removed_applies[OF assms(1,2,4)] coupled_member[OF assms(1,4)] by (auto simp: apply_event_def)
next
  case True
  note add = added_applies[OF assms(1,2,4,3)] and mem = coupled_member[OF assms(1,4)]
  have dflt: "prepare None = Inr DEFAULT_TEXT" by (simp add: prepare_def)
  show ?thesis
  proof (cases "prepare (hi_attributes p)")
    case (Inr doc)
    then show ?thesis using add[OF Inr] mem True by (auto simp: apply_event_def apply_added_def)
  next
    case (Inl e)
    then have "e = InvalidAttributesError" using prepare_raises by (fastforce simp: raises_def)
    moreover have "apply_hot_ip_added patricia_ops (fs_trie fs) (fs_records fs) (hi_ip p) (hi_attributes p) (ExactInt (hi_window_count p)) =
        Some (Inl e, fs_trie fs, fs_records fs)"
      using Inl assms by (simp add: apply_hot_ip_added_def check_families_def check_request_count_def pat.coupled_def)
    ultimately show ?thesis using add[OF dflt] mem True by (auto simp: apply_event_def apply_added_def)
  qed
qed

section \<open>The read state\<close>

definition trs_ok :: "trie_state \<Rightarrow> bool" where
  "trs_ok s \<longleftrightarrow> distinct (map fst (trs_families s)) \<and>
     (\<forall>f fs. map_of (trs_families s) f = Some fs \<longrightarrow> pat.coupled (fs_trie fs, fs_records fs) \<and> pt_family (fs_trie fs) = f) \<and>
     (\<forall>n. trs_position s = Some n \<longrightarrow> 0 \<le> n) \<and> (\<forall>d. trs_as_of s = Some d \<longrightarrow> dt_offset d \<noteq> None)"

text \<open>The HOT addresses the service holds, read off its tries.\<close>

definition trs_hot :: "trie_state \<Rightarrow> address set" where
  "trs_hot s = {a. \<exists>fs. map_of (trs_families s) (addr_family a) = Some fs \<and> addr_value a \<in> patricia_set (fs_trie fs)}"

definition served :: "trie_state \<Rightarrow> family set" where
  "served s = {f. serves s f}"

lemma hot_addresses_iff: "a \<in> hot_addresses f H \<longleftrightarrow> addr_family a = f \<and> addr_value a \<in> H"
  by (cases a) (auto simp: hot_addresses_def)

lemma pt_new_facts [simp]: "pt_family (pt_new f) = f"
  by (simp add: pt_new_def)

lemma trs_new_ok:
  assumes "trs_new fams config = Inr s"
  shows "trs_ok s \<and> trs_hot s = {} \<and> served s = fams \<and> trs_position s = None \<and> trs_config s = config"
proof -
  have "f \<in> served s \<longleftrightarrow> f \<in> fams" for f
    using assms by (cases f) (auto simp: trs_new_def served_def serves_def split: if_splits)
  moreover have "pat.coupled (pt_new f, ia_new f)" for f
    using pat.coupled_new[of "pt_new f"] by (simp add: patricia_empty)
  ultimately show ?thesis using assms
    by (auto simp: trs_new_def trs_ok_def trs_hot_def patricia_empty split: if_splits)
qed

lemma trs_put_ok:
  assumes "trs_ok s" "pat.coupled (t, m)" "pt_family t = f"
  shows "trs_ok (trs_put s f t m) \<and> trs_hot (trs_put s f t m) = {a \<in> trs_hot s. addr_family a \<noteq> f} \<union> hot_addresses f (patricia_set t)"
  using assms by (auto simp: trs_put_def trs_ok_def distinct_update update_conv' trs_hot_def hot_addresses_iff split: if_splits)

section \<open>The statistics of an event\<close>

text \<open>A prefix holds no more HOT addresses than addresses.\<close>

lemma hot_below_capacity:
  assumes "H \<subseteq> value_range f" "0 \<le> l" "l \<le> bit_length f"
  shows "hot_below (bit_length f) H l v \<le> 2 ^ nat (bit_length f - l)"
proof -
  let ?k = "nat (bit_length f - l)" and ?A = "{a \<in> H. agree (bit_length f) l a v}"
  have "inj_on (take_bit ?k) ?A"
  proof (rule inj_onI)
    fix a b assume ab: "a \<in> ?A" "b \<in> ?A" "take_bit ?k a = take_bit ?k b"
    then have "agree (bit_length f) l a b" by (auto intro: agree_trans agree_sym)
    moreover have "take_bit (nat (bit_length f)) a = a" "take_bit (nat (bit_length f)) b = b"
      using ab assms(1) by (auto simp: value_range_iff take_bit_int_eq_self_iff)
    ultimately have "drop_bit ?k a = drop_bit ?k b" using assms(2,3) by (simp add: agree_iff_drop)
    with ab(3) show "a = b" by (metis bits_ident)
  qed
  moreover have "take_bit ?k ` ?A \<subseteq> {0 ..< 2 ^ ?k}" by auto
  ultimately have "card ?A \<le> card {0 ..< (2::int) ^ ?k}" by (intro card_inj_on_le[of "take_bit ?k"]) auto
  then show ?thesis by (simp add: hot_below_def nat_power_eq)
qed

definition ratio_ok :: "py_library \<Rightarrow> (int \<Rightarrow> int \<Rightarrow> py_float) \<Rightarrow> bool" where
  "ratio_ok L ratio \<longleftrightarrow> (\<forall>n d. 0 \<le> n \<and> n \<le> d \<and> 0 < d \<longrightarrow>
     fl_finite (ratio n d) \<and> 0 \<le> lib_float_value L (ratio n d) \<and> lib_float_value L (ratio n d) \<le> 1)"

text \<open>The message of one ancestor: what the detector decodes from it.\<close>

definition reports :: "py_library \<Rightarrow> (int \<Rightarrow> int \<Rightarrow> py_float) \<Rightarrow> int \<Rightarrow> int \<Rightarrow> py_datetime \<Rightarrow> prefix_stats \<Rightarrow> stats_message \<Rightarrow> bool" where
  "reports L ratio n version timestamp s m \<longleftrightarrow> (\<exists>env. stats_envelope L ratio n version timestamp s = Inr env \<and>
     decode L (sm_value m) = Inr env \<and> env_subject env = Some (sm_key m) \<and> sm_message_id m = event_id L env)"

lemma writable_128: "0 \<le> n \<Longrightarrow> n \<le> 2 ^ 128 \<Longrightarrow> writable n"
proof -
  assume "0 \<le> n" "n \<le> 2 ^ 128"
  then have "nat \<bar>n\<bar> < 10 ^ 39" by simp
  then have "length (nat_text (nat \<bar>n\<bar>)) \<le> 39" by (rule nat_text_short[rotated]) simp
  then show ?thesis by (simp add: writable_def INT_STR_DIGITS_def)
qed

lemma encode_stats:
  assumes "env_event_type env = T_PREFIX_STATS" "env_schema_version env = SCHEMA_VERSION" "env_timestamp env = timestamp"
    "env_payload env = PrefixStatsChanged \<lparr>psc_prefix = pt, psc_hot_count = hot, psc_capacity = cap, psc_sequence = n,
       psc_timestamp = timestamp, psc_hot_ratio = Some (RatioFloat x)\<rparr>"
    and "format_timestamp L timestamp = Inr (JStr ts)" "env_sequence env = n" "0 \<le> n" "writable n" "writable (env_config_version env)"
    and "0 \<le> hot" "0 \<le> cap" "writable hot" "writable cap" "\<not> ratio_violation L (RatioFloat x)" "fl_finite x"
  shows "\<exists>doc. encode L env = Inr doc"
proof -
  have "T_PREFIX_STATS \<in> set KNOWN_EVENT_TYPES" by (simp add: KNOWN_EVENT_TYPES_def)
  moreover have "writable 1" by (simp add: writable_small)
  ultimately show ?thesis
    using assms by (auto simp: encode_def encode_payload_def encode_prefix_stats_changed_def bounded_integer_field_def
        range_violation_def PREFIX_STATS_HOT_COUNT_def PREFIX_STATS_SEQUENCE_def encode_capacity_def
        bounded_ratio_field_def ratio_float_def jkey_def SCHEMA_VERSION_def writable_def split: option.splits)
qed

lemma stats_message_ok:
  assumes lib: "library_ok L" "ratio_ok L ratio" and s: "s = \<lparr>ps_prefix = prefix_at f v l, ps_hot_count = hot_below (bit_length f) H l v\<rparr>"
    and H: "H \<subseteq> value_range f" "v \<in> value_range f" "0 \<le> l" "l \<le> bit_length f"
    and ts: "timestamp = utc t" "date_ok L timestamp" and n: "0 \<le> n" "writable n" "writable version"
  shows "\<exists>m. stats_message_of L ratio n version timestamp s = Inr m \<and> reports L ratio n version timestamp s m"
proof -
  let ?hot = "hot_below (bit_length f) H l v" and ?cap = "2 ^ nat (bit_length f - l) :: int"
  have cap: "ps_capacity s = ?cap" by (simp add: s ps_capacity_def prefix_capacity_def prefix_at_def push_bit_eq_mult)
  have hot: "0 \<le> ?hot" "?hot \<le> ?cap" using hot_below_capacity[OF H(1,3,4)] by simp_all
  have "?cap \<le> 2 ^ 128" using H(3) by (intro power_increasing) (auto simp: bit_length_def)
  then have small: "writable ?hot" "writable ?cap" using hot by (intro writable_128; simp)+
  have net: "0 \<le> net_of (bit_length f) l v" "net_of (bit_length f) l v < 2 ^ nat (bit_length f)"
    using net_of_le[of v "bit_length f" l] H(2) by (auto simp: value_range_iff)
  obtain pt where key: "prefix_text L (ps_prefix s) = Inr pt"
    using net by (simp add: s prefix_text_def prefix_at_def mk_address_def push_bit_eq_mult)
  have ratio: "\<not> ratio_violation L (RatioFloat (ratio ?hot ?cap))" "fl_finite (ratio ?hot ?cap)"
    using lib(2) hot unfolding ratio_ok_def ratio_violation_def by (auto simp: not_less)
  have fmt: "format_timestamp L timestamp = Inr (JStr (lib_isoformat_z L t))" "utc_of L timestamp = timestamp"
    using ts by (simp_all add: format_timestamp_def to_utc_def utc_def utc_of_def date_ok_def)
  obtain env where env: "stats_envelope L ratio n version timestamp s = Inr env" "env_subject env = Some pt"
    "canon_envelope L env = env" "date_ok L (env_timestamp env)" "payload_ok L (env_payload env)"
    using key fmt(2) ts(2) by (simp add: stats_envelope_def canon_envelope_def canon_payload_def payload_ok_def ratio_float_def)
  have "\<exists>doc. encode L env = Inr doc"
    using env(1) key s cap by (intro encode_stats[OF _ _ _ _ fmt(1) _ n(1,2) _ hot(1) _ small ratio]) (auto simp: stats_envelope_def n(3))
  then obtain doc where doc: "encode L env = Inr doc" ..
  with encode_decode[OF lib(1) env(4,5)] env key show ?thesis by (auto simp: stats_message_of_def reports_def)
qed

definition ancestor_report :: "family \<Rightarrow> int set \<Rightarrow> int \<Rightarrow> int \<Rightarrow> prefix_stats" where
  "ancestor_report f H v l = \<lparr>ps_prefix = prefix_at f v l, ps_hot_count = hot_below (bit_length f) H l v\<rparr>"

lemma mapE_list_all2: "(\<And>x. x \<in> set xs \<Longrightarrow> \<exists>y. f x = Inr y \<and> Q x y) \<Longrightarrow> \<exists>ys. mapE f xs = Inr ys \<and> list_all2 Q xs ys"
proof (induction xs)
  case (Cons x xs)
  then obtain y ys where "f x = Inr y" "Q x y" "mapE f xs = Inr ys" "list_all2 Q xs ys" by (meson list.set_intros)
  then show ?case by auto
qed simp

lemma ancestor_stats_ok:
  assumes "patricia_invar t" "valid_address a" "addr_family a = pt_family t" "0 \<le> l" "l \<le> bit_length (pt_family t)"
  shows "ancestor_stats patricia_ops t a l =
    Some (Inr (map (ancestor_report (pt_family t) (patricia_set t) (addr_value a)) [l .. bit_length (pt_family t)]))"
proof -
  have "mapE (\<lambda>e. mk_prefix_stats (pc_prefix e) (pc_hot_count e)) (map (count_at f H v) xs) = Inr (map (ancestor_report f H v) xs)" for f H v xs
    by (induction xs) (auto simp: mk_prefix_stats_def count_at_def ancestor_report_def not_less)
  then show ?thesis
    using pat.ancestor_counts[OF assms(1,2), of l] assms(3-5) by (simp add: ancestor_stats_def spec_ancestor_counts_def)
qed

definition lengths_ok :: "(family \<times> int) list \<Rightarrow> bool" where
  "lengths_ok lengths \<longleftrightarrow> (\<forall>f. \<exists>l. map_of lengths f = Some l \<and> 0 \<le> l \<and> l \<le> bit_length f)"

lemma publisher_new_ok: "publisher_new lengths = Inr ls \<Longrightarrow> lengths_ok ls"
  unfolding lengths_ok_def
proof
  fix f assume "publisher_new lengths = Inr ls"
  then show "\<exists>l. map_of ls f = Some l \<and> 0 \<le> l \<and> l \<le> bit_length f"
    by (cases f) (auto simp: publisher_new_def bindE_eq_Inr check_min_length_def split: option.splits py_count.splits if_splits)
qed

text \<open>The messages of an event: one per ancestor length, shortest first, over the HOT values of its family.\<close>

definition stats_for :: "py_library \<Rightarrow> (int \<Rightarrow> int \<Rightarrow> py_float) \<Rightarrow> (family \<times> int) list \<Rightarrow> int set \<Rightarrow> address \<Rightarrow> int \<Rightarrow> int \<Rightarrow> py_datetime \<Rightarrow>
    prepared_stats \<Rightarrow> bool" where
  "stats_for L ratio lengths H a n version timestamp pp \<longleftrightarrow>
     (\<exists>l. map_of lengths (addr_family a) = Some l \<and> pp_family pp = addr_family a \<and> pp_sequence pp = n \<and>
        list_all2 (\<lambda>k. reports L ratio n version timestamp (ancestor_report (addr_family a) H (addr_value a) k))
          [l .. bit_length (addr_family a)] (pp_messages pp))"

lemma prepare_stats_ok:
  assumes lib: "library_ok L" "ratio_ok L ratio" "lengths_ok lengths" and t: "patricia_invar t" "valid_address a" "addr_family a = pt_family t"
    and ts: "timestamp = utc u" "date_ok L timestamp" and n: "0 \<le> n" "writable n" "writable version"
  shows "\<exists>pp. prepare_stats L ratio lengths t a n version timestamp = Some (Inr pp) \<and>
    stats_for L ratio lengths (patricia_set t) a n version timestamp pp"
proof -
  obtain l where l: "map_of lengths (addr_family a) = Some l" "0 \<le> l" "l \<le> bit_length (addr_family a)"
    using lib(3) by (auto simp: lengths_ok_def)
  let ?R = "ancestor_report (addr_family a) (patricia_set t) (addr_value a)" and ?ls = "[l .. bit_length (addr_family a)]"
  have H: "patricia_set t \<subseteq> value_range (addr_family a)" "addr_value a \<in> value_range (addr_family a)"
    using pat.range[OF t(1)] t(2,3) by (auto simp: valid_address_range)
  have "\<exists>m. stats_message_of L ratio n version timestamp s = Inr m \<and> reports L ratio n version timestamp s m" if "s \<in> ?R ` set ?ls" for s
    using that l(2) stats_message_ok[OF lib(1,2) _ H _ _ ts n] by (auto simp: ancestor_report_def)
  then obtain ms where "mapE (stats_message_of L ratio n version timestamp) (map ?R ?ls) = Inr ms"
    "list_all2 (reports L ratio n version timestamp) (map ?R ?ls) ms"
    using mapE_list_all2[of "map ?R ?ls" "stats_message_of L ratio n version timestamp" "reports L ratio n version timestamp"] by auto
  then show ?thesis
    using ancestor_stats_ok[OF t l(2)] l t(3) by (simp add: prepare_stats_def min_prefix_length_def stats_for_def list_all2_map1)
qed

section \<open>One message\<close>

definition tw_ok :: "trie_worker \<Rightarrow> bool" where
  "tw_ok w \<longleftrightarrow> trs_ok (tw_state w) \<and> lengths_ok (tw_min_lengths w) \<and> writable (config_version (trs_config (tw_state w)))"

text \<open>What a message of the log means for the HOT addresses of the served families.\<close>

definition log_effect :: "py_library \<Rightarrow> family set \<Rightarrow> wire consumed_message \<Rightarrow> address set \<Rightarrow> address set" where
  "log_effect L fams m H = (case tw_decode L m of
      Inr (Some (added, p)) \<Rightarrow> if addr_family (hi_ip p) \<notin> fams then H else if added then insert (hi_ip p) H else H - {hi_ip p}
    | _ \<Rightarrow> H)"

definition expected_outcome :: "py_library \<Rightarrow> trie_state \<Rightarrow> wire consumed_message \<Rightarrow> hot_ip_outcome" where
  "expected_outcome L s m = (case tw_decode L m of
      Inr (Some (added, p)) \<Rightarrow>
        if addr_family (hi_ip p) \<notin> served s then HIP_FAMILY_NOT_SERVED
        else if log_effect L (served s) m (trs_hot s) = trs_hot s then HIP_UNCHANGED else HIP_APPLIED
    | _ \<Rightarrow> HIP_MALFORMED)"

definition fresh :: "trie_state \<Rightarrow> wire consumed_message \<Rightarrow> bool" where
  "fresh s m \<longleftrightarrow> (case trs_position s of None \<Rightarrow> True | Some n \<Rightarrow> n < cm_offset m)"

definition family_values :: "family \<Rightarrow> address set \<Rightarrow> int set" where
  "family_values f H = {v. \<lparr>addr_family = f, addr_value = v\<rparr> \<in> H}"

lemma family_values_hot: "map_of (trs_families s) f = Some fs \<Longrightarrow> family_values f (trs_hot s) = patricia_set (fs_trie fs)"
  by (simp add: family_values_def trs_hot_def)

text \<open>The state after a fresh message.\<close>

definition followed :: "py_library \<Rightarrow> trie_worker \<Rightarrow> wire consumed_message \<Rightarrow> trie_worker \<Rightarrow> bool" where
  "followed L w m w' \<longleftrightarrow> tw_ok w' \<and> trs_position (tw_state w') = Some (cm_offset m) \<and>
     trs_hot (tw_state w') = log_effect L (served (tw_state w)) m (trs_hot (tw_state w)) \<and>
     served (tw_state w') = served (tw_state w) \<and> trs_config (tw_state w') = trs_config (tw_state w) \<and>
     tw_min_lengths w' = tw_min_lengths w \<and> tw_stopping w' = tw_stopping w \<and> tw_subscribed w' = tw_subscribed w \<and>
     tw_replay_target w' = tw_replay_target w \<and> tw_republish_from w' = tw_republish_from w"

lemma note_handled_ok:
  assumes "tw_ok w" "fresh (tw_state w) m" "0 \<le> cm_offset m" "log_effect L (served (tw_state w)) m (trs_hot (tw_state w)) = trs_hot (tw_state w)"
  shows "\<exists>w'. tw_note_handled w (cm_offset m) out = (Inr (out, None), w') \<and> followed L w m w' \<and> tw_published w' = tw_published w"
proof -
  have "trs_check_offset (tw_state w) (cm_offset m) = Inr ()"
    using assms(2,3) by (auto simp: trs_check_offset_def fresh_def split: option.splits)
  then show ?thesis using assms
    by (auto simp: tw_note_handled_def note_handled_def followed_def tw_ok_def trs_ok_def trs_hot_def served_def serves_def)
qed

lemma note_applied_ok:
  assumes "trs_ok s" "0 \<le> off" "case trs_position s of None \<Rightarrow> True | Some n \<Rightarrow> n < off" "timestamp = utc u"
  shows "\<exists>s'. note_applied s off timestamp = (Inr (), s') \<and> trs_ok s' \<and> trs_position s' = Some off \<and>
    trs_families s' = trs_families s \<and> trs_config s' = trs_config s"
  using assms by (auto simp: note_applied_def trs_check_offset_def trs_ok_def utc_def split: option.splits)

lemma same_families: "trs_families s' = trs_families s \<Longrightarrow> trs_hot s' = trs_hot s \<and> served s' = served s"
  by (simp add: trs_hot_def served_def serves_def)

text \<open>Whether the event of a fresh message has its statistics published.\<close>

definition publishes :: "trie_worker \<Rightarrow> wire consumed_message \<Rightarrow> bool" where
  "publishes w m \<longleftrightarrow> (case tw_republish_from w of None \<Rightarrow> 0 | Some n \<Rightarrow> n) \<le> cm_offset m + 1"

lemma apply_effect:
  assumes "trs_ok s" "map_of (trs_families s) f = Some fs" "pat.coupled (t', m')" "pt_family t' = f" "addr_family a = f"
    and "patricia_set t' = (if added then insert (addr_value a) (patricia_set (fs_trie fs)) else patricia_set (fs_trie fs) - {addr_value a})"
  shows "trs_ok (trs_put s f t' m') \<and> trs_hot (trs_put s f t' m') = (if added then insert a (trs_hot s) else trs_hot s - {a}) \<and>
    served (trs_put s f t' m') = served s \<and> (trs_hot (trs_put s f t' m') = trs_hot s \<longleftrightarrow> patricia_set t' = patricia_set (fs_trie fs)) \<and>
    family_values f (trs_hot (trs_put s f t' m')) = patricia_set t'"
proof -
  let ?s = "trs_put s f t' m'"
  have put: "map_of (trs_families ?s) = (map_of (trs_families s))(f \<mapsto> \<lparr>fs_trie = t', fs_records = m'\<rparr>)"
    by (simp add: trs_put_def update_conv')
  have vals: "family_values f (trs_hot ?s) = patricia_set t'" "family_values f (trs_hot s) = patricia_set (fs_trie fs)"
    using assms(2) put by (simp_all add: family_values_def trs_hot_def)
  have "x \<in> trs_hot ?s \<longleftrightarrow> x \<in> (if added then insert a (trs_hot s) else trs_hot s - {a})" for x
    using assms(2,5,6) put by (cases x; cases a) (auto simp: trs_hot_def)
  then have hot: "trs_hot ?s = (if added then insert a (trs_hot s) else trs_hot s - {a})" by blast
  have mem: "a \<in> trs_hot s \<longleftrightarrow> addr_value a \<in> patricia_set (fs_trie fs)" using assms(2,5) by (simp add: trs_hot_def)
  have "trs_hot ?s = trs_hot s \<longleftrightarrow> patricia_set t' = patricia_set (fs_trie fs)"
    using mem unfolding hot assms(6) by auto
  moreover have "served ?s = served s" using assms(2) put by (auto simp: served_def serves_def)
  ultimately show ?thesis using trs_put_ok[OF assms(1,3,4)] hot vals by blast
qed

lemma tw_apply_ok:
  assumes lib: "library_ok L" "ratio_ok L ratio" "dates_ok L" and w: "tw_ok w" "fresh (tw_state w) m" "0 \<le> cm_offset m" "writable (cm_offset m + 1)"
    and d: "tw_decode L m = Inr (Some (added, p))" and fs: "map_of (trs_families (tw_state w)) (addr_family (hi_ip p)) = Some fs"
  shows "\<exists>w' prep. tw_apply L ratio w (cm_offset m) fs added p = Some (Inr (expected_outcome L (tw_state w) m, prep), w') \<and>
    followed L w m w' \<and> tw_published w' = tw_published w \<and>
    (case prep of None \<Rightarrow> expected_outcome L (tw_state w) m = HIP_UNCHANGED \<or> \<not> publishes w m
     | Some pp \<Rightarrow> expected_outcome L (tw_state w) m = HIP_APPLIED \<and> publishes w m \<and>
         stats_for L ratio (tw_min_lengths w) (family_values (addr_family (hi_ip p)) (trs_hot (tw_state w'))) (hi_ip p) (cm_offset m + 1)
           (config_version (trs_config (tw_state w))) (hi_timestamp p) pp)"
proof -
  let ?s = "tw_state w" and ?f = "addr_family (hi_ip p)"
  have ev: "valid_address (hi_ip p)" "0 \<le> hi_window_count p" "date_ok L (hi_timestamp p)" using tw_decode_ok[OF lib(3) d] by (auto simp: event_ok_def)
  obtain u where u: "hi_timestamp p = utc u" using tw_decode_ok[OF lib(3) d] by (auto simp: event_ok_def)
  have ok: "trs_ok ?s" and fam: "pat.coupled (fs_trie fs, fs_records fs)" "?f = pt_family (fs_trie fs)"
    using w(1) fs by (auto simp: tw_ok_def trs_ok_def)
  obtain t' m' where ap: "apply_event fs added p = Some (Inr (patricia_set t' \<noteq> patricia_set (fs_trie fs)), t', m')" "pat.coupled (t', m')"
    "pt_family t' = ?f" "patricia_set t' = (if added then insert (addr_value (hi_ip p)) (patricia_set (fs_trie fs)) else patricia_set (fs_trie fs) - {addr_value (hi_ip p)})"
    using apply_event_ok[OF fam(1) ev(1,2) fam(2), of added] fam(2) by auto
  note eff = apply_effect[OF ok fs ap(2,3) refl ap(4)]
  let ?s1 = "trs_put ?s ?f t' m'"
  have "?f \<in> served ?s" using fs by (simp add: served_def serves_def)
  then have le: "log_effect L (served ?s) m (trs_hot ?s) = trs_hot ?s1" using d eff by (simp add: log_effect_def)
  obtain s' where s': "note_applied ?s1 (cm_offset m) (hi_timestamp p) = (Inr (), s')" "trs_ok s'" "trs_position s' = Some (cm_offset m)"
    "trs_families s' = trs_families ?s1" "trs_config s' = trs_config ?s"
    using note_applied_ok[of ?s1 "cm_offset m" "hi_timestamp p" u] eff w(2,3) u by (auto simp: trs_put_def fresh_def)
  have same: "trs_hot ?s1 = trs_hot ?s \<longleftrightarrow> patricia_set t' = patricia_set (fs_trie fs)" using eff by blast
  have out: "expected_outcome L ?s m = (if patricia_set t' \<noteq> patricia_set (fs_trie fs) then HIP_APPLIED else HIP_UNCHANGED)"
    using d \<open>?f \<in> served ?s\<close> same by (simp add: expected_outcome_def le)
  have seq: "event_sequence s' = cm_offset m + 1" using s'(3) by (simp add: event_sequence_def)
  have fol: "followed L w m (w\<lparr>tw_state := s'\<rparr>)"
    using w(1) s' eff le same_families[OF s'(4)] by (simp add: followed_def tw_ok_def)
  have inv: "patricia_invar t'" using ap(2) by (simp add: pat.coupled_def)
  obtain pp where pp: "prepare_stats L ratio (tw_min_lengths w) t' (hi_ip p) (cm_offset m + 1) (config_version (trs_config ?s)) (hi_timestamp p) = Some (Inr pp)"
    "stats_for L ratio (tw_min_lengths w) (patricia_set t') (hi_ip p) (cm_offset m + 1) (config_version (trs_config ?s)) (hi_timestamp p) pp"
    using prepare_stats_ok[OF lib(1,2) _ inv ev(1) _ u ev(3) _ w(4)] w(1,3) ap(3) by (auto simp: tw_ok_def)
  have "family_values ?f (trs_hot s') = patricia_set t'" using eff same_families[OF s'(4)] by metis
  then show ?thesis
    using ap(1) s'(1,5) seq fol pp out by (cases "publishes w m") (auto simp: tw_apply_def publishes_def Let_def)
qed

lemma tw_handle_sync_ok:
  assumes lib: "library_ok L" "ratio_ok L ratio" "dates_ok L" and w: "tw_ok w" "fresh (tw_state w) m" "0 \<le> cm_offset m" "writable (cm_offset m + 1)"
  shows "\<exists>w' prep. tw_handle_sync L ratio w m = Some (Inr (expected_outcome L (tw_state w) m, prep), w') \<and>
    followed L w m w' \<and> tw_published w' = tw_published w \<and>
    (prep = None \<longleftrightarrow> expected_outcome L (tw_state w) m \<noteq> HIP_APPLIED \<or> \<not> publishes w m) \<and>
    (\<forall>pp. prep = Some pp \<longrightarrow> (\<exists>added p. tw_decode L m = Inr (Some (added, p)) \<and>
       stats_for L ratio (tw_min_lengths w) (family_values (addr_family (hi_ip p)) (trs_hot (tw_state w'))) (hi_ip p) (cm_offset m + 1)
         (config_version (trs_config (tw_state w))) (hi_timestamp p) pp))"
proof -
  have fr: "\<not> (case trs_position (tw_state w) of None \<Rightarrow> False | Some n \<Rightarrow> cm_offset m \<le> n)"
    using w(2) by (simp add: fresh_def not_le split: option.splits)
  obtain d where d: "tw_decode L m = Inr d" using tw_decode_returns by blast
  show ?thesis
  proof (cases d)
    case None
    then have "log_effect L (served (tw_state w)) m (trs_hot (tw_state w)) = trs_hot (tw_state w)" using d by (simp add: log_effect_def)
    from note_handled_ok[OF w(1-3) this, of HIP_MALFORMED] show ?thesis
      using d None fr by (auto simp: tw_handle_sync_def expected_outcome_def)
  next
    case (Some x)
    obtain added p where x: "x = (added, p)" by (cases x)
    show ?thesis
    proof (cases "serves (tw_state w) (addr_family (hi_ip p))")
      case False
      then have "log_effect L (served (tw_state w)) m (trs_hot (tw_state w)) = trs_hot (tw_state w)"
        using d Some x by (simp add: log_effect_def served_def)
      from note_handled_ok[OF w(1-3) this, of HIP_FAMILY_NOT_SERVED] show ?thesis
        using d Some x False fr by (auto simp: tw_handle_sync_def expected_outcome_def served_def)
    next
      case True
      then obtain fs where fs: "map_of (trs_families (tw_state w)) (addr_family (hi_ip p)) = Some fs" by (auto simp: serves_def)
      have run: "tw_handle_sync L ratio w m = tw_apply L ratio w (cm_offset m) fs added p"
        using d Some x fr True fs by (simp add: tw_handle_sync_def trs_of_def)
      show ?thesis using tw_apply_ok[OF lib w d[unfolded Some x] fs] d Some x unfolding run
        by (fastforce split: option.splits)
    qed
  qed
qed

text \<open>Publishing writes the producer only; it fails as \<open>PrefixStatsPublishError\<close> or counts the messages.\<close>

lemma tw_publish_cases:
  "(\<exists>p'. tw_publish P pp w p = (Inl PrefixStatsPublishError, w, p')) \<or>
   (\<exists>p'. tw_publish P pp w p = (Inr (), w\<lparr>tw_published := tw_published w + int (length (pp_messages pp))\<rparr>, p'))"
  by (auto simp: tw_publish_def publish_stats_def split: prod.splits)

lemma followed_published: "followed L w m w' \<Longrightarrow> followed L w m (w'\<lparr>tw_published := k\<rparr>)"
  by (auto simp: followed_def tw_ok_def)

lemma tw_handle_ok:
  assumes lib: "library_ok L" "ratio_ok L ratio" "dates_ok L" and w: "tw_ok w" "fresh (tw_state w) m" "0 \<le> cm_offset m" "writable (cm_offset m + 1)"
    and run: "\<not> tw_stopping w"
  shows "\<exists>r w' p'. tw_handle L ratio P w m p = Some (r, w', p') \<and> followed L w m w' \<and>
    (r = Inr (expected_outcome L (tw_state w) m) \<or>
     r = Inl PrefixStatsPublishError \<and> expected_outcome L (tw_state w) m = HIP_APPLIED \<and> publishes w m) \<and>
    (expected_outcome L (tw_state w) m \<noteq> HIP_APPLIED \<or> \<not> publishes w m \<longrightarrow> p' = p)"
proof -
  obtain w1 prep where h: "tw_handle_sync L ratio w m = Some (Inr (expected_outcome L (tw_state w) m, prep), w1)" "followed L w m w1"
    "prep = None \<longleftrightarrow> expected_outcome L (tw_state w) m \<noteq> HIP_APPLIED \<or> \<not> publishes w m"
    using tw_handle_sync_ok[OF lib w] by blast
  show ?thesis
  proof (cases prep)
    case None
    then show ?thesis using h run by (simp add: tw_handle_def)
  next
    case (Some pp)
    then show ?thesis using h run tw_publish_cases[of P pp w1 p] followed_published[OF h(2)] by (auto simp: tw_handle_def)
  qed
qed

lemma tw_handle_redelivered:
  assumes "\<not> fresh (tw_state w) m" "\<not> tw_stopping w"
  shows "tw_handle L ratio P w m p = Some (Inr HIP_REDELIVERED, w, p)"
  using assms by (auto simp: tw_handle_def tw_handle_sync_def fresh_def split: option.splits)

section \<open>A run over the stream\<close>

text \<open>The log read into a position and a set of HOT addresses: the abstract trie service.\<close>

definition log_step :: "py_library \<Rightarrow> family set \<Rightarrow> wire consumed_message \<Rightarrow> int option \<times> address set \<Rightarrow> int option \<times> address set" where
  "log_step L fams m v = (case v of (pos, H) \<Rightarrow>
     if (case pos of None \<Rightarrow> False | Some n \<Rightarrow> cm_offset m \<le> n) then (pos, H) else (Some (cm_offset m), log_effect L fams m H))"

definition view :: "trie_worker \<Rightarrow> int option \<times> address set" where
  "view w = (trs_position (tw_state w), trs_hot (tw_state w))"

text \<open>The part of a worker that no message changes.\<close>

definition same_setup :: "trie_worker \<Rightarrow> trie_worker \<Rightarrow> bool" where
  "same_setup w w' \<longleftrightarrow> served (tw_state w') = served (tw_state w) \<and> trs_config (tw_state w') = trs_config (tw_state w) \<and>
     tw_min_lengths w' = tw_min_lengths w \<and> tw_subscribed w' = tw_subscribed w \<and>
     tw_replay_target w' = tw_replay_target w \<and> tw_republish_from w' = tw_republish_from w"

lemma same_setup_trans: "same_setup u v \<Longrightarrow> same_setup v w \<Longrightarrow> same_setup u w"
  by (simp add: same_setup_def)

definition message_ok :: "wire consumed_message \<Rightarrow> bool" where
  "message_ok m \<longleftrightarrow> 0 \<le> cm_offset m \<and> writable (cm_offset m + 1)"

lemma tw_handle_step:
  assumes "library_ok L" "ratio_ok L ratio" "dates_ok L" "tw_ok w" "message_ok m" "\<not> tw_stopping w"
  shows "\<exists>r w' p'. tw_handle L ratio P w m p = Some (r, w', p') \<and> tw_ok w' \<and> same_setup w w' \<and> \<not> tw_stopping w' \<and>
    view w' = log_step L (served (tw_state w)) m (view w) \<and> (\<forall>e. r = Inl e \<longrightarrow> e = PrefixStatsPublishError)"
proof (cases "fresh (tw_state w) m")
  case True
  then obtain r w' p' where h: "tw_handle L ratio P w m p = Some (r, w', p')" "followed L w m w'" "\<forall>e. r = Inl e \<longrightarrow> e = PrefixStatsPublishError"
    using tw_handle_ok[OF assms(1-4) True _ _ assms(6), of P p] assms(5) by (auto simp: message_ok_def)
  moreover have "view w' = log_step L (served (tw_state w)) m (view w)"
    using h(2) True by (auto simp: view_def log_step_def followed_def fresh_def split: option.splits)
  ultimately show ?thesis using assms(6) by (auto simp: followed_def same_setup_def)
next
  case False
  then show ?thesis unfolding tw_handle_redelivered[OF False assms(6)] using assms(4,6)
    by (auto simp: same_setup_def view_def log_step_def fresh_def split: option.splits)
qed

definition received :: "stream_event list \<Rightarrow> wire consumed_message list" where
  "received evs = concat (map (\<lambda>ev. case ev of Received m \<Rightarrow> [m] | _ \<Rightarrow> []) evs)"

lemma received_simps [simp]:
  "received [] = []" "received (Received m # evs) = m # received evs"
  "received (StopSignal # evs) = received evs" "received (StreamEnded # evs) = received evs" "received (StreamRaised e # evs) = received evs"
  by (simp_all add: received_def)

text \<open>However the run ends, the service holds what a prefix of the stream says; all of it if it still waits.\<close>

lemma tw_pump_ok:
  assumes lib: "library_ok L" "ratio_ok L ratio" "dates_ok L"
  shows "tw_ok w \<Longrightarrow> \<forall>m \<in> set (received evs). message_ok m \<Longrightarrow>
    \<exists>r w' p' k. tw_pump L ratio P stop_when evs w p = Some (r, w', p') \<and> tw_ok w' \<and> same_setup w w' \<and>
      view w' = fold (log_step L (served (tw_state w))) (take k (received evs)) (view w) \<and>
      (r = Inr PUMP_DONE \<longrightarrow> stop_when w') \<and> (r = Inr PUMP_WAITING \<longrightarrow> k = length (received evs))"
proof (induction evs arbitrary: w p)
  case Nil
  then show ?case by (auto simp: same_setup_def)
next
  case (Cons ev evs)
  have here: "\<exists>r w' p' k. x = Some (r, w', p') \<and> tw_ok w' \<and> same_setup w w' \<and>
      view w' = fold (log_step L (served (tw_state w))) (take k (received (ev # evs))) (view w) \<and>
      (r = Inr PUMP_DONE \<longrightarrow> stop_when w') \<and> (r = Inr PUMP_WAITING \<longrightarrow> k = length (received (ev # evs)))"
    if "x = Some (r, w', p')" "tw_ok w'" "same_setup w w'" "view w' = view w" "r = Inr PUMP_DONE \<longrightarrow> stop_when w'" "r \<noteq> Inr PUMP_WAITING" for x r w' p'
    using that by (intro exI[of _ r] exI[of _ w'] exI[of _ p'] exI[of _ 0]) auto
  show ?case
  proof (cases "stop_when w \<or> tw_stopping w")
    case True
    then show ?thesis using Cons.prems(1) by (intro here[of _ "Inr (if stop_when w then PUMP_DONE else PUMP_STOPPED)" w p]) (auto simp: same_setup_def)
  next
    case run: False
    show ?thesis
    proof (cases ev)
      case (Received m)
      obtain r w1 p1 where h: "tw_handle L ratio P w m p = Some (r, w1, p1)" "tw_ok w1" "same_setup w w1"
        "view w1 = log_step L (served (tw_state w)) m (view w)"
        using tw_handle_step[OF lib Cons.prems(1), of m P p] Cons.prems(2) run Received by auto
      show ?thesis
      proof (cases r)
        case (Inl e)
        then show ?thesis using h run Received by (auto intro!: exI[of _ "1::nat"])
      next
        case (Inr out)
        obtain r' w' p' k where t: "tw_pump L ratio P stop_when evs w1 p1 = Some (r', w', p')" "tw_ok w'" "same_setup w1 w'"
          "view w' = fold (log_step L (served (tw_state w1))) (take k (received evs)) (view w1)"
          "r' = Inr PUMP_DONE \<longrightarrow> stop_when w'" "r' = Inr PUMP_WAITING \<longrightarrow> k = length (received evs)"
          using Cons.IH[OF h(2), of p1] Cons.prems(2) Received by auto
        have "served (tw_state w1) = served (tw_state w)" using h(3) by (simp add: same_setup_def)
        then show ?thesis using h t Inr run Received same_setup_trans[OF h(3) t(3)]
          by (intro exI[of _ r'] exI[of _ w'] exI[of _ p'] exI[of _ "Suc k"]) auto
      qed
    qed (use run Cons.prems in \<open>auto intro!: exI[of _ "0::nat"] simp: same_setup_def tw_ok_def view_def\<close>)
  qed
qed

end
