(* ===== verification/Trie_Replay.thy ===== *)
theory Trie_Replay
  imports Trie_Service_Correct
begin

text \<open>
  The trie service against the log: a start over the in-memory bus replays all of it, and the
  properties of the service. The stream a start reads is the one the modelled consumer delivers.
\<close>

section \<open>Starting over the in-memory bus\<close>

text \<open>A producer whose publishes return.\<close>

definition reliable :: "'p producer_ops \<Rightarrow> bool" where
  "reliable P \<longleftrightarrow> (\<forall>p topic k v i. \<exists>p'. po_publish P p topic k v i = (Inr (), p'))"

lemma publish_each_reliable:
  assumes "reliable P"
  shows "\<exists>p'. publish_each P ms p = ([], p')"
proof (induction ms arbitrary: p)
  case (Cons m ms)
  obtain p1 where "po_publish P p (ts_name PREFIX_STATS) (sm_key m) (sm_value m) (Some (sm_message_id m)) = (Inr (), p1)"
    using assms unfolding reliable_def by meson
  moreover obtain p2 where "publish_each P ms p1 = ([], p2)" using Cons.IH[of p1] by blast
  ultimately show ?case by simp
qed simp

lemma tw_handle_reliable:
  assumes "reliable P" "library_ok L" "ratio_ok L ratio" "dates_ok L" "tw_ok w" "message_ok m" "\<not> tw_stopping w"
  shows "\<exists>out w' p'. tw_handle L ratio P w m p = Some (Inr out, w', p') \<and> tw_ok w' \<and> \<not> tw_stopping w'"
proof -
  obtain r w' p' where h: "tw_handle L ratio P w m p = Some (r, w', p')" "tw_ok w'" "\<not> tw_stopping w'"
    using tw_handle_step[OF assms(2-7), of P p] by blast
  have "\<exists>out. r = Inr out"
  proof (cases "fresh (tw_state w) m")
    case True
    obtain out w1 prep where s: "tw_handle_sync L ratio w m = Some (Inr (out, prep), w1)"
      using tw_handle_sync_ok[OF assms(2-5) True] assms(6) by (auto simp: message_ok_def)
    show ?thesis
    proof (cases prep)
      case None
      then show ?thesis using h(1) s assms(7) by (auto simp: tw_handle_def)
    next
      case (Some pp)
      obtain p1 where "publish_each P (pp_messages pp) p = ([], p1)" using publish_each_reliable[OF assms(1)] by blast
      then show ?thesis using Some h(1) s assms(7) by (auto simp: tw_handle_def tw_publish_def publish_stats_def)
    qed
  next
    case False
    then show ?thesis using h(1) tw_handle_redelivered[OF False assms(7), of L ratio P p] by auto
  qed
  then show ?thesis using h by blast
qed

lemma tw_pump_reliable:
  assumes "reliable P" "library_ok L" "ratio_ok L ratio" "dates_ok L"
  shows "tw_ok w \<Longrightarrow> \<not> tw_stopping w \<Longrightarrow> \<forall>m \<in> set ms. message_ok m \<Longrightarrow>
    \<exists>r w' p'. tw_pump L ratio P stop_when (map Received ms) w p = Some (Inr r, w', p') \<and>
      (r = PUMP_DONE \<or> r = PUMP_WAITING \<and> \<not> stop_when w')"
proof (induction ms arbitrary: w p)
  case (Cons m ms)
  have ok: "message_ok m" "\<forall>m \<in> set ms. message_ok m" using Cons.prems(3) by simp_all
  obtain out w1 p1 where h: "tw_handle L ratio P w m p = Some (Inr out, w1, p1)" "tw_ok w1" "\<not> tw_stopping w1"
    using tw_handle_reliable[OF assms Cons.prems(1) ok(1) Cons.prems(2), of p] by blast
  show ?case using h(1) Cons.IH[OF h(2,3) ok(2), of p1] Cons.prems(2) by (cases "stop_when w") simp_all
qed simp

lemma received_map: "received (map Received ms) = ms"
  by (induction ms) simp_all

lemma mc_read_positional:
  assumes "\<not> mc_closed c" "mc_positional c" "mc_position c = int n"
  shows "fst (mc_read k b c topic) = map (message_at b topic) (take k [n ..< length (mb_logs b topic)])"
  using assms
proof (induction k arbitrary: c n)
  case (Suc k)
  show ?case
  proof (cases "n < length (mb_logs b topic)")
    case True
    let ?c = "c\<lparr>mc_position := int n + 1\<rparr>"
    have "mc_next b c topic = (Delivered (message_at b topic n), ?c)"
      using True Suc.prems by (simp add: mc_next.simps[of b c] message_at_def Let_def)
    moreover have "fst (mc_read k b ?c topic) = map (message_at b topic) (take k [Suc n ..< length (mb_logs b topic)])"
      using Suc.IH[of ?c "Suc n"] Suc.prems by simp
    ultimately show ?thesis using True by (auto simp: upt_conv_Cons split: prod.splits)
  next
    case False
    then show ?thesis using Suc.prems by (simp add: mc_next.simps[of b c])
  qed
qed simp

text \<open>The reads and the positional subscription of the in-memory bus.\<close>

definition memory_log_reads :: "wire memory_bus log_reads" where
  "memory_log_reads = \<lparr>lo_end_offset = (\<lambda>b topic. Inr (end_offset b topic)), lo_first_offset = (\<lambda>b topic. Inr (first_offset b topic)),
     lo_last_value = (\<lambda>b topic. Inr (last_value b topic)),
     lo_subscribe = (\<lambda>b topic n. case mc_subscribe (mc_new ''hammertime-trie'') topic None (\<lambda>_ u. (Inr (), u)) (Some n) () of
         (Inl e, _) \<Rightarrow> Inl e
       | (Inr _, c, _) \<Rightarrow> Inr (map Received (fst (mc_read (length (mb_logs b topic)) b c topic))))\<rparr>"

lemma memory_reads [simp]:
  "lo_end_offset memory_log_reads b topic = Inr (end_offset b topic)" "lo_first_offset memory_log_reads b topic = Inr 0"
  "lo_last_value memory_log_reads b topic = Inr (last_value b topic)"
  by (simp_all add: memory_log_reads_def first_offset_def)

lemma memory_subscribe:
  "lo_subscribe memory_log_reads b topic 0 = Inr (map Received (map (message_at b topic) [0 ..< length (mb_logs b topic)]))"
proof -
  let ?c = "(mc_new ''hammertime-trie'')\<lparr>mc_subscribed := True, mc_topic := Some topic, mc_positional := True, mc_position := 0\<rparr>"
  have "fst (mc_read (length (mb_logs b topic)) b ?c topic) = map (message_at b topic) (take (length (mb_logs b topic)) [0 ..< length (mb_logs b topic)])"
    by (rule mc_read_positional[of ?c 0]) (simp_all add: mc_new_def)
  then show ?thesis by (simp add: memory_log_reads_def mc_subscribe_def mc_assignment_def mc_new_def)
qed

definition log_messages :: "'v memory_bus \<Rightarrow> string \<Rightarrow> nat \<Rightarrow> 'v consumed_message list" where
  "log_messages b topic n = map (message_at b topic) [0 ..< n]"

lemma fold_log_steps:
  "fold (log_step L fams) (log_messages b topic n) (None, {}) =
    (if n = 0 then None else Some (int n - 1), fold (log_effect L fams) (log_messages b topic n) {})"
  by (induction n) (auto simp: log_messages_def log_step_def message_at_def)

lemma republish_from_returns: "\<exists>n. republish_from L v target = Inr n"
proof (cases v)
  case (Some x)
  then show ?thesis using raises_decode[of L x]
    by (auto simp: republish_from_def raises_def split: sum.splits event_payload.splits)
qed (simp add: republish_from_def)

lemma writable_bound: "0 \<le> n \<Longrightarrow> n < 10 ^ INT_STR_DIGITS \<Longrightarrow> writable n"
proof -
  assume n: "0 \<le> n" "n < 10 ^ INT_STR_DIGITS"
  then have "nat \<bar>n\<bar> < 10 ^ INT_STR_DIGITS" by (simp add: nat_less_iff)
  then have "length (nat_text (nat \<bar>n\<bar>)) \<le> INT_STR_DIGITS" by (rule nat_text_short[rotated]) (simp add: INT_STR_DIGITS_def)
  then show ?thesis by (simp add: writable_def)
qed

lemma tw_new_ok:
  assumes "trs_new fams config = Inr s" "tw_new s lengths = Inr w" "writable (config_version config)"
  shows "tw_ok w \<and> view w = (None, {}) \<and> served (tw_state w) = fams \<and> \<not> tw_stopping w \<and> \<not> tw_subscribed w"
  using assms trs_new_ok[OF assms(1)] publisher_new_ok[of lengths]
  by (auto simp: tw_new_def bindE_eq_Inr tw_ok_def view_def)

lemma start_memory:
  assumes lib: "reliable P" "library_ok L" "ratio_ok L ratio" "dates_ok L"
    and w: "tw_ok w" "view w = (None, {})" "\<not> tw_stopping w" "\<not> tw_subscribed w"
    and size: "int (length (mb_logs b (ts_name HOT_IP))) < 10 ^ INT_STR_DIGITS"
  shows "\<exists>w' p'. tw_start L ratio P memory_log_reads b w p = Some (Inr True, w', p') \<and> caught_up w' \<and> tw_ok w' \<and>
    event_sequence (tw_state w') = end_offset b (ts_name HOT_IP) \<and>
    trs_hot (tw_state w') = fold (log_effect L (served (tw_state w))) (log_messages b (ts_name HOT_IP) (length (mb_logs b (ts_name HOT_IP)))) {}"
proof -
  let ?T = "ts_name HOT_IP" and ?n = "length (mb_logs b (ts_name HOT_IP))"
  let ?ms = "log_messages b ?T ?n"
  obtain n where n: "republish_from L (last_value b (ts_name PREFIX_STATS)) (end_offset b ?T) = Inr n" using republish_from_returns by blast
  let ?w = "w\<lparr>tw_replay_target := Some (end_offset b ?T), tw_republish_from := Some n, tw_subscribed := True\<rparr>"
  have pos: "trs_position (tw_state w) = None" using w(2) by (simp add: view_def)
  have run: "tw_start L ratio P memory_log_reads b w p =
      (case tw_pump L ratio P caught_up (map Received ?ms) ?w p of
         None \<Rightarrow> None
       | Some (Inl e, w3, p3) \<Rightarrow> Some (Inl e, w3, p3)
       | Some (Inr ended, w3, p3) \<Rightarrow>
           Some (if ended = PUMP_ENDED then (Inl RuntimeError, w3, p3) else (Inr (ended \<noteq> PUMP_WAITING), w3, p3)))"
    using w(3,4) n pos memory_subscribe[of b ?T]
    by (simp add: tw_start_def tw_pass_def event_sequence_def log_messages_def)
  have ok: "tw_ok ?w" "\<not> tw_stopping ?w" "view ?w = (None, {})" "served (tw_state ?w) = served (tw_state w)"
    using w by (simp_all add: tw_ok_def view_def)
  have "writable (int i + 1)" if "i < ?n" for i by (rule writable_bound) (use that size in linarith)+
  then have ms: "\<forall>m \<in> set ?ms. message_ok m" by (auto simp: log_messages_def message_ok_def message_at_def)
  have rc: "received (map Received ?ms) = ?ms" by (rule received_map)
  obtain r w' p' where r: "tw_pump L ratio P caught_up (map Received ?ms) ?w p = Some (Inr r, w', p')"
    "r = PUMP_DONE \<or> r = PUMP_WAITING \<and> \<not> caught_up w'"
    using tw_pump_reliable[OF lib ok(1,2) ms] by blast
  obtain k where k: "tw_ok w'" "same_setup ?w w'" "view w' = fold (log_step L (served (tw_state w))) (take k ?ms) (None, {})"
    "r = PUMP_DONE \<longrightarrow> caught_up w'" "r = PUMP_WAITING \<longrightarrow> k = length ?ms"
    using tw_pump_ok[OF lib(2-4) ok(1), of "map Received ?ms" P caught_up p] ms r(1) unfolding rc ok(3,4) by auto
  let ?k = "min k ?n"
  have tk: "take k ?ms = log_messages b ?T ?k" by (cases "k \<le> ?n") (simp_all add: log_messages_def take_map min_def)
  have v: "trs_position (tw_state w') = (if ?k = 0 then None else Some (int ?k - 1))"
    "trs_hot (tw_state w') = fold (log_effect L (served (tw_state w))) (log_messages b ?T ?k) {}"
    using k(3) unfolding tk fold_log_steps by (simp_all add: view_def)
  have seq: "event_sequence (tw_state w') = int ?k" using v(1) by (simp add: event_sequence_def)
  have cu: "caught_up w' \<longleftrightarrow> int ?k \<ge> int ?n"
    using k(2) seq by (simp add: caught_up_def same_setup_def end_offset_def)
  have "length ?ms = ?n" by (simp add: log_messages_def)
  then have "caught_up w'" "r = PUMP_DONE" using r(2) k(4,5) cu by auto
  then have "?k = ?n" using cu by simp
  then show ?thesis using run r(1) \<open>r = PUMP_DONE\<close> \<open>caught_up w'\<close> k(1) v(2) seq by (simp add: end_offset_def)
qed

section \<open>Reading the statistics\<close>

lemma hot_below_family:
  "hot_below bits (family_values f H) l v = int (card {a \<in> H. addr_family a = f \<and> agree bits l (addr_value a) v})"
proof -
  let ?A = "{u \<in> family_values f H. agree bits l u v}" and ?mk = "\<lambda>u. \<lparr>addr_family = f, addr_value = u\<rparr>"
  have "{a \<in> H. addr_family a = f \<and> agree bits l (addr_value a) v} = ?mk ` ?A"
  proof (rule set_eqI)
    fix a :: address
    show "a \<in> {a \<in> H. addr_family a = f \<and> agree bits l (addr_value a) v} \<longleftrightarrow> a \<in> ?mk ` ?A"
      by (cases a) (auto simp: family_values_def)
  qed
  moreover have "inj_on ?mk ?A" by (simp add: inj_on_def)
  ultimately show ?thesis by (simp add: hot_below_def card_image)
qed

lemma report_read:
  assumes "reports L ratio n version timestamp (ancestor_report f H v l) m" "l \<le> bit_length f"
  shows "\<exists>env q. decode L (sm_value m) = Inr env \<and> env_agent_id env = AGENT_ID \<and> env_payload env = PrefixStatsChanged q \<and>
    prefix_text L (prefix_at f v l) = Inr (psc_prefix q) \<and> psc_hot_count q = hot_below (bit_length f) H l v \<and>
    psc_capacity q = 2 ^ nat (bit_length f - l) \<and> psc_sequence q = n \<and> sm_key m = psc_prefix q \<and> sm_message_id m = event_id L env"
  using assms by (auto simp: reports_def stats_envelope_def bindE_eq_Inr ancestor_report_def ps_capacity_def
      prefix_capacity_def prefix_at_def push_bit_eq_mult)

lemma sync_outcome_fresh:
  assumes "tw_handle_sync L ratio w m = Some (Inr (HIP_APPLIED, prep), w')"
  shows "fresh (tw_state w) m"
  using assms by (auto simp: tw_handle_sync_def fresh_def split: option.splits if_splits)

section \<open>From the aggregator's emitter\<close>

lemma transition_decodes:
  assumes "library_ok L" "valid_address ip" "transition_envelope L now config shard ip new cnt n = Inr env" "encode L env = Inr doc"
  shows "\<exists>env' p. decode L (Some (raw_of_json doc)) = Inr env' \<and> hot_ip_payload (env_payload env') = Some (new = HOT, p) \<and>
    hi_ip p = ip \<and> env_subject env' = Some (lib_ip_text L ip)"
proof -
  have ok: "date_ok L (env_timestamp env)" "payload_ok L (env_payload env)"
    using assms(2,3) by (auto simp: transition_envelope_def bindE_eq_Inr from_timestamp_def date_ok_def utc_def payload_ok_def hot_ip_ok_def
        transition_attributes_def split: if_splits)
  have "\<exists>p. hot_ip_payload (env_payload (canon_envelope L env)) = Some (new = HOT, p) \<and> hi_ip p = ip"
    "env_subject (canon_envelope L env) = Some (lib_ip_text L ip)"
    using assms(3) by (auto simp: transition_envelope_def bindE_eq_Inr canon_envelope_def canon_payload_def canon_hot_ip_def
        hot_ip_payload_def T_ADDED_def T_REMOVED_def split: if_splits)
  then show ?thesis using encode_decode[OF assms(1) ok assms(4)] by auto
qed

text \<open>What an announced edge appends to the log of an in-memory bus.\<close>

lemma emitted_message:
  assumes "em_evaluate L S memory_producer_ops now config win ip io = (Inr (Some t), win', io')"
    and "\<forall>i. transition_envelope L now config (sw_shard win) ip (st_current (et_transition t)) (sw_total win ip) (sw_next_sequence win) = Inr i \<longrightarrow>
      event_id L i \<notin> bus_ids (io_producer io) (ts_name HOT_IP)"
  shows "\<exists>env doc. transition_envelope L now config (sw_shard win) ip (st_current (et_transition t)) (sw_total win ip) (sw_next_sequence win) = Inr env \<and>
    encode L env = Inr doc \<and>
    mb_logs (io_producer io') (ts_name HOT_IP) = mb_logs (io_producer io) (ts_name HOT_IP) @ [\<lparr>lr_key = Some (lib_ip_text L ip), lr_value = Some (raw_of_json doc)\<rparr>]"
  using assms
  by (auto simp: em_evaluate_def Let_def memory_producer_ops_def mp_publish_def mb_append_def bus_ids_def
      split: if_splits sum.splits prod.splits)

section \<open>A small instance\<close>

definition sample_ratio :: "int \<Rightarrow> int \<Rightarrow> py_float" where
  "sample_ratio n d = lib_float_of_int sample_library (n div d)"

lemma sample_ratio_ok: "ratio_ok sample_library sample_ratio"
proof -
  have "n div d = 0 \<or> n div d = 1" if "0 \<le> n" "n \<le> d" "0 < d" for n d :: int
    using that by (cases "n = d") (auto simp: div_pos_pos_trivial)
  then show ?thesis by (fastforce simp: ratio_ok_def sample_ratio_def sample_library_def)
qed

definition sample_trie :: trie_worker where
  "sample_trie = \<lparr>tw_state = \<lparr>trs_families = [(IPV4, \<lparr>fs_trie = pt_new IPV4, fs_records = ia_new IPV4\<rparr>)], trs_config = sample_config,
       trs_position = None, trs_as_of = None\<rparr>,
     tw_min_lengths = [(IPV4, 8), (IPV6, 104)], tw_published = 0, tw_stopping = False, tw_subscribed = False,
     tw_replay_target = None, tw_republish_from = None\<rparr>"

lemma sample_trie_new:
  "trs_new {IPV4} sample_config = Inr (tw_state sample_trie)"
  "tw_new (tw_state sample_trie) [(IPV4, ExactInt 8), (IPV6, ExactInt 104)] = Inr sample_trie"
  by (simp_all add: trs_new_def sample_trie_def tw_new_def publisher_new_def check_min_length_def bit_length_def)

lemma sample_trie_ok: "tw_ok sample_trie" "view sample_trie = (None, {})" "served (tw_state sample_trie) = {IPV4}" "\<not> tw_stopping sample_trie"
proof -
  have "config_version sample_config = 1" by code_simp
  then have "writable (config_version sample_config)" by (simp add: writable_small)
  from tw_new_ok[OF sample_trie_new this]
  show "tw_ok sample_trie" "view sample_trie = (None, {})" "served (tw_state sample_trie) = {IPV4}" "\<not> tw_stopping sample_trie" by simp_all
qed

abbreviation sample_ip :: address where "sample_ip \<equiv> \<lparr>addr_family = IPV4, addr_value = 1\<rparr>"

definition sample_hot :: "wire consumed_message" where
  "sample_hot = \<lparr>cm_topic = ts_name HOT_IP, cm_partition = 0, cm_offset = 4, cm_key = Some (lib_ip_text sample_library sample_ip),
     cm_value = (case bindE (transition_envelope sample_library 125 sample_config 3 sample_ip HOT 4000 8) (encode sample_library) of
        Inl _ \<Rightarrow> None | Inr doc \<Rightarrow> Some (raw_of_json doc)), cm_delivery_count = 1\<rparr>"

lemma sample_hot_decodes: "\<exists>p. tw_decode sample_library sample_hot = Inr (Some (True, p)) \<and> hi_ip p = sample_ip"
proof -
  have "lib_min_micros sample_library \<le> 125 * MICROS" "125 * MICROS \<le> lib_max_micros sample_library"
    by (simp_all add: sample_library_def MICROS_def)
  moreover have "config_version sample_config = 1" by code_simp
  ultimately obtain env doc where e: "transition_envelope sample_library 125 sample_config 3 sample_ip HOT 4000 8 = Inr env" "encode sample_library env = Inr doc"
    using transition_event[OF sample_library_ok sample_config_ok, of sample_ip 4000 8 125 3 HOT]
    by (auto simp: writable_small valid_address_def bit_length_def)
  have "valid_address sample_ip" by (simp add: valid_address_def bit_length_def)
  from transition_decodes[OF sample_library_ok this e] show ?thesis by (auto simp: tw_decode_def sample_hot_def e)
qed

lemma sample_hot_ok: "message_ok sample_hot" "fresh (tw_state sample_trie) sample_hot"
  by (simp_all add: message_ok_def sample_hot_def writable_small fresh_def sample_trie_def)

lemma sample_hot_effect: "log_effect sample_library {IPV4} sample_hot {} = {sample_ip}"
  using sample_hot_decodes by (auto simp: log_effect_def)

lemma sample_hot_applied: "expected_outcome sample_library (tw_state sample_trie) sample_hot = HIP_APPLIED"
  using sample_hot_decodes sample_trie_ok(2,3) by (auto simp: expected_outcome_def sample_hot_effect view_def)

text \<open>An edge announced over the in-memory store and bus: the one IP of the sample window goes COLD.\<close>

lemma sample_edge: "\<exists>t win' io'. em_evaluate sample_library memory_store_ops memory_producer_ops 125 sample_config sample_window sample_ip sample_io =
    (Inr (Some t), win', io') \<and> st_current (et_transition t) = COLD"
proof -
  have facts: "sw_state sample_window sample_ip = HOT" "evaluate_ip_state HOT (sw_total sample_window sample_ip) sample_config = COLD"
    "\<not> (sw_in_warmup sample_window 125 \<and> sw_is_inherited sample_window sample_ip)"
    "sw_shard sample_window = 3" "sw_next_sequence sample_window = 7" "config_version sample_config = 1"
    "0 \<le> sw_total sample_window sample_ip" "\<bar>sw_total sample_window sample_ip\<bar> \<le> 1000000" by code_simp+
  have "fst (sw_set_state (sample_window\<lparr>sw_next_sequence := 8\<rparr>) sample_ip COLD) = Inr ()" by code_simp
  then obtain w2 where set: "sw_set_state (sample_window\<lparr>sw_next_sequence := 8\<rparr>) sample_ip COLD = (Inr (), w2)" by (metis prod.collapse)
  have "lib_min_micros sample_library \<le> 125 * MICROS" "125 * MICROS \<le> lib_max_micros sample_library"
    by (simp_all add: sample_library_def MICROS_def)
  then obtain env doc where e: "transition_envelope sample_library 125 sample_config 3 sample_ip COLD (sw_total sample_window sample_ip) 7 = Inr env"
    "encode sample_library env = Inr doc"
    using transition_event[OF sample_library_ok sample_config_ok, of sample_ip "sw_total sample_window sample_ip" 7 125 3 COLD] facts(6-8)
    by (auto simp: writable_small valid_address_def bit_length_def)
  obtain st where "ms_record_transition (io_store sample_io) 3 sample_ip COLD 7 = (Inr (), st)" by (auto simp: ms_record_transition_def Let_def)
  then show ?thesis
    using facts set e by (auto simp: em_evaluate_def Let_def memory_store_ops_def memory_producer_ops_def)
qed

section \<open>Properties\<close>

text \<open>C2: The trie service is a function of the log. From any well-formed state, over any stream of messages
  (redelivered, malformed, of either family, in any order of offsets), interrupted by the stop signal, an
  exception of the stream, its end or a failed publish, the worker returns; its state is well formed;
  its position and HOT addresses are those of a prefix of the messages read through \<open>log_step\<close>; and all of
  them are read if it still waits.\<close>

theorem trie_follows_log:
  assumes "library_ok L" "ratio_ok L ratio" "dates_ok L" "tw_ok w" "tw_subscribed w" "\<forall>m \<in> set (received evs). message_ok m"
  shows "\<exists>r w' p' k. tw_run L ratio P evs w p = Some (r, w', p') \<and> tw_ok w' \<and>
    (trs_position (tw_state w'), trs_hot (tw_state w')) =
      fold (log_step L (served (tw_state w))) (take k (received evs)) (trs_position (tw_state w), trs_hot (tw_state w)) \<and>
    (r = Inr PUMP_WAITING \<longrightarrow> k = length (received evs))"
  using tw_pump_ok[OF assms(1-4,6), of P "\<lambda>_. False" p] assms(5) by (auto simp: tw_run_def view_def)

theorem trie_follows_log_witness:
  "\<exists>r w' p' k. tw_run sample_library sample_ratio memory_producer_ops [Received sample_hot, StopSignal] (sample_trie\<lparr>tw_subscribed := True\<rparr>) mb_new =
      Some (r, w', p') \<and> tw_ok w' \<and>
    (trs_position (tw_state w'), trs_hot (tw_state w')) = fold (log_step sample_library {IPV4}) (take k [sample_hot]) (None, {})"
proof -
  let ?w = "sample_trie\<lparr>tw_subscribed := True\<rparr>"
  have "tw_ok ?w" "served (tw_state ?w) = {IPV4}" "(trs_position (tw_state ?w), trs_hot (tw_state ?w)) = (None, {})"
    using sample_trie_ok(1-3) by (simp_all add: tw_ok_def view_def)
  moreover have "\<forall>m \<in> set (received [Received sample_hot, StopSignal]). message_ok m" using sample_hot_ok(1) by simp
  ultimately show ?thesis
    using trie_follows_log[OF sample_library_ok sample_ratio_ok sample_dates_ok, of ?w "[Received sample_hot, StopSignal]" memory_producer_ops mb_new]
    by (simp del: take_Suc_Cons) blast
qed

text \<open>One message, one outcome. Past the position, the worker applies exactly what the message says to the
  HOT addresses of the served families, moves its position to the message's offset and answers the
  outcome the decision table gives; it raises only when publishing the statistics of an applied event
  failed, and even then the state has moved. At or below the position nothing changes.\<close>

theorem trie_handle_outcome:
  assumes "library_ok L" "ratio_ok L ratio" "dates_ok L" "tw_ok w" "message_ok m" "\<not> tw_stopping w"
  shows "if fresh (tw_state w) m
    then \<exists>r w' p'. tw_handle L ratio P w m p = Some (r, w', p') \<and> tw_ok w' \<and> trs_position (tw_state w') = Some (cm_offset m) \<and>
      trs_hot (tw_state w') = log_effect L (served (tw_state w)) m (trs_hot (tw_state w)) \<and>
      (r = Inr (expected_outcome L (tw_state w) m) \<or>
       r = Inl PrefixStatsPublishError \<and> expected_outcome L (tw_state w) m = HIP_APPLIED) \<and>
      (expected_outcome L (tw_state w) m \<noteq> HIP_APPLIED \<longrightarrow> p' = p)
    else tw_handle L ratio P w m p = Some (Inr HIP_REDELIVERED, w, p)"
proof (cases "fresh (tw_state w) m")
  case True
  then show ?thesis using tw_handle_ok[OF assms(1-4) True _ _ assms(6), of P p] assms(5) by (auto simp: message_ok_def followed_def)
next
  case False
  then show ?thesis using tw_handle_redelivered[OF False assms(6)] by simp
qed

theorem trie_handle_outcome_witness:
  "\<exists>r w' p'. tw_handle sample_library sample_ratio memory_producer_ops sample_trie sample_hot mb_new = Some (r, w', p') \<and> tw_ok w' \<and>
     trs_position (tw_state w') = Some 4 \<and> trs_hot (tw_state w') = {sample_ip}"
  using trie_handle_outcome[OF sample_library_ok sample_ratio_ok sample_dates_ok sample_trie_ok(1) sample_hot_ok(1) sample_trie_ok(4),
      of memory_producer_ops mb_new] sample_trie_ok(2,3) sample_hot_ok(2) sample_hot_effect
  by (auto simp: view_def sample_hot_def)

text \<open>C11: The statistics of an event are exact. The messages prepared for an applied event are one per ancestor
  prefix of its address, from the family's minimum length down to the host route; each decodes to the
  prefix, the number of HOT addresses under it in the state the event produced, the number of addresses
  it spans and the event's sequence, and is keyed by the prefix.\<close>

theorem prefix_stats_exact:
  assumes "library_ok L" "ratio_ok L ratio" "dates_ok L" "tw_ok w" "message_ok m"
    and "tw_handle_sync L ratio w m = Some (Inr (HIP_APPLIED, Some pp), w')"
  shows "\<exists>added p l. tw_decode L m = Inr (Some (added, p)) \<and> map_of (tw_min_lengths w) (addr_family (hi_ip p)) = Some l \<and>
    int (length (pp_messages pp)) = bit_length (addr_family (hi_ip p)) - l + 1 \<and>
    (\<forall>i < length (pp_messages pp). \<exists>env q. decode L (sm_value (pp_messages pp ! i)) = Inr env \<and> env_payload env = PrefixStatsChanged q \<and>
       prefix_text L (prefix_at (addr_family (hi_ip p)) (addr_value (hi_ip p)) (l + int i)) = Inr (psc_prefix q) \<and>
       psc_hot_count q = int (card {a \<in> trs_hot (tw_state w'). addr_family a = addr_family (hi_ip p) \<and>
         agree (bit_length (addr_family a)) (l + int i) (addr_value a) (addr_value (hi_ip p))}) \<and>
       psc_capacity q = 2 ^ nat (bit_length (addr_family (hi_ip p)) - (l + int i)) \<and> psc_sequence q = cm_offset m + 1 \<and>
       sm_key (pp_messages pp ! i) = psc_prefix q)"
proof -
  obtain added p where d: "tw_decode L m = Inr (Some (added, p))"
    and st: "stats_for L ratio (tw_min_lengths w) (family_values (addr_family (hi_ip p)) (trs_hot (tw_state w'))) (hi_ip p) (cm_offset m + 1)
      (config_version (trs_config (tw_state w))) (hi_timestamp p) pp"
    using tw_handle_sync_ok[OF assms(1-4) sync_outcome_fresh[OF assms(6)]] assms(5,6) by (auto simp: message_ok_def)
  let ?f = "addr_family (hi_ip p)" and ?v = "addr_value (hi_ip p)"
  let ?H = "family_values ?f (trs_hot (tw_state w'))"
  obtain l where l: "map_of (tw_min_lengths w) ?f = Some l"
    "list_all2 (\<lambda>k. reports L ratio (cm_offset m + 1) (config_version (trs_config (tw_state w))) (hi_timestamp p) (ancestor_report ?f ?H ?v k))
       [l .. bit_length ?f] (pp_messages pp)"
    using st by (auto simp: stats_for_def)
  have le: "l \<le> bit_length ?f" using assms(4) l(1) by (auto simp: tw_ok_def lengths_ok_def) (metis option.inject)
  have len: "length (pp_messages pp) = nat (bit_length ?f - l + 1)" using list_all2_lengthD[OF l(2)] by simp
  have card: "hot_below (bit_length ?f) ?H k ?v = int (card {a \<in> trs_hot (tw_state w'). addr_family a = ?f \<and>
      agree (bit_length (addr_family a)) k (addr_value a) ?v})" for k
    unfolding hot_below_family by (rule arg_cong[of _ _ "\<lambda>A. int (card A)"]) auto
  have "\<exists>env q. decode L (sm_value (pp_messages pp ! i)) = Inr env \<and> env_payload env = PrefixStatsChanged q \<and>
       prefix_text L (prefix_at ?f ?v (l + int i)) = Inr (psc_prefix q) \<and> psc_hot_count q = hot_below (bit_length ?f) ?H (l + int i) ?v \<and>
       psc_capacity q = 2 ^ nat (bit_length ?f - (l + int i)) \<and> psc_sequence q = cm_offset m + 1 \<and> sm_key (pp_messages pp ! i) = psc_prefix q"
    if "i < length (pp_messages pp)" for i
  proof -
    have i: "i < length [l .. bit_length ?f]" "[l .. bit_length ?f] ! i = l + int i" "l + int i \<le> bit_length ?f"
      using that le by (simp_all add: len nth_upto)
    show ?thesis using report_read[OF _ i(3)] list_all2_nthD[OF l(2) i(1)] unfolding i(2) by meson
  qed
  then show ?thesis using d l(1) le len card by (intro exI[of _ added] exI[of _ p] exI[of _ l]) simp
qed

theorem prefix_stats_exact_witness:
  "\<exists>pp w' env q. tw_handle_sync sample_library sample_ratio sample_trie sample_hot = Some (Inr (HIP_APPLIED, Some pp), w') \<and>
     length (pp_messages pp) = 25 \<and> decode sample_library (sm_value (pp_messages pp ! 24)) = Inr env \<and>
     env_payload env = PrefixStatsChanged q \<and> psc_capacity q = 1 \<and> psc_sequence q = 5"
proof -
  have "publishes sample_trie sample_hot" by (simp add: publishes_def sample_trie_def sample_hot_def)
  then obtain pp w' where run: "tw_handle_sync sample_library sample_ratio sample_trie sample_hot = Some (Inr (HIP_APPLIED, Some pp), w')"
    using tw_handle_sync_ok[OF sample_library_ok sample_ratio_ok sample_dates_ok sample_trie_ok(1) sample_hot_ok(2)] sample_hot_ok(1) sample_hot_applied
    by (auto simp: message_ok_def)
  obtain p where p: "tw_decode sample_library sample_hot = Inr (Some (True, p))" "hi_ip p = sample_ip" using sample_hot_decodes by blast
  have len: "map_of (tw_min_lengths sample_trie) IPV4 = Some 8" "cm_offset sample_hot = 4" by (simp_all add: sample_trie_def sample_hot_def)
  note ex = prefix_stats_exact[OF sample_library_ok sample_ratio_ok sample_dates_ok sample_trie_ok(1) sample_hot_ok(1) run]
  have n: "length (pp_messages pp) = 25" using ex p len by (auto simp: bit_length_def)
  have "\<exists>env q. decode sample_library (sm_value (pp_messages pp ! 24)) = Inr env \<and> env_payload env = PrefixStatsChanged q \<and>
      psc_capacity q = 1 \<and> psc_sequence q = 5"
    using ex p len n by (auto simp: bit_length_def dest!: spec[of _ "24::nat"])
  then show ?thesis using run n by blast
qed

text \<open>C12: A start rebuilds the trie from the log. Over the in-memory bus, whatever the log of HOT/COLD events
  holds, \<open>start\<close> on a new worker returns, caught up, with its position at the log end and its HOT
  addresses exactly what the whole log says of the served families.\<close>

theorem start_rebuilds:
  assumes "library_ok L" "ratio_ok L ratio" "dates_ok L" "trs_new fams config = Inr s" "tw_new s lengths = Inr w"
    "writable (config_version config)" "int (length (mb_logs b (ts_name HOT_IP))) < 10 ^ INT_STR_DIGITS"
  shows "\<exists>w' b'. tw_start L ratio memory_producer_ops memory_log_reads b w b = Some (Inr True, w', b') \<and> caught_up w' \<and> tw_ok w' \<and>
    event_sequence (tw_state w') = end_offset b (ts_name HOT_IP) \<and>
    trs_hot (tw_state w') = fold (log_effect L fams) (log_messages b (ts_name HOT_IP) (length (mb_logs b (ts_name HOT_IP)))) {}"
proof -
  have "reliable memory_producer_ops" by (simp add: reliable_def memory_producer_ops_def)
  from start_memory[OF this assms(1-3) _ _ _ _ assms(7)] tw_new_ok[OF assms(4-6)] show ?thesis by fastforce
qed

theorem start_rebuilds_witness:
  "\<exists>w' b'. tw_start sample_library sample_ratio memory_producer_ops memory_log_reads mb_new sample_trie mb_new = Some (Inr True, w', b') \<and>
     caught_up w' \<and> trs_hot (tw_state w') = {}"
proof -
  have "config_version sample_config = 1" by code_simp
  then have "writable (config_version sample_config)" by (simp add: writable_small)
  from start_rebuilds[OF sample_library_ok sample_ratio_ok sample_dates_ok sample_trie_new this, of mb_new]
  show ?thesis by (auto simp: mb_new_def log_messages_def)
qed

text \<open>C5: An edge of the aggregator reaches the trie. If the emitter announced a transition of an address over the
  in-memory bus under a new event id, a trie worker that has read the log up to there and serves the
  address's family turns the appended message into exactly that edge: the address is HOT in the trie
  if and only if the transition ended HOT, every other address is as before.\<close>

theorem edge_reaches_trie:
  assumes "library_ok L" "ratio_ok L ratio" "dates_ok L" "valid_address ip" "tw_ok w" "\<not> tw_stopping w"
    and "em_evaluate L S memory_producer_ops now config win ip io = (Inr (Some t), win', io')"
    and "\<forall>i. transition_envelope L now config (sw_shard win) ip (st_current (et_transition t)) (sw_total win ip) (sw_next_sequence win) = Inr i \<longrightarrow>
      event_id L i \<notin> bus_ids (io_producer io) (ts_name HOT_IP)"
    and "event_sequence (tw_state w) = end_offset (io_producer io) (ts_name HOT_IP)"
    and "writable (event_sequence (tw_state w) + 1)" "addr_family ip \<in> served (tw_state w)"
  shows "\<exists>r w' p'. tw_handle L ratio P w (message_at (io_producer io') (ts_name HOT_IP) (nat (event_sequence (tw_state w)))) p = Some (r, w', p') \<and>
    tw_ok w' \<and> event_sequence (tw_state w') = end_offset (io_producer io') (ts_name HOT_IP) \<and>
    trs_hot (tw_state w') = (if st_current (et_transition t) = HOT then insert ip (trs_hot (tw_state w)) else trs_hot (tw_state w) - {ip})"
proof -
  let ?T = "ts_name HOT_IP" and ?n = "length (mb_logs (io_producer io) (ts_name HOT_IP))" and ?new = "st_current (et_transition t)"
  obtain env doc where e: "transition_envelope L now config (sw_shard win) ip ?new (sw_total win ip) (sw_next_sequence win) = Inr env"
    "encode L env = Inr doc" "mb_logs (io_producer io') ?T = mb_logs (io_producer io) ?T @ [\<lparr>lr_key = Some (lib_ip_text L ip), lr_value = Some (raw_of_json doc)\<rparr>]"
    using emitted_message[OF assms(7,8)] by blast
  have n: "event_sequence (tw_state w) = int ?n" using assms(9) by (simp add: end_offset_def)
  let ?m = "message_at (io_producer io') ?T ?n"
  have m: "cm_offset ?m = int ?n" "cm_key ?m = Some (lib_ip_text L ip)" "cm_value ?m = Some (raw_of_json doc)"
    by (simp_all add: message_at_def e(3))
  obtain p' where "tw_decode L ?m = Inr (Some (?new = HOT, p'))" "hi_ip p' = ip"
    using transition_decodes[OF assms(1,4) e(1,2)] m by (auto simp: tw_decode_def)
  then have eff: "log_effect L (served (tw_state w)) ?m (trs_hot (tw_state w)) =
      (if ?new = HOT then insert ip (trs_hot (tw_state w)) else trs_hot (tw_state w) - {ip})"
    using assms(11) by (simp add: log_effect_def)
  have fr: "fresh (tw_state w) ?m" using n m(1) by (auto simp: fresh_def event_sequence_def split: option.splits)
  show ?thesis
    using tw_handle_ok[OF assms(1-3,5) fr _ _ assms(6), of P p] m(1) n assms(10) eff e(3)
    by (auto simp: followed_def event_sequence_def[of "tw_state _"] end_offset_def)
qed

theorem edge_reaches_trie_witness:
  "\<exists>t win' io' r w' p'. em_evaluate sample_library memory_store_ops memory_producer_ops 125 sample_config sample_window sample_ip sample_io =
      (Inr (Some t), win', io') \<and>
    tw_handle sample_library sample_ratio memory_producer_ops sample_trie (message_at (io_producer io') (ts_name HOT_IP) 0) mb_new = Some (r, w', p') \<and>
    trs_hot (tw_state w') = {} \<and> event_sequence (tw_state w') = end_offset (io_producer io') (ts_name HOT_IP)"
proof -
  obtain t win' io' where run: "em_evaluate sample_library memory_store_ops memory_producer_ops 125 sample_config sample_window sample_ip sample_io =
      (Inr (Some t), win', io')" "st_current (et_transition t) = COLD" using sample_edge by blast
  have "valid_address sample_ip" by (simp add: valid_address_def bit_length_def)
  moreover have "bus_ids (io_producer sample_io) (ts_name HOT_IP) = {}" "end_offset (io_producer sample_io) (ts_name HOT_IP) = 0"
    by (simp_all add: sample_io_def bus_ids_def mb_new_def end_offset_def)
  moreover have "event_sequence (tw_state sample_trie) = 0" by (simp add: sample_trie_def event_sequence_def)
  ultimately show ?thesis
    using edge_reaches_trie[OF sample_library_ok sample_ratio_ok sample_dates_ok _ sample_trie_ok(1,4) run(1), of memory_producer_ops mb_new]
      sample_trie_ok(2,3) run by (auto simp: writable_small view_def)
qed

end
