(* ===== verification/Rate_Limiter.thy ===== *)
theory Rate_Limiter
  imports Hammertime_Prelude Complex_Main "HOL-Library.AList"
begin

text \<open>
  The token buckets of the ingest service, \<open>hammertime.ingest.ratelimit\<close>. The \<open>OrderedDict\<close> is an
  association list, least recently touched key first. A number is its value, \<open>None\<close> for an infinity or
  a NaN; arithmetic is exact, as the code's floats are for the integer limits, bursts and costs of the
  request and observation budgets. The exception \<open>RateLimitExceeded\<close> carries the time to wait, so it is
  an answer of its own. The main result is the budget: over any stretch of time a key is granted at
  most its capacity and what its rate refills.
\<close>

section \<open>Buckets\<close>

type_synonym number = "rat option"

record bucket =
  bk_tokens :: rat
  bk_last_refill :: int

record rate_limiter =
  rl_max_keys :: int
  rl_buckets :: "(pystr \<times> bucket) list"

datatype rate_answer = Allowed | Exceeded rat

definition rl_new :: "int \<Rightarrow> rate_limiter result" where
  "rl_new max_keys = (if max_keys \<le> 0 then Inl ValueError else Inr \<lparr>rl_max_keys = max_keys, rl_buckets = []\<rparr>)"

definition rl_evict_if_full :: "int \<Rightarrow> (pystr \<times> bucket) list \<Rightarrow> (pystr \<times> bucket) list" where
  "rl_evict_if_full max_keys bs = (if int (length bs) \<ge> max_keys then tl bs else bs)"

definition positive :: "number \<Rightarrow> rat result" where
  "positive x = (case x of None \<Rightarrow> Inl ValueError | Some v \<Rightarrow> if v \<le> 0 then Inl ValueError else Inr v)"

text \<open>The bucket a call works on, and the others: created full, or refilled for the time elapsed.\<close>

definition rl_touch :: "rate_limiter \<Rightarrow> pystr \<Rightarrow> rat \<Rightarrow> rat \<Rightarrow> int \<Rightarrow> bucket \<times> (pystr \<times> bucket) list" where
  "rl_touch rl key rate cap now =
     (case map_of (rl_buckets rl) key of
        None \<Rightarrow> (\<lparr>bk_tokens = cap, bk_last_refill = now\<rparr>, rl_evict_if_full (rl_max_keys rl) (rl_buckets rl))
      | Some b \<Rightarrow>
          (let elapsed = now - bk_last_refill b in
           (if elapsed > 0 then \<lparr>bk_tokens = min cap (bk_tokens b + of_int elapsed * rate), bk_last_refill = now\<rparr> else b,
            AList.delete key (rl_buckets rl))))"

definition rl_check :: "rate_limiter \<Rightarrow> int \<Rightarrow> pystr \<Rightarrow> number \<Rightarrow> number \<Rightarrow> number option \<Rightarrow> rate_answer result \<times> rate_limiter" where
  "rl_check rl now key limit_rps cost capacity =
     (case bindE (positive limit_rps) (\<lambda>rate.
           bindE (positive (case capacity of None \<Rightarrow> limit_rps | Some c \<Rightarrow> c)) (\<lambda>cap.
           bindE (positive cost) (\<lambda>c. if c > cap then Inl ValueError else Inr (rate, cap, c)))) of
        Inl e \<Rightarrow> (Inl e, rl)
      | Inr (rate, cap, c) \<Rightarrow>
          (case rl_touch rl key rate cap now of
             (b, others) \<Rightarrow>
               if bk_tokens b < c
               then (Inr (Exceeded ((c - bk_tokens b) / rate)), rl\<lparr>rl_buckets := others @ [(key, b)]\<rparr>)
               else (Inr Allowed, rl\<lparr>rl_buckets := others @ [(key, b\<lparr>bk_tokens := bk_tokens b - c\<rparr>)]\<rparr>)))"

definition rl_allow :: "rate_limiter \<Rightarrow> int \<Rightarrow> pystr \<Rightarrow> number \<Rightarrow> number \<Rightarrow> number option \<Rightarrow> bool result \<times> rate_limiter" where
  "rl_allow rl now key limit_rps cost capacity =
     (case rl_check rl now key limit_rps cost capacity of
        (Inl e, rl') \<Rightarrow> (Inl e, rl')
      | (Inr Allowed, rl') \<Rightarrow> (Inr True, rl')
      | (Inr (Exceeded _), rl') \<Rightarrow> (Inr False, rl'))"

definition rl_reset :: "rate_limiter \<Rightarrow> pystr option \<Rightarrow> rate_limiter" where
  "rl_reset rl key = rl\<lparr>rl_buckets := (case key of None \<Rightarrow> [] | Some k \<Rightarrow> AList.delete k (rl_buckets rl))\<rparr>"

text \<open>The shared 429: an integer number of seconds, at least one.\<close>

definition retry_after_seconds :: "rat \<Rightarrow> int" where
  "retry_after_seconds retry_after = max 1 \<lceil>retry_after\<rceil>"

section \<open>The level of a key\<close>

text \<open>What a key may spend at a time under a rate and a capacity.\<close>

definition level :: "rat \<Rightarrow> rat \<Rightarrow> pystr \<Rightarrow> rate_limiter \<Rightarrow> int \<Rightarrow> rat" where
  "level rate cap key rl t = (case map_of (rl_buckets rl) key of
      None \<Rightarrow> cap
    | Some b \<Rightarrow> if t > bk_last_refill b then min cap (bk_tokens b + of_int (t - bk_last_refill b) * rate) else bk_tokens b)"

definition rl_ok :: "rat \<Rightarrow> pystr \<Rightarrow> rate_limiter \<Rightarrow> int \<Rightarrow> bool" where
  "rl_ok cap key rl t \<longleftrightarrow> distinct (map fst (rl_buckets rl)) \<and> 0 < rl_max_keys rl \<and>
     (\<forall>b. map_of (rl_buckets rl) key = Some b \<longrightarrow> 0 \<le> bk_tokens b \<and> bk_tokens b \<le> cap \<and> bk_last_refill b \<le> t)"

definition rl_keys :: "rate_limiter \<Rightarrow> pystr set" where
  "rl_keys rl = fst ` set (rl_buckets rl)"

lemma rl_ok_later: "rl_ok cap key rl t \<Longrightarrow> t \<le> t' \<Longrightarrow> rl_ok cap key rl t'"
  unfolding rl_ok_def by (meson order_trans)

lemma level_bounds:
  assumes "rl_ok cap key rl t" "0 < rate" "0 < cap"
  shows "0 \<le> level rate cap key rl t" "level rate cap key rl t \<le> cap"
  using assms by (auto simp: level_def rl_ok_def min_def split: option.splits)

lemma level_later:
  assumes "rl_ok cap key rl t" "0 < rate" "0 < cap" "t \<le> t'"
  shows "level rate cap key rl t' \<le> level rate cap key rl t + of_int (t' - t) * rate"
proof (cases "map_of (rl_buckets rl) key")
  case None
  then show ?thesis using assms by (simp add: level_def)
next
  case (Some b)
  then have b: "bk_tokens b \<le> cap" "bk_last_refill b \<le> t" using assms(1) by (auto simp: rl_ok_def)
  have split: "of_int (t' - bk_last_refill b) * rate = of_int (t - bk_last_refill b) * rate + of_int (t' - t) * rate"
    by (simp add: algebra_simps)
  have nn: "0 \<le> of_int (t' - t) * rate" using assms(2,4) by simp
  show ?thesis
  proof (cases "t > bk_last_refill b")
    case True
    then show ?thesis using Some assms(4) nn split by (simp add: level_def min_def)
  next
    case False
    then have "bk_last_refill b = t" using b by simp
    then show ?thesis using Some nn b by (simp add: level_def min_def)
  qed
qed

section \<open>One call\<close>

text \<open>The bucket limits of a call: its own capacity, or one second's worth.\<close>

definition call_capacity :: "number \<Rightarrow> number option \<Rightarrow> number" where
  "call_capacity limit_rps capacity = (case capacity of None \<Rightarrow> limit_rps | Some c \<Rightarrow> c)"

lemma map_of_append_single: "map_of (xs @ [(k, v)]) x = (case map_of xs x of None \<Rightarrow> if x = k then Some v else None | Some y \<Rightarrow> Some y)"
  by (simp add: map_add_def split: option.splits)

lemma map_of_tl: "distinct (map fst bs) \<Longrightarrow> map_of (tl bs) x = Some b \<Longrightarrow> map_of bs x = Some b"
  by (cases bs) (force dest: map_of_SomeD)+

lemma evict_facts:
  assumes "distinct (map fst bs)"
  shows "distinct (map fst (rl_evict_if_full n bs))" "fst ` set (rl_evict_if_full n bs) \<subseteq> fst ` set bs"
    "map_of (rl_evict_if_full n bs) x = Some b \<Longrightarrow> map_of bs x = Some b"
  using assms map_of_tl[OF assms] by (auto simp: rl_evict_if_full_def map_tl distinct_tl split: if_splits dest: list.set_sel(2)[rotated])

lemma check_own:
  assumes ok: "rl_ok cap key rl t" and pos: "0 < rate" "0 < cap" "0 < c" "c \<le> cap" and le: "t \<le> now"
    and cp: "call_capacity (Some rate) capacity = Some cap"
  shows "\<exists>rl'. rl_check rl now key (Some rate) (Some c) capacity =
      (Inr (if level rate cap key rl now < c then Exceeded ((c - level rate cap key rl now) / rate) else Allowed), rl') \<and>
    rl_ok cap key rl' now \<and> level rate cap key rl' now = level rate cap key rl now - (if level rate cap key rl now < c then 0 else c) \<and>
    rl_keys rl' \<subseteq> insert key (rl_keys rl) \<and> rl_max_keys rl' = rl_max_keys rl"
proof -
  obtain b others where t: "rl_touch rl key rate cap now = (b, others)" by fastforce
  have last: "bk_last_refill b = now" and tok: "bk_tokens b = level rate cap key rl now"
    using t ok le by (cases "map_of (rl_buckets rl) key"; auto simp: rl_touch_def level_def rl_ok_def Let_def split: if_splits)+
  have o: "distinct (map fst others)" "key \<notin> fst ` set others" "fst ` set others \<subseteq> rl_keys rl"
  proof -
    have d: "distinct (map fst (rl_buckets rl))" using ok by (simp add: rl_ok_def)
    show "distinct (map fst others)" "key \<notin> fst ` set others" "fst ` set others \<subseteq> rl_keys rl"
      using t evict_facts[OF d, of "rl_max_keys rl"] distinct_delete[OF d, of key]
      by (auto simp: rl_touch_def rl_keys_def Let_def AList.delete_eq map_of_eq_None_iff split: option.splits)
  qed
  have lv: "0 \<le> level rate cap key rl now" "level rate cap key rl now \<le> cap"
    using level_bounds[OF rl_ok_later[OF ok le]] pos by simp_all
  have none: "map_of others key = None" using o(2) by (simp add: map_of_eq_None_iff)
  have new: "map_of (others @ [(key, x)]) key = Some x" for x unfolding map_of_append_single none by simp
  have chk: "positive (Some rate) = Inr rate" "positive (call_capacity (Some rate) capacity) = Inr cap" "positive (Some c) = Inr c"
    using pos cp by (simp_all add: positive_def)
  have run: "rl_check rl now key (Some rate) (Some c) capacity =
      (if bk_tokens b < c then (Inr (Exceeded ((c - bk_tokens b) / rate)), rl\<lparr>rl_buckets := others @ [(key, b)]\<rparr>)
       else (Inr Allowed, rl\<lparr>rl_buckets := others @ [(key, b\<lparr>bk_tokens := bk_tokens b - c\<rparr>)]\<rparr>))"
    using chk pos(4) t by (simp add: rl_check_def call_capacity_def)
  have max: "0 < rl_max_keys rl" using ok by (simp add: rl_ok_def)
  have put: "rl_ok cap key (rl\<lparr>rl_buckets := others @ [(key, x)]\<rparr>) now \<and> level rate cap key (rl\<lparr>rl_buckets := others @ [(key, x)]\<rparr>) now = bk_tokens x \<and>
      rl_keys (rl\<lparr>rl_buckets := others @ [(key, x)]\<rparr>) \<subseteq> insert key (rl_keys rl)"
    if "bk_last_refill x = now" "0 \<le> bk_tokens x" "bk_tokens x \<le> cap" for x
    using that new[of x] o max by (auto simp: rl_ok_def level_def rl_keys_def)
  have "bk_tokens b - c \<le> cap" using lv(2) pos(3) tok by linarith
  then show ?thesis unfolding run tok[symmetric] using put[of b] put[of "b\<lparr>bk_tokens := bk_tokens b - c\<rparr>"] lv last tok by auto
qed

text \<open>A call for another key, with whatever arguments, leaves the level alone unless it evicts the key.\<close>

lemma touch_other:
  assumes "rl_touch rl k rate cap now = (b, others)" "k \<noteq> key" "distinct (map fst (rl_buckets rl))"
    and room: "int (card (insert k (rl_keys rl))) \<le> rl_max_keys rl"
  shows "map_of (others @ [(k, b')]) key = map_of (rl_buckets rl) key" "distinct (map fst (others @ [(k, b')]))"
    "fst ` set (others @ [(k, b')]) \<subseteq> insert k (rl_keys rl)"
proof -
  have "others = AList.delete k (rl_buckets rl)"
  proof (cases "map_of (rl_buckets rl) k")
    case None
    then have "k \<notin> rl_keys rl" by (simp add: rl_keys_def map_of_eq_None_iff)
    moreover have "card (rl_keys rl) = length (rl_buckets rl)"
      using assms(3) distinct_card[of "map fst (rl_buckets rl)"] by (simp add: rl_keys_def)
    ultimately have "int (length (rl_buckets rl)) < rl_max_keys rl" using room by (simp add: rl_keys_def)
    then have "others = rl_buckets rl" using assms(1) None by (auto simp: rl_touch_def rl_evict_if_full_def)
    with None show ?thesis by (simp add: delete_id map_of_eq_None_iff)
  qed (use assms(1) in \<open>simp add: rl_touch_def Let_def\<close>)
  note o = this
  have "map_of others key = map_of (rl_buckets rl) key" using assms(2) by (simp add: o delete_conv')
  then show "map_of (others @ [(k, b')]) key = map_of (rl_buckets rl) key"
    using assms(2) unfolding map_of_append_single by (simp split: option.splits)
  show "distinct (map fst (others @ [(k, b')]))" "fst ` set (others @ [(k, b')]) \<subseteq> insert k (rl_keys rl)"
    using distinct_delete[OF assms(3), of k] by (auto simp: o rl_keys_def AList.delete_eq)
qed

lemma check_other:
  assumes "k \<noteq> key" "rl_ok cap key rl t" "int (card (insert k (rl_keys rl))) \<le> rl_max_keys rl"
  shows "\<exists>r rl'. rl_check rl now k lr cost capacity = (r, rl') \<and> map_of (rl_buckets rl') key = map_of (rl_buckets rl) key \<and>
    rl_ok cap key rl' t \<and> rl_keys rl' \<subseteq> insert k (rl_keys rl) \<and> rl_max_keys rl' = rl_max_keys rl"
proof -
  have d: "distinct (map fst (rl_buckets rl))" using assms(2) by (simp add: rl_ok_def)
  have put: "map_of (rl_buckets rl') key = map_of (rl_buckets rl) key \<and> rl_ok cap key rl' t \<and> rl_keys rl' \<subseteq> insert k (rl_keys rl) \<and>
      rl_max_keys rl' = rl_max_keys rl"
    if "rl_touch rl k rate cp now = (b, others)" "rl' = rl\<lparr>rl_buckets := others @ [(k, b')]\<rparr>" for rate cp b others b' rl'
    using touch_other[OF that(1) assms(1) d assms(3), of b'] assms(2) that(2) by (auto simp: rl_ok_def rl_keys_def)
  show ?thesis
  proof (cases "bindE (positive lr) (\<lambda>rate. bindE (positive (case capacity of None \<Rightarrow> lr | Some c \<Rightarrow> c)) (\<lambda>cap.
      bindE (positive cost) (\<lambda>c. if c > cap then Inl ValueError else Inr (rate, cap, c))))")
    case (Inl e)
    then show ?thesis using assms(2) by (auto simp: rl_check_def)
  next
    case (Inr x)
    obtain rate cp c where x: "x = (rate, cp, c)" by (cases x)
    obtain b others where t: "rl_touch rl k rate cp now = (b, others)" by fastforce
    have "rl_check rl now k lr cost capacity =
        (if bk_tokens b < c then (Inr (Exceeded ((c - bk_tokens b) / rate)), rl\<lparr>rl_buckets := others @ [(k, b)]\<rparr>)
         else (Inr Allowed, rl\<lparr>rl_buckets := others @ [(k, b\<lparr>bk_tokens := bk_tokens b - c\<rparr>)]\<rparr>))"
      using Inr x t by (simp add: rl_check_def)
    then show ?thesis using put[OF t refl] by (cases "bk_tokens b < c") auto
  qed
qed

section \<open>Runs\<close>

text \<open>A call: the time, the key, the limit, the cost and the capacity.\<close>

type_synonym rate_call = "int \<times> pystr \<times> number \<times> number \<times> number option"

text \<open>What a sequence of calls grants to a key.\<close>

fun spent :: "pystr \<Rightarrow> rate_limiter \<Rightarrow> rate_call list \<Rightarrow> rat" where
  "spent key rl [] = 0"
| "spent key rl ((now, k, lr, cost, capacity) # calls) =
     (case rl_check rl now k lr cost capacity of
        (r, rl') \<Rightarrow> (if k = key \<and> r = Inr Allowed then the cost else 0) + spent key rl' calls)"

definition under :: "pystr \<Rightarrow> rat \<Rightarrow> rat \<Rightarrow> rate_call \<Rightarrow> bool" where
  "under key rate cap call = (case call of (now, k, lr, cost, capacity) \<Rightarrow>
     k = key \<longrightarrow> lr = Some rate \<and> call_capacity lr capacity = Some cap)"

lemma check_refused:
  assumes "call_capacity (Some rate) capacity = Some cap" "\<not> (\<exists>c. cost = Some c \<and> 0 < c \<and> c \<le> cap)" "0 < rate" "0 < cap"
  shows "rl_check rl now key (Some rate) cost capacity = (Inl ValueError, rl)"
  using assms by (auto simp: rl_check_def positive_def call_capacity_def not_le not_less split: option.splits)

lemma spent_bound:
  "rl_ok cap key rl t \<Longrightarrow> 0 < rate \<Longrightarrow> 0 < cap \<Longrightarrow> sorted (t # map fst calls) \<Longrightarrow> (\<forall>call \<in> set calls. under key rate cap call \<and> fst call \<le> u) \<Longrightarrow>
   t \<le> u \<Longrightarrow> int (card (rl_keys rl \<union> (fst \<circ> snd) ` set calls)) \<le> rl_max_keys rl \<Longrightarrow>
   spent key rl calls \<le> level rate cap key rl t + of_int (u - t) * rate"
proof (induction calls arbitrary: rl t)
  case Nil
  then show ?case using level_bounds[OF Nil.prems(1-3)] by simp
next
  case (Cons call calls)
  obtain now k lr cost capacity where call: "call = (now, k, lr, cost, capacity)" by (cases call)
  have le: "t \<le> now" "now \<le> u" and rest: "sorted (now # map fst calls)" "\<forall>call \<in> set calls. under key rate cap call \<and> fst call \<le> u"
    using Cons.prems(4,5) call by auto
  have ok: "rl_ok cap key rl now" using rl_ok_later[OF Cons.prems(1) le(1)] .
  have fin: "finite (rl_keys rl \<union> (fst \<circ> snd) ` set (call # calls))" by (simp add: rl_keys_def)
  have room: "int (card (rl_keys rl' \<union> (fst \<circ> snd) ` set calls)) \<le> rl_max_keys rl'"
    if "rl_keys rl' \<subseteq> insert k (rl_keys rl)" "rl_max_keys rl' = rl_max_keys rl" for rl'
  proof -
    have "rl_keys rl' \<union> (fst \<circ> snd) ` set calls \<subseteq> rl_keys rl \<union> (fst \<circ> snd) ` set (call # calls)" using that(1) call by auto
    from card_mono[OF fin this] show ?thesis using Cons.prems(7) that(2) by simp
  qed
  have lvl: "level rate cap key rl now + of_int (u - now) * rate \<le> level rate cap key rl t + of_int (u - t) * rate"
    using level_later[OF Cons.prems(1-3) le(1)] by (simp add: algebra_simps)
  show ?case
  proof (cases "k = key")
    case False
    have "insert k (rl_keys rl) \<subseteq> rl_keys rl \<union> (fst \<circ> snd) ` set (call # calls)" using call by auto
    from card_mono[OF fin this] have "int (card (insert k (rl_keys rl))) \<le> rl_max_keys rl" using Cons.prems(7) by simp
    from check_other[OF False ok this] obtain r rl' where r: "rl_check rl now k lr cost capacity = (r, rl')"
      "map_of (rl_buckets rl') key = map_of (rl_buckets rl) key" "rl_ok cap key rl' now" "rl_keys rl' \<subseteq> insert k (rl_keys rl)"
      "rl_max_keys rl' = rl_max_keys rl" by blast
    have "level rate cap key rl' now = level rate cap key rl now" using r(2) by (simp add: level_def)
    then show ?thesis using Cons.IH[OF r(3) Cons.prems(2,3) rest le(2) room[OF r(4,5)]] lvl False r(1) call by simp
  next
    case True
    then have lr: "lr = Some rate" "call_capacity (Some rate) capacity = Some cap" using Cons.prems(5) call by (auto simp: under_def)
    show ?thesis
    proof (cases "\<exists>c. cost = Some c \<and> 0 < c \<and> c \<le> cap")
      case False
      have "spent key rl (call # calls) = spent key rl calls" using check_refused[OF lr(2) False Cons.prems(2,3)] call lr True by simp
      moreover have "spent key rl calls \<le> level rate cap key rl now + of_int (u - now) * rate"
        using Cons.IH[OF ok Cons.prems(2,3) rest le(2) room[of rl]] by blast
      ultimately show ?thesis using lvl by linarith
    next
      case c: True
      then obtain c where c: "cost = Some c" "0 < c" "c \<le> cap" by blast
      let ?l = "level rate cap key rl now"
      obtain rl' where r: "rl_check rl now key (Some rate) (Some c) capacity = (Inr (if ?l < c then Exceeded ((c - ?l) / rate) else Allowed), rl')"
        "rl_ok cap key rl' now" "level rate cap key rl' now = ?l - (if ?l < c then 0 else c)" "rl_keys rl' \<subseteq> insert k (rl_keys rl)"
        "rl_max_keys rl' = rl_max_keys rl"
        using check_own[OF ok Cons.prems(2,3) c(2,3) order_refl lr(2)] True by blast
      show ?thesis using Cons.IH[OF r(2) Cons.prems(2,3) rest le(2) room[OF r(4,5)]] lvl r(1,3) True call lr c(1) by (simp split: if_splits)
    qed
  qed
qed

section \<open>Properties\<close>

text \<open>C13: The budget. Whatever calls are made for any keys, as long as the limiter need not evict and time does
  not run backwards, the cost a key is granted between two instants is at most its capacity plus what
  its rate refills in between.\<close>

theorem rate_limit_budget:
  assumes "rl_ok cap key rl t" "0 < rate" "0 < cap" "sorted (t # map fst calls)" "t \<le> u"
    "\<forall>call \<in> set calls. under key rate cap call \<and> fst call \<le> u" "int (card (rl_keys rl \<union> (fst \<circ> snd) ` set calls)) \<le> rl_max_keys rl"
  shows "spent key rl calls \<le> cap + of_int (u - t) * rate"
  using spent_bound[OF assms(1-4,6,5,7)] level_bounds(2)[OF assms(1-3)] by linarith

definition sample_limiter :: rate_limiter where
  "sample_limiter = \<lparr>rl_max_keys = 2, rl_buckets = [([97], \<lparr>bk_tokens = 1, bk_last_refill = 100\<rparr>)]\<rparr>"

theorem rate_limit_budget_witness:
  "spent [97] sample_limiter [(100, [97], Some 2, Some 1, Some (Some 5)), (101, [97], Some 2, Some 2, Some (Some 5))] \<le> 5 + 1 * 2"
  using rate_limit_budget[of 5 "[97]" sample_limiter 100 2
      "[(100, [97], Some 2, Some 1, Some (Some 5)), (101, [97], Some 2, Some 2, Some (Some 5))]" 101]
  by (simp add: rl_ok_def sample_limiter_def under_def call_capacity_def rl_keys_def)



end
