(* ===== verification/Ingest.thy ===== *)
theory Ingest
  imports Rate_Limiter Transition_Emitter
begin

text \<open>
  The ingest service's request pipeline: agent credentials (\<open>hammertime.ingest.auth.agents\<close> and
  \<open>middleware\<close>), validation (\<open>validation.limits\<close>, \<open>validation.addresses\<close>), the per-IP fan-out
  (\<open>publisher\<close>), deduplication (\<open>dedup.service\<close>) and the handler \<open>create_observation\<close>
  (\<open>api.routes\<close>). Libraries are parameters: the keyed hash of a token, the hash that picks a slot,
  \<open>json.loads\<close>, the JSON Schema validator and the request model. A body is its list of bytes, read in
  chunks; a header that is absent or that \<open>int\<close> refuses is \<open>None\<close>. Time is exact to the microsecond.
  An unhandled exception, the server's 500, is \<open>Inl\<close>. A request is handled in one step: the code's awaits
  are reading the body, the claim, which is atomic in the store, and the publish. Response bodies and
  logging are not modelled.
\<close>

section \<open>Agent credentials\<close>

record agent_record =
  ag_agent_id :: pystr
  ag_token_hash :: pystr
  ag_previous_token_hash :: "pystr option"
  ag_previous_token_expires_at :: "py_datetime option"
  ag_enabled :: bool
  ag_rate_limit_rps :: "int option"

definition check_agent_record :: "agent_record \<Rightarrow> agent_record result" where
  "check_agent_record r =
     (if (ag_previous_token_hash r \<noteq> None) \<noteq> (ag_previous_token_expires_at r \<noteq> None) then Inl ConfigurationError else Inr r)"

text \<open>The registry: a \<open>dict\<close> by agent id.\<close>

type_synonym agent_registry = "(pystr \<times> agent_record) list"

text \<open>\<open>timestamp()\<close> in microseconds; a naive date is read in the process's zone, taken to be UTC.\<close>

definition epoch_micros :: "py_datetime \<Rightarrow> int" where
  "epoch_micros d = dt_micros d - (case dt_offset d of None \<Rightarrow> 0 | Some off \<Rightarrow> off)"

definition registry_authenticate :: "(pystr \<Rightarrow> pystr) \<Rightarrow> agent_registry \<Rightarrow> int \<Rightarrow> pystr \<Rightarrow> pystr \<Rightarrow> agent_record result" where
  "registry_authenticate hash_token registry now agent_id token =
     (case map_of registry agent_id of
        None \<Rightarrow> Inl UnknownAgentError
      | Some r \<Rightarrow>
          let presented = hash_token token;
              current_matches = (presented = ag_token_hash r);
              previous_matches = (case ag_previous_token_hash r of
                  None \<Rightarrow> False
                | Some previous \<Rightarrow>
                    presented = previous \<and>
                    (case ag_previous_token_expires_at r of None \<Rightarrow> True | Some d \<Rightarrow> now * MICROS < epoch_micros d))
          in if \<not> (current_matches \<or> previous_matches) then Inl InvalidCredentialError
             else if \<not> ag_enabled r then Inl AgentDisabledError
             else Inr r)"

record http_request =
  rq_agent_id :: "pystr option"
  rq_authorization :: "pystr option"
  rq_forwarded_for :: "pystr list"
  rq_client :: "pystr option"
  rq_content_length :: "int option"
  rq_chunks :: "int list list"

definition BEARER_PREFIX :: pystr where "BEARER_PREFIX = py_lit ''Bearer ''"
definition MAX_AGENT_ID_LENGTH :: nat where "MAX_AGENT_ID_LENGTH = 128"
definition MAX_TOKEN_LENGTH :: nat where "MAX_TOKEN_LENGTH = 512"
definition NO_AGENT_ID_KEY :: pystr where "NO_AGENT_ID_KEY = py_lit ''-''"
definition AGENT_SLOT_COUNT :: int where "AGENT_SLOT_COUNT = 4096"
definition AGENT_SLOT_KEY_PREFIX :: pystr where "AGENT_SLOT_KEY_PREFIX = py_lit ''agent-slot:''"

definition extract_bearer_token :: "http_request \<Rightarrow> pystr result" where
  "extract_bearer_token rq =
     (case rq_authorization rq of
        None \<Rightarrow> Inl MissingCredentialError
      | Some header \<Rightarrow>
          if take (length BEARER_PREFIX) header \<noteq> BEARER_PREFIX then Inl MissingCredentialError
          else let token = drop (length BEARER_PREFIX) header in
            if token = [] then Inl MissingCredentialError
            else if length token > MAX_TOKEN_LENGTH then Inl OversizedCredentialError
            else Inr token)"

definition authenticate_request :: "(pystr \<Rightarrow> pystr) \<Rightarrow> agent_registry \<Rightarrow> int \<Rightarrow> http_request \<Rightarrow> pystr result" where
  "authenticate_request hash_token registry now rq =
     (case rq_agent_id rq of
        None \<Rightarrow> Inl MissingCredentialError
      | Some agent_id \<Rightarrow>
          if agent_id = [] then Inl MissingCredentialError
          else if length agent_id > MAX_AGENT_ID_LENGTH then Inl OversizedCredentialError
          else bindE (extract_bearer_token rq) (\<lambda>token.
               bindE (registry_authenticate hash_token registry now agent_id token) (\<lambda>r. Inr (ag_agent_id r))))"

definition agent_bucket_key :: "(pystr \<Rightarrow> int) \<Rightarrow> int \<Rightarrow> pystr option \<Rightarrow> pystr" where
  "agent_bucket_key slot_hash slot_count attempted =
     (case attempted of
        None \<Rightarrow> NO_AGENT_ID_KEY
      | Some a \<Rightarrow>
          if a = [] \<or> length a > MAX_AGENT_ID_LENGTH then NO_AGENT_ID_KEY
          else AGENT_SLOT_KEY_PREFIX @ int_text (slot_hash a mod slot_count))"

section \<open>The source of a request\<close>

text \<open>\<open>str.strip()\<close> and \<open>split(",")\<close> on the Latin-1 characters of a header.\<close>

definition is_space :: "int \<Rightarrow> bool" where
  "is_space c \<longleftrightarrow> c \<in> {9 .. 13} \<union> {28 .. 32} \<union> {133, 160}"

definition strip :: "pystr \<Rightarrow> pystr" where
  "strip s = rev (dropWhile is_space (rev (dropWhile is_space s)))"

fun split_on :: "int \<Rightarrow> pystr \<Rightarrow> pystr list" where
  "split_on sep [] = [[]]"
| "split_on sep (c # cs) = (if c = sep then [] # split_on sep cs else (case split_on sep cs of [] \<Rightarrow> [[c]] | w # ws \<Rightarrow> (c # w) # ws))"

text \<open>The header lines joined by a comma, split and stripped: each line's entries in turn.\<close>

definition forwarded_entries :: "pystr list \<Rightarrow> pystr list" where
  "forwarded_entries lines = filter (\<lambda>e. e \<noteq> []) (map strip (concat (map (split_on 44) lines)))"

definition resolve_source_address :: "py_library \<Rightarrow> int \<Rightarrow> http_request \<Rightarrow> pystr" where
  "resolve_source_address L hops rq =
     (let entries = forwarded_entries (rq_forwarded_for rq);
          peer = (case rq_client rq of None \<Rightarrow> py_lit ''unknown'' | Some host \<Rightarrow> host)
      in if hops > 0 \<and> int (length entries) \<ge> hops
         then (let candidate = entries ! (length entries - nat hops) in if lib_ip_parse L candidate = None then peer else candidate)
         else peer)"

text \<open>An IPv4-mapped IPv6 address is its IPv4 address; any other IPv6 address counts by its /64.\<close>

definition source_bucket_key :: "py_library \<Rightarrow> pystr \<Rightarrow> pystr" where
  "source_bucket_key L s =
     (case lib_ip_parse L s of
        None \<Rightarrow> s
      | Some a \<Rightarrow>
          if addr_family a = IPV6 then
            (if drop_bit 32 (addr_value a) = 65535
             then lib_ip_text L \<lparr>addr_family = IPV4, addr_value = take_bit 32 (addr_value a)\<rparr> @ py_lit ''/32''
             else lib_ip_text L \<lparr>addr_family = IPV6, addr_value = net_of 128 64 (addr_value a)\<rparr> @ py_lit ''/64'')
          else lib_ip_text L a @ py_lit ''/32'')"

section \<open>Validation\<close>

definition check_observation_count :: "int \<Rightarrow> int \<Rightarrow> unit result" where
  "check_observation_count n max_observations = guardE (n \<le> max_observations) TooManyObservationsError"

definition check_window_alignment :: "py_datetime \<Rightarrow> int \<Rightarrow> unit result" where
  "check_window_alignment window_start bucket =
     (let micros = epoch_micros window_start in
      if micros mod MICROS \<noteq> 0 then Inl UnalignedWindowError
      else if bucket = 0 then Inl ZeroDivisionError
      else if (micros div MICROS) mod bucket \<noteq> 0 then Inl UnalignedWindowError
      else Inr ())"

record observation_entry =
  oe_ip :: pystr
  oe_request_count :: int

record observation_request =
  orq_agent_id :: pystr
  orq_sequence :: int
  orq_window_start :: pystr
  orq_window_seconds :: int
  orq_observations :: "observation_entry list"

definition parse_window_start :: "py_library \<Rightarrow> pystr \<Rightarrow> py_datetime result" where
  "parse_window_start L s = (case lib_fromisoformat L s of
      None \<Rightarrow> Inl SchemaValidationError
    | Some d \<Rightarrow> Inr (if dt_offset d = None then d\<lparr>dt_offset := Some 0\<rparr> else d))"

definition to_request_observation :: "py_library \<Rightarrow> observation_request \<Rightarrow> int \<Rightarrow> request_observation result" where
  "to_request_observation L payload bucket =
     bindE (parse_window_start L (orq_window_start payload)) (\<lambda>window_start.
     bindE (check_window_alignment window_start bucket) (\<lambda>_.
     bindE (mapE (\<lambda>e. bindE (parse_address L (oe_ip e)) (\<lambda>a. Inr \<lparr>ob_ip = a, ob_request_count = oe_request_count e\<rparr>)) (orq_observations payload)) (\<lambda>obs.
       Inr \<lparr>ro_agent_id = orq_agent_id payload, ro_sequence = orq_sequence payload, ro_window_start = window_start,
            ro_window_seconds = orq_window_seconds payload, ro_observations = obs\<rparr>)))"

fun read_stream :: "int \<Rightarrow> int \<Rightarrow> int list list \<Rightarrow> int list result" where
  "read_stream max_bytes read [] = Inr []"
| "read_stream max_bytes read (chunk # chunks) =
     (let read' = read + int (length chunk) in
      if read' > max_bytes then Inl BodyTooLargeError
      else bindE (read_stream max_bytes read' chunks) (\<lambda>rest. Inr (chunk @ rest)))"

definition read_body_within_limit :: "http_request \<Rightarrow> int \<Rightarrow> int list result" where
  "read_body_within_limit rq max_bytes =
     (case rq_content_length rq of
        None \<Rightarrow> read_stream max_bytes 0 (rq_chunks rq)
      | Some n \<Rightarrow> if n > max_bytes then Inl BodyTooLargeError else read_stream max_bytes 0 (rq_chunks rq))"

section \<open>The fan-out\<close>

definition MAX_REQUEST_COUNT :: int where "MAX_REQUEST_COUNT = 1000000000"

definition coalesce_totals :: "observation list \<Rightarrow> (address \<times> int) list" where
  "coalesce_totals obs = fold (\<lambda>ob totals. AList.update (ob_ip ob)
     ((case map_of totals (ob_ip ob) of None \<Rightarrow> 0 | Some n \<Rightarrow> n) + ob_request_count ob) totals) obs []"

definition coalesce :: "observation list \<Rightarrow> observation list result" where
  "coalesce obs = mapE (\<lambda>(ip, n). if n > MAX_REQUEST_COUNT then Inl RequestCountOverflowError
     else Inr \<lparr>ob_ip = ip, ob_request_count = n\<rparr>) (coalesce_totals obs)"

definition observation_envelope :: "py_library \<Rightarrow> int \<Rightarrow> py_datetime \<Rightarrow> request_observation \<Rightarrow> observation \<Rightarrow> event_envelope" where
  "observation_envelope L version timestamp ob entry =
     \<lparr>env_agent_id = ro_agent_id ob, env_sequence = ro_sequence ob, env_event_type = T_OBSERVATION, env_config_version = version,
      env_timestamp = timestamp, env_payload = RequestObservation (ob\<lparr>ro_observations := [entry]\<rparr>),
      env_schema_version = SCHEMA_VERSION, env_subject = Some (lib_ip_text L (ob_ip entry))\<rparr>"

definition publish_one :: "py_library \<Rightarrow> 'p producer_ops \<Rightarrow> int \<Rightarrow> py_datetime \<Rightarrow> request_observation \<Rightarrow> observation \<Rightarrow> 'p \<Rightarrow> unit result \<times> 'p" where
  "publish_one L P version timestamp ob entry p =
     (let env = observation_envelope L version timestamp ob entry in
      case encode L env of
        Inl e \<Rightarrow> (Inl e, p)
      | Inr doc \<Rightarrow> po_publish P p (ts_name OBSERVATIONS) (lib_ip_text L (ob_ip entry)) (Some (raw_of_json doc)) (Some (event_id L env)))"

text \<open>\<open>gather\<close>: every entry is published, the first exception in order is raised.\<close>

fun publish_entries :: "py_library \<Rightarrow> 'p producer_ops \<Rightarrow> int \<Rightarrow> py_datetime \<Rightarrow> request_observation \<Rightarrow> observation list \<Rightarrow> 'p \<Rightarrow> unit result \<times> 'p" where
  "publish_entries L P version timestamp ob [] p = (Inr (), p)"
| "publish_entries L P version timestamp ob (entry # entries) p =
     (case publish_one L P version timestamp ob entry p of
        (r, p1) \<Rightarrow> (case publish_entries L P version timestamp ob entries p1 of
           (rs, p2) \<Rightarrow> ((case r of Inl e \<Rightarrow> Inl e | Inr _ \<Rightarrow> rs), p2)))"

definition publish_observation :: "py_library \<Rightarrow> 'p producer_ops \<Rightarrow> int \<Rightarrow> py_datetime \<Rightarrow> request_observation \<Rightarrow> 'p \<Rightarrow> unit result \<times> 'p" where
  "publish_observation L P version timestamp ob p =
     (case coalesce (ro_observations ob) of
        Inl e \<Rightarrow> (Inl e, p)
      | Inr entries \<Rightarrow>
          (case publish_entries L P version timestamp ob (filter (\<lambda>e. ob_request_count e > 0) entries) p of
             (Inl e, p') \<Rightarrow> (Inl e, p')
           | (Inr _, p') \<Rightarrow> po_flush P p'))"

section \<open>The handler\<close>

record ingest_settings =
  is_rate_limit_rps :: number
  is_max_body_bytes :: int
  is_max_observations :: int
  is_observation_rate_limit_eps :: number
  is_observation_burst :: int
  is_auth_failure_rate_per_min :: number
  is_auth_failure_burst :: int
  is_auth_failure_agent_rate_per_min :: number
  is_auth_failure_agent_burst :: int
  is_trusted_proxy_hops :: int

record ('d, 'p) ingest_state =
  in_ready :: bool
  in_settings :: ingest_settings
  in_registry :: agent_registry
  in_bucket_seconds :: int
  in_allowed_lateness_seconds :: int
  in_config_version :: int
  in_source_limiter :: rate_limiter
  in_agent_limiter :: rate_limiter
  in_rate_limiter :: rate_limiter
  in_observation_limiter :: rate_limiter
  in_dedup_store :: 'd
  in_producer :: 'p

text \<open>The libraries and protocols the handler calls.\<close>

record ('d, 'p) ingest_env =
  ie_library :: py_library
  ie_hash_token :: "pystr \<Rightarrow> pystr"
  ie_slot_hash :: "pystr \<Rightarrow> int"
  ie_json_loads :: "int list \<Rightarrow> raw option"
  ie_schema_valid :: "raw \<Rightarrow> bool"
  ie_model_validate :: "raw \<Rightarrow> observation_request option"
  ie_claim :: "'d \<Rightarrow> int \<Rightarrow> pystr \<Rightarrow> int \<Rightarrow> int \<Rightarrow> bool result \<times> 'd"
  ie_producer :: "'p producer_ops"

datatype http_response = Accepted202 | Duplicate200 | Refused int | Throttled string int

definition throttled_response :: "string \<Rightarrow> rat \<Rightarrow> http_response" where
  "throttled_response scope retry_after = Throttled scope (retry_after_seconds retry_after)"

text \<open>Outcome of the authentication dependency: the agent, or the response.\<close>

datatype auth_outcome = Authenticated pystr | AuthRefused http_response

definition per_second :: "number \<Rightarrow> number" where
  "per_second rate_per_min = map_option (\<lambda>r. r / 60) rate_per_min"

definition require_agent :: "('d, 'p) ingest_env \<Rightarrow> int \<Rightarrow> http_request \<Rightarrow> ('d, 'p) ingest_state \<Rightarrow> auth_outcome result \<times> ('d, 'p) ingest_state" where
  "require_agent E now rq s =
     (let st = in_settings s in
      case authenticate_request (ie_hash_token E) (in_registry s) now rq of
        Inr agent_id \<Rightarrow> (Inr (Authenticated agent_id), s)
      | Inl failure \<Rightarrow>
          let source_key = source_bucket_key (ie_library E) (resolve_source_address (ie_library E) (is_trusted_proxy_hops st) rq);
              agent_key = agent_bucket_key (ie_slot_hash E) AGENT_SLOT_COUNT (rq_agent_id rq)
          in (case rl_check (in_source_limiter s) now source_key (per_second (is_auth_failure_rate_per_min st)) (Some 1)
                     (Some (Some (of_int (is_auth_failure_burst st)))) of
                (Inl e, rl) \<Rightarrow> (Inl e, s\<lparr>in_source_limiter := rl\<rparr>)
              | (Inr (Exceeded wait), rl) \<Rightarrow> (Inr (AuthRefused (throttled_response ''auth-failures'' wait)), s\<lparr>in_source_limiter := rl\<rparr>)
              | (Inr Allowed, rl) \<Rightarrow>
                  let s1 = s\<lparr>in_source_limiter := rl\<rparr> in
                  (case rl_check (in_agent_limiter s1) now agent_key (per_second (is_auth_failure_agent_rate_per_min st)) (Some 1)
                          (Some (Some (of_int (is_auth_failure_agent_burst st)))) of
                     (Inl e, rl) \<Rightarrow> (Inl e, s1\<lparr>in_agent_limiter := rl\<rparr>)
                   | (Inr (Exceeded wait), rl) \<Rightarrow> (Inr (AuthRefused (throttled_response ''auth-failures'' wait)), s1\<lparr>in_agent_limiter := rl\<rparr>)
                   | (Inr Allowed, rl) \<Rightarrow>
                       (Inr (AuthRefused (Refused (if failure = AgentDisabledError then 403 else 401))), s1\<lparr>in_agent_limiter := rl\<rparr>))))"

text \<open>The body to a batch: every refusal of the handler between the request budget and the observation
  budget, as its status.\<close>

definition parse_batch :: "('d, 'p) ingest_env \<Rightarrow> ('d, 'p) ingest_state \<Rightarrow> pystr \<Rightarrow> http_request \<Rightarrow>
    (http_response + request_observation \<times> observation list) result" where
  "parse_batch E s agent_id rq =
     (case read_body_within_limit rq (is_max_body_bytes (in_settings s)) of
        Inl _ \<Rightarrow> Inr (Inl (Refused 413))
      | Inr body \<Rightarrow>
      (case ie_json_loads E body of
         None \<Rightarrow> Inr (Inl (Refused 400))
       | Some document \<Rightarrow>
           if (case document of
                 RDict es \<Rightarrow> (case field es ''observations'' of
                     Some (RList items) \<Rightarrow> check_observation_count (int (length items)) (is_max_observations (in_settings s)) \<noteq> Inr ()
                   | _ \<Rightarrow> False)
               | _ \<Rightarrow> False)
           then Inr (Inl (Refused 413))
           else if \<not> ie_schema_valid E document then Inr (Inl (Refused 400))
           else (case ie_model_validate E document of
                   None \<Rightarrow> Inr (Inl (Refused 400))
                 | Some payload \<Rightarrow>
                     if orq_agent_id payload \<noteq> agent_id then Inr (Inl (Refused 403))
                     else (case to_request_observation (ie_library E) payload (in_bucket_seconds s) of
                             Inl e \<Rightarrow> if e \<in> {SchemaValidationError, UnalignedWindowError, InvalidAddressError}
                                      then Inr (Inl (Refused 400)) else Inl e
                           | Inr ob \<Rightarrow>
                               (case coalesce (ro_observations ob) of
                                  Inl _ \<Rightarrow> Inr (Inl (Refused 400))
                                | Inr entries \<Rightarrow> Inr (Inr (ob, entries)))))))"

text \<open>The claim and the publish. \<open>timestamp\<close> is \<open>datetime.now(UTC)\<close>.\<close>

definition accept_batch :: "('d, 'p) ingest_env \<Rightarrow> int \<Rightarrow> py_datetime \<Rightarrow> pystr \<Rightarrow> request_observation \<Rightarrow> ('d, 'p) ingest_state \<Rightarrow>
    http_response result \<times> ('d, 'p) ingest_state" where
  "accept_batch E now timestamp agent_id ob s =
     (case ie_claim E (in_dedup_store s) now agent_id (ro_sequence ob) (in_allowed_lateness_seconds s + ro_window_seconds ob) of
        (Inl e, d) \<Rightarrow> (Inl e, s\<lparr>in_dedup_store := d\<rparr>)
      | (Inr False, d) \<Rightarrow> (Inr Duplicate200, s\<lparr>in_dedup_store := d\<rparr>)
      | (Inr True, d) \<Rightarrow>
          (case publish_observation (ie_library E) (ie_producer E) (in_config_version s) timestamp ob (in_producer s) of
             (Inl _, p) \<Rightarrow> (Inr (Refused 503), s\<lparr>in_dedup_store := d, in_producer := p\<rparr>)
           | (Inr _, p) \<Rightarrow> (Inr Accepted202, s\<lparr>in_dedup_store := d, in_producer := p\<rparr>)))"

definition effective_limit :: "('d, 'p) ingest_state \<Rightarrow> pystr \<Rightarrow> number" where
  "effective_limit s agent_id =
     (case map_of (in_registry s) agent_id of
        None \<Rightarrow> is_rate_limit_rps (in_settings s)
      | Some r \<Rightarrow> (case ag_rate_limit_rps r of None \<Rightarrow> is_rate_limit_rps (in_settings s) | Some n \<Rightarrow> Some (of_int n)))"

definition charge_and_accept :: "('d, 'p) ingest_env \<Rightarrow> int \<Rightarrow> py_datetime \<Rightarrow> pystr \<Rightarrow> request_observation \<Rightarrow> observation list \<Rightarrow>
    ('d, 'p) ingest_state \<Rightarrow> http_response result \<times> ('d, 'p) ingest_state" where
  "charge_and_accept E now timestamp agent_id ob entries s =
     (let cost = int (length entries); st = in_settings s in
      if cost > is_observation_burst st then (Inr (Refused 413), s)
      else (case rl_check (in_observation_limiter s) now agent_id (is_observation_rate_limit_eps st) (Some (of_int cost))
                   (Some (Some (of_int (is_observation_burst st)))) of
              (Inl e, rl) \<Rightarrow> (Inl e, s\<lparr>in_observation_limiter := rl\<rparr>)
            | (Inr (Exceeded wait), rl) \<Rightarrow> (Inr (throttled_response ''observations'' wait), s\<lparr>in_observation_limiter := rl\<rparr>)
            | (Inr Allowed, rl) \<Rightarrow> accept_batch E now timestamp agent_id ob (s\<lparr>in_observation_limiter := rl\<rparr>)))"

definition create_observation :: "('d, 'p) ingest_env \<Rightarrow> int \<Rightarrow> py_datetime \<Rightarrow> http_request \<Rightarrow> ('d, 'p) ingest_state \<Rightarrow>
    http_response result \<times> ('d, 'p) ingest_state" where
  "create_observation E now timestamp rq s =
     (if \<not> in_ready s then (Inr (Refused 503), s)
      else case require_agent E now rq s of
        (Inl e, s1) \<Rightarrow> (Inl e, s1)
      | (Inr (AuthRefused response), s1) \<Rightarrow> (Inr response, s1)
      | (Inr (Authenticated agent_id), s1) \<Rightarrow>
          (case rl_check (in_rate_limiter s1) now agent_id (effective_limit s1 agent_id) (Some 1) None of
             (Inl e, rl) \<Rightarrow> (Inl e, s1\<lparr>in_rate_limiter := rl\<rparr>)
           | (Inr (Exceeded wait), rl) \<Rightarrow> (Inr (throttled_response ''requests'' wait), s1\<lparr>in_rate_limiter := rl\<rparr>)
           | (Inr Allowed, rl) \<Rightarrow>
               let s2 = s1\<lparr>in_rate_limiter := rl\<rparr> in
               (case parse_batch E s2 agent_id rq of
                  Inl e \<Rightarrow> (Inl e, s2)
                | Inr (Inl response) \<Rightarrow> (Inr response, s2)
                | Inr (Inr (ob, entries)) \<Rightarrow> charge_and_accept E now timestamp agent_id ob entries s2)))"

definition ingest_apply_config :: "('d, 'p) ingest_state \<Rightarrow> detection_config \<Rightarrow> ('d, 'p) ingest_state" where
  "ingest_apply_config s config = s\<lparr>in_bucket_seconds := bucket_seconds config,
     in_allowed_lateness_seconds := allowed_lateness_seconds config, in_config_version := config_version config\<rparr>"

end
