(* ===== verification/Ingest_Correct.thy ===== *)
theory Ingest_Correct
  imports Ingest Message_Handling Dedup_Correct
begin

text \<open>
  What the ingest service promises: who is let in, that a refused request leaves no trace beyond the
  budgets it was charged to, and that an accepted batch is on the log as one message per distinct IP
  that the aggregator decodes to the IP's exact total.
\<close>

section \<open>Coalescing\<close>

definition ip_total :: "observation list \<Rightarrow> address \<Rightarrow> int" where
  "ip_total obs ip = sum_list (map ob_request_count (filter (\<lambda>ob. ob_ip ob = ip) obs))"

lemma coalesce_totals_snoc:
  "coalesce_totals (obs @ [ob]) = AList.update (ob_ip ob)
     ((case map_of (coalesce_totals obs) (ob_ip ob) of None \<Rightarrow> 0 | Some n \<Rightarrow> n) + ob_request_count ob) (coalesce_totals obs)"
  by (simp add: coalesce_totals_def)

lemma ip_total_snoc: "ip_total (obs @ [ob]) ip = ip_total obs ip + (if ob_ip ob = ip then ob_request_count ob else 0)"
  by (simp add: ip_total_def)

lemma ip_total_absent: "ip \<notin> ob_ip ` set obs \<Longrightarrow> ip_total obs ip = 0"
  unfolding ip_total_def by (subst filter_False) auto

lemma coalesce_totals_map:
  "map_of (coalesce_totals obs) ip = (if ip \<in> ob_ip ` set obs then Some (ip_total obs ip) else None)"
proof (induction obs arbitrary: ip rule: rev_induct)
  case Nil
  then show ?case by (simp add: coalesce_totals_def)
next
  case (snoc ob obs)
  then show ?case by (simp add: coalesce_totals_snoc update_conv' ip_total_snoc ip_total_absent)
qed

lemma coalesce_totals_distinct: "distinct (map fst (coalesce_totals obs))"
  by (induction obs rule: rev_induct) (simp_all add: coalesce_totals_snoc distinct_update coalesce_totals_def)

lemma coalesce_totals_mem: "(ip, n) \<in> set (coalesce_totals obs) \<longleftrightarrow> ip \<in> ob_ip ` set obs \<and> n = ip_total obs ip"
  unfolding map_of_eq_Some_iff[OF coalesce_totals_distinct, symmetric] coalesce_totals_map by auto

lemma coalesce_ok:
  assumes "coalesce obs = Inr entries"
  shows "distinct (map ob_ip entries)" "ob_ip ` set entries = ob_ip ` set obs"
    "\<forall>e \<in> set entries. ob_request_count e = ip_total obs (ob_ip e) \<and> ob_request_count e \<le> MAX_REQUEST_COUNT"
proof -
  have "list_all2 (\<lambda>t e. snd t \<le> MAX_REQUEST_COUNT \<and> e = \<lparr>ob_ip = fst t, ob_request_count = snd t\<rparr>) (coalesce_totals obs) entries"
    using assms unfolding coalesce_def mapE_eq_Inr by (rule list_all2_mono) (auto split: if_splits)
  then have es: "entries = map (\<lambda>t. \<lparr>ob_ip = fst t, ob_request_count = snd t\<rparr>) (coalesce_totals obs)"
    and small: "\<forall>t \<in> set (coalesce_totals obs). snd t \<le> MAX_REQUEST_COUNT"
    by (induction rule: list_all2_induct) auto
  have ips: "map ob_ip entries = map fst (coalesce_totals obs)" by (simp add: es)
  show "distinct (map ob_ip entries)" by (simp add: ips coalesce_totals_distinct)
  have "ip \<in> fst ` set (coalesce_totals obs) \<longleftrightarrow> ip \<in> ob_ip ` set obs" for ip
    using coalesce_totals_map[of obs ip] map_of_eq_None_iff[of "coalesce_totals obs" ip] by (simp split: if_splits)
  then show "ob_ip ` set entries = ob_ip ` set obs" using arg_cong[OF ips, of set] by auto
  show "\<forall>e \<in> set entries. ob_request_count e = ip_total obs (ob_ip e) \<and> ob_request_count e \<le> MAX_REQUEST_COUNT"
    using small by (auto simp: es coalesce_totals_mem)
qed

section \<open>Messages of a batch\<close>

text \<open>A record of the log that the aggregator's worker decodes to an entry of the batch, wherever and
  however often it is delivered.\<close>

definition carries :: "py_library \<Rightarrow> request_observation \<Rightarrow> observation \<Rightarrow> wire log_record \<Rightarrow> bool" where
  "carries L ob entry r \<longleftrightarrow> lr_key r = Some (lib_ip_text L (ob_ip entry)) \<and>
     (\<forall>m. cm_key m = lr_key r \<and> cm_value m = lr_value r \<longrightarrow>
        (\<exists>eid. wk_decode L m = Inr (Some (eid, ob\<lparr>ro_window_start := utc_of L (ro_window_start ob), ro_observations := [entry]\<rparr>, entry))))"

lemma encoded_carries:
  assumes "library_ok L" "date_ok L timestamp" "date_ok L (ro_window_start ob)" "valid_address (ob_ip entry)"
    and "encode L (observation_envelope L version timestamp ob entry) = Inr doc"
  shows "carries L ob entry \<lparr>lr_key = Some (lib_ip_text L (ob_ip entry)), lr_value = Some (raw_of_json doc)\<rparr>"
proof -
  let ?env = "observation_envelope L version timestamp ob entry"
  have "date_ok L (env_timestamp ?env)" "payload_ok L (env_payload ?env)"
    using assms(2-4) by (simp_all add: observation_envelope_def payload_ok_def MAX_OBSERVATIONS_def)
  from encode_decode[OF assms(1) this assms(5)] show ?thesis
    by (auto simp: carries_def wk_decode_def observation_envelope_def canon_envelope_def canon_payload_def Let_def)
qed

definition entry_id :: "py_library \<Rightarrow> int \<Rightarrow> py_datetime \<Rightarrow> request_observation \<Rightarrow> observation \<Rightarrow> pystr" where
  "entry_id L version timestamp ob entry = event_id L (observation_envelope L version timestamp ob entry)"

text \<open>The entries whose event id the bus has not seen, each id once: what the bus's own deduplication lets
  through.\<close>

fun unseen :: "('e \<Rightarrow> 'i) \<Rightarrow> 'i set \<Rightarrow> 'e list \<Rightarrow> 'e list" where
  "unseen ident seen [] = []"
| "unseen ident seen (e # es) = (if ident e \<in> seen then unseen ident seen es else e # unseen ident (insert (ident e) seen) es)"

lemma unseen_all: "distinct (map ident es) \<Longrightarrow> ident ` set es \<inter> seen = {} \<Longrightarrow> unseen ident seen es = es"
  by (induction es arbitrary: seen) auto

lemma unseen_none: "ident ` set es \<subseteq> seen \<Longrightarrow> unseen ident seen es = []"
  by (induction es arbitrary: seen) auto

lemma publish_one_memory:
  assumes "publish_one L memory_producer_ops version timestamp ob entry b = (Inr (), b')"
  shows "\<exists>doc. encode L (observation_envelope L version timestamp ob entry) = Inr doc \<and>
    bus_ids b' (ts_name OBSERVATIONS) = insert (entry_id L version timestamp ob entry) (bus_ids b (ts_name OBSERVATIONS)) \<and>
    mb_logs b' = (mb_logs b)(ts_name OBSERVATIONS := mb_logs b (ts_name OBSERVATIONS) @
      (if entry_id L version timestamp ob entry \<in> bus_ids b (ts_name OBSERVATIONS) then []
       else [\<lparr>lr_key = Some (lib_ip_text L (ob_ip entry)), lr_value = Some (raw_of_json doc)\<rparr>]))"
  using assms by (auto simp: publish_one_def entry_id_def memory_producer_ops_def mp_publish_def mb_append_def bus_ids_def Let_def
      split: sum.splits if_splits)

lemma publish_entries_memory:
  assumes "library_ok L" "date_ok L timestamp" "date_ok L (ro_window_start ob)"
  shows "\<forall>e \<in> set entries. valid_address (ob_ip e) \<Longrightarrow>
    publish_entries L memory_producer_ops version timestamp ob entries b = (Inr (), b') \<Longrightarrow>
    \<exists>rs. mb_logs b' = (mb_logs b)(ts_name OBSERVATIONS := mb_logs b (ts_name OBSERVATIONS) @ rs) \<and>
      list_all2 (carries L ob) (unseen (entry_id L version timestamp ob) (bus_ids b (ts_name OBSERVATIONS)) entries) rs"
proof (induction entries arbitrary: b)
  case Nil
  then show ?case by (intro exI[of _ "[]"]) simp
next
  case (Cons entry entries)
  let ?T = "ts_name OBSERVATIONS" and ?i = "entry_id L version timestamp ob"
  obtain r b1 where one: "publish_one L memory_producer_ops version timestamp ob entry b = (r, b1)" by fastforce
  obtain rr b2 where rest: "publish_entries L memory_producer_ops version timestamp ob entries b1 = (rr, b2)" by fastforce
  have ok: "r = Inr ()" "rr = Inr ()" "b2 = b'" using Cons.prems(2) one rest by (auto split: sum.splits)
  then obtain doc where doc: "encode L (observation_envelope L version timestamp ob entry) = Inr doc"
    and ids: "bus_ids b1 ?T = insert (?i entry) (bus_ids b ?T)"
    and logs: "mb_logs b1 = (mb_logs b)(?T := mb_logs b ?T @ (if ?i entry \<in> bus_ids b ?T then []
       else [\<lparr>lr_key = Some (lib_ip_text L (ob_ip entry)), lr_value = Some (raw_of_json doc)\<rparr>]))"
    using publish_one_memory[of L version timestamp ob entry b b1] one by blast
  obtain rs where rs: "mb_logs b' = (mb_logs b1)(?T := mb_logs b1 ?T @ rs)" "list_all2 (carries L ob) (unseen ?i (bus_ids b1 ?T) entries) rs"
    using Cons.IH[of b1] rest ok Cons.prems(1) by (metis list.set_intros(2))
  have "carries L ob entry \<lparr>lr_key = Some (lib_ip_text L (ob_ip entry)), lr_value = Some (raw_of_json doc)\<rparr>"
    using encoded_carries[OF assms _ doc] Cons.prems(1) by simp
  moreover have "insert (?i entry) (bus_ids b ?T) = bus_ids b ?T" if "?i entry \<in> bus_ids b ?T" using that by blast
  ultimately show ?case using rs ids logs
    by (cases "?i entry \<in> bus_ids b ?T") (simp add: exI[of _ rs], auto simp: intro!: exI[of _ "_ # rs"])
qed

section \<open>From the body to the batch\<close>

lemma parse_address_valid: "parse_address L s = Inr a \<Longrightarrow> valid_address a"
  by (auto simp: parse_address_def mk_address_def valid_address_def split: option.splits if_splits)

lemma to_request_observation_ok:
  assumes "dates_ok L" "to_request_observation L payload bucket = Inr ob"
  shows "ro_agent_id ob = orq_agent_id payload" "ro_sequence ob = orq_sequence payload" "date_ok L (ro_window_start ob)"
    "\<forall>x \<in> set (ro_observations ob). valid_address (ob_ip x)"
proof -
  let ?f = "\<lambda>e. bindE (parse_address L (oe_ip e)) (\<lambda>a. Inr \<lparr>ob_ip = a, ob_request_count = oe_request_count e\<rparr>)"
  obtain start obs where start: "parse_window_start L (orq_window_start payload) = Inr start"
    and obs: "mapE ?f (orq_observations payload) = Inr obs"
    and ob: "ob = \<lparr>ro_agent_id = orq_agent_id payload, ro_sequence = orq_sequence payload, ro_window_start = start,
            ro_window_seconds = orq_window_seconds payload, ro_observations = obs\<rparr>"
    using assms(2) unfolding to_request_observation_def bindE_eq_Inr by auto
  show "ro_agent_id ob = orq_agent_id payload" "ro_sequence ob = orq_sequence payload" by (simp_all add: ob)
  show "date_ok L (ro_window_start ob)"
    using assms(1) start by (auto simp: ob parse_window_start_def dates_ok_def date_ok_def split: option.splits if_splits)
  have "list_all2 (\<lambda>e x. \<exists>a. parse_address L (oe_ip e) = Inr a \<and> ob_ip x = a) (orq_observations payload) obs"
    using obs unfolding mapE_eq_Inr by (rule list_all2_mono) (auto simp: bindE_eq_Inr)
  then show "\<forall>x \<in> set (ro_observations ob). valid_address (ob_ip x)"
    using parse_address_valid by (fastforce simp: ob list_all2_conv_all_nth in_set_conv_nth)
qed

section \<open>Credentials\<close>

text \<open>The request presents, for a registered agent, a token whose hash is the agent's current one or a
  previous one that has not expired.\<close>

definition token_matches :: "(pystr \<Rightarrow> pystr) \<Rightarrow> int \<Rightarrow> agent_record \<Rightarrow> pystr \<Rightarrow> bool" where
  "token_matches hash_token now r token \<longleftrightarrow> hash_token token = ag_token_hash r \<or>
     ag_previous_token_hash r = Some (hash_token token) \<and>
       (\<forall>d. ag_previous_token_expires_at r = Some d \<longrightarrow> now * MICROS < epoch_micros d)"

definition presents :: "(pystr \<Rightarrow> pystr) \<Rightarrow> agent_registry \<Rightarrow> int \<Rightarrow> http_request \<Rightarrow> agent_record \<Rightarrow> bool" where
  "presents hash_token registry now rq r \<longleftrightarrow> (\<exists>agent_id token.
     rq_agent_id rq = Some agent_id \<and> agent_id \<noteq> [] \<and> length agent_id \<le> MAX_AGENT_ID_LENGTH \<and>
     rq_authorization rq = Some (BEARER_PREFIX @ token) \<and> token \<noteq> [] \<and> length token \<le> MAX_TOKEN_LENGTH \<and>
     map_of registry agent_id = Some r \<and> token_matches hash_token now r token)"

lemma extract_bearer_token_iff:
  "extract_bearer_token rq = Inr token \<longleftrightarrow> rq_authorization rq = Some (BEARER_PREFIX @ token) \<and> token \<noteq> [] \<and> length token \<le> MAX_TOKEN_LENGTH"
proof (cases "rq_authorization rq")
  case (Some header)
  have "header = BEARER_PREFIX @ token \<longleftrightarrow> take (length BEARER_PREFIX) header = BEARER_PREFIX \<and> drop (length BEARER_PREFIX) header = token"
    by (metis append_eq_conv_conj append_take_drop_id)
  then show ?thesis using Some by (auto simp: extract_bearer_token_def Let_def)
qed (simp add: extract_bearer_token_def)

lemma registry_authenticate_eq:
  "registry_authenticate hash_token registry now agent_id token =
    (case map_of registry agent_id of None \<Rightarrow> Inl UnknownAgentError
     | Some r \<Rightarrow> if \<not> token_matches hash_token now r token then Inl InvalidCredentialError
         else if \<not> ag_enabled r then Inl AgentDisabledError else Inr r)"
  by (auto simp: registry_authenticate_def token_matches_def Let_def split: option.splits)

lemma authenticate_cases:
  assumes "authenticate_request hash_token registry now rq = x" "x \<in> range Inr \<union> {Inl AgentDisabledError}"
  shows "\<exists>r. presents hash_token registry now rq r \<and> x = (if ag_enabled r then Inr (ag_agent_id r) else Inl AgentDisabledError)"
proof -
  obtain agent_id where a: "rq_agent_id rq = Some agent_id" "agent_id \<noteq> []" "length agent_id \<le> MAX_AGENT_ID_LENGTH"
    using assms by (auto simp: authenticate_request_def split: option.splits if_splits)
  have "extract_bearer_token rq \<noteq> Inl AgentDisabledError" by (auto simp: extract_bearer_token_def Let_def split: option.splits if_splits)
  then obtain token where t: "extract_bearer_token rq = Inr token"
    using assms a by (cases "extract_bearer_token rq") (auto simp: authenticate_request_def)
  obtain r where "map_of registry agent_id = Some r" "token_matches hash_token now r token"
    "x = (if ag_enabled r then Inr (ag_agent_id r) else Inl AgentDisabledError)"
    using assms a t by (auto simp: authenticate_request_def registry_authenticate_eq split: option.splits if_splits)
  then show ?thesis using a t by (auto simp: presents_def extract_bearer_token_iff)
qed

lemma authenticate_presents:
  assumes "presents hash_token registry now rq r"
  shows "authenticate_request hash_token registry now rq = (if ag_enabled r then Inr (ag_agent_id r) else Inl AgentDisabledError)"
proof -
  obtain agent_id token where "rq_agent_id rq = Some agent_id" "agent_id \<noteq> []" "length agent_id \<le> MAX_AGENT_ID_LENGTH"
    "extract_bearer_token rq = Inr token" "map_of registry agent_id = Some r" "token_matches hash_token now r token"
    using assms unfolding presents_def extract_bearer_token_iff by blast
  then show ?thesis by (simp add: authenticate_request_def registry_authenticate_eq)
qed

lemma authenticate_exact:
  "authenticate_request hash_token registry now rq = Inr agent \<longleftrightarrow> (\<exists>r. presents hash_token registry now rq r \<and> ag_enabled r \<and> agent = ag_agent_id r)"
  "authenticate_request hash_token registry now rq = Inl AgentDisabledError \<longleftrightarrow> (\<exists>r. presents hash_token registry now rq r \<and> \<not> ag_enabled r)"
proof -
  note pres = authenticate_presents[of hash_token registry now rq]
  show "authenticate_request hash_token registry now rq = Inr agent \<longleftrightarrow> (\<exists>r. presents hash_token registry now rq r \<and> ag_enabled r \<and> agent = ag_agent_id r)"
  proof
    assume "authenticate_request hash_token registry now rq = Inr agent"
    from authenticate_cases[OF this] show "\<exists>r. presents hash_token registry now rq r \<and> ag_enabled r \<and> agent = ag_agent_id r"
      by (auto split: if_splits)
  qed (use pres in auto)
  show "authenticate_request hash_token registry now rq = Inl AgentDisabledError \<longleftrightarrow> (\<exists>r. presents hash_token registry now rq r \<and> \<not> ag_enabled r)"
  proof
    assume "authenticate_request hash_token registry now rq = Inl AgentDisabledError"
    from authenticate_cases[OF this] show "\<exists>r. presents hash_token registry now rq r \<and> \<not> ag_enabled r"
      by (auto split: if_splits)
  qed (use pres in auto)
qed

section \<open>The handler\<close>

text \<open>What is behind a request that got as far as the claim: it was authenticated and allowed its request, the
  body parsed to a batch, and the batch was within the burst and allowed.\<close>

definition admitted :: "('d, 'p) ingest_env \<Rightarrow> int \<Rightarrow> http_request \<Rightarrow> ('d, 'p) ingest_state \<Rightarrow> pystr \<Rightarrow> request_observation \<Rightarrow> observation list \<Rightarrow> bool" where
  "admitted E now rq s agent ob entries \<longleftrightarrow> in_ready s \<and> (\<exists>r. presents (ie_hash_token E) (in_registry s) now rq r \<and> ag_enabled r \<and> agent = ag_agent_id r) \<and>
     (\<exists>rl. rl_check (in_rate_limiter s) now agent (effective_limit s agent) (Some 1) None = (Inr Allowed, rl)) \<and>
     parse_batch E s agent rq = Inr (Inr (ob, entries)) \<and> int (length entries) \<le> is_observation_burst (in_settings s) \<and>
     (\<exists>rl. rl_check (in_observation_limiter s) now agent (is_observation_rate_limit_eps (in_settings s)) (Some (of_int (int (length entries))))
        (Some (Some (of_int (is_observation_burst (in_settings s))))) = (Inr Allowed, rl))"

lemma parse_batch_limiter [simp]: "parse_batch E (s\<lparr>in_rate_limiter := rl\<rparr>) agent rq = parse_batch E s agent rq"
proof -
  have same: "in_settings (s\<lparr>in_rate_limiter := rl\<rparr>) = in_settings s" "in_bucket_seconds (s\<lparr>in_rate_limiter := rl\<rparr>) = in_bucket_seconds s"
    by simp_all
  show ?thesis unfolding parse_batch_def same ..
qed

lemma require_agent_frame:
  assumes "require_agent E now rq s = (r, s')"
  shows "s' = s\<lparr>in_source_limiter := in_source_limiter s', in_agent_limiter := in_agent_limiter s'\<rparr>"
    "(\<exists>agent. r = Inr (Authenticated agent) \<and> s' = s \<and> authenticate_request (ie_hash_token E) (in_registry s) now rq = Inr agent) \<or>
     (\<exists>e. authenticate_request (ie_hash_token E) (in_registry s) now rq = Inl e) \<and> (\<forall>agent. r \<noteq> Inr (Authenticated agent)) \<and>
       r \<noteq> Inr (AuthRefused Accepted202) \<and> r \<noteq> Inr (AuthRefused Duplicate200)"
  using assms unfolding require_agent_def Let_def
  by (auto simp: throttled_response_def split: sum.splits prod.splits rate_answer.splits)

lemma parse_batch_response: "parse_batch E s agent rq = Inr (Inl response) \<Longrightarrow> \<exists>status. response = Refused status"
  unfolding parse_batch_def Let_def by (auto split: sum.splits option.splits raw.splits if_splits)

lemma accept_batch_frame:
  "accept_batch E now timestamp agent ob s = (r, s') \<Longrightarrow> s' = s\<lparr>in_dedup_store := in_dedup_store s', in_producer := in_producer s'\<rparr>"
  unfolding accept_batch_def by (auto split: sum.splits prod.splits bool.splits)

text \<open>A request either stops before the claim, touching nothing but budgets, or is admitted and its batch
  goes to the claim.\<close>

lemma handler_cases:
  assumes "create_observation E now timestamp rq s = (r, s')"
  obtains (stopped) "s' = s\<lparr>in_source_limiter := in_source_limiter s', in_agent_limiter := in_agent_limiter s',
        in_rate_limiter := in_rate_limiter s', in_observation_limiter := in_observation_limiter s'\<rparr>"
      "r \<noteq> Inr Accepted202" "r \<noteq> Inr Duplicate200"
  | (accepting) agent ob entries rl ol where "admitted E now rq s agent ob entries"
      "accept_batch E now timestamp agent ob (s\<lparr>in_rate_limiter := rl, in_observation_limiter := ol\<rparr>) = (r, s')"
proof (cases "in_ready s")
  case False
  then show ?thesis using assms stopped by (auto simp: create_observation_def)
next
  case ready: True
  obtain ra s1 where ra: "require_agent E now rq s = (ra, s1)" by fastforce
  note fr = require_agent_frame[OF ra]
  show ?thesis
  proof (cases "\<exists>agent. ra = Inr (Authenticated agent)")
    case False
    then have "s' = s1" "r \<noteq> Inr Accepted202" "r \<noteq> Inr Duplicate200"
      using assms ready ra fr(2) by (auto simp: create_observation_def split: sum.splits auth_outcome.splits)
    then show ?thesis using stopped fr(1) by simp
  next
    case True
    then obtain agent where agent: "ra = Inr (Authenticated agent)" "s1 = s"
      and auth: "authenticate_request (ie_hash_token E) (in_registry s) now rq = Inr agent" using fr(2) by auto
    obtain x rl where x: "rl_check (in_rate_limiter s) now agent (effective_limit s agent) (Some 1) None = (x, rl)" by fastforce
    show ?thesis
    proof (cases "x = Inr Allowed \<and> (\<exists>b. parse_batch E s agent rq = Inr (Inr b))")
      case False
      then have "s' = s\<lparr>in_rate_limiter := rl\<rparr>" "r \<noteq> Inr Accepted202" "r \<noteq> Inr Duplicate200"
        using assms ready ra agent x parse_batch_response[of E s agent rq]
        by (auto simp: create_observation_def Let_def throttled_response_def split: sum.splits rate_answer.splits)
      then show ?thesis using stopped by simp
    next
      case ok: True
      then obtain ob entries where b: "parse_batch E s agent rq = Inr (Inr (ob, entries))" by auto
      let ?s2 = "s\<lparr>in_rate_limiter := rl\<rparr>" and ?st = "in_settings s"
      have run: "charge_and_accept E now timestamp agent ob entries ?s2 = (r, s')"
        using assms ready ra agent x ok b by (simp add: create_observation_def Let_def)
      obtain y ol where y: "rl_check (in_observation_limiter s) now agent (is_observation_rate_limit_eps ?st) (Some (of_int (int (length entries))))
          (Some (Some (of_int (is_observation_burst ?st)))) = (y, ol)" by fastforce
      show ?thesis
      proof (cases "int (length entries) \<le> is_observation_burst ?st \<and> y = Inr Allowed")
        case False
        then show ?thesis using stopped run y
          by (auto simp: charge_and_accept_def Let_def throttled_response_def split: if_splits sum.splits rate_answer.splits)
      next
        case burst: True
        have "admitted E now rq s agent ob entries"
          unfolding admitted_def using ready auth x ok b y burst authenticate_exact(1) by blast
        then show ?thesis using accepting run y burst by (simp add: charge_and_accept_def Let_def)
      qed
    qed
  qed
qed

section \<open>Properties\<close>

lemma parse_batch_ok:
  assumes "parse_batch E s agent rq = Inr (Inr (ob, entries))"
  shows "\<exists>body document payload. read_body_within_limit rq (is_max_body_bytes (in_settings s)) = Inr body \<and> ie_json_loads E body = Some document \<and>
    ie_schema_valid E document \<and> ie_model_validate E document = Some payload \<and> orq_agent_id payload = agent \<and>
    to_request_observation (ie_library E) payload (in_bucket_seconds s) = Inr ob \<and> coalesce (ro_observations ob) = Inr entries"
  using assms unfolding parse_batch_def by (auto split: sum.splits option.splits if_splits)

lemma publish_observation_memory:
  assumes "library_ok L" "dates_ok L" "date_ok L timestamp" "to_request_observation L payload bucket = Inr ob"
    "publish_observation L memory_producer_ops version timestamp ob b = (Inr (), b')"
  shows "\<exists>entries rs. coalesce (ro_observations ob) = Inr entries \<and>
    mb_logs b' = (mb_logs b)(ts_name OBSERVATIONS := mb_logs b (ts_name OBSERVATIONS) @ rs) \<and>
    list_all2 (carries L ob) (unseen (entry_id L version timestamp ob) (bus_ids b (ts_name OBSERVATIONS))
      (filter (\<lambda>e. ob_request_count e > 0) entries)) rs"
proof -
  obtain entries where entries: "coalesce (ro_observations ob) = Inr entries"
    using assms(5) by (cases "coalesce (ro_observations ob)") (simp_all add: publish_observation_def)
  let ?es = "filter (\<lambda>e. ob_request_count e > 0) entries"
  have pub: "publish_entries L memory_producer_ops version timestamp ob ?es b = (Inr (), b')"
    using assms(5) entries by (auto simp: publish_observation_def memory_producer_ops_def split: prod.splits sum.splits)
  have "\<forall>e \<in> set ?es. valid_address (ob_ip e)"
    using to_request_observation_ok(4)[OF assms(2,4)] coalesce_ok(2)[OF entries] by force
  from publish_entries_memory[OF assms(1,3) to_request_observation_ok(3)[OF assms(2,4)] this pub] entries show ?thesis by blast
qed

text \<open>A small instance: one agent, one request with two counts for the same address, the in-memory store and bus.\<close>

definition sample_request :: http_request where
  "sample_request = \<lparr>rq_agent_id = Some [97], rq_authorization = Some (BEARER_PREFIX @ [116]), rq_forwarded_for = [], rq_client = None,
     rq_content_length = None, rq_chunks = [[1, 2], [3]]\<rparr>"

definition sample_payload :: observation_request where
  "sample_payload = \<lparr>orq_agent_id = [97], orq_sequence = 5, orq_window_start = [48], orq_window_seconds = 10,
     orq_observations = [\<lparr>oe_ip = [52, 53], oe_request_count = 2\<rparr>, \<lparr>oe_ip = [52, 53], oe_request_count = 3\<rparr>]\<rparr>"

definition sample_ob :: request_observation where
  "sample_ob = \<lparr>ro_agent_id = [97], ro_sequence = 5, ro_window_start = \<lparr>dt_micros = 0, dt_offset = Some 0\<rparr>, ro_window_seconds = 10,
     ro_observations = [\<lparr>ob_ip = \<lparr>addr_family = IPV4, addr_value = 5\<rparr>, ob_request_count = 2\<rparr>,
       \<lparr>ob_ip = \<lparr>addr_family = IPV4, addr_value = 5\<rparr>, ob_request_count = 3\<rparr>]\<rparr>"

definition sample_entry :: observation where
  "sample_entry = \<lparr>ob_ip = \<lparr>addr_family = IPV4, addr_value = 5\<rparr>, ob_request_count = 5\<rparr>"

definition sample_env :: "(memory_dedup, wire memory_bus) ingest_env" where
  "sample_env = \<lparr>ie_library = sample_library, ie_hash_token = (\<lambda>t. 104 # t), ie_slot_hash = (\<lambda>s. int (length s)),
     ie_json_loads = (\<lambda>body. if body = [1, 2, 3] then Some (RDict []) else None), ie_schema_valid = (\<lambda>d. True),
     ie_model_validate = (\<lambda>d. Some sample_payload),
     ie_claim = (\<lambda>d now agent q ttl. md_claim d now (map (\<lambda>c. char_of (nat c)) agent) q ttl), ie_producer = memory_producer_ops\<rparr>"

definition sample_agent :: agent_record where
  "sample_agent = \<lparr>ag_agent_id = [97], ag_token_hash = [104, 116], ag_previous_token_hash = None, ag_previous_token_expires_at = None,
     ag_enabled = True, ag_rate_limit_rps = None\<rparr>"

definition sample_ingest :: "(memory_dedup, wire memory_bus) ingest_state" where
  "sample_ingest = \<lparr>in_ready = True,
     in_settings = \<lparr>is_rate_limit_rps = Some 2, is_max_body_bytes = 4, is_max_observations = 10, is_observation_rate_limit_eps = Some 5, is_observation_burst = 10,
       is_auth_failure_rate_per_min = Some 30, is_auth_failure_burst = 10, is_auth_failure_agent_rate_per_min = Some 60, is_auth_failure_agent_burst = 20,
       is_trusted_proxy_hops = 0\<rparr>,
     in_registry = [([97], sample_agent)], in_bucket_seconds = 10, in_allowed_lateness_seconds = 60, in_config_version = 1,
     in_source_limiter = \<lparr>rl_max_keys = 9, rl_buckets = []\<rparr>, in_agent_limiter = \<lparr>rl_max_keys = 9, rl_buckets = []\<rparr>,
     in_rate_limiter = \<lparr>rl_max_keys = 9, rl_buckets = []\<rparr>, in_observation_limiter = \<lparr>rl_max_keys = 9, rl_buckets = []\<rparr>,
     in_dedup_store = \<lparr>md_max_agents = 9, md_windows = [], md_expires_at = [], md_expiry_heap = []\<rparr>, in_producer = mb_new\<rparr>"

lemma sample_batch: "parse_batch sample_env sample_ingest [97] sample_request = Inr (Inr (sample_ob, [sample_entry]))"
  by (simp add: parse_batch_def read_body_within_limit_def sample_env_def sample_ingest_def sample_request_def sample_payload_def field_def
      to_request_observation_def parse_window_start_def check_window_alignment_def epoch_micros_def parse_address_def mk_address_def
      sample_library_def read_digits_def bit_length_def coalesce_def coalesce_totals_def MAX_REQUEST_COUNT_def sample_ob_def sample_entry_def Let_def)

lemma sample_encodes: "\<exists>doc. encode sample_library (observation_envelope sample_library 1 (utc 7) sample_ob sample_entry) = Inr doc"
  by (simp add: sample_library_def observation_envelope_def sample_ob_def sample_entry_def encode_def KNOWN_EVENT_TYPES_def SCHEMA_VERSION_def
      format_timestamp_def to_utc_def utc_def encode_payload_def encode_request_observation_def bounded_integer_field_def range_violation_def
      encode_observation_def OBSERVATION_SEQUENCE_def OBSERVATION_WINDOW_SECONDS_def OBSERVATION_REQUEST_COUNT_def jkey_def nat_text.simps INT_STR_DIGITS_def Let_def)

lemma sample_admitted:
  "\<exists>s'. create_observation sample_env 100 (utc 7) sample_request sample_ingest = (Inr Accepted202, s')"
proof -
  have auth: "authenticate_request (ie_hash_token sample_env) (in_registry sample_ingest) 100 sample_request = Inr [97]"
    by (simp add: authenticate_request_def extract_bearer_token_def registry_authenticate_def sample_env_def sample_ingest_def sample_request_def
        sample_agent_def MAX_AGENT_ID_LENGTH_def MAX_TOKEN_LENGTH_def)
  obtain doc where doc: "encode sample_library (observation_envelope sample_library 1 (utc 7) sample_ob sample_entry) = Inr doc"
    using sample_encodes by blast
  have "publish_observation sample_library memory_producer_ops 1 (utc 7) sample_ob mb_new = (Inr (), b)" if
    "b = snd (publish_observation sample_library memory_producer_ops 1 (utc 7) sample_ob mb_new)" for b
    using that doc by (simp add: publish_observation_def coalesce_def coalesce_totals_def sample_ob_def sample_entry_def MAX_REQUEST_COUNT_def
        publish_one_def memory_producer_ops_def)
  note pub = this[OF refl]
  have claim: "\<exists>d. ie_claim sample_env (in_dedup_store sample_ingest) 100 [97] 5 70 = (Inr True, d)"
    by (simp add: sample_env_def sample_ingest_def md_claim_def md_has_seen_def md_mark_seen_def md_evict_if_full_def md_sweep.simps)
  then obtain d where claim: "ie_claim sample_env (in_dedup_store sample_ingest) 100 [97] 5 70 = (Inr True, d)" ..
  have sel: "in_ready sample_ingest" "effective_limit sample_ingest [97] = Some 2" "is_observation_burst (in_settings sample_ingest) = 10"
    "is_observation_rate_limit_eps (in_settings sample_ingest) = Some 5" "in_allowed_lateness_seconds sample_ingest = 60"
    "ro_sequence sample_ob = 5" "ro_window_seconds sample_ob = 10" "in_config_version sample_ingest = 1" "in_producer sample_ingest = mb_new"
    "ie_library sample_env = sample_library" "ie_producer sample_env = memory_producer_ops"
    "in_rate_limiter sample_ingest = \<lparr>rl_max_keys = 9, rl_buckets = []\<rparr>" "in_observation_limiter sample_ingest = \<lparr>rl_max_keys = 9, rl_buckets = []\<rparr>"
    by (simp_all add: sample_ingest_def sample_env_def sample_ob_def effective_limit_def sample_agent_def)
  obtain b where b: "publish_observation sample_library memory_producer_ops 1 (utc 7) sample_ob mb_new = (Inr (), b)" using pub ..
  show ?thesis using auth sample_batch b claim sel
    by (simp add: create_observation_def require_agent_def charge_and_accept_def accept_batch_def rl_check_def rl_touch_def positive_def Let_def)
qed

lemma accept_batch_claim:
  assumes "accept_batch E now timestamp agent ob s = (r, s')"
  shows "(in_producer s' = in_producer s \<and> r \<noteq> Inr Accepted202) \<or>
    (ie_claim E (in_dedup_store s) now agent (ro_sequence ob) (in_allowed_lateness_seconds s + ro_window_seconds ob) = (Inr True, in_dedup_store s') \<and>
     r \<in> {Inr Accepted202, Inr (Refused 503)})"
  using assms unfolding accept_batch_def by (auto split: sum.splits prod.splits bool.splits)

text \<open>C8: Nothing happens before the gates. Whatever the request, the handler changes only its limiters, the
  deduplication store and the log. If it touches the store or the log, or answers 202 or 200, the request
  presented a live credential of an enabled agent, was within the request budget, held a well-formed batch
  of that agent and was within the observation budget; and if it touches the log, the store had granted
  the batch's claim. So a duplicate, a refusal or a crash before the publish leaves the log as it was.\<close>

theorem ingest_effects_gated:
  assumes "create_observation E now timestamp rq s = (r, s')"
  shows "s' = s\<lparr>in_source_limiter := in_source_limiter s', in_agent_limiter := in_agent_limiter s', in_rate_limiter := in_rate_limiter s',
        in_observation_limiter := in_observation_limiter s', in_dedup_store := in_dedup_store s', in_producer := in_producer s'\<rparr> \<and>
    (in_dedup_store s' \<noteq> in_dedup_store s \<or> in_producer s' \<noteq> in_producer s \<or> r \<in> {Inr Accepted202, Inr Duplicate200} \<longrightarrow>
      (\<exists>agent ob entries. admitted E now rq s agent ob entries \<and>
        (in_producer s' \<noteq> in_producer s \<or> r = Inr Accepted202 \<longrightarrow> r \<in> {Inr Accepted202, Inr (Refused 503)} \<and>
          ie_claim E (in_dedup_store s) now agent (ro_sequence ob) (in_allowed_lateness_seconds s + ro_window_seconds ob) = (Inr True, in_dedup_store s'))))"
  using assms
proof (cases rule: handler_cases)
  case stopped
  have "in_dedup_store s' = in_dedup_store s" "in_producer s' = in_producer s" by (subst stopped(1), simp)+
  then show ?thesis using stopped by simp
next
  case (accepting agent ob entries rl ol)
  note acc = accept_batch_frame[OF accepting(2)] accept_batch_claim[OF accepting(2)]
  have "in_source_limiter s' = in_source_limiter s" "in_agent_limiter s' = in_agent_limiter s" "in_rate_limiter s' = rl" "in_observation_limiter s' = ol"
    by (subst acc(1), simp)+
  with acc(1) have "s' = s\<lparr>in_source_limiter := in_source_limiter s', in_agent_limiter := in_agent_limiter s', in_rate_limiter := in_rate_limiter s',
        in_observation_limiter := in_observation_limiter s', in_dedup_store := in_dedup_store s', in_producer := in_producer s'\<rparr>" by simp
  moreover have "in_producer s' \<noteq> in_producer s \<or> r = Inr Accepted202 \<longrightarrow> r \<in> {Inr Accepted202, Inr (Refused 503)} \<and>
      ie_claim E (in_dedup_store s) now agent (ro_sequence ob) (in_allowed_lateness_seconds s + ro_window_seconds ob) = (Inr True, in_dedup_store s')"
    using acc(2) by auto
  ultimately show ?thesis using accepting(1) by blast
qed

theorem ingest_effects_gated_witness:
  "\<exists>s' agent ob entries. create_observation sample_env 100 (utc 7) sample_request sample_ingest = (Inr Accepted202, s') \<and>
     admitted sample_env 100 sample_request sample_ingest agent ob entries"
proof -
  obtain s' where run: "create_observation sample_env 100 (utc 7) sample_request sample_ingest = (Inr Accepted202, s')" using sample_admitted by blast
  from ingest_effects_gated[OF run] show ?thesis using run by blast
qed

text \<open>C6: An accepted batch is on the log. If the answer is 202, the request was admitted, the batch names the
  authenticated agent, its claim was granted, and the observations topic has gained, in order and after
  what was there, one record for each distinct IP of the batch whose counts add up to more than zero and
  whose event id the bus had not seen. The aggregator decodes such a record, however delivered, to that
  IP with the exact sum of its counts in the batch. No other topic changes.\<close>

theorem ingest_batch_on_log:
  assumes "library_ok (ie_library E)" "dates_ok (ie_library E)" "date_ok (ie_library E) timestamp" "ie_producer E = memory_producer_ops"
    "create_observation E now timestamp rq s = (Inr Accepted202, s')"
  shows "\<exists>agent ob entries rs. admitted E now rq s agent ob entries \<and> ro_agent_id ob = agent \<and>
    ie_claim E (in_dedup_store s) now agent (ro_sequence ob) (in_allowed_lateness_seconds s + ro_window_seconds ob) = (Inr True, in_dedup_store s') \<and>
    distinct (map ob_ip entries) \<and> ob_ip ` set entries = ob_ip ` set (ro_observations ob) \<and>
    (\<forall>e \<in> set entries. ob_request_count e = ip_total (ro_observations ob) (ob_ip e)) \<and>
    mb_logs (in_producer s') = (mb_logs (in_producer s))(ts_name OBSERVATIONS := mb_logs (in_producer s) (ts_name OBSERVATIONS) @ rs) \<and>
    list_all2 (carries (ie_library E) ob) (unseen (entry_id (ie_library E) (in_config_version s) timestamp ob)
      (bus_ids (in_producer s) (ts_name OBSERVATIONS)) (filter (\<lambda>e. ob_request_count e > 0) entries)) rs"
  using assms(5)
proof (cases rule: handler_cases)
  case (accepting agent ob entries rl ol)
  let ?L = "ie_library E"
  have adm: "parse_batch E s agent rq = Inr (Inr (ob, entries))" using accepting(1) by (simp add: admitted_def)
  then obtain payload where pl: "orq_agent_id payload = agent" "to_request_observation ?L payload (in_bucket_seconds s) = Inr ob"
    and co: "coalesce (ro_observations ob) = Inr entries" using parse_batch_ok by blast
  have cl: "ie_claim E (in_dedup_store s) now agent (ro_sequence ob) (in_allowed_lateness_seconds s + ro_window_seconds ob) = (Inr True, in_dedup_store s')"
    using accept_batch_claim[OF accepting(2)] by simp
  then have "publish_observation ?L memory_producer_ops (in_config_version s) timestamp ob (in_producer s) = (Inr (), in_producer s')"
    using accepting(2) assms(4) by (auto simp: accept_batch_def split: prod.splits sum.splits dest: arg_cong[where f = in_producer])
  from publish_observation_memory[OF assms(1-3) pl(2) this] co obtain rs where
    "mb_logs (in_producer s') = (mb_logs (in_producer s))(ts_name OBSERVATIONS := mb_logs (in_producer s) (ts_name OBSERVATIONS) @ rs)"
    "list_all2 (carries ?L ob) (unseen (entry_id ?L (in_config_version s) timestamp ob) (bus_ids (in_producer s) (ts_name OBSERVATIONS))
      (filter (\<lambda>e. ob_request_count e > 0) entries)) rs" by auto
  moreover have "ro_agent_id ob = agent" using to_request_observation_ok(1)[OF assms(2) pl(2)] pl(1) by simp
  ultimately show ?thesis using accepting(1) cl coalesce_ok[OF co] by blast
qed simp

theorem ingest_batch_on_log_witness:
  "\<exists>s' ob rs. create_observation sample_env 100 (utc 7) sample_request sample_ingest = (Inr Accepted202, s') \<and>
     mb_logs (in_producer s') (ts_name OBSERVATIONS) = rs \<and> list_all2 (carries sample_library ob) [sample_entry] rs"
proof -
  obtain s' where run: "create_observation sample_env 100 (utc 7) sample_request sample_ingest = (Inr Accepted202, s')" using sample_admitted by blast
  have L: "ie_library sample_env = sample_library" "ie_producer sample_env = memory_producer_ops" by (simp_all add: sample_env_def)
  have hyp: "library_ok (ie_library sample_env)" "dates_ok (ie_library sample_env)" "date_ok (ie_library sample_env) (utc 7)"
    using sample_library_ok sample_dates_ok by (simp_all add: L date_ok_def utc_def sample_library_def)
  obtain agent ob entries rs where adm: "admitted sample_env 100 sample_request sample_ingest agent ob entries"
    and logs: "mb_logs (in_producer s') = (mb_logs (in_producer sample_ingest))(ts_name OBSERVATIONS := mb_logs (in_producer sample_ingest) (ts_name OBSERVATIONS) @ rs)"
    and carried: "list_all2 (carries sample_library ob) (unseen (entry_id sample_library (in_config_version sample_ingest) (utc 7) ob)
      (bus_ids (in_producer sample_ingest) (ts_name OBSERVATIONS)) (filter (\<lambda>e. ob_request_count e > 0) entries)) rs"
    using ingest_batch_on_log[OF hyp L(2) run] by (auto simp: L)
  have "agent = [97]" using adm by (auto simp: admitted_def presents_def sample_request_def sample_ingest_def sample_agent_def)
  then have "entries = [sample_entry]" using adm sample_batch by (simp add: admitted_def)
  moreover have "mb_logs (in_producer sample_ingest) (ts_name OBSERVATIONS) = []" "bus_ids (in_producer sample_ingest) (ts_name OBSERVATIONS) = {}"
    by (simp_all add: sample_ingest_def mb_new_def bus_ids_def)
  ultimately show ?thesis using run logs carried by (auto simp: sample_entry_def)
qed



lemma require_agent_alike:
  assumes "authenticate_request (ie_hash_token E) reg1 now rq = Inl e1" "authenticate_request (ie_hash_token E) reg2 now rq = Inl e2"
    "e1 \<noteq> AgentDisabledError" "e2 \<noteq> AgentDisabledError"
  shows "\<exists>r s'. require_agent E now rq (s\<lparr>in_registry := reg1\<rparr>) = (r, s'\<lparr>in_registry := reg1\<rparr>) \<and>
    require_agent E now rq (s\<lparr>in_registry := reg2\<rparr>) = (r, s'\<lparr>in_registry := reg2\<rparr>) \<and>
    ((\<exists>e. r = Inl e) \<or> r = Inr (AuthRefused (Refused 401)) \<or> (\<exists>scope n. r = Inr (AuthRefused (Throttled scope n))))"
proof -
  let ?src = "source_bucket_key (ie_library E) (resolve_source_address (ie_library E) (is_trusted_proxy_hops (in_settings s)) rq)"
  let ?agt = "agent_bucket_key (ie_slot_hash E) AGENT_SLOT_COUNT (rq_agent_id rq)"
  obtain x sl where x: "rl_check (in_source_limiter s) now ?src (per_second (is_auth_failure_rate_per_min (in_settings s))) (Some 1)
     (Some (Some (of_int (is_auth_failure_burst (in_settings s))))) = (x, sl)" by fastforce
  obtain y al where y: "rl_check (in_agent_limiter s) now ?agt (per_second (is_auth_failure_agent_rate_per_min (in_settings s))) (Some 1)
     (Some (Some (of_int (is_auth_failure_agent_burst (in_settings s))))) = (y, al)" by fastforce
  let ?t = "\<lambda>reg. require_agent E now rq (s\<lparr>in_registry := reg\<rparr>)"
  have run: "?t reg = (case x of Inl e \<Rightarrow> (Inl e, s\<lparr>in_source_limiter := sl, in_registry := reg\<rparr>)
       | Inr (Exceeded wait) \<Rightarrow> (Inr (AuthRefused (throttled_response ''auth-failures'' wait)), s\<lparr>in_source_limiter := sl, in_registry := reg\<rparr>)
       | Inr Allowed \<Rightarrow> ((case y of Inl e \<Rightarrow> Inl e | Inr (Exceeded wait) \<Rightarrow> Inr (AuthRefused (throttled_response ''auth-failures'' wait))
            | Inr Allowed \<Rightarrow> Inr (AuthRefused (Refused 401))), s\<lparr>in_source_limiter := sl, in_agent_limiter := al, in_registry := reg\<rparr>))"
    if "authenticate_request (ie_hash_token E) reg now rq = Inl e" "e \<noteq> AgentDisabledError" for reg e
    using that x y by (simp add: require_agent_def Let_def split: sum.splits rate_answer.splits)
  show ?thesis unfolding run[OF assms(1,3)] run[OF assms(2,4)]
    by (cases x; cases y) (auto simp: throttled_response_def split: rate_answer.splits)
qed

text \<open>C15: The answer does not tell which agents exist. For two registries neither of which holds a record whose
  live credential the request presents (the agent is unknown in one and has another token in the other,
  say), the handler gives the same answer, never 200, 202 or 403, and charges the same budgets.\<close>

theorem no_agent_oracle:
  assumes "\<forall>r. \<not> presents (ie_hash_token E) reg1 now rq r" "\<forall>r. \<not> presents (ie_hash_token E) reg2 now rq r"
  shows "\<exists>r s'. create_observation E now timestamp rq (s\<lparr>in_registry := reg1\<rparr>) = (r, s'\<lparr>in_registry := reg1\<rparr>) \<and>
    create_observation E now timestamp rq (s\<lparr>in_registry := reg2\<rparr>) = (r, s'\<lparr>in_registry := reg2\<rparr>) \<and>
    r \<notin> {Inr Accepted202, Inr Duplicate200, Inr (Refused 403)}"
proof (cases "in_ready s")
  case False
  then show ?thesis by (intro exI[of _ "Inr (Refused 503)"] exI[of _ s]) (simp add: create_observation_def)
next
  case True
  have "\<exists>e. authenticate_request (ie_hash_token E) reg now rq = Inl e \<and> e \<noteq> AgentDisabledError"
    if "\<forall>r. \<not> presents (ie_hash_token E) reg now rq r" for reg
    using that authenticate_exact[of "ie_hash_token E" reg now rq] by (cases "authenticate_request (ie_hash_token E) reg now rq") auto
  then obtain e1 e2 where "authenticate_request (ie_hash_token E) reg1 now rq = Inl e1" "e1 \<noteq> AgentDisabledError"
    "authenticate_request (ie_hash_token E) reg2 now rq = Inl e2" "e2 \<noteq> AgentDisabledError" using assms by meson
  from require_agent_alike[OF this(1,3,2,4), of s] obtain r s' where
    "require_agent E now rq (s\<lparr>in_registry := reg1\<rparr>) = (r, s'\<lparr>in_registry := reg1\<rparr>)"
    "require_agent E now rq (s\<lparr>in_registry := reg2\<rparr>) = (r, s'\<lparr>in_registry := reg2\<rparr>)"
    "(\<exists>e. r = Inl e) \<or> r = Inr (AuthRefused (Refused 401)) \<or> (\<exists>scope n. r = Inr (AuthRefused (Throttled scope n)))" by blast
  then show ?thesis using True by (auto simp: create_observation_def intro!: exI[of _ s'])
qed

theorem no_agent_oracle_witness:
  "fst (create_observation sample_env 100 (utc 7) (sample_request\<lparr>rq_authorization := None\<rparr>) (sample_ingest\<lparr>in_registry := []\<rparr>)) =
   fst (create_observation sample_env 100 (utc 7) (sample_request\<lparr>rq_authorization := None\<rparr>) (sample_ingest\<lparr>in_registry := [([97], sample_agent)]\<rparr>))"
proof -
  have "\<forall>r. \<not> presents (ie_hash_token sample_env) reg 100 (sample_request\<lparr>rq_authorization := None\<rparr>) r" for reg by (simp add: presents_def)
  from no_agent_oracle[OF this[of "[]"] this[of "[([97], sample_agent)]"], of "utc 7" sample_ingest] show ?thesis by auto
qed

text \<open>A fractional \<open>HAMMERTIME_INGEST_RATE_LIMIT_RPS\<close> below one passes the settings' check that it is positive,
  but a bucket of less than one token cannot pay for a request: every authenticated request fails.\<close>

lemma fractional_limit_fails:
  assumes "in_ready s" "presents (ie_hash_token E) (in_registry s) now rq r" "ag_enabled r"
    "effective_limit s (ag_agent_id r) = Some limit" "0 < limit" "limit < 1"
  shows "create_observation E now timestamp rq s = (Inl ValueError, s)"
proof -
  have "authenticate_request (ie_hash_token E) (in_registry s) now rq = Inr (ag_agent_id r)" using authenticate_presents[OF assms(2)] assms(3) by simp
  then show ?thesis using assms by (simp add: create_observation_def require_agent_def rl_check_def positive_def)
qed

end
