(* ===== verification/Agent_Registry.thy ===== *)
theory Agent_Registry
  imports Ingest_Correct
begin

text \<open>
  Loading the agent registry, \<open>hammertime.ingest.auth.agents\<close>: from the text of \<open>config/agents.v2.json\<close> to
  the records the ingest service authenticates against. The document is what \<open>json.loads\<close> builds, an
  object as its list of pairs in order, so its keys are strings; the fingerprint of the deployment key is
  a parameter. Digests are lists of bytes. The main result: in a registry that loads, one token never
  authenticates as two agents.
\<close>

section \<open>Fields\<close>

definition REGISTRY_VERSION :: int where "REGISTRY_VERSION = 2"
definition HASH_ALGORITHM :: pystr where "HASH_ALGORITHM = py_lit ''hmac-sha256''"
definition HASH_HEX_LENGTH :: nat where "HASH_HEX_LENGTH = 64"

definition ENVELOPE_REQUIRED_KEYS :: "raw_key list" where
  "ENVELOPE_REQUIRED_KEYS = map (\<lambda>k. KStr (py_lit k)) [''registry_version'', ''hash_algorithm'', ''key_id'', ''agents'']"

definition RECORD_ALLOWED_KEYS :: "raw_key list" where
  "RECORD_ALLOWED_KEYS = map (\<lambda>k. KStr (py_lit k)) [''token_hash'', ''previous_token_hash'', ''previous_token_expires_at'', ''enabled'', ''rate_limit_rps'']"

text \<open>\<open>_reject_duplicate_keys\<close>, the hook \<open>json.loads\<close> calls on the pairs of every object, inner objects first.\<close>

fun reject_duplicate_keys :: "(raw_key \<times> raw) list \<Rightarrow> (raw_key \<times> raw) list \<Rightarrow> (raw_key \<times> raw) list result" where
  "reject_duplicate_keys found [] = Inr found"
| "reject_duplicate_keys found ((k, v) # pairs) =
     (if map_of found k \<noteq> None then Inl ConfigurationError else reject_duplicate_keys (found @ [(k, v)]) pairs)"

fun hooked :: "raw \<Rightarrow> raw result" and hooked_list :: "raw list \<Rightarrow> raw list result" and hooked_pairs :: "(raw_key \<times> raw) list \<Rightarrow> (raw_key \<times> raw) list result" where
  "hooked (RList xs) = bindE (hooked_list xs) (\<lambda>ys. Inr (RList ys))"
| "hooked (RDict es) = bindE (hooked_pairs es) (\<lambda>fs. bindE (reject_duplicate_keys [] fs) (\<lambda>found. Inr (RDict found)))"
| "hooked v = Inr v"
| "hooked_list [] = Inr []"
| "hooked_list (x # xs) = bindE (hooked x) (\<lambda>y. bindE (hooked_list xs) (\<lambda>ys. Inr (y # ys)))"
| "hooked_pairs [] = Inr []"
| "hooked_pairs ((k, x) # es) = bindE (hooked x) (\<lambda>y. bindE (hooked_pairs es) (\<lambda>ys. Inr ((k, y) # ys)))"

text \<open>\<open>bytes.fromhex\<close>: pairs of hexadecimal digits, ASCII white space between them skipped.\<close>

definition hex_digit :: "int \<Rightarrow> int option" where
  "hex_digit c = (if c \<in> {48 .. 57} then Some (c - 48) else if c \<in> {97 .. 102} then Some (c - 87)
     else if c \<in> {65 .. 70} then Some (c - 55) else None)"

fun fromhex :: "pystr \<Rightarrow> pystr option" where
  "fromhex [] = Some []"
| "fromhex [c] = (if c \<in> {9 .. 13} \<union> {32} then Some [] else None)"
| "fromhex (c # d # cs) = (if c \<in> {9 .. 13} \<union> {32} then fromhex (d # cs)
     else (case (hex_digit c, hex_digit d) of
        (Some hi, Some lo) \<Rightarrow> map_option (\<lambda>bs. (16 * hi + lo) # bs) (fromhex cs)
      | _ \<Rightarrow> None))"

definition parse_hash_hex :: "raw \<Rightarrow> pystr result" where
  "parse_hash_hex value = (case value of
      RStr s \<Rightarrow> if length s \<noteq> HASH_HEX_LENGTH then Inl ConfigurationError
                else (case fromhex s of None \<Rightarrow> Inl ConfigurationError | Some bs \<Rightarrow> Inr bs)
    | _ \<Rightarrow> Inl ConfigurationError)"

definition parse_expires_at :: "py_library \<Rightarrow> raw \<Rightarrow> py_datetime result" where
  "parse_expires_at L value = (case value of
      RStr s \<Rightarrow> (case lib_fromisoformat L s of
          None \<Rightarrow> Inl ConfigurationError
        | Some d \<Rightarrow> if dt_offset d = None then Inl ConfigurationError else Inr d)
    | _ \<Rightarrow> Inl ConfigurationError)"

section \<open>Records\<close>

text \<open>The previous hash and its expiry, or neither; dropped when it has expired.\<close>

definition previous_from_document :: "py_library \<Rightarrow> int \<Rightarrow> raw_object \<Rightarrow> pystr \<Rightarrow> (pystr \<times> py_datetime) option result" where
  "previous_from_document L now fs token_hash =
     (case (field fs ''previous_token_hash'', field fs ''previous_token_expires_at'') of
        (None, None) \<Rightarrow> Inr None
      | (Some hash_value, Some expiry) \<Rightarrow>
          bindE (parse_hash_hex hash_value) (\<lambda>previous.
            if previous = token_hash then Inl ConfigurationError
            else bindE (parse_expires_at L expiry) (\<lambda>d.
              Inr (if now * MICROS \<ge> epoch_micros d then None else Some (previous, d))))
      | _ \<Rightarrow> Inl ConfigurationError)"

definition enabled_from_document :: "raw_object \<Rightarrow> bool result" where
  "enabled_from_document fs = (case field fs ''enabled'' of
      None \<Rightarrow> Inr True | Some (RBool b) \<Rightarrow> Inr b | Some _ \<Rightarrow> Inl ConfigurationError)"

definition rate_limit_from_document :: "raw_object \<Rightarrow> int option result" where
  "rate_limit_from_document fs = (case field fs ''rate_limit_rps'' of
      None \<Rightarrow> Inr None
    | Some RNull \<Rightarrow> Inr None
    | Some (RInt n) \<Rightarrow> if n \<le> 0 then Inl ConfigurationError else Inr (Some n)
    | Some _ \<Rightarrow> Inl ConfigurationError)"

definition record_from_document :: "py_library \<Rightarrow> int \<Rightarrow> pystr \<Rightarrow> raw \<Rightarrow> agent_record result" where
  "record_from_document L now agent_id value = (case value of
      RDict fs \<Rightarrow>
        if field fs ''token'' \<noteq> None then Inl ConfigurationError
        else (case field fs ''token_hash'' of
          None \<Rightarrow> Inl ConfigurationError
        | Some hash_value \<Rightarrow>
            bindE (parse_hash_hex hash_value) (\<lambda>token_hash.
            bindE (previous_from_document L now fs token_hash) (\<lambda>previous.
            bindE (enabled_from_document fs) (\<lambda>enabled.
            bindE (rate_limit_from_document fs) (\<lambda>rate_limit_rps.
            bindE (guardE (list_all (\<lambda>(k, v). k \<in> set RECORD_ALLOWED_KEYS) fs) ConfigurationError) (\<lambda>_.
              check_agent_record \<lparr>ag_agent_id = agent_id, ag_token_hash = token_hash, ag_previous_token_hash = map_option fst previous,
                ag_previous_token_expires_at = map_option snd previous, ag_enabled = enabled, ag_rate_limit_rps = rate_limit_rps\<rparr>))))))
    | _ \<Rightarrow> Inl ConfigurationError)"

section \<open>The registry\<close>

definition key_text :: "raw_key \<Rightarrow> pystr" where
  "key_text k = (case k of KStr s \<Rightarrow> s | KOther \<Rightarrow> [])"

definition record_hashes :: "agent_record \<Rightarrow> pystr list" where
  "record_hashes r = ag_token_hash r # (case ag_previous_token_hash r of None \<Rightarrow> [] | Some p \<Rightarrow> [p])"

fun see_hashes :: "pystr \<Rightarrow> pystr list \<Rightarrow> (pystr \<times> pystr) list \<Rightarrow> (pystr \<times> pystr) list result" where
  "see_hashes agent_id [] seen = Inr seen"
| "see_hashes agent_id (hash_value # rest) seen =
     (if map_of seen hash_value \<noteq> None then Inl ConfigurationError else see_hashes agent_id rest ((hash_value, agent_id) # seen))"

fun check_shared_hashes :: "agent_record list \<Rightarrow> (pystr \<times> pystr) list \<Rightarrow> unit result" where
  "check_shared_hashes [] seen = Inr ()"
| "check_shared_hashes (r # records) seen =
     bindE (see_hashes (ag_agent_id r) (record_hashes r) seen) (\<lambda>seen'. check_shared_hashes records seen')"

definition registry_from_records :: "agent_record list \<Rightarrow> agent_registry" where
  "registry_from_records records = fold (\<lambda>r reg. AList.update (ag_agent_id r) r reg) records []"

text \<open>Python's equality of a document value with the version number.\<close>

definition equals_int :: "raw \<Rightarrow> int \<Rightarrow> bool" where
  "equals_int v n = (case v of RInt m \<Rightarrow> m = n | RFloat x \<Rightarrow> fl_integer x = Some n | RBool b \<Rightarrow> (if b then 1 else 0) = n | _ \<Rightarrow> False)"

definition load_agent_registry_document :: "py_library \<Rightarrow> pystr \<Rightarrow> int \<Rightarrow> raw \<Rightarrow> agent_registry result" where
  "load_agent_registry_document L expected_key_id now document = (case document of
      RDict es \<Rightarrow>
        (case field es ''registry_version'' of
           None \<Rightarrow> Inl ConfigurationError
         | Some version \<Rightarrow>
             if \<not> equals_int version REGISTRY_VERSION then Inl ConfigurationError
             else if field es ''hash_algorithm'' \<noteq> Some (RStr HASH_ALGORITHM) then Inl ConfigurationError
             else if field es ''key_id'' \<noteq> Some (RStr expected_key_id) then Inl ConfigurationError
             else (case field es ''agents'' of
                 Some (RDict agents) \<Rightarrow>
                   if \<not> list_all (\<lambda>(k, v). k \<in> set ENVELOPE_REQUIRED_KEYS) es then Inl ConfigurationError
                   else bindE (mapE (\<lambda>(k, fs). record_from_document L now (key_text k) fs) agents) (\<lambda>records.
                        bindE (check_shared_hashes records []) (\<lambda>_. Inr (registry_from_records records)))
               | _ \<Rightarrow> Inl ConfigurationError))
    | _ \<Rightarrow> Inl ConfigurationError)"

text \<open>The file: \<open>None\<close> for one that cannot be read or decoded, and for text \<open>json.loads\<close> refuses.\<close>

definition load_agent_registry_file :: "py_library \<Rightarrow> (pystr \<Rightarrow> raw option) \<Rightarrow> pystr \<Rightarrow> int \<Rightarrow> pystr option \<Rightarrow> agent_registry result" where
  "load_agent_registry_file L json_loads expected_key_id now contents = (case contents of
      None \<Rightarrow> Inl ConfigurationError
    | Some s \<Rightarrow> (case json_loads s of
        None \<Rightarrow> Inl ConfigurationError
      | Some pairs \<Rightarrow> bindE (hooked pairs) (load_agent_registry_document L expected_key_id now)))"

section \<open>Lemmas\<close>

lemma see_hashes_ok:
  "see_hashes a hs seen = Inr seen' \<Longrightarrow> distinct hs \<and> set hs \<inter> fst ` set seen = {} \<and> fst ` set seen' = set hs \<union> fst ` set seen"
  by (induction a hs seen rule: see_hashes.induct) (auto simp: map_of_eq_None_iff split: if_splits)

lemma check_shared_ok:
  "check_shared_hashes records seen = Inr () \<Longrightarrow>
   distinct (concat (map record_hashes records)) \<and> set (concat (map record_hashes records)) \<inter> fst ` set seen = {}"
proof (induction records arbitrary: seen)
  case (Cons r records)
  then obtain seen' where "see_hashes (ag_agent_id r) (record_hashes r) seen = Inr seen'" "check_shared_hashes records seen' = Inr ()"
    by (auto simp: bindE_eq_Inr)
  from see_hashes_ok[OF this(1)] Cons.IH[OF this(2)] show ?case by auto
qed simp

lemma shared_hash_same_record:
  "distinct (concat (map record_hashes records)) \<Longrightarrow> r1 \<in> set records \<Longrightarrow> r2 \<in> set records \<Longrightarrow>
   x \<in> set (record_hashes r1) \<Longrightarrow> x \<in> set (record_hashes r2) \<Longrightarrow> r1 = r2"
  by (induction records) auto

lemma registry_lookup:
  "map_of (registry_from_records records) agent_id = Some r \<Longrightarrow> r \<in> set records \<and> ag_agent_id r = agent_id"
  unfolding registry_from_records_def
proof (induction records rule: rev_induct)
  case (snoc x records)
  then show ?case by (cases "ag_agent_id x = agent_id") (simp_all add: update_conv')
qed simp

lemma record_ok:
  "record_from_document L now agent_id value = Inr r \<Longrightarrow>
   check_agent_record r = Inr r \<and> ag_agent_id r = agent_id \<and> (\<forall>n. ag_rate_limit_rps r = Some n \<longrightarrow> 0 < n)"
  by (auto simp: record_from_document_def check_agent_record_def rate_limit_from_document_def bindE_eq_Inr
      split: raw.splits option.splits if_splits)

lemma load_document_ok:
  assumes "load_agent_registry_document L key_id now document = Inr reg"
  obtains records where "reg = registry_from_records records" "distinct (concat (map record_hashes records))"
    "\<forall>r \<in> set records. check_agent_record r = Inr r \<and> (\<forall>n. ag_rate_limit_rps r = Some n \<longrightarrow> 0 < n)"
proof -
  obtain agents records where records: "mapE (\<lambda>(k, fs). record_from_document L now (key_text k) fs) agents = Inr records"
    "check_shared_hashes records [] = Inr ()" "reg = registry_from_records records"
    using assms by (auto simp: load_agent_registry_document_def bindE_eq_Inr split: raw.splits option.splits if_splits)
  have "list_all2 (\<lambda>_ r. check_agent_record r = Inr r \<and> (\<forall>n. ag_rate_limit_rps r = Some n \<longrightarrow> 0 < n)) agents records"
    using records(1) unfolding mapE_eq_Inr by (rule list_all2_mono) (auto dest: record_ok)
  then have "\<forall>r \<in> set records. check_agent_record r = Inr r \<and> (\<forall>n. ag_rate_limit_rps r = Some n \<longrightarrow> 0 < n)"
    by (auto simp: list_all2_conv_all_nth in_set_conv_nth)
  then show ?thesis using that records check_shared_ok by blast
qed

lemma token_matches_hash: "token_matches hash_token now r token \<Longrightarrow> hash_token token \<in> set (record_hashes r)"
  by (auto simp: token_matches_def record_hashes_def)

section \<open>Properties\<close>

text \<open>C14: One token, one agent. In a registry loaded from a document, two requests that carry the same
  authorization header and are let in, at whatever times, are the same agent, the one the requests name;
  its record has a positive limit if it has one of its own.\<close>

theorem token_names_one_agent:
  assumes "load_agent_registry_document L key_id t document = Inr reg"
    "presents hash_token reg now1 rq1 r1" "presents hash_token reg now2 rq2 r2" "rq_authorization rq1 = rq_authorization rq2"
  shows "r1 = r2 \<and> rq_agent_id rq1 = Some (ag_agent_id r1) \<and> rq_agent_id rq2 = Some (ag_agent_id r1) \<and>
    (\<forall>n. ag_rate_limit_rps r1 = Some n \<longrightarrow> 0 < n)"
proof -
  obtain records where records: "reg = registry_from_records records" "distinct (concat (map record_hashes records))"
    "\<forall>r \<in> set records. check_agent_record r = Inr r \<and> (\<forall>n. ag_rate_limit_rps r = Some n \<longrightarrow> 0 < n)"
    using load_document_ok[OF assms(1)] .
  obtain id1 id2 token where ids: "rq_agent_id rq1 = Some id1" "rq_agent_id rq2 = Some id2" "map_of reg id1 = Some r1" "map_of reg id2 = Some r2"
    and tok: "token_matches hash_token now1 r1 token" "token_matches hash_token now2 r2 token"
    using assms(2-4) by (auto simp: presents_def)
  have mem: "r1 \<in> set records" "ag_agent_id r1 = id1" "r2 \<in> set records" "ag_agent_id r2 = id2"
    using registry_lookup[of records] ids(3,4) records(1) by blast+
  have "r1 = r2" using shared_hash_same_record[OF records(2) mem(1,3) token_matches_hash[OF tok(1)] token_matches_hash[OF tok(2)]] .
  then show ?thesis using ids(1,2) mem records(3) by blast
qed

lemma fromhex_aa: "fromhex (replicate (2 * n) 97) = Some (replicate n 170)"
  by (induction n) (simp_all add: hex_digit_def)

definition sample_document :: raw where
  "sample_document = RDict [(KStr (py_lit ''registry_version''), RInt 2), (KStr (py_lit ''hash_algorithm''), RStr HASH_ALGORITHM),
     (KStr (py_lit ''key_id''), RStr [49]),
     (KStr (py_lit ''agents''), RDict [(KStr [97], RDict [(KStr (py_lit ''token_hash''), RStr (replicate (2 * 32) 97))])])]"

definition sample_record :: agent_record where
  "sample_record = \<lparr>ag_agent_id = [97], ag_token_hash = replicate 32 170, ag_previous_token_hash = None, ag_previous_token_expires_at = None,
     ag_enabled = True, ag_rate_limit_rps = None\<rparr>"

lemma sample_document_loads: "load_agent_registry_document sample_library [49] 5 sample_document = Inr [([97], sample_record)]"
proof -
  have "parse_hash_hex (RStr (replicate (2 * 32) 97)) = Inr (replicate 32 170)"
    using fromhex_aa[of 32] by (simp add: parse_hash_hex_def HASH_HEX_LENGTH_def)
  then have "record_from_document sample_library 5 [97] (RDict [(KStr (py_lit ''token_hash''), RStr (replicate (2 * 32) 97))]) = Inr sample_record"
    by (simp add: record_from_document_def previous_from_document_def enabled_from_document_def rate_limit_from_document_def field_def py_lit_def
        RECORD_ALLOWED_KEYS_def check_agent_record_def sample_record_def)
  then show ?thesis
    by (simp add: load_agent_registry_document_def sample_document_def field_def py_lit_def equals_int_def REGISTRY_VERSION_def ENVELOPE_REQUIRED_KEYS_def
        key_text_def record_hashes_def registry_from_records_def) (simp add: sample_record_def)
qed

theorem token_names_one_agent_witness:
  "\<exists>reg. load_agent_registry_document sample_library [49] 5 sample_document = Inr reg \<and>
     presents (\<lambda>t. replicate 32 170) reg 100 sample_request sample_record \<and> rq_agent_id sample_request = Some (ag_agent_id sample_record)"
proof -
  have "presents (\<lambda>t. replicate 32 170) [([97], sample_record)] 100 sample_request sample_record"
    by (simp add: presents_def sample_request_def sample_record_def token_matches_def MAX_AGENT_ID_LENGTH_def MAX_TOKEN_LENGTH_def)
  from token_names_one_agent[OF sample_document_loads this this refl] sample_document_loads this show ?thesis by blast
qed

text \<open>Sixty-four blanks pass as a digest, of no bytes: \<open>bytes.fromhex\<close> skips them.\<close>

lemma blank_hash_accepted: "parse_hash_hex (RStr (replicate 64 32)) = Inr []"
proof -
  have "fromhex (replicate n 32) = Some []" for n
    by (induction n rule: induct_nat_012) simp_all
  then show ?thesis by (simp add: parse_hash_hex_def HASH_HEX_LENGTH_def)
qed

end
