(* ===== verification/Spec2Isabelle.thy ===== *)
theory Spec2Isabelle
  imports Trie_Theorems Shard_Window_Theorems Dedup_Correct Bus_Topics Memory_Bus Shard_State_Store Event_Codec_Correct
    Transition_Wire Worker_Runs Trie_Replay Agent_Registry
begin

text \<open>
  A verification of Hammertime, a pipeline that finds the IP addresses and prefixes that send too many
  requests. Agents post batches of request counts to the ingest service; ingest publishes one message per
  IP to the log; the aggregator keeps a sliding window per IP, decides HOT or COLD with hysteresis, records
  every edge durably and announces it on the log; the trie service replays those edges into one trie per
  address family and publishes the statistics of the prefixes above each change. This theory imports the
  development; paths below are relative to \<open>src/\<close>.

  \<^bold>\<open>Conventions.\<close> A Python \<open>int\<close> is an \<open>int\<close>; a float is a \<open>rat\<close> where the code calculates with it (with a
  value apart for the non-finite ones) and a parameter where it is only passed on. A dataclass is a
  \<open>record\<close>, a union a \<open>datatype\<close>, a \<open>dict\<close> whose order matters an association list. An operation that can
  raise returns \<open>py_error + 'a\<close>, one that changes its object returns the new object beside the result, and
  the clock is the argument \<open>now\<close>. A loop whose end is not plain from the code is a
  \<open>partial_function (option)\<close>, where \<open>None\<close> means that it does not return, and the theorems on it say that
  it returns; no fuel is used. Exception messages, logging and metrics are not modelled. The Python library
  (ISO dates, \<open>ipaddress\<close>, SHA-256, \<open>str\<close>) is the record \<open>py_library\<close>, a parameter, with its documented behaviour as
  the hypotheses \<open>library_ok\<close> and \<open>dates_ok\<close>; a small library that satisfies them is evaluated in the witnesses.

  \<^bold>\<open>Shared.\<close> \<open>Hammertime_Prelude\<close>: exceptions, results, stateful actions, Python indexing. \<open>Addressing\<close>:
  addresses, prefixes and bits (\<open>packages/hammertime-core\<close>, \<open>core/addressing\<close>).

  \<^bold>\<open>Trie\<close> (\<open>services/trie\<close>).
  \<^item> \<open>Hot_Trie\<close>: the set-level specification of a trie of HOT addresses and the contract \<open>hot_trie_impl\<close>;
    \<open>Binary_Trie\<close>, \<open>Binary_Trie_Correct\<close>: the reference trie (\<open>structure/binary_trie.py\<close>) and that it keeps
    the contract; \<open>Node_Arena\<close>, \<open>Patricia_Trie\<close> (\<open>structure/arena.py\<close>, \<open>patricia.py\<close>): the path-compressed
    trie in an arena of parallel lists with a free list; \<open>Patricia_Tree\<close>, \<open>Patricia_Queries\<close>,
    \<open>Patricia_Correct\<close>: its representation invariant, that every operation returns, and the contract;
    \<open>Trie_Invariants\<close>, \<open>Trie_Checks\<close> (\<open>structure/invariants.py\<close>): the runtime checks, and that they accept
    exactly the intact tries. \<open>Trie_Theorems\<close> has the consequences: both tries answer alike, and each
    answers from the set of HOT addresses.
  \<^item> \<open>Metadata_Combine\<close>, \<open>Metadata_Store\<close> (\<open>metadata/combine.py\<close>, \<open>local.py\<close>): declared prefix metadata and its
    aggregation; \<open>Attribute_Document\<close> (\<open>core/events/attributes.py\<close>): the bounded read of an attribute document;
    \<open>Ip_Attributes\<close> (\<open>metadata/ip_attributes.py\<close>): records kept in step with the trie.
  \<^item> \<open>Trie_Service\<close> (\<open>state.py\<close>, \<open>publisher.py\<close>, \<open>worker.py\<close>): the service's state, the statistics of an event
    and the worker's handling, start and run; \<open>Trie_Service_Correct\<close>, \<open>Trie_Replay\<close>: its state is a function
    of the log, redelivery and restart included.

  \<^bold>\<open>Core\<close> (\<open>packages/hammertime-core\<close>). \<open>Core_State\<close>: detection configuration and its loading, time buckets, the
  HOT/COLD machine, weights. \<open>Event_Codec\<close>, \<open>Event_Codec_Correct\<close> (\<open>core/events/codec.py\<close>): events and their JSON
  documents; the round trip, and that \<open>decode\<close> raises nothing but \<open>CodecError\<close>.

  \<^bold>\<open>Bus and stores\<close> (\<open>packages/hammertime-bus\<close>, \<open>packages/hammertime-store\<close>). \<open>Bus_Topics\<close>: topics and the partition
  of a key; \<open>Memory_Bus\<close>: the log, its deduplication by message id, consumers and acknowledgements;
  \<open>Dedup_Store\<close>, \<open>Dedup_Correct\<close>: claims of a pair of agent and sequence, with the contract \<open>dedup_store\<close>;
  \<open>Shard_State_Store\<close>: durable HOT sets, sequence numbers and leases, with the contracts
  \<open>shard_state_store\<close> and \<open>reliable_store\<close>.

  \<^bold>\<open>Aggregator\<close> (\<open>services/aggregator\<close>).
  \<^item> \<open>Ip_Counter\<close> (\<open>window/counter.py\<close>): the ring of buckets of one IP; \<open>Shard_Window\<close>, \<open>Shard_Window_Correct\<close>,
    \<open>Shard_Window_Theorems\<close> (\<open>window/store.py\<close>): the window of a shard with its two lazy heaps, as a state
    machine whose reachable states are consistent and whose sweeps end and are exact.
  \<^item> \<open>Transition_Emitter\<close>, \<open>Transition_Correct\<close>, \<open>Transition_Wire\<close> (\<open>transitions.py\<close>, \<open>reevaluate.py\<close>): an edge is
    recorded durably, then published, then applied; window, store and log stay in step and a crash in
    between loses nothing; the event of an edge can always be encoded and decodes to itself.
  \<^item> \<open>Shard_Claims\<close>, \<open>Shard_Claims_Correct\<close> (\<open>sharding/assignment.py\<close>): leases and windows of the shards held, all
    or nothing, with roll-back; \<open>Aggregator_Worker\<close> (\<open>worker.py\<close>), \<open>Window_Frame\<close>, \<open>Quiet_Window\<close>,
    \<open>Aggregator_Correct\<close>, \<open>Message_Handling\<close>, \<open>Worker_Runs\<close>: one message, one outcome; maintenance,
    configuration, commit and stop; the invariant of every run in which other members act in between.

  \<^bold>\<open>Ingest\<close> (\<open>services/ingest\<close>).
  \<^item> \<open>Rate_Limiter\<close> (\<open>ratelimit\<close>, \<open>throttling.py\<close>): token buckets; the budget over any stretch of time, and
    that waiting as advised suffices.
  \<^item> \<open>Ingest\<close> (\<open>auth\<close>, \<open>validation\<close>, \<open>publisher.py\<close>, \<open>api/routes.py\<close>): the whole handler of a posted batch, from the
    credential to the publish, with every refusal; \<open>Ingest_Correct\<close>: effects only behind the gates, an
    accepted batch is on the log as messages the aggregator decodes to the exact totals, a retried batch is
    not applied twice, and the answer does not tell which agents exist.
  \<^item> \<open>Agent_Registry\<close> (\<open>auth/agents.py\<close>): loading the registry; one token is one agent.

  \<^bold>\<open>How the parts meet.\<close> A client relies on a provider through a locale: the trie service and its checks on
  \<open>hot_trie_impl\<close>, \<open>hot_trie_pair\<close>, \<open>hot_trie_stats\<close> and \<open>hot_trie_nodes\<close>; the emitter, the claims and the worker on
  \<open>producer\<close>, \<open>consumer\<close> and \<open>shard_state_store\<close>, joined in \<open>aggregator_io\<close> and \<open>worker_io\<close>; ingest on \<open>dedup_store\<close>.
  Every locale is interpreted on the modelled implementations: both tries, the in-memory bus and the
  in-memory stores. Ingest and aggregator meet in the record \<open>carries\<close> of \<open>Ingest_Correct\<close>, aggregator and trie
  in \<open>edge_reaches_trie\<close> of \<open>Trie_Replay\<close>.

  \<^bold>\<open>Not modelled.\<close> The JetStream transport and the Redis stores are clients of third-party libraries; what the
  services need of them is the contract shown for the in-memory versions. The service runtime, clock,
  telemetry, environment settings, HTTP servers and views, and the wiring of each service are I/O around the
  modelled code. \<open>asyncio\<close> tasks are replaced by explicit sequences of events: an operation is one step, and
  the interleavings considered are those between operations. The JSON Schema validator, the request model
  and the HMAC are parameters. The detector is a placeholder in the source; the command-line tools and the
  test kit are front ends and generators.
\<close>

end
